(* ===== verification/Ptl_Prelude.thy ===== *)
theory Ptl_Prelude
  imports Main "HOL-Library.Word"
begin

unbundle bit_operations_syntax

text \<open>
  Shared vocabulary of the development: the machine-integer types of the code, the
  ways an operation of the library can fail to return, and the generic lemmas on words,
  functions and lists that several components use.

  The library is a header library compiled for 64-bit Linux: \<open>size_t\<close>,
  \<open>uintptr_t\<close> and pointers are 64-bit words, \<open>int\<close> and \<open>unsigned\<close> have 32 bits,
  \<open>char\<close> is signed.
\<close>

type_synonym u8 = "8 word"
type_synonym u16 = "16 word"
type_synonym u32 = "32 word"
type_synonym u64 = "64 word"

text \<open>
  The ways a call of the library does not return normally: a failed \<open>assert\<close>
  (abort), \<open>std::logic_error\<close>, the rethrown payload of an \<open>std::exception_ptr\<close>
  (an exception is identified by a number), an access through a null or dead object,
  undefined behaviour, \<open>std::terminate\<close>.
\<close>

datatype fault =
    Assert_Failed
  | Logic_Error
  | Rethrown nat
  | Bad_Access
  | Undefined_Behaviour
  | Terminated

type_synonym 'a res = "fault + 'a"

fun res_bind :: "'a res \<Rightarrow> ('a \<Rightarrow> 'b res) \<Rightarrow> 'b res" where
  "res_bind (Inl e) f = Inl e"
| "res_bind (Inr x) f = f x"

lemma res_bind_Inr_iff: "res_bind r f = Inr y \<longleftrightarrow> (\<exists>x. r = Inr x \<and> f x = Inr y)"
  by (cases r) auto

lemma res_bind_Inl_iff:
  "res_bind r f = Inl e \<longleftrightarrow> r = Inl e \<or> (\<exists>x. r = Inr x \<and> f x = Inl e)"
  by (cases r) auto

named_theorems word_fields \<open>bit-level equations of packed words\<close>

text \<open>Words: multiplication by an odd constant is injective, shown from its inverse.\<close>

lemma word_mult_inject_inverse:
  fixes p q :: "'a::len word"
  assumes "p * q = 1"
  shows "x * p = y * p \<longleftrightarrow> x = y"
proof
  assume "x * p = y * p"
  then have "x * (p * q) = y * (p * q)"
    by (metis mult.assoc)
  with assms show "x = y" by simp
qed simp

lemma word_xor_left_inject:
  fixes x y z :: "'a::len word"
  shows "z XOR x = z XOR y \<longleftrightarrow> x = y"
proof
  assume "z XOR x = z XOR y"
  then have "z XOR (z XOR x) = z XOR (z XOR y)" by simp
  then show "x = y" by (simp flip: xor.assoc)
qed simp

lemma word_xor_right_inject:
  fixes x y z :: "'a::len word"
  shows "x XOR z = y XOR z \<longleftrightarrow> x = y"
  by (simp add: xor.commute [of _ z] word_xor_left_inject)

lemma even_unat_iff: "even (unat w) \<longleftrightarrow> even w"
  for w :: "'a::len word"
proof -
  have "bit (unat w) 0 = bit w 0" by (simp add: bit_unsigned_iff)
  then show ?thesis by (simp add: bit_0)
qed

end
