(* ===== verification/Fnv_Hash.thy ===== *)
theory Fnv_Hash
  imports Ptl_Prelude
begin

text \<open>
  \<open>include/ptl/hash/fnv1a.hpp\<close>: the constexpr FNV-1a hashes that the intrusive lists
  use to name the binding of a list entry. A C string is the list of the bytes of its
  array; reading past the array (no terminating NUL) is \<open>None\<close>, which a constant
  expression rejects. \<open>uint32_t(str[0])\<close> converts a signed \<open>char\<close>, so it sign-extends.
\<close>

definition val_32_const :: u32 where
  "val_32_const = 0x811c9dc5"

definition prime_32_const :: u32 where
  "prime_32_const = 0x1000193"

definition val_64_const :: u64 where
  "val_64_const = 0xcbf29ce484222325"

definition prime_64_const :: u64 where
  "prime_64_const = 0x100000001b3"

definition char_to_u32 :: "u8 \<Rightarrow> u32" where
  "char_to_u32 c = scast c"

definition char_to_u64 :: "u8 \<Rightarrow> u64" where
  "char_to_u64 c = scast c"

fun fnv1a_32 :: "u8 list \<Rightarrow> u32 \<Rightarrow> u32 option" where
  "fnv1a_32 [] v = None"
| "fnv1a_32 (c # str) v =
     (if c = 0 then Some v
      else fnv1a_32 str ((v XOR char_to_u32 c) * prime_32_const))"

fun fnv1a_64 :: "u8 list \<Rightarrow> u64 \<Rightarrow> u64 option" where
  "fnv1a_64 [] v = None"
| "fnv1a_64 (c # str) v =
     (if c = 0 then Some v
      else fnv1a_64 str ((v XOR char_to_u64 c) * prime_64_const))"

text \<open>The reference: FNV-1a over octets, as a left fold of the characters of the string.\<close>

definition fnv1a_step :: "'a::len word \<Rightarrow> u8 \<Rightarrow> 'a word \<Rightarrow> 'a word" where
  "fnv1a_step p c v = (v XOR ucast c) * p"

definition fnv1a_ref :: "'a::len word \<Rightarrow> u8 list \<Rightarrow> 'a word \<Rightarrow> 'a word" where
  "fnv1a_ref p cs v = fold (fnv1a_step p) cs v"

definition c_string :: "u8 list \<Rightarrow> u8 list" where
  "c_string cs = cs @ [0]"

subsection \<open>Termination at the first NUL, and agreement with the reference\<close>

lemma ascii_sign_extension:
  fixes c :: u8
  assumes "c < 128"
  shows "(scast c :: 'a::len word) = ucast c"
proof (rule bit_word_eqI)
  fix n assume "n < LENGTH('a)"
  from assms have "unat c div 2 ^ 7 = 0" by (simp add: word_less_nat_alt)
  then have "\<not> bit (unat c) 7" by (simp add: bit_iff_odd)
  then have "\<not> bit c 7" by (simp add: bit_unsigned_iff)
  moreover have "n = 7 \<or> n < 7" if "bit c n"
    using bit_imp_le_length [OF that] by auto
  ultimately show "bit (scast c :: 'a word) n \<longleftrightarrow> bit (ucast c :: 'a word) n"
    using \<open>n < LENGTH('a)\<close> by (auto simp: bit_simps min_def not_less)
qed

lemma fnv1a_32_stops_at_nul:
  "0 \<notin> set cs \<Longrightarrow>
    fnv1a_32 (cs @ 0 # rest) v = Some (fold (\<lambda>c v. (v XOR char_to_u32 c) * prime_32_const) cs v)"
  by (induction cs arbitrary: v) auto

lemma fnv1a_64_stops_at_nul:
  "0 \<notin> set cs \<Longrightarrow>
    fnv1a_64 (cs @ 0 # rest) v = Some (fold (\<lambda>c v. (v XOR char_to_u64 c) * prime_64_const) cs v)"
  by (induction cs arbitrary: v) auto


lemma char_to_u32_ascii: "c < 128 \<Longrightarrow> char_to_u32 c = ucast c"
  by (simp add: char_to_u32_def ascii_sign_extension)

lemma char_to_u64_ascii: "c < 128 \<Longrightarrow> char_to_u64 c = ucast c"
  by (simp add: char_to_u64_def ascii_sign_extension)

lemma fold_ascii_cong:
  "(\<And>c. c \<in> set cs \<Longrightarrow> f c = g c) \<Longrightarrow> fold f cs v = fold g cs v"
  by (induction cs arbitrary: v) auto

text \<open>
  On a C string of ASCII characters \<open>fnv1a_32\<close> and \<open>fnv1a_64\<close> return the
  reference FNV-1a hash of the characters before the NUL, whatever follows it.
\<close>

theorem fnv1a_ascii_reference:
  assumes "\<forall>c \<in> set cs. 0 < c \<and> c < 128"
  shows "fnv1a_32 (c_string cs @ rest) v = Some (fnv1a_ref prime_32_const cs v)
       \<and> fnv1a_64 (c_string cs @ rest) w = Some (fnv1a_ref prime_64_const cs w)"
proof -
  from assms have nz: "0 \<notin> set cs" by auto
  have "fold (\<lambda>c v. (v XOR char_to_u32 c) * prime_32_const) cs v
      = fold (fnv1a_step prime_32_const) cs v"
    by (rule fold_ascii_cong)
       (use assms in \<open>auto simp: fnv1a_step_def char_to_u32_ascii fun_eq_iff\<close>)
  moreover have "fold (\<lambda>c v. (v XOR char_to_u64 c) * prime_64_const) cs w
      = fold (fnv1a_step prime_64_const) cs w"
    by (rule fold_ascii_cong)
       (use assms in \<open>auto simp: fnv1a_step_def char_to_u64_ascii fun_eq_iff\<close>)
  ultimately show ?thesis
    by (simp add: c_string_def fnv1a_ref_def fnv1a_32_stops_at_nul [OF nz]
          fnv1a_64_stops_at_nul [OF nz])
qed

text \<open>
  The published test vector for the string "a", and "entry1".
\<close>

theorem fnv1a_ascii_reference_witness:
  "fnv1a_32 [97, 0] val_32_const = Some 0xe40c292c
   \<and> fnv1a_ref prime_32_const [97] val_32_const = 0xe40c292c"
  using fnv1a_ascii_reference [of "[97]" "[]" val_32_const val_64_const]
  by (simp add: c_string_def fnv1a_ref_def fnv1a_step_def val_32_const_def prime_32_const_def)

subsection \<open>One differing character never collides\<close>

text \<open>
  Both primes are odd, so a hash step is invertible: it is injective in the running value
  for a fixed character, and in the character for a fixed running value.
\<close>

definition prime_32_inverse :: u32 where
  "prime_32_inverse = 0x359c449b"

lemma prime_32_invertible: "prime_32_const * prime_32_inverse = 1"
  by (simp add: prime_32_const_def prime_32_inverse_def)

lemma step_32_inject_value:
  "(v XOR c) * prime_32_const = (w XOR c) * prime_32_const \<longleftrightarrow> v = w"
  by (simp add: word_mult_inject_inverse [OF prime_32_invertible] word_xor_right_inject)

lemma char_to_u32_inject: "char_to_u32 c = char_to_u32 d \<longleftrightarrow> c = d"
proof
  assume eq: "char_to_u32 c = char_to_u32 d"
  show "c = d"
  proof (rule bit_word_eqI)
    fix n assume n: "n < LENGTH(8)"
    from eq have "bit (char_to_u32 c) n \<longleftrightarrow> bit (char_to_u32 d) n" by simp
    with n show "bit c n \<longleftrightarrow> bit d n"
      by (simp add: char_to_u32_def bit_simps)
  qed
qed simp

lemma step_32_inject_char:
  "(v XOR char_to_u32 c) * prime_32_const = (v XOR char_to_u32 d) * prime_32_const \<longleftrightarrow> c = d"
  by (simp add: word_mult_inject_inverse [OF prime_32_invertible] word_xor_left_inject
        char_to_u32_inject)

lemma fnv1a_32_inject_value:
  "fnv1a_32 str v = Some h \<Longrightarrow> fnv1a_32 str w = Some h \<Longrightarrow> v = w"
proof (induction str arbitrary: v w)
  case (Cons c str)
  show ?case
  proof (cases "c = 0")
    case False
    with Cons.prems have "(v XOR char_to_u32 c) * prime_32_const = (w XOR char_to_u32 c) * prime_32_const"
      by (intro Cons.IH) simp_all
    then show ?thesis by (simp only: step_32_inject_value)
  qed (use Cons.prems in simp)
qed simp

lemma fnv1a_32_append:
  "0 \<notin> set cs \<Longrightarrow>
    fnv1a_32 (cs @ str) v = fnv1a_32 str (fold (\<lambda>c v. (v XOR char_to_u32 c) * prime_32_const) cs v)"
  by (induction cs arbitrary: v) auto

text \<open>
  Two C strings that differ in exactly one character have different 32-bit
  hashes, whatever the seed: the bindings of two list fields whose names differ in one
  character (\<open>entry1\<close>, \<open>entry2\<close>) never share an identifier.
\<close>

theorem fnv1a_32_one_char:
  assumes "0 \<notin> set pre" and "a \<noteq> 0" and "b \<noteq> 0" and "a \<noteq> b"
    and "fnv1a_32 (pre @ a # post) v = Some h"
    and "fnv1a_32 (pre @ b # post) v = Some k"
  shows "h \<noteq> k"
proof
  assume "h = k"
  let ?v = "fold (\<lambda>c v. (v XOR char_to_u32 c) * prime_32_const) pre v"
  from assms \<open>h = k\<close>
  have "(?v XOR char_to_u32 a) * prime_32_const = (?v XOR char_to_u32 b) * prime_32_const"
    by (intro fnv1a_32_inject_value [of post _ h]) (simp_all add: fnv1a_32_append)
  with assms(4) show False by (simp only: step_32_inject_char)
qed

theorem fnv1a_32_one_char_witness:
  "fnv1a_32 ([101, 49] @ [0]) val_32_const \<noteq> fnv1a_32 ([101, 50] @ [0]) val_32_const"
  using fnv1a_32_one_char [of "[101]" 49 50 "[0]" val_32_const]
  by simp

end
