(* ===== verification/Checked_Int.thy ===== *)
theory Checked_Int
  imports Ptl_Prelude "HOL-Library.Signed_Division"
begin

text \<open>
  \<open>include/ptl/type_safe/detail/integer_checking.hpp\<close> and
  \<open>include/ptl/type_safe/integer.hpp\<close>: the predicates that say when an arithmetic operation
  on a built-in integer type has no defined result, and the wrapper \<open>integer<TYPE>\<close> that
  admits only value-preserving conversions.

  The values of an integer type are the mathematical integers of its range; the arithmetic
  of C++ is written out: operands narrower than \<open>int\<close> are promoted to \<open>int\<close>, signed results
  outside the range of the promoted type are undefined (\<open>None\<close>), unsigned results wrap.
\<close>

record int_type =
  it_bits :: nat
  it_signed :: bool

definition int32 :: int_type where
  "int32 = \<lparr>it_bits = 32, it_signed = True\<rparr>"

definition tmin :: "int_type \<Rightarrow> int" where
  "tmin T = (if it_signed T then - (2 ^ (it_bits T - 1)) else 0)"

definition tmax :: "int_type \<Rightarrow> int" where
  "tmax T = (if it_signed T then 2 ^ (it_bits T - 1) - 1 else 2 ^ it_bits T - 1)"

definition representable :: "int_type \<Rightarrow> int \<Rightarrow> bool" where
  "representable T v \<longleftrightarrow> tmin T \<le> v \<and> v \<le> tmax T"

definition promoted :: "int_type \<Rightarrow> int_type" where
  "promoted T = (if it_bits T < 32 then int32 else T)"

definition convert_to :: "int_type \<Rightarrow> int \<Rightarrow> int" where
  "convert_to T v = (if it_signed T then signed_take_bit (it_bits T - 1) v
                     else take_bit (it_bits T) v)"

definition arith_result :: "int_type \<Rightarrow> int \<Rightarrow> int option" where
  "arith_result P v =
     (if it_signed P then (if representable P v then Some v else None)
      else Some (take_bit (it_bits P) v))"

definition arith_div :: "int_type \<Rightarrow> int \<Rightarrow> int \<Rightarrow> int option" where
  "arith_div P a b = (if b = 0 then None else arith_result P (a sdiv b))"

subsection \<open>The operations: \<open>default_arithmetic_checks\<close> and \<open>ub_arithmetic_checks\<close>\<close>

definition addition :: "int_type \<Rightarrow> int \<Rightarrow> int \<Rightarrow> int option" where
  "addition T a b = map_option (convert_to T) (arith_result (promoted T) (a + b))"

definition subtraction :: "int_type \<Rightarrow> int \<Rightarrow> int \<Rightarrow> int option" where
  "subtraction T a b = map_option (convert_to T) (arith_result (promoted T) (a - b))"

definition multiplication :: "int_type \<Rightarrow> int \<Rightarrow> int \<Rightarrow> int option" where
  "multiplication T a b = map_option (convert_to T) (arith_result (promoted T) (a * b))"

definition division :: "int_type \<Rightarrow> int \<Rightarrow> int \<Rightarrow> int option" where
  "division T a b = map_option (convert_to T) (arith_div (promoted T) a b)"

definition modulo_op :: "int_type \<Rightarrow> int \<Rightarrow> int \<Rightarrow> int option" where
  "modulo_op T a b =
     (case arith_div (promoted T) a b of
        None \<Rightarrow> None
      | Some _ \<Rightarrow> map_option (convert_to T) (arith_result (promoted T) (a smod b)))"

text \<open>
  \<open>ub_arithmetic_checks\<close> is a second policy with the name of the checks; its operations are
  translated on their own and compared with the default policy below.
\<close>

definition ub_addition :: "int_type \<Rightarrow> int \<Rightarrow> int \<Rightarrow> int option" where
  "ub_addition T a b = map_option (convert_to T) (arith_result (promoted T) (a + b))"

definition ub_subtraction :: "int_type \<Rightarrow> int \<Rightarrow> int \<Rightarrow> int option" where
  "ub_subtraction T a b = map_option (convert_to T) (arith_result (promoted T) (a - b))"

definition ub_multiplication :: "int_type \<Rightarrow> int \<Rightarrow> int \<Rightarrow> int option" where
  "ub_multiplication T a b = map_option (convert_to T) (arith_result (promoted T) (a * b))"

definition ub_division :: "int_type \<Rightarrow> int \<Rightarrow> int \<Rightarrow> int option" where
  "ub_division T a b = map_option (convert_to T) (arith_div (promoted T) a b)"

definition ub_modulo :: "int_type \<Rightarrow> int \<Rightarrow> int \<Rightarrow> int option" where
  "ub_modulo T a b =
     (case arith_div (promoted T) a b of
        None \<Rightarrow> None
      | Some _ \<Rightarrow> map_option (convert_to T) (arith_result (promoted T) (a smod b)))"

subsection \<open>The checks\<close>

text \<open>
  \<open>None\<close> would be a check that is itself undefined. The overloads are selected by a tag;
  the alias \<open>integer_tag\<close> names \<open>std::conditional::value\<close>, which does not exist, so a caller
  passes the tag itself. The signed subtraction check names \<open>max\<close> and \<open>min\<close> without calling
  them and cannot be instantiated; it is not modelled.
\<close>

definition is_addition_undefined_signed :: "int_type \<Rightarrow> int \<Rightarrow> int \<Rightarrow> bool option" where
  "is_addition_undefined_signed T a b =
     (if b < 0 then map_option (\<lambda>d. a < d) (arith_result (promoted T) (tmin T - b))
      else map_option (\<lambda>d. a > d) (arith_result (promoted T) (tmax T - b)))"

definition is_addition_undefined_unsigned :: "int_type \<Rightarrow> int \<Rightarrow> int \<Rightarrow> bool option" where
  "is_addition_undefined_unsigned T a b =
     map_option (\<lambda>d. a > d) (arith_result (promoted T) (tmax T - b))"

definition is_subtraction_undefined_unsigned :: "int_type \<Rightarrow> int \<Rightarrow> int \<Rightarrow> bool option" where
  "is_subtraction_undefined_unsigned T a b = Some (a < b)"

definition is_multiplcation_undefined_signed :: "int_type \<Rightarrow> int \<Rightarrow> int \<Rightarrow> bool option" where
  "is_multiplcation_undefined_signed T a b =
     (if a \<le> 0 then
        (if b \<le> 0 then
           (if a \<noteq> 0 then map_option (\<lambda>q. b < q) (arith_div (promoted T) (tmax T) a)
            else Some False)
         else map_option (\<lambda>q. a < q) (arith_div (promoted T) (tmin T) b))
      else
        (if b \<le> 0 then map_option (\<lambda>q. b < q) (arith_div (promoted T) (tmin T) a)
         else map_option (\<lambda>q. a > q) (arith_div (promoted T) (tmax T) b)))"

definition is_multiplcation_undefined_unsigned :: "int_type \<Rightarrow> int \<Rightarrow> int \<Rightarrow> bool option" where
  "is_multiplcation_undefined_unsigned T a b =
     (if b \<noteq> 0 then map_option (\<lambda>q. a > q) (arith_div (promoted T) (tmax T) b)
      else Some False)"

definition is_division_undefined_signed :: "int_type \<Rightarrow> int \<Rightarrow> int \<Rightarrow> bool option" where
  "is_division_undefined_signed T a b = Some (b = 0 \<or> (b = -1 \<and> a = tmin T))"

definition is_division_undefined_unsigned :: "int_type \<Rightarrow> int \<Rightarrow> int \<Rightarrow> bool option" where
  "is_division_undefined_unsigned T a b = Some (b = 0)"

definition is_modulo_undefined_signed :: "int_type \<Rightarrow> int \<Rightarrow> int \<Rightarrow> bool option" where
  "is_modulo_undefined_signed T a b = Some (b = 0)"

definition is_modulo_undefined_unsigned :: "int_type \<Rightarrow> int \<Rightarrow> int \<Rightarrow> bool option" where
  "is_modulo_undefined_unsigned T a b = Some (b = 0)"

subsection \<open>Ranges\<close>

definition int_type_wf :: "int_type \<Rightarrow> bool" where
  "int_type_wf T \<longleftrightarrow> 8 \<le> it_bits T"

lemma two_power_pos [simp]: "(0::int) < 2 ^ n" by simp

lemma tmin_le_0 [simp]: "tmin T \<le> 0"
  by (simp add: tmin_def)

lemma tmax_ge_0 [simp]: "0 \<le> tmax T"
  by (simp add: tmax_def)

lemma tmin_le_tmax [simp]: "tmin T \<le> tmax T"
  by (rule order_trans [OF tmin_le_0 tmax_ge_0])

lemma tmin_signed: "it_signed T \<Longrightarrow> tmin T = - tmax T - 1"
  by (simp add: tmin_def tmax_def)

lemma tmin_unsigned: "\<not> it_signed T \<Longrightarrow> tmin T = 0"
  by (simp add: tmin_def)

lemma representable_promoted:
  assumes "representable T v"
  shows "representable (promoted T) v"
proof (cases "it_bits T < 32")
  case True
  then have "(2::int) ^ it_bits T \<le> 2 ^ 31" and "(2::int) ^ (it_bits T - 1) \<le> 2 ^ 31"
    by (intro power_increasing; simp)+
  with assms True show ?thesis
    by (auto simp: representable_def promoted_def int32_def tmin_def tmax_def split: if_splits)
qed (use assms in \<open>simp add: promoted_def\<close>)

lemma convert_to_representable:
  assumes "int_type_wf T" and "representable T v"
  shows "convert_to T v = v"
proof (cases "it_signed T")
  case True
  with assms have "- (2 ^ (it_bits T - 1)) \<le> v" and "v < 2 ^ (it_bits T - 1)"
    by (auto simp: representable_def tmin_def tmax_def)
  with True show ?thesis
    by (simp add: convert_to_def signed_take_bit_int_eq_self)
next
  case False
  with assms have "0 \<le> v" and "v < 2 ^ it_bits T"
    by (auto simp: representable_def tmin_def tmax_def)
  with False show ?thesis
    by (simp add: convert_to_def take_bit_int_eq_self)
qed

lemma arith_result_representable:
  assumes "representable P v"
  shows "arith_result P v = Some v"
  using assms
  by (auto simp: arith_result_def representable_def tmin_def tmax_def take_bit_int_eq_self)

lemma arith_result_promoted [simp]:
  "representable T v \<Longrightarrow> arith_result (promoted T) v = Some v"
  by (intro arith_result_representable representable_promoted)

subsection \<open>Truncating division\<close>

lemma sdiv_pos_pos: "0 \<le> x \<Longrightarrow> 0 < y \<Longrightarrow> x sdiv y = x div (y::int)"
  by (cases "x = 0") (simp_all add: signed_divide_int_def sgn_if)

lemma div_less_iff_mult:
  fixes m q a :: int
  assumes "0 < q"
  shows "m div q < a \<longleftrightarrow> m < a * q"
proof
  assume "m div q < a"
  then have "(m div q + 1) * q \<le> a * q" using assms by (intro mult_right_mono) auto
  moreover have "m < (m div q + 1) * q"
    using assms by (metis distrib_right mult_1 add_strict_left_mono div_mult_mod_eq pos_mod_bound)
  ultimately show "m < a * q" by linarith
next
  assume m: "m < a * q"
  show "m div q < a"
  proof (rule ccontr)
    assume "\<not> m div q < a"
    then have "a * q \<le> (m div q) * q" using assms by (intro mult_right_mono) auto
    also have "(m div q) * q \<le> m" using assms by (simp add: minus_mod_eq_div_mult [symmetric])
    finally show False using m by simp
  qed
qed

lemma abs_sdiv: "\<bar>a sdiv b\<bar> = \<bar>a :: int\<bar> div \<bar>b\<bar>"
proof (cases "a = 0 \<or> b = 0")
  case False
  then have "0 \<le> \<bar>a\<bar> div \<bar>b\<bar>" by (simp add: pos_imp_zdiv_nonneg_iff)
  with False show ?thesis
    by (simp only: signed_divide_int_def abs_mult abs_sgn_eq) simp
qed (auto simp: signed_divide_int_def)

lemma abs_sdiv_le: "\<bar>a sdiv b\<bar> \<le> \<bar>a :: int\<bar>"
  using sdiv_int_range [of a b] by auto

lemma sdiv_representable:
  assumes "representable T a" and "b \<noteq> 0" and "\<not> (b = -1 \<and> a = tmin T)"
    and "it_signed T \<or> 0 \<le> b"
  shows "representable T (a sdiv b)"
proof (cases "it_signed T")
  case True
  show ?thesis
  proof (cases "a = tmin T")
    case False
    with assms(1) True have "\<bar>a\<bar> \<le> tmax T"
      by (auto simp: representable_def tmin_signed)
    with abs_sdiv_le [of a b] have "\<bar>a sdiv b\<bar> \<le> tmax T" by linarith
    with True show ?thesis by (auto simp: representable_def tmin_signed)
  next
    case a: True
    show ?thesis
    proof (cases "b = 1")
      case True
      with assms(1) show ?thesis by (auto simp: signed_divide_int_def sgn_if)
    next
      case False
      with assms a have b: "2 \<le> \<bar>b\<bar>" by auto
      have "\<bar>a sdiv b\<bar> = \<bar>a\<bar> div \<bar>b\<bar>"
        by (rule abs_sdiv)
      also have "\<dots> \<le> \<bar>a\<bar> div 2" using b by (intro zdiv_mono2) auto
      also have "\<bar>a\<bar> = tmax T + 1"
        using a tmin_signed [OF True] tmax_ge_0 [of T] by linarith
      also have "(tmax T + 1) div 2 \<le> tmax T" using b tmax_ge_0 [of T] by presburger
      finally show ?thesis using True by (auto simp: representable_def tmin_signed)
    qed
  qed
next
  case False
  with assms have "0 \<le> a" and "0 < b" by (auto simp: representable_def tmin_unsigned)
  moreover from this have "a div b \<le> a"
    using zdiv_mono2 [of a 1 b] by simp
  ultimately show ?thesis
    using False assms(1)
    by (simp add: sdiv_pos_pos representable_def tmin_unsigned pos_imp_zdiv_nonneg_iff)
qed

lemma arith_div_promoted:
  assumes "representable T a" and "b \<noteq> 0" and "\<not> (b = -1 \<and> a = tmin T)"
    and "it_signed T \<or> 0 \<le> b"
  shows "arith_div (promoted T) a b = Some (a sdiv b)"
  using assms by (simp add: arith_div_def sdiv_representable)

subsection \<open>The checks are exact\<close>

lemma addition_check_signed:
  assumes "it_signed T" and "representable T a" and "representable T b"
  shows "is_addition_undefined_signed T a b = Some (\<not> representable T (a + b))"
proof (cases "b < 0")
  case True
  with assms have "representable T (tmin T - b)" by (auto simp: representable_def tmin_signed)
  with True assms show ?thesis
    by (auto simp: is_addition_undefined_signed_def representable_def)
next
  case False
  with assms have "representable T (tmax T - b)" by (auto simp: representable_def tmin_signed)
  with False assms show ?thesis
    by (auto simp: is_addition_undefined_signed_def representable_def)
qed

lemma addition_check_unsigned:
  assumes "\<not> it_signed T" and "representable T a" and "representable T b"
  shows "is_addition_undefined_unsigned T a b = Some (\<not> representable T (a + b))"
proof -
  from assms have "representable T (tmax T - b)"
    by (auto simp: representable_def tmin_unsigned)
  with assms show ?thesis
    by (auto simp: is_addition_undefined_unsigned_def representable_def tmin_unsigned)
qed

lemma subtraction_check_unsigned:
  assumes "\<not> it_signed T" and "representable T a" and "representable T b"
  shows "is_subtraction_undefined_unsigned T a b = Some (\<not> representable T (a - b))"
  using assms by (auto simp: is_subtraction_undefined_unsigned_def representable_def tmin_unsigned)

lemma multiplication_check_signed:
  assumes "it_signed T" and "representable T a" and "representable T b"
  shows "is_multiplcation_undefined_signed T a b = Some (\<not> representable T (a * b))"
proof -
  let ?M = "tmax T"
  have min: "tmin T = - (?M + 1)" using assms(1) by (simp add: tmin_signed)
  have M: "0 \<le> ?M" by simp
  have rep: "representable T ?M" "representable T (tmin T)"
    using tmin_le_0 [of T] M by (simp_all add: representable_def)
  have div_max: "q \<noteq> 0 \<Longrightarrow> arith_div (promoted T) ?M q = Some (?M sdiv q)" for q
  proof -
    have "?M \<noteq> tmin T" using M min by linarith
    then show "q \<noteq> 0 \<Longrightarrow> ?thesis" using rep(1) assms(1) by (intro arith_div_promoted) auto
  qed
  have div_min: "0 < q \<Longrightarrow> arith_div (promoted T) (tmin T) q = Some (tmin T sdiv q)" for q
    using rep(2) assms(1) by (intro arith_div_promoted) auto
  have gt: "0 < q \<Longrightarrow> ?M sdiv q < x \<longleftrightarrow> ?M < x * q" for q x
    by (simp add: sdiv_pos_pos div_less_iff_mult M)
  have gt': "q < 0 \<Longrightarrow> x < ?M sdiv q \<longleftrightarrow> ?M < x * q" for q x
  proof -
    assume q: "q < 0"
    then have "?M sdiv q = - (?M div - q)"
      using sdiv_minus_eq [of ?M "- q"] sdiv_pos_pos [of ?M "- q"] by simp
    then show ?thesis
      using div_less_iff_mult [of "- q" ?M "- x"] q by (auto simp: less_minus_iff)
  qed
  have lt: "0 < q \<Longrightarrow> x < tmin T sdiv q \<longleftrightarrow> x * q < tmin T" for q x
    using minus_sdiv_eq [of "?M + 1" q] div_less_iff_mult [of q "?M + 1" "- x"] M min
    by (auto simp: sdiv_pos_pos mult.commute)
  show ?thesis
  proof (cases "a \<le> 0")
    case a: True
    show ?thesis
    proof (cases "b \<le> 0")
      case True
      with a have "0 \<le> a * b" by (simp add: mult_nonpos_nonpos)
      then have "tmin T \<le> a * b" using order_trans [OF tmin_le_0] by blast
      with a True show ?thesis
        by (auto simp: is_multiplcation_undefined_signed_def representable_def div_max gt'
              mult.commute [of b a])
    next
      case False
      with a have "a * b \<le> 0" by (simp add: mult_nonpos_nonneg)
      then have "a * b \<le> tmax T" using order_trans [OF _ tmax_ge_0] by blast
      with a False show ?thesis
        by (auto simp: is_multiplcation_undefined_signed_def representable_def div_min lt)
    qed
  next
    case a: False
    show ?thesis
    proof (cases "b \<le> 0")
      case True
      with a have "a * b \<le> 0" by (simp add: mult_nonneg_nonpos)
      then have "a * b \<le> tmax T" using order_trans [OF _ tmax_ge_0] by blast
      with a True show ?thesis
        by (auto simp: is_multiplcation_undefined_signed_def representable_def div_min lt
              mult.commute)
    next
      case False
      with a have "0 \<le> a * b" by simp
      then have "tmin T \<le> a * b" using order_trans [OF tmin_le_0] by blast
      with a False show ?thesis
        by (auto simp: is_multiplcation_undefined_signed_def representable_def div_max gt)
    qed
  qed
qed

lemma multiplication_check_unsigned:
  assumes "\<not> it_signed T" and "representable T a" and "representable T b"
  shows "is_multiplcation_undefined_unsigned T a b = Some (\<not> representable T (a * b))"
proof (cases "b = 0")
  case False
  with assms have b: "0 < b" and a: "0 \<le> a" by (auto simp: representable_def tmin_unsigned)
  have "arith_div (promoted T) (tmax T) b = Some (tmax T sdiv b)"
    using assms b by (intro arith_div_promoted) (auto simp: representable_def)
  with assms a b show ?thesis
    by (auto simp: is_multiplcation_undefined_unsigned_def representable_def tmin_unsigned
          sdiv_pos_pos div_less_iff_mult not_le)
qed (use assms in \<open>simp add: is_multiplcation_undefined_unsigned_def representable_def
       tmin_unsigned\<close>)

lemma division_check_signed:
  assumes "it_signed T" and "representable T a" and "representable T b"
  shows "is_division_undefined_signed T a b
           = Some (b = 0 \<or> \<not> representable T (a sdiv b))"
proof (cases "b = 0 \<or> b = -1 \<and> a = tmin T")
  case True
  have "\<not> representable T (tmin T sdiv - 1)"
    using assms(1) by (simp add: representable_def tmin_signed signed_divide_int_def sgn_if)
  with True show ?thesis by (auto simp: is_division_undefined_signed_def)
next
  case False
  with assms sdiv_representable [of T a b] show ?thesis
    by (auto simp: is_division_undefined_signed_def)
qed

lemma division_check_unsigned:
  assumes "\<not> it_signed T" and "representable T a" and "representable T b"
  shows "is_division_undefined_unsigned T a b
           = Some (b = 0 \<or> \<not> representable T (a sdiv b))"
  using assms sdiv_representable [of T a b]
  by (auto simp: is_division_undefined_unsigned_def representable_def tmin_unsigned)

text \<open>
  The policy named after the checks does not use them: it returns what the default policy
  returns, also where a check holds.
\<close>

lemma ub_policy_is_unchecked:
  "ub_addition = addition" "ub_subtraction = subtraction" "ub_multiplication = multiplication"
  "ub_division = division" "ub_modulo = modulo_op"
  by (simp_all add: fun_eq_iff ub_addition_def addition_def ub_subtraction_def subtraction_def
      ub_multiplication_def multiplication_def ub_division_def division_def ub_modulo_def modulo_op_def)

text \<open>
  On an unsigned type the addition, subtraction, multiplication and division
  checks are true exactly when the mathematical result leaves the type (where the operation
  would wrap), and when one is false the operation returns the mathematical result.
\<close>

theorem unsigned_checks_exact:
  assumes "int_type_wf T" and "\<not> it_signed T" and "representable T a" and "representable T b"
  shows "is_addition_undefined_unsigned T a b = Some (\<not> representable T (a + b))
       \<and> is_subtraction_undefined_unsigned T a b = Some (\<not> representable T (a - b))
       \<and> is_multiplcation_undefined_unsigned T a b = Some (\<not> representable T (a * b))
       \<and> is_division_undefined_unsigned T a b = Some (b = 0 \<or> \<not> representable T (a sdiv b))
       \<and> (representable T (a + b) \<longrightarrow> addition T a b = Some (a + b))
       \<and> (representable T (a - b) \<longrightarrow> subtraction T a b = Some (a - b))
       \<and> (representable T (a * b) \<longrightarrow> multiplication T a b = Some (a * b))"
  using assms
  by (simp add: addition_check_unsigned subtraction_check_unsigned multiplication_check_unsigned
      division_check_unsigned addition_def subtraction_def multiplication_def convert_to_representable)

theorem unsigned_checks_exact_witness:
  "is_addition_undefined_unsigned \<lparr>it_bits = 8, it_signed = False\<rparr> 200 100 = Some True
   \<and> subtraction \<lparr>it_bits = 8, it_signed = False\<rparr> 200 100 = Some 100"
proof -
  let ?T = "\<lparr>it_bits = 8, it_signed = False\<rparr>"
  have h: "int_type_wf ?T" "\<not> it_signed ?T" "representable ?T 200" "representable ?T 100"
    by (simp_all add: int_type_wf_def representable_def tmin_def tmax_def)
  show ?thesis
    using unsigned_checks_exact [OF h]
    by (simp add: representable_def tmin_def tmax_def)
qed

subsection \<open>The modulo check\<close>

lemma smod_representable:
  assumes "representable T a" and "representable T b" and "b \<noteq> 0"
  shows "representable T (a smod b)"
proof (cases "it_signed T")
  case True
  with assms smod_int_range [OF assms(3), of a] show ?thesis
    by (auto simp: representable_def tmin_signed abs_if split: if_splits)
next
  case False
  with assms have "0 \<le> a" and "0 < b" by (auto simp: representable_def tmin_unsigned)
  with smod_int_compares(1,2) [of a b] assms(2) False show ?thesis
    by (auto simp: representable_def tmin_unsigned)
qed

lemma modulo_op_None_iff:
  assumes "representable T a" and "representable T b"
  shows "modulo_op T a b = None \<longleftrightarrow> arith_div (promoted T) a b = None"
  using assms smod_representable [of T a b]
  by (auto simp: modulo_op_def arith_div_def split: option.splits)

lemma modulo_check_unsigned:
  assumes "\<not> it_signed T" and "representable T a" and "representable T b"
  shows "is_modulo_undefined_unsigned T a b = Some (modulo_op T a b = None)"
proof (cases "b = 0")
  case False
  with assms have "arith_div (promoted T) a b = Some (a sdiv b)"
    by (intro arith_div_promoted) (auto simp: representable_def tmin_unsigned)
  with False show ?thesis
    by (simp add: modulo_op_None_iff [OF assms(2,3)] is_modulo_undefined_unsigned_def)
qed (use modulo_op_None_iff [OF assms(2,3)] in
      \<open>simp add: is_modulo_undefined_unsigned_def arith_div_def\<close>)

lemma min_div_minus_one:
  assumes "it_signed T"
  shows "arith_div (promoted T) (tmin T) (-1) = None \<longleftrightarrow> 32 \<le> it_bits T"
proof (cases "it_bits T < 32")
  case True
  then have "(2::int) ^ (it_bits T - 1) \<le> 2 ^ 30" by (intro power_increasing) auto
  with True assms show ?thesis
    by (auto simp: arith_div_def arith_result_def promoted_def int32_def representable_def
        tmin_def tmax_def intro: order_trans [of _ "0::int"])
next
  case False
  with assms show ?thesis
    by (simp add: arith_div_def arith_result_def promoted_def representable_def tmin_def tmax_def)
qed

text \<open>
  On a signed type the modulo check is true only where the remainder is
  undefined, but it misses one pair of operands of every type at least as wide as \<open>int\<close>:
  the smallest value modulo \<open>-1\<close>, whose quotient does not exist, so that the remainder is
  undefined although \<open>is_modulo_undefined\<close> says false.
\<close>

theorem modulo_check_signed_gap:
  assumes "it_signed T" and "representable T a" and "representable T b"
  shows "modulo_op T a b = None \<longleftrightarrow>
           is_modulo_undefined_signed T a b = Some True
           \<or> 32 \<le> it_bits T \<and> b = -1 \<and> a = tmin T"
proof -
  have "arith_div (promoted T) a b = None \<longleftrightarrow> b = 0 \<or> 32 \<le> it_bits T \<and> b = -1 \<and> a = tmin T"
  proof (cases "b = 0 \<or> b = -1 \<and> a = tmin T")
    case True
    with min_div_minus_one [OF assms(1)] show ?thesis by (auto simp: arith_div_def)
  next
    case False
    with assms(1,2) have "arith_div (promoted T) a b = Some (a sdiv b)"
      by (intro arith_div_promoted) auto
    with False show ?thesis by simp
  qed
  then show ?thesis
    by (simp add: modulo_op_None_iff [OF assms(2,3)] is_modulo_undefined_signed_def)
qed

theorem modulo_check_signed_gap_witness:
  "modulo_op int32 (-2147483648) (-1) = None
   \<and> is_modulo_undefined_signed int32 (-2147483648) (-1) = Some False"
proof -
  have h: "it_signed int32" "representable int32 (-2147483648)" "representable int32 (-1)"
    by (simp_all add: int32_def representable_def tmin_def tmax_def)
  show ?thesis
    using modulo_check_signed_gap [OF h]
    by (simp add: is_modulo_undefined_signed_def int32_def tmin_def)
qed

subsection \<open>The signed checks and undefined behaviour\<close>

text \<open>From the width of \<open>int\<close> on, an operation is undefined where its result is no value of the type.\<close>

lemma wide_undefined_iff:
  assumes "it_signed T" and "32 \<le> it_bits T"
  shows "addition T a b = None \<longleftrightarrow> \<not> representable T (a + b)"
    and "multiplication T a b = None \<longleftrightarrow> \<not> representable T (a * b)"
    and "division T a b = None \<longleftrightarrow> b = 0 \<or> \<not> representable T (a sdiv b)"
  using assms
  by (auto simp: addition_def multiplication_def division_def arith_div_def arith_result_def promoted_def)

text \<open>Narrower operands are promoted to \<open>int\<close>, which has room for their sums, products and quotients.\<close>

lemma narrow_range:
  assumes "it_signed T" and "it_bits T \<le> 16" and "representable T v"
  shows "\<bar>v\<bar> \<le> 2 ^ 15"
proof -
  have "(2::int) ^ (it_bits T - 1) \<le> 2 ^ 15" using assms(2) by (intro power_increasing) auto
  then show ?thesis using assms(1,3) by (auto simp: representable_def tmin_def tmax_def)
qed

lemma narrow_defined:
  assumes "it_signed T" and "it_bits T \<le> 16" and "representable T a" and "representable T b"
  shows "addition T a b \<noteq> None" and "multiplication T a b \<noteq> None"
    and "division T a b = None \<longleftrightarrow> b = 0"
proof -
  have r: "\<bar>a\<bar> \<le> 2 ^ 15" "\<bar>b\<bar> \<le> 2 ^ 15" using narrow_range [OF assms(1,2)] assms(3,4) by simp_all
  have P: "promoted T = int32" using assms(2) by (simp add: promoted_def)
  have int: "arith_result int32 v = Some v" if "\<bar>v\<bar> \<le> 2 ^ 30" for v
    using that by (intro arith_result_representable) (auto simp: representable_def int32_def tmin_def tmax_def)
  have "\<bar>a + b\<bar> \<le> 2 ^ 30" using r by simp
  from int [OF this] show "addition T a b \<noteq> None" by (simp add: addition_def P)
  have "\<bar>a * b\<bar> \<le> 2 ^ 15 * 2 ^ 15" unfolding abs_mult using r by (intro mult_mono) auto
  then show "multiplication T a b \<noteq> None" using int [of "a * b"] by (simp add: multiplication_def P)
  have "\<bar>a sdiv b\<bar> \<le> 2 ^ 30" using abs_sdiv_le [of a b] r(1) by simp
  from int [OF this] show "division T a b = None \<longleftrightarrow> b = 0" by (simp add: division_def arith_div_def P)
qed

lemma modulo_op_value:
  assumes "int_type_wf T" and "representable T a" and "representable T b" and "modulo_op T a b \<noteq> None"
  shows "modulo_op T a b = Some (a smod b)"
proof -
  have "b \<noteq> 0" using assms(4) by (auto simp: modulo_op_def arith_div_def)
  then have "representable T (a smod b)" using assms(2,3) by (rule smod_representable [rotated 2])
  then show ?thesis
    using assms(1,4) by (auto simp: modulo_op_def convert_to_representable split: option.splits)
qed

text \<open>
  C39: on a signed type the addition, multiplication, division and modulo checks are themselves free
  of undefined behaviour. The first three are true exactly when the mathematical result is no value
  of the type. For the types from the width of \<open>int\<close> on that is exactly when the operation is
  undefined; for narrower ones, whose operands are promoted, no sum and no product is undefined and a
  quotient only on division by 0, so there the checks are true more often. Where a check is false the
  operation returns the mathematical result. The modulo check is true only where the remainder is
  undefined; it misses exactly the smallest value modulo \<open>-1\<close> of the types from the width of \<open>int\<close> on,
  and every defined remainder is the mathematical one.
\<close>

theorem signed_checks_exact:
  assumes "int_type_wf T" and "it_signed T" and "representable T a" and "representable T b"
  shows "is_addition_undefined_signed T a b = Some (\<not> representable T (a + b))
       \<and> is_multiplcation_undefined_signed T a b = Some (\<not> representable T (a * b))
       \<and> is_division_undefined_signed T a b = Some (b = 0 \<or> \<not> representable T (a sdiv b))
       \<and> (32 \<le> it_bits T \<longrightarrow>
            is_addition_undefined_signed T a b = Some (addition T a b = None)
            \<and> is_multiplcation_undefined_signed T a b = Some (multiplication T a b = None)
            \<and> is_division_undefined_signed T a b = Some (division T a b = None))
       \<and> (it_bits T \<le> 16 \<longrightarrow>
            addition T a b \<noteq> None \<and> multiplication T a b \<noteq> None \<and> (division T a b = None \<longleftrightarrow> b = 0))
       \<and> (is_addition_undefined_signed T a b = Some False \<longrightarrow> addition T a b = Some (a + b))
       \<and> (is_multiplcation_undefined_signed T a b = Some False
            \<longrightarrow> multiplication T a b = Some (a * b))
       \<and> (is_division_undefined_signed T a b = Some False \<longrightarrow> division T a b = Some (a sdiv b))
       \<and> (modulo_op T a b = None \<longleftrightarrow>
            is_modulo_undefined_signed T a b = Some True \<or> 32 \<le> it_bits T \<and> b = -1 \<and> a = tmin T)
       \<and> (modulo_op T a b \<noteq> None \<longrightarrow> modulo_op T a b = Some (a smod b))"
proof -
  note checks = addition_check_signed [OF assms(2-4)] multiplication_check_signed [OF assms(2-4)]
    division_check_signed [OF assms(2-4)]
  have "(is_addition_undefined_signed T a b = Some False \<longrightarrow> addition T a b = Some (a + b)) \<and>
      (is_multiplcation_undefined_signed T a b = Some False \<longrightarrow> multiplication T a b = Some (a * b)) \<and>
      (is_division_undefined_signed T a b = Some False \<longrightarrow> division T a b = Some (a sdiv b))"
    by (simp add: checks addition_def multiplication_def division_def arith_div_def
        convert_to_representable [OF assms(1)])
  then show ?thesis
    using wide_undefined_iff [OF assms(2)] narrow_defined [OF assms(2) _ assms(3,4)]
      modulo_check_signed_gap [OF assms(2-4)] modulo_op_value [OF assms(1,3,4)]
    by (simp add: checks)
qed

theorem signed_checks_exact_witness:
  "is_addition_undefined_signed int32 2147483647 1 = Some True \<and> addition int32 2147483647 1 = None
   \<and> is_multiplcation_undefined_signed int32 2147483647 1 = Some False
   \<and> multiplication int32 2147483647 1 = Some 2147483647"
proof -
  have h: "int_type_wf int32" "it_signed int32" "representable int32 2147483647"
    "representable int32 1"
    by (simp_all add: int_type_wf_def int32_def representable_def tmin_def tmax_def)
  have b: "32 \<le> it_bits int32" by (simp add: int32_def)
  have r: "\<not> representable int32 (2147483647 + 1)" "representable int32 (2147483647 * 1)"
    by (simp_all add: representable_def int32_def tmin_def tmax_def)
  show ?thesis using signed_checks_exact [OF h] b r by auto
qed

section \<open>\<open>integer<TYPE>\<close>\<close>

text \<open>
  The types a template argument ranges over: \<open>bool\<close> and \<open>char\<close> are integral but are not
  integers of the library, any other integral type is an \<^typ>\<open>int_type\<close>.
\<close>

datatype cpp_type = Bool_T | Char_T | Integral_T int_type | Other_T

fun is_integer :: "cpp_type \<Rightarrow> bool" where
  "is_integer (Integral_T T) = True"
| "is_integer Bool_T = False"
| "is_integer Char_T = False"
| "is_integer Other_T = False"

fun is_safe_integer_conversion :: "cpp_type \<Rightarrow> cpp_type \<Rightarrow> bool" where
  "is_safe_integer_conversion (Integral_T From) (Integral_T To) =
     ((it_bits From \<le> it_bits To \<and> it_signed From = it_signed To)
      \<or> (it_bits From < it_bits To \<and> \<not> it_signed From \<and> it_signed To))"
| "is_safe_integer_conversion From To = (is_integer From \<and> is_integer To)"

text \<open>
  A call of a member: rejected at compile time (a deleted or missing overload), undefined
  at run time, or a result. \<open>integer_from\<close> is each of the four converting constructors and
  assignments; the value of an \<open>integer<TYPE>\<close> is the integer it wraps.
\<close>

datatype 'a cpp_call = Ill_Formed | Undefined | Returns 'a

definition integer_from :: "int_type \<Rightarrow> cpp_type \<Rightarrow> int \<Rightarrow> int cpp_call" where
  "integer_from Ty T v =
     (if is_safe_integer_conversion T (Integral_T Ty) then Returns (convert_to Ty v)
      else Ill_Formed)"

text \<open>
  The assignments replace the wrapped value; \<open>get\<close> and the explicit conversion read it.
\<close>

definition integer_assign :: "int_type \<Rightarrow> cpp_type \<Rightarrow> int \<Rightarrow> int \<Rightarrow> int cpp_call" where
  "integer_assign Ty T v old =
     (if is_safe_integer_conversion T (Integral_T Ty) then Returns (convert_to Ty v)
      else Ill_Formed)"

definition integer_convert :: "int_type \<Rightarrow> int \<Rightarrow> int cpp_call" where
  "integer_convert Ty v = Returns v"

definition integer_assign_integer :: "int_type \<Rightarrow> int_type \<Rightarrow> int \<Rightarrow> int \<Rightarrow> int cpp_call" where
  "integer_assign_integer Ty T v old =
     (if is_safe_integer_conversion (Integral_T T) (Integral_T Ty)
      then (case integer_convert T v of Returns u \<Rightarrow> Returns (convert_to Ty u) | e \<Rightarrow> e)
      else Ill_Formed)"

definition integer_get :: "int_type \<Rightarrow> int \<Rightarrow> int" where
  "integer_get Ty v = v"

definition integer_plus :: "int_type \<Rightarrow> int \<Rightarrow> int cpp_call" where
  "integer_plus Ty v = Returns v"

definition integer_minus :: "int_type \<Rightarrow> int \<Rightarrow> int cpp_call" where
  "integer_minus Ty v =
     (if it_signed Ty then
        (case arith_result (promoted Ty) (- v) of
           None \<Rightarrow> Undefined
         | Some r \<Rightarrow> integer_from Ty (Integral_T (promoted Ty)) r)
      else Ill_Formed)"

lemma two_power_pred_less: "(2::int) ^ a - 1 < 2 ^ b \<longleftrightarrow> a \<le> b"
proof -
  have "(2::int) ^ a - 1 < 2 ^ b \<longleftrightarrow> (2::int) ^ a \<le> 2 ^ b" by linarith
  then show ?thesis by simp
qed

lemma tmax_mono_iff:
  assumes "int_type_wf S" and "int_type_wf T"
  shows "tmax S \<le> tmax T \<longleftrightarrow>
     (if it_signed S \<and> \<not> it_signed T then it_bits S - 1 \<le> it_bits T
      else if \<not> it_signed S \<and> it_signed T then it_bits S < it_bits T
      else it_bits S \<le> it_bits T)"
  using assms by (auto simp: tmax_def int_type_wf_def two_power_pred_less)

lemma tmin_mono_iff:
  assumes "int_type_wf S" and "int_type_wf T"
  shows "tmin T \<le> tmin S \<longleftrightarrow>
     \<not> it_signed S \<or> it_signed T \<and> it_bits S \<le> it_bits T"
  using assms by (auto simp: tmin_def int_type_wf_def not_le)

lemma representable_subset_iff:
  "(\<forall>v. representable S v \<longrightarrow> representable T v) \<longleftrightarrow> tmin T \<le> tmin S \<and> tmax S \<le> tmax T"
proof
  assume "\<forall>v. representable S v \<longrightarrow> representable T v"
  then have "representable T (tmin S)" and "representable T (tmax S)"
    by (simp_all add: representable_def)
  then show "tmin T \<le> tmin S \<and> tmax S \<le> tmax T" by (simp add: representable_def)
qed (auto simp: representable_def)

lemma safe_conversion_iff_subset:
  assumes "int_type_wf From" and "int_type_wf To"
  shows "is_safe_integer_conversion (Integral_T From) (Integral_T To)
           \<longleftrightarrow> (\<forall>v. representable From v \<longrightarrow> representable To v)"
  using assms
  by (auto simp: representable_subset_iff tmin_mono_iff tmax_mono_iff split: if_splits)

text \<open>
  C40: the conversions \<open>integer<To>\<close> admits from a type \<open>From\<close> are exactly those that
  can preserve every value: the trait is true if and only if each value of \<open>From\<close> is a value
  of \<open>To\<close>; an admitted conversion keeps the value and any other one does not compile.
\<close>

theorem safe_conversion_iff_value_preserving:
  assumes "int_type_wf From" and "int_type_wf To"
  shows "is_safe_integer_conversion (Integral_T From) (Integral_T To)
           = (\<forall>v. representable From v \<longrightarrow> representable To v)
       \<and> (\<forall>v. representable From v \<longrightarrow>
            integer_from To (Integral_T From) v =
              (if \<forall>u. representable From u \<longrightarrow> representable To u then Returns v else Ill_Formed))"
  using safe_conversion_iff_subset [OF assms]
  by (auto simp: integer_from_def convert_to_representable [OF assms(2)])

theorem safe_conversion_iff_value_preserving_witness:
  "integer_from int32 (Integral_T \<lparr>it_bits = 16, it_signed = False\<rparr>) 65535 = Returns 65535
   \<and> \<not> is_safe_integer_conversion (Integral_T int32) (Integral_T \<lparr>it_bits = 64, it_signed = False\<rparr>)"
proof -
  let ?u16 = "\<lparr>it_bits = 16, it_signed = False\<rparr>" and ?u64 = "\<lparr>it_bits = 64, it_signed = False\<rparr>"
  have wf: "int_type_wf ?u16" "int_type_wf int32" "int_type_wf ?u64"
    by (simp_all add: int_type_wf_def int32_def)
  have "\<forall>v. representable ?u16 v \<longrightarrow> representable int32 v"
    by (simp add: representable_def int32_def tmin_def tmax_def)
  moreover have "representable ?u16 65535" by (simp add: representable_def tmin_def tmax_def)
  moreover have "representable int32 (-1)" "\<not> representable ?u64 (-1)"
    by (simp_all add: representable_def int32_def tmin_def tmax_def)
  ultimately show ?thesis
    using safe_conversion_iff_value_preserving [OF wf(1,2)]
      safe_conversion_iff_value_preserving [OF wf(2,3)]
    by (metis (no_types, lifting))
qed

text \<open>An assignment that compiles keeps the value it was given.\<close>

lemma integer_assign_get:
  assumes "int_type_wf From" "int_type_wf To" "representable From v"
    and "integer_assign To (Integral_T From) v old = Returns w"
  shows "integer_get To w = v"
  using assms safe_conversion_iff_subset [OF assms(1,2)]
  by (auto simp: integer_assign_def integer_get_def convert_to_representable split: if_splits)

lemma integer_assign_integer_get:
  assumes "int_type_wf From" "int_type_wf To" "representable From v"
    and "integer_assign_integer To From v old = Returns w"
  shows "integer_get To w = v"
  using assms safe_conversion_iff_subset [OF assms(1,2)]
  by (auto simp: integer_assign_integer_def integer_convert_def integer_get_def
      convert_to_representable split: if_splits)

text \<open>
  Unary minus of an \<open>integer<TYPE>\<close> negates the value when \<open>Ty\<close> is signed and
  at least as wide as \<open>int\<close>; it is undefined on the smallest value, and for a narrower signed
  type (whose negation is an \<open>int\<close>) it does not compile.
\<close>

theorem integer_minus_result:
  assumes "int_type_wf Ty" and "it_signed Ty" and "representable Ty v"
  shows "integer_minus Ty v =
           (if it_bits Ty < 32 then Ill_Formed
            else if v = tmin Ty then Undefined else Returns (- v))"
proof (cases "it_bits Ty < 32")
  case True
  then have "(2::int) ^ (it_bits Ty - 1) \<le> 2 ^ 30" by (intro power_increasing) auto
  with assms(2,3) have "representable int32 (- v)"
    by (auto simp: representable_def int32_def tmin_def tmax_def)
  with True assms(2) show ?thesis
    by (auto simp: integer_minus_def integer_from_def promoted_def arith_result_representable
          int32_def)
next
  case False
  show ?thesis
  proof (cases "v = tmin Ty")
    case True
    with assms(2) False show ?thesis
      by (simp add: integer_minus_def promoted_def arith_result_def representable_def tmin_signed)
  next
    case neq: False
    with assms have "representable Ty (- v)" by (auto simp: representable_def tmin_signed)
    with False neq assms show ?thesis
      by (simp add: integer_minus_def integer_from_def promoted_def arith_result_representable
          convert_to_representable)
  qed
qed

theorem integer_minus_result_witness:
  "integer_minus int32 3 = Returns (-3) \<and> integer_minus int32 (-2147483648) = Undefined"
proof -
  have h: "int_type_wf int32" "it_signed int32" "representable int32 3"
    "representable int32 (-2147483648)"
    by (simp_all add: int_type_wf_def int32_def representable_def tmin_def tmax_def)
  show ?thesis
    using integer_minus_result [OF h(1-3)] integer_minus_result [OF h(1,2,4)]
    by (simp add: int32_def tmin_def)
qed

end
