(* ===== verification/Atomic_Cas.thy ===== *)
theory Atomic_Cas
  imports Ptl_Prelude
begin

text \<open>
  The retry loop that every lock-free update of the library is written as
  (\<open>packed_ptr.hpp\<close>, \<open>intrusive_ptr.hpp\<close>):
  \<^verbatim>\<open>
    expected = data_.load();
    do { desired = f(expected); }
    while (!data_.compare_exchange_weak(expected, desired));
  \<close>
  An attempt sees the current contents of the atomic, which other threads may have changed,
  and may fail spuriously; a failed attempt reloads \<open>expected\<close> with those contents. The
  attempts a loop makes are a list; \<open>None\<close> is a loop still running when the list ends. The
  result is the value the loop replaced and the value it stored.
\<close>

record attempt =
  current :: u64
  spurious :: bool

fun cas_loop :: "(u64 \<Rightarrow> u64) \<Rightarrow> u64 \<Rightarrow> attempt list \<Rightarrow> (u64 \<times> u64) option" where
  "cas_loop f expected [] = None"
| "cas_loop f expected (a # as) =
     (if current a = expected \<and> \<not> spurious a then Some (expected, f expected)
      else cas_loop f (current a) as)"

lemma cas_loop_result: "cas_loop f e as = Some (old, new) \<Longrightarrow> new = f old"
  by (induction as arbitrary: e) (auto split: if_splits)

lemma cas_loop_replaces_current:
  "cas_loop f e as = Some (old, new) \<Longrightarrow> \<exists>a \<in> set as. current a = old \<and> \<not> spurious a"
  by (induction as arbitrary: e) (auto split: if_splits)

text \<open>
  The loop is lock-free: it ends at the first attempt that is not spurious and finds the
  contents the previous attempt (or the initial load) saw.
\<close>

lemma cas_loop_ends_undisturbed:
  "\<not> spurious a \<Longrightarrow> current a = e \<Longrightarrow> cas_loop f e (a # as) = Some (e, f e)"
  by simp

lemma cas_loop_ends_after_quiet_pair:
  assumes "\<not> spurious b" and "current b = current a"
  shows "\<exists>r. cas_loop f e (as @ a # b # bs) = Some r"
  using assms by (induction as arbitrary: e) auto

text \<open>An early exit from the loop body: \<open>f\<close> gives \<open>None\<close> and the loop returns without storing.\<close>

fun cas_loop_opt ::
  "(u64 \<Rightarrow> u64 option) \<Rightarrow> u64 \<Rightarrow> attempt list \<Rightarrow> (u64 \<times> u64 option) option" where
  "cas_loop_opt f expected as =
     (case f expected of
        None \<Rightarrow> Some (expected, None)
      | Some desired \<Rightarrow>
          (case as of
             [] \<Rightarrow> None
           | a # as' \<Rightarrow>
               if current a = expected \<and> \<not> spurious a then Some (expected, Some desired)
               else cas_loop_opt f (current a) as'))"

declare cas_loop_opt.simps [simp del]

lemma cas_loop_opt_result:
  "cas_loop_opt f e as = Some (old, r) \<Longrightarrow> r = f old"
proof (induction as arbitrary: e)
  case Nil
  then show ?case by (subst (asm) cas_loop_opt.simps) (auto split: option.splits)
next
  case (Cons a as)
  then show ?case
    by (subst (asm) cas_loop_opt.simps) (auto split: option.splits if_splits)
qed

section \<open>Fields of a word\<close>

text \<open>
  The interface of a field packed into a word: what a read returns after a write (the part of
  the value the field holds, \<open>norm v\<close>), and that the last write wins.
\<close>

locale word_field =
  fixes get :: "u64 \<Rightarrow> 'v" and put :: "'v \<Rightarrow> u64 \<Rightarrow> u64" and norm :: "'v \<Rightarrow> 'v"
  assumes get_put: "get (put v d) = norm v"
    and put_put: "put w (put v d) = put w d"
begin

lemma put_last: "put v (fold put vs d) = put v d"
  by (induction vs arbitrary: d) (simp_all add: put_put)

lemma get_fold: "vs \<noteq> [] \<Longrightarrow> get (fold put vs d) = norm (last vs)"
  by (induction vs rule: rev_induct) (simp_all add: get_put)

lemma cas_put:
  "cas_loop (put v) e as = Some (old, new) \<Longrightarrow> get new = norm v"
  by (auto dest: cas_loop_result simp: get_put)

end

text \<open>A field whose writes leave every other bit of the word alone.\<close>

locale exact_field = word_field +
  assumes put_get: "put (get d) d = d"
begin

lemma get_determines: "put v d = d \<longleftrightarrow> put v d = put (get d) d"
  by (simp add: put_get)

end

text \<open>Two fields of one word that do not overlap.\<close>

locale two_fields =
  f: word_field get_f put_f norm_f + g: word_field get_g put_g norm_g
  for get_f :: "u64 \<Rightarrow> 'v" and put_f norm_f and get_g :: "u64 \<Rightarrow> 'w" and put_g norm_g +
  assumes f_keeps_g: "get_g (put_f v d) = get_g d"
    and g_keeps_f: "get_f (put_g w d) = get_f d"
begin

lemma read_back:
  "get_f (put_g w (put_f v d)) = norm_f v \<and> get_g (put_g w (put_f v d)) = norm_g w"
  by (simp add: f.get_put g.get_put g_keeps_f)

lemma cas_put_f_keeps_g:
  "cas_loop (put_f v) e as = Some (old, new) \<Longrightarrow> get_f new = norm_f v \<and> get_g new = get_g old"
  by (auto dest: cas_loop_result simp: f.get_put f_keeps_g)

lemma cas_put_g_keeps_f:
  "cas_loop (put_g w) e as = Some (old, new) \<Longrightarrow> get_g new = norm_g w \<and> get_f new = get_f old"
  by (auto dest: cas_loop_result simp: g.get_put g_keeps_f)

end

end
