(* ===== verification/Packed_Ptr.thy ===== *)
theory Packed_Ptr
  imports Atomic_Cas
begin

text \<open>
  \<open>include/ptl/packed_ptr.hpp\<close>: a 64-bit word that carries a pointer and two small values in
  the bits an aligned user-space pointer does not use, in five layouts, and the atomic
  versions whose setters are compare-and-swap loops. A pointer (or the representation of a
  \<open>std::exception_ptr\<close>) is its 64-bit address. The value type \<open>VT\<close> is modelled at its default
  \<open>uint16_t\<close>. A state is the word \<open>data_\<close>; a setter returns the new word. The constructors of
  all layouts store 0.
\<close>

definition packed_init :: u64 where
  "packed_init = 0"

subsection \<open>\<open>PackedPtr<T, VT>\<close> and \<open>PackedPtr<std::exception_ptr, VT>\<close>\<close>

definition gen_low_mask :: u64 where "gen_low_mask = drop_bit 61 (-1)"
definition gen_high_base :: nat where "gen_high_base = 48"
definition gen_high_mask :: u64 where "gen_high_mask = push_bit 48 (-1)"
definition gen_ptr_mask :: u64 where "gen_ptr_mask = NOT (gen_low_mask OR gen_high_mask)"

definition gen_value :: "u64 \<Rightarrow> u16" where
  "gen_value d = ucast (drop_bit gen_high_base d)"

definition gen_set_value :: "u16 \<Rightarrow> u64 \<Rightarrow> u64" where
  "gen_set_value v d =
     (push_bit gen_high_base (ucast v) AND gen_high_mask) OR (d AND NOT gen_high_mask)"

definition gen_small :: "u64 \<Rightarrow> u8" where
  "gen_small d = ucast (d AND gen_low_mask)"

definition gen_set_small :: "u8 \<Rightarrow> u64 \<Rightarrow> u64" where
  "gen_set_small v d = (d AND NOT gen_low_mask) OR (ucast v AND gen_low_mask)"

definition gen_get :: "u64 \<Rightarrow> u64" where
  "gen_get d = d AND gen_ptr_mask"

definition gen_set :: "u64 \<Rightarrow> u64 \<Rightarrow> u64" where
  "gen_set ptr d = (d AND NOT gen_ptr_mask) OR (ptr AND gen_ptr_mask)"

text \<open>The specialization for \<open>std::exception_ptr\<close> and another \<open>VT\<close> has the same masks; its \<open>set\<close>
  reads the representation of the exception pointer and joins the two parts the other way.\<close>

definition exc_vt_set :: "u64 \<Rightarrow> u64 \<Rightarrow> u64" where
  "exc_vt_set ptr d = (ptr AND gen_ptr_mask) OR (d AND NOT gen_ptr_mask)"

subsection \<open>\<open>PackedPtr<T, bool>\<close>\<close>

definition bool_high_base :: nat where "bool_high_base = 63"
definition bool_high_mask :: u64 where "bool_high_mask = push_bit 63 (-1)"
definition bool_ptr_mask :: u64 where "bool_ptr_mask = NOT (gen_low_mask OR bool_high_mask)"

definition bool_value :: "u64 \<Rightarrow> bool" where
  "bool_value d \<longleftrightarrow> drop_bit bool_high_base d AND 1 \<noteq> 0"

definition bool_set_value :: "bool \<Rightarrow> u64 \<Rightarrow> u64" where
  "bool_set_value v d =
     (push_bit bool_high_base (of_bool v) AND bool_high_mask) OR (d AND NOT bool_high_mask)"

definition bool_get :: "u64 \<Rightarrow> u64" where
  "bool_get d = d AND bool_ptr_mask"

definition bool_set :: "u64 \<Rightarrow> u64 \<Rightarrow> u64" where
  "bool_set ptr d = (ptr AND bool_ptr_mask) OR (d AND NOT bool_ptr_mask)"

subsection \<open>\<open>PackedPtr<std::exception_ptr, uint16_t>\<close>: the value in the low bits\<close>

definition exc_low_mask :: u64 where "exc_low_mask = drop_bit 48 (-1)"
definition exc_high_base :: nat where "exc_high_base = 61"
definition exc_high_mask :: u64 where "exc_high_mask = push_bit exc_high_base (-1)"
definition exc_ptr_shift :: nat where "exc_ptr_shift = 16 - 3"
definition exc_ptr_mask :: u64 where "exc_ptr_mask = NOT (exc_low_mask OR exc_high_mask)"

definition exc_value :: "u64 \<Rightarrow> u16" where
  "exc_value d = ucast (d AND exc_low_mask)"

definition exc_set_value :: "u16 \<Rightarrow> u64 \<Rightarrow> u64" where
  "exc_set_value v d = (ucast v AND exc_low_mask) OR (d AND NOT exc_low_mask)"

definition exc_small :: "u64 \<Rightarrow> u8" where
  "exc_small d = ucast (drop_bit exc_high_base (d AND exc_high_mask))"

definition exc_set_small :: "u8 \<Rightarrow> u64 \<Rightarrow> u64" where
  "exc_set_small v d =
     (d AND NOT exc_high_mask) OR (push_bit exc_high_base (ucast v) AND exc_high_mask)"

definition exc_get :: "u64 \<Rightarrow> u64" where
  "exc_get d = drop_bit exc_ptr_shift (d AND exc_ptr_mask)"

definition exc_set :: "u64 \<Rightarrow> u64 \<Rightarrow> u64" where
  "exc_set ptr d = (push_bit exc_ptr_shift ptr AND exc_ptr_mask) OR (d AND NOT exc_ptr_mask)"

subsection \<open>\<open>PackedPtr<std::exception_ptr, bool>\<close>\<close>

definition excb_value :: "u64 \<Rightarrow> u16" where
  "excb_value d = of_bool (drop_bit 63 d \<noteq> 0)"

definition excb_set_value :: "bool \<Rightarrow> u64 \<Rightarrow> u64" where
  "excb_set_value v d = push_bit 63 (of_bool v) OR (d AND drop_bit 16 (-1))"

definition excb_get :: "u64 \<Rightarrow> u64" where
  "excb_get d = d AND drop_bit 16 (-1)"

definition excb_set :: "u64 \<Rightarrow> u64 \<Rightarrow> u64" where
  "excb_set ptr d = (ptr AND drop_bit 16 (-1)) OR (d AND push_bit 63 (-1))"

subsection \<open>\<open>AtomicPackedPtr<T, VT>\<close> and \<open>AtomicPackedPtr<T, bool>\<close>\<close>

text \<open>
  A setter loads \<open>data_\<close> (the value \<open>e\<close>), then loops over compare-and-swap attempts; the
  result is the word it replaced and the word it stored. \<open>desired\<close> is the loop's body.
\<close>

definition atomic_value :: "u64 \<Rightarrow> u16" where
  "atomic_value d = ucast (drop_bit 48 d)"

definition atomic_get :: "u64 \<Rightarrow> u64" where
  "atomic_get d = d AND drop_bit 16 (-1)"

definition atomic_value_desired :: "u16 \<Rightarrow> u64 \<Rightarrow> u64" where
  "atomic_value_desired v expected = push_bit 48 (ucast v) OR (expected AND drop_bit 16 (-1))"

definition atomic_ptr_desired :: "u64 \<Rightarrow> u64 \<Rightarrow> u64" where
  "atomic_ptr_desired ptr expected = (ptr AND drop_bit 16 (-1)) OR (expected AND push_bit 48 (-1))"

definition atomic_set_value :: "u16 \<Rightarrow> u64 \<Rightarrow> attempt list \<Rightarrow> (u64 \<times> u64) option" where
  "atomic_set_value v = cas_loop (atomic_value_desired v)"

definition atomic_set :: "u64 \<Rightarrow> u64 \<Rightarrow> attempt list \<Rightarrow> (u64 \<times> u64) option" where
  "atomic_set ptr = cas_loop (atomic_ptr_desired ptr)"

text \<open>
  \<open>get_add\<close> promises to add to the value and give the pair it replaced. It is \<open>const\<close> and changes
  \<open>data_\<close>, so it cannot be instantiated; and it shifts \<open>new_value\<close>, which is promoted to an \<open>int\<close>, by
  48 places, which is undefined for an \<open>int\<close> of 32 bits.
\<close>

definition int_width :: nat where "int_width = 32"

definition atomic_add_desired :: "nat \<Rightarrow> u16 \<Rightarrow> u64 \<Rightarrow> u64 res" where
  "atomic_add_desired width delta expected =
     (let old = atomic_value expected; new_value = old + delta
      in if 48 < width then Inr ((expected AND drop_bit 16 (-1)) OR push_bit 48 (ucast new_value))
         else Inl Undefined_Behaviour)"

definition atomic_get_add :: "nat \<Rightarrow> u16 \<Rightarrow> u64 \<Rightarrow> attempt list \<Rightarrow> (u64 \<times> u16) option res" where
  "atomic_get_add width delta e attempts =
     (case atomic_add_desired width delta e of
        Inl f \<Rightarrow> Inl f
      | Inr _ \<Rightarrow>
          Inr (map_option (\<lambda>(expected, _). (expected AND drop_bit 16 (-1), atomic_value expected))
            (cas_loop (\<lambda>expected. case atomic_add_desired width delta expected of Inl _ \<Rightarrow> 0 | Inr d \<Rightarrow> d)
               e attempts)))"

definition atomic_bool_value :: "u64 \<Rightarrow> bool" where
  "atomic_bool_value d \<longleftrightarrow> drop_bit 63 d \<noteq> 0"

definition atomic_bool_get :: "u64 \<Rightarrow> u64" where
  "atomic_bool_get d = d AND drop_bit 16 (-1)"

definition atomic_bool_value_desired :: "bool \<Rightarrow> u64 \<Rightarrow> u64" where
  "atomic_bool_value_desired v expected =
     push_bit 63 (of_bool v) OR (expected AND drop_bit 16 (-1))"

definition atomic_bool_ptr_desired :: "u64 \<Rightarrow> u64 \<Rightarrow> u64" where
  "atomic_bool_ptr_desired ptr expected =
     (ptr AND drop_bit 16 (-1)) OR (expected AND push_bit 63 (-1))"

definition atomic_bool_set_value :: "bool \<Rightarrow> u64 \<Rightarrow> attempt list \<Rightarrow> (u64 \<times> u64) option" where
  "atomic_bool_set_value v = cas_loop (atomic_bool_value_desired v)"

definition atomic_bool_set :: "u64 \<Rightarrow> u64 \<Rightarrow> attempt list \<Rightarrow> (u64 \<times> u64) option" where
  "atomic_bool_set ptr = cas_loop (atomic_bool_ptr_desired ptr)"

section \<open>Every layout, bit by bit\<close>

lemma bit_gen_low_mask: "bit gen_low_mask n \<longleftrightarrow> n < 3"
  by (auto simp: gen_low_mask_def bit_simps)

lemma bit_gen_high_mask: "bit gen_high_mask n \<longleftrightarrow> 48 \<le> n \<and> n < 64"
  by (auto simp: gen_high_mask_def bit_simps)

lemma bit_gen_ptr_mask: "bit gen_ptr_mask n \<longleftrightarrow> 3 \<le> n \<and> n < 48"
  by (auto simp: gen_ptr_mask_def bit_simps bit_gen_low_mask bit_gen_high_mask)

lemma bit_bool_high_mask: "bit bool_high_mask n \<longleftrightarrow> n = 63"
  by (auto simp: bool_high_mask_def bit_simps)

lemma bit_bool_ptr_mask: "bit bool_ptr_mask n \<longleftrightarrow> 3 \<le> n \<and> n < 63"
  by (auto simp: bool_ptr_mask_def bit_simps bit_gen_low_mask bit_bool_high_mask)

lemma bit_exc_low_mask: "bit exc_low_mask n \<longleftrightarrow> n < 16"
  by (auto simp: exc_low_mask_def bit_simps)

lemma bit_exc_high_mask: "bit exc_high_mask n \<longleftrightarrow> 61 \<le> n \<and> n < 64"
  by (auto simp: exc_high_mask_def exc_high_base_def bit_simps)

lemma bit_exc_ptr_mask: "bit exc_ptr_mask n \<longleftrightarrow> 16 \<le> n \<and> n < 61"
  by (auto simp: exc_ptr_mask_def bit_simps bit_exc_low_mask bit_exc_high_mask)

lemmas mask_bits [word_fields] =
  bit_gen_low_mask bit_gen_high_mask bit_gen_ptr_mask bit_bool_high_mask bit_bool_ptr_mask
  bit_exc_low_mask bit_exc_high_mask bit_exc_ptr_mask gen_high_base_def bool_high_base_def
  exc_high_base_def exc_ptr_shift_def

lemmas gen_defs [word_fields] =
  gen_value_def gen_set_value_def gen_small_def gen_set_small_def gen_get_def gen_set_def

lemmas bool_defs [word_fields] =
  bool_value_def bool_set_value_def bool_get_def bool_set_def

lemmas exc_defs [word_fields] =
  exc_value_def exc_set_value_def exc_small_def exc_set_small_def exc_get_def exc_set_def

lemmas excb_defs [word_fields] =
  excb_value_def excb_set_value_def excb_get_def excb_set_def

lemma bool_value_bit: "bool_value d \<longleftrightarrow> bit d 63"
  by (simp add: bool_value_def bool_high_base_def and_one_eq odd_iff_mod_2_eq_one
      flip: odd_iff_mod_2_eq_one bit_0) (simp add: bit_simps)

definition small_norm :: "u8 \<Rightarrow> u8" where
  "small_norm v = v AND mask 3"

definition exc_ptr_norm :: "u64 \<Rightarrow> u64" where
  "exc_ptr_norm p = p AND push_bit 3 (mask 45)"

lemmas norm_defs [word_fields] = small_norm_def exc_ptr_norm_def

interpretation gen_fld_value: exact_field gen_value gen_set_value "\<lambda>v. v"
  by unfold_locales (auto simp: word_fields bit_simps intro!: bit_word_eqI)

interpretation gen_fld_small: exact_field gen_small gen_set_small small_norm
  by unfold_locales (auto simp: word_fields bit_simps intro!: bit_word_eqI)

interpretation gen_fld_ptr: exact_field gen_get gen_set "\<lambda>p. p AND gen_ptr_mask"
  by unfold_locales (auto simp: word_fields bit_simps intro!: bit_word_eqI)

interpretation gen_value_small: two_fields gen_value gen_set_value "\<lambda>v. v" gen_small gen_set_small small_norm
  by unfold_locales (auto simp: word_fields bit_simps intro!: bit_word_eqI)

interpretation gen_value_ptr: two_fields gen_value gen_set_value "\<lambda>v. v" gen_get gen_set "\<lambda>p. p AND gen_ptr_mask"
  by unfold_locales (auto simp: word_fields bit_simps intro!: bit_word_eqI)

interpretation gen_small_ptr: two_fields gen_small gen_set_small small_norm gen_get gen_set "\<lambda>p. p AND gen_ptr_mask"
  by unfold_locales (auto simp: word_fields bit_simps intro!: bit_word_eqI)

interpretation exc_fld_value: exact_field exc_value exc_set_value "\<lambda>v. v"
  by unfold_locales (auto simp: word_fields bit_simps intro!: bit_word_eqI)

interpretation exc_fld_small: exact_field exc_small exc_set_small small_norm
  by unfold_locales (auto simp: word_fields bit_simps intro!: bit_word_eqI)

interpretation exc_fld_ptr: exact_field exc_get exc_set exc_ptr_norm
  by unfold_locales (auto simp: word_fields bit_simps intro!: bit_word_eqI)

interpretation exc_value_small: two_fields exc_value exc_set_value "\<lambda>v. v" exc_small exc_set_small small_norm
  by unfold_locales (auto simp: word_fields bit_simps intro!: bit_word_eqI)

interpretation exc_value_ptr: two_fields exc_value exc_set_value "\<lambda>v. v" exc_get exc_set exc_ptr_norm
  by unfold_locales (auto simp: word_fields bit_simps intro!: bit_word_eqI)

interpretation exc_small_ptr: two_fields exc_small exc_set_small small_norm exc_get exc_set exc_ptr_norm
  by unfold_locales (auto simp: word_fields bit_simps intro!: bit_word_eqI)

lemma bit_bool_set_value:
  "bit (bool_set_value v d) n \<longleftrightarrow> (if n = 63 then v else bit d n)"
  by (auto simp: bool_set_value_def bit_simps bit_bool_high_mask bool_high_base_def
        dest: bit_imp_le_length)

interpretation bool_fld_value: exact_field bool_value bool_set_value "\<lambda>v. v"
  by unfold_locales (auto simp: bool_value_bit bit_bool_set_value intro!: bit_word_eqI split: if_splits)

interpretation bool_fld_ptr: exact_field bool_get bool_set "\<lambda>p. p AND bool_ptr_mask"
  by unfold_locales (auto simp: word_fields bit_simps intro!: bit_word_eqI)

interpretation bool_value_ptr: two_fields bool_value bool_set_value "\<lambda>v. v" bool_get bool_set "\<lambda>p. p AND bool_ptr_mask"
  by unfold_locales
    (auto simp: bool_value_bit bit_bool_set_value bool_get_def bool_set_def bit_simps
          bit_bool_ptr_mask intro!: bit_word_eqI)

interpretation atomic_fld_value: exact_field atomic_value atomic_value_desired "\<lambda>v. v"
  by unfold_locales
    (auto simp: atomic_value_def atomic_value_desired_def bit_simps intro!: bit_word_eqI)

interpretation atomic_fld_ptr: exact_field atomic_get atomic_ptr_desired "\<lambda>p. p AND mask 48"
  by unfold_locales
    (auto simp: atomic_get_def atomic_ptr_desired_def bit_simps intro!: bit_word_eqI)

interpretation atomic_value_ptr: two_fields atomic_value atomic_value_desired "\<lambda>v. v"
    atomic_get atomic_ptr_desired "\<lambda>p. p AND mask 48"
  by unfold_locales
    (auto simp: atomic_value_def atomic_value_desired_def atomic_get_def atomic_ptr_desired_def
          bit_simps intro!: bit_word_eqI)

lemma word_eq_0_bit_63: "drop_bit 63 (d :: u64) \<noteq> 0 \<longleftrightarrow> bit d 63"
proof
  assume "bit d 63"
  then have "bit (drop_bit 63 d) 0" by (simp add: bit_simps)
  then show "drop_bit 63 d \<noteq> 0" by (metis bit_0_eq bot_apply bot_bool_def)
next
  assume "drop_bit 63 d \<noteq> 0"
  then obtain n where "bit (drop_bit 63 d) n" by (auto simp: bit_eq_iff)
  then show "bit d 63"
    by (cases "n = 0") (auto simp: bit_simps dest: bit_imp_le_length)
qed

lemma excb_value_bit: "excb_value d = 1 \<longleftrightarrow> bit d 63"
  by (simp add: excb_value_def word_eq_0_bit_63)

lemma bit_excb_set_value:
  "bit (excb_set_value v d) n \<longleftrightarrow> n = 63 \<and> v \<or> n < 48 \<and> bit d n"
  by (auto simp: excb_set_value_def bit_simps)

lemma bit_excb_set:
  "bit (excb_set p d) n \<longleftrightarrow> n < 48 \<and> bit p n \<or> n = 63 \<and> bit d n"
  by (auto simp: excb_set_def bit_simps)

lemma bit_excb_get: "bit (excb_get d) n \<longleftrightarrow> n < 48 \<and> bit d n"
  by (auto simp: excb_get_def bit_simps)

lemmas excb_bits = excb_value_bit bit_excb_set_value bit_excb_set bit_excb_get

interpretation excb_fld_value: word_field "\<lambda>d. excb_value d = 1" excb_set_value "\<lambda>v. v"
  by unfold_locales (auto simp: excb_bits intro!: bit_word_eqI)

interpretation excb_fld_ptr: word_field excb_get excb_set "\<lambda>p. p AND mask 48"
  by unfold_locales (auto simp: excb_bits bit_simps intro!: bit_word_eqI)

interpretation excb_value_ptr: two_fields "\<lambda>d. excb_value d = 1" excb_set_value "\<lambda>v. v"
    excb_get excb_set "\<lambda>p. p AND mask 48"
  by unfold_locales (auto simp: excb_bits intro!: bit_word_eqI)

text \<open>The atomic layout with a \<open>bool\<close> stores the same words as the exception-pointer one.\<close>

lemma atomic_bool_is_excb:
  "atomic_bool_value d \<longleftrightarrow> excb_value d = 1"
  "atomic_bool_get = excb_get"
  "atomic_bool_value_desired = excb_set_value"
  "atomic_bool_ptr_desired = excb_set"
  by (simp_all add: atomic_bool_value_def excb_value_def atomic_bool_get_def excb_get_def
      atomic_bool_value_desired_def excb_set_value_def atomic_bool_ptr_desired_def excb_set_def
      fun_eq_iff)

lemma get_add_undefined: "atomic_get_add int_width delta e attempts = Inl Undefined_Behaviour"
  by (simp add: atomic_get_add_def atomic_add_desired_def int_width_def Let_def)

text \<open>Shifted as a 64-bit word, the new value keeps the pointer and is the sum modulo \<open>2^16\<close>.\<close>

lemma add_desired_wide:
  "\<exists>d. atomic_add_desired 64 delta expected = Inr d \<and>
    atomic_value d = atomic_value expected + delta \<and> atomic_get d = atomic_get expected"
proof -
  have "atomic_add_desired 64 delta expected =
      Inr (atomic_value_desired (atomic_value expected + delta) expected)"
    by (simp add: atomic_add_desired_def atomic_value_desired_def or.commute)
  then show ?thesis
    by (simp add: atomic_fld_value.get_put atomic_value_ptr.f_keeps_g)
qed

section \<open>What a user of a packed pointer relies on\<close>

text \<open>
  In the layout of \<open>PackedPtr<exception_ptr, uint16_t>\<close> the three fields never
  disturb each other, for any word: the value reads back exactly, the small field modulo 8,
  the pointer with its low three bits and everything from bit 48 up dropped, and each
  setter leaves the other two fields as they were.
\<close>

theorem exc_packed_fields_independent:
  "exc_value (exc_set_value v d) = v
   \<and> exc_small (exc_set_small s d) = s AND mask 3
   \<and> exc_get (exc_set p d) = p AND push_bit 3 (mask 45)
   \<and> exc_small (exc_set_value v d) = exc_small d \<and> exc_get (exc_set_value v d) = exc_get d
   \<and> exc_value (exc_set_small s d) = exc_value d \<and> exc_get (exc_set_small s d) = exc_get d
   \<and> exc_value (exc_set p d) = exc_value d \<and> exc_small (exc_set p d) = exc_small d
   \<and> exc_set_value (exc_value d) (exc_set_small (exc_small d) (exc_set (exc_get d) d)) = d"
  by (simp add: exc_fld_value.get_put exc_fld_small.get_put exc_fld_ptr.get_put
      exc_value_small.f_keeps_g exc_value_small.g_keeps_f exc_value_ptr.f_keeps_g
      exc_value_ptr.g_keeps_f exc_small_ptr.f_keeps_g exc_small_ptr.g_keeps_f
      exc_fld_value.put_get exc_fld_small.put_get exc_fld_ptr.put_get
      small_norm_def exc_ptr_norm_def)

lemma aligned_bits:
  fixes p :: u64
  assumes "p AND mask 3 = 0" and "drop_bit 48 p = 0" and b: "bit p n"
  shows "3 \<le> n \<and> n < 48"
proof
  have "\<not> bit (p AND mask 3) n" using assms(1) by simp
  with b bit_imp_le_length [OF b] show "3 \<le> n" by (auto simp: bit_simps not_less)
  show "n < 48"
  proof (rule ccontr)
    assume "\<not> n < 48"
    then have "bit (drop_bit 48 p) (n - 48)" using b by (simp add: bit_simps)
    with assms(2) show False by simp
  qed
qed

lemma aligned_norm:
  fixes p m :: u64
  assumes "p AND mask 3 = 0" and "drop_bit 48 p = 0"
    and "\<And>n. 3 \<le> n \<Longrightarrow> n < 48 \<Longrightarrow> bit m n"
  shows "p AND m = p"
  by (rule bit_word_eqI) (use aligned_bits [OF assms(1,2)] assms(3) in \<open>auto simp: bit_and_iff\<close>)

text \<open>
  An 8-byte aligned address below \<open>2^48\<close> survives every layout unchanged,
  whatever the word held before.
\<close>

theorem aligned_pointer_roundtrip:
  assumes "p AND mask 3 = 0" and "drop_bit 48 p = 0"
  shows "gen_get (gen_set p d) = p \<and> gen_get (exc_vt_set p d) = p \<and> bool_get (bool_set p d) = p
       \<and> exc_get (exc_set p d) = p \<and> excb_get (excb_set p d) = p
       \<and> atomic_get (atomic_ptr_desired p d) = p \<and> atomic_bool_get (atomic_bool_ptr_desired p d) = p"
proof -
  note norm = aligned_norm [OF assms]
  have "p AND gen_ptr_mask = p" and "p AND bool_ptr_mask = p"
    and "p AND push_bit 3 (mask 45) = p" and "p AND mask 48 = p"
    by (rule norm; auto simp: word_fields bit_simps)+
  moreover have "exc_vt_set p d = gen_set p d" by (simp add: exc_vt_set_def gen_set_def or.commute)
  ultimately show ?thesis
    by (simp add: gen_fld_ptr.get_put bool_fld_ptr.get_put exc_fld_ptr.get_put excb_fld_ptr.get_put
        atomic_fld_ptr.get_put atomic_bool_is_excb exc_ptr_norm_def)
qed

theorem aligned_pointer_roundtrip_witness:
  "exc_get (exc_set 0x7fff12345678 0xffffffffffffffff) = 0x7fff12345678"
proof -
  have "(0x7fff12345678 :: u64) AND mask 3 = 0" and "drop_bit 48 (0x7fff12345678 :: u64) = 0"
    by (simp_all add: mask_eq_exp_minus_1)
  from aligned_pointer_roundtrip [OF this, of "0xffffffffffffffff"] show ?thesis by simp
qed

text \<open>
  A setter of \<open>AtomicPackedPtr\<close> that returns has replaced some word by one that holds the new field
  and the other field of the very word it replaced; and it does return once two successive attempts
  see the same word and the second does not fail spuriously. \<open>Atomic_Programs\<close> puts the word into
  memory and runs threads on it.
\<close>

lemma atomic_setters_keep_other_field:
  assumes "\<not> spurious b" and "current b = current a"
  shows "\<exists>old new. atomic_set p e (as @ a # b # bs) = Some (old, new)
             \<and> atomic_get new = p AND mask 48 \<and> atomic_value new = atomic_value old"
    and "\<exists>old new. atomic_set_value v e (as @ a # b # bs) = Some (old, new)
             \<and> atomic_value new = v \<and> atomic_get new = atomic_get old"
proof -
  obtain r where "cas_loop (atomic_ptr_desired p) e (as @ a # b # bs) = Some r"
    using cas_loop_ends_after_quiet_pair [OF assms] by blast
  moreover obtain r' where "cas_loop (atomic_value_desired v) e (as @ a # b # bs) = Some r'"
    using cas_loop_ends_after_quiet_pair [OF assms] by blast
  ultimately show "\<exists>old new. atomic_set p e (as @ a # b # bs) = Some (old, new)
             \<and> atomic_get new = p AND mask 48 \<and> atomic_value new = atomic_value old"
    and "\<exists>old new. atomic_set_value v e (as @ a # b # bs) = Some (old, new)
             \<and> atomic_value new = v \<and> atomic_get new = atomic_get old"
    using atomic_value_ptr.cas_put_g_keeps_f [of p e "as @ a # b # bs"]
      atomic_value_ptr.cas_put_f_keeps_g [of v e "as @ a # b # bs"]
    by (cases r; cases r'; auto simp: atomic_set_def atomic_set_value_def)+
qed

end
