(* ===== verification/Ref_Count.thy ===== *)
theory Ref_Count
  imports Atomic_Cas
begin

text \<open>
  The reference counts of \<open>include/ptl/intrusive_ptr.hpp\<close>: \<open>intrusive_strong_reference\<close> (one
  32-bit counter) and \<open>intrusive_weak_references\<close> (strong and weak count in one 64-bit word,
  updated by compare-and-swap loops), as functions on words, and then the protocol several
  threads run on one object with weak references, as a step relation.

  The set of strong handles owns one weak count, so a new object starts at (1, 1).
\<close>

section \<open>The strong counter\<close>

definition strong_init :: u32 where
  "strong_init = 1"

definition intrusive_strong_ptr_add_ref :: "u32 \<Rightarrow> u32" where
  "intrusive_strong_ptr_add_ref r = r + 1"

text \<open>The new counter, and whether \<open>derived\<close> is deleted.\<close>

definition intrusive_strong_ptr_release :: "u32 \<Rightarrow> u32 \<times> bool" where
  "intrusive_strong_ptr_release r = (r - 1, r - 1 = 0)"

section \<open>The word of strong and weak counts\<close>

definition strong_count :: "u64 \<Rightarrow> u32" where
  "strong_count v = ucast v"

definition weak_count :: "u64 \<Rightarrow> u32" where
  "weak_count v = ucast (drop_bit 32 v)"

definition reference_count :: "u32 \<Rightarrow> u32 \<Rightarrow> u64" where
  "reference_count strong weak = push_bit 32 (ucast weak) OR ucast strong"

definition weak_references_init :: u64 where
  "weak_references_init = reference_count 1 1"

text \<open>What a release does to the object after its store.\<close>

datatype after =
    Nothing_More
  | Delete_Block      \<comment> \<open>\<open>delete ptr\<close>: the memory is freed, no destructor of \<open>T\<close> runs\<close>
  | Destroy_Object    \<comment> \<open>\<open>derived->~T()\<close>\<close>
  | Free_Block        \<comment> \<open>\<open>::operator delete(ptr)\<close>\<close>

definition intrusive_weak_ptr_add_ref :: "u64 \<Rightarrow> u64" where
  "intrusive_weak_ptr_add_ref v = v + 1"

definition weak_ptr_release_desired :: "u64 \<Rightarrow> u64" where
  "weak_ptr_release_desired v =
     (let strong = strong_count v - 1; weak = weak_count v
      in reference_count strong (if strong = 0 then weak - 1 else weak))"

definition weak_ptr_release_after :: "u64 \<Rightarrow> after" where
  "weak_ptr_release_after desired =
     (if strong_count desired = 0 then
        (if weak_count desired = 0 then Delete_Block else Destroy_Object)
      else Nothing_More)"

definition intrusive_weak_ptr_release :: "u64 \<Rightarrow> attempt list \<Rightarrow> (u64 \<times> u64 \<times> after) option" where
  "intrusive_weak_ptr_release v as =
     map_option (\<lambda>(old, desired). (old, desired, weak_ptr_release_after desired))
       (cas_loop weak_ptr_release_desired v as)"

definition intrusive_weak_ptr_add_weak_ref :: "u64 \<Rightarrow> u64" where
  "intrusive_weak_ptr_add_weak_ref v = v + reference_count 0 1"

definition weak_ptr_release_weak_desired :: "u64 \<Rightarrow> u64" where
  "weak_ptr_release_weak_desired v = reference_count (strong_count v) (weak_count v - 1)"

definition weak_ptr_release_weak_after :: "u64 \<Rightarrow> after" where
  "weak_ptr_release_weak_after desired = (if desired = 0 then Free_Block else Nothing_More)"

definition intrusive_weak_ptr_release_weak ::
  "u64 \<Rightarrow> attempt list \<Rightarrow> (u64 \<times> u64 \<times> after) option" where
  "intrusive_weak_ptr_release_weak v as =
     map_option (\<lambda>(old, desired). (old, desired, weak_ptr_release_weak_after desired))
       (cas_loop weak_ptr_release_weak_desired v as)"

definition weak_ptr_lock_desired :: "u64 \<Rightarrow> u64 option" where
  "weak_ptr_lock_desired v =
     (let strong = strong_count v + 1
      in if strong = 1 then None else Some (reference_count strong (weak_count v)))"

text \<open>The result is the word seen last, and the word stored when the lock succeeds.\<close>

definition intrusive_weak_ptr_lock :: "u64 \<Rightarrow> attempt list \<Rightarrow> (u64 \<times> u64 option) option" where
  "intrusive_weak_ptr_lock v as = cas_loop_opt weak_ptr_lock_desired v as"

subsection \<open>The two counts are independent\<close>

lemma strong_count_reference_count [simp]: "strong_count (reference_count s w) = s"
  by (rule bit_word_eqI) (auto simp: strong_count_def reference_count_def bit_simps)

lemma weak_count_reference_count [simp]: "weak_count (reference_count s w) = w"
  by (rule bit_word_eqI)
    (auto simp: weak_count_def reference_count_def bit_simps dest: bit_imp_le_length)

lemma reference_count_surj: "reference_count (strong_count v) (weak_count v) = v"
  by (rule bit_word_eqI)
    (auto simp: strong_count_def weak_count_def reference_count_def bit_simps not_less)

lemma reference_count_eq_iff:
  "reference_count s w = reference_count s' w' \<longleftrightarrow> s = s' \<and> w = w'"
  by (metis strong_count_reference_count weak_count_reference_count)

lemma reference_count_0: "reference_count s w = 0 \<longleftrightarrow> s = 0 \<and> w = 0"
proof -
  have "reference_count 0 0 = 0" by (simp add: reference_count_def)
  then show ?thesis by (metis reference_count_eq_iff)
qed

lemma reference_count_sum: "reference_count s w = ucast w * 2 ^ 32 + ucast s"
proof -
  have "push_bit 32 (ucast w :: u64) AND ucast s = 0"
    by (rule bit_word_eqI) (auto simp: bit_simps dest: bit_imp_le_length)
  then have "push_bit 32 (ucast w :: u64) + ucast s = push_bit 32 (ucast w) OR ucast s"
    by (rule disjunctive_add_eq_or)
  then show ?thesis by (simp add: reference_count_def push_bit_eq_mult)
qed

lemma ucast_succ:
  fixes w :: u32
  assumes "unat w + 1 < 2 ^ 32"
  shows "(ucast (w + 1) :: u64) = ucast w + 1"
proof (rule unsigned_word_eqI)
  have up: "unat (ucast x :: u64) = unat x" for x :: u32
    using unsigned_less [of x, where 'a = nat]
    by (simp add: unsigned_ucast_eq take_bit_nat_eq_self)
  have "unat (w + 1) = unat w + 1" using assms by (simp add: unat_word_ariths)
  then show "unat (ucast (w + 1) :: u64) = unat (ucast w + 1 :: u64)"
    using assms by (simp add: unat_word_ariths up)
qed

lemma add_ref_counts:
  assumes "unat s + 1 < 2 ^ 32"
  shows "intrusive_weak_ptr_add_ref (reference_count s w) = reference_count (s + 1) w"
  using ucast_succ [OF assms]
  by (simp add: intrusive_weak_ptr_add_ref_def reference_count_sum add.assoc)

lemma add_weak_ref_counts:
  assumes "unat w + 1 < 2 ^ 32"
  shows "intrusive_weak_ptr_add_weak_ref (reference_count s w) = reference_count s (w + 1)"
  using ucast_succ [OF assms]
  by (simp add: intrusive_weak_ptr_add_weak_ref_def reference_count_sum algebra_simps)

lemma release_counts:
  "weak_ptr_release_desired (reference_count s w)
     = reference_count (s - 1) (if s = 1 then w - 1 else w)"
  by (simp add: weak_ptr_release_desired_def Let_def)

lemma release_weak_counts:
  "weak_ptr_release_weak_desired (reference_count s w) = reference_count s (w - 1)"
  by (simp add: weak_ptr_release_weak_desired_def)

lemma lock_counts:
  "weak_ptr_lock_desired (reference_count s w)
     = (if s = 0 then None else Some (reference_count (s + 1) w))"
  by (simp add: weak_ptr_lock_desired_def Let_def)

text \<open>
  The increments are plain additions on the whole word. A strong count at its largest value
  carries into the weak count: the object then looks dead to \<open>lock\<close> although it has
  \<open>2^32\<close> owners. The protocol below keeps the number of handles under that bound.
\<close>

lemma ucast_u32_minus_1: "(ucast (- 1 :: u32) :: u64) = 4294967295"
  by code_simp

lemma add_ref_overflow:
  "intrusive_weak_ptr_add_ref (reference_count (- 1) w) = reference_count 0 (w + 1)
     \<or> unat w + 1 = 2 ^ 32"
proof (cases "unat w + 1 = 2 ^ 32")
  case False
  then have "unat w + 1 < 2 ^ 32" using unsigned_less [of w, where 'a = nat] by simp
  from ucast_succ [OF this] show ?thesis
    by (simp add: intrusive_weak_ptr_add_ref_def reference_count_sum ucast_u32_minus_1
        algebra_simps)
qed simp

section \<open>The protocol on one object\<close>

text \<open>
  The threads that share one object with weak references. A state has the word, the number of
  \<open>intrusive_ptr\<close> and \<open>intrusive_wptr\<close> handles that exist, what releases still have to do
  to the object (\<open>pending\<close>: a release stores the new word first and acts afterwards, so other
  threads run in between), and how often the destructor and the deallocation have run. Each
  loop is one step, at its successful exchange: by \<open>cas_loop_result\<close> it replaces the word it
  read by the function of that word. A thread calls an operation only through a handle it has.
\<close>

record shared =
  references :: u64
  strong_handles :: nat
  weak_handles :: nat
  pending :: "after list"
  destructions :: nat
  frees :: nat

definition new_shared :: shared where
  "new_shared = \<lparr>references = weak_references_init, strong_handles = 1, weak_handles = 0,
     pending = [], destructions = 0, frees = 0\<rparr>"

definition push_action :: "after \<Rightarrow> after list \<Rightarrow> after list" where
  "push_action a p = (if a = Nothing_More then p else a # p)"

definition perform :: "after \<Rightarrow> shared \<Rightarrow> shared" where
  "perform a s =
     (case a of
        Nothing_More \<Rightarrow> s
      | Destroy_Object \<Rightarrow> s\<lparr>destructions := destructions s + 1\<rparr>
      | Delete_Block \<Rightarrow> s\<lparr>frees := frees s + 1\<rparr>
      | Free_Block \<Rightarrow> s\<lparr>frees := frees s + 1\<rparr>)"

abbreviation handle_limit :: nat where
  "handle_limit \<equiv> 2 ^ 32 - 2"

inductive ref_step :: "shared \<Rightarrow> shared \<Rightarrow> bool" where
  Add_Ref: "\<lbrakk>0 < strong_handles s; strong_handles s < handle_limit\<rbrakk> \<Longrightarrow>
     ref_step s (s\<lparr>references := intrusive_weak_ptr_add_ref (references s),
       strong_handles := strong_handles s + 1\<rparr>)"
| Release: "\<lbrakk>0 < strong_handles s; desired = weak_ptr_release_desired (references s)\<rbrakk> \<Longrightarrow>
     ref_step s (s\<lparr>references := desired, strong_handles := strong_handles s - 1,
       pending := push_action (weak_ptr_release_after desired) (pending s)\<rparr>)"
| Add_Weak: "\<lbrakk>0 < strong_handles s + weak_handles s; weak_handles s < handle_limit\<rbrakk> \<Longrightarrow>
     ref_step s (s\<lparr>references := intrusive_weak_ptr_add_weak_ref (references s),
       weak_handles := weak_handles s + 1\<rparr>)"
| Release_Weak: "\<lbrakk>0 < weak_handles s; desired = weak_ptr_release_weak_desired (references s)\<rbrakk> \<Longrightarrow>
     ref_step s (s\<lparr>references := desired, weak_handles := weak_handles s - 1,
       pending := push_action (weak_ptr_release_weak_after desired) (pending s)\<rparr>)"
| Lock_Succeeds: "\<lbrakk>0 < weak_handles s; weak_ptr_lock_desired (references s) = Some desired;
     strong_handles s < handle_limit\<rbrakk> \<Longrightarrow>
     ref_step s (s\<lparr>references := desired, strong_handles := strong_handles s + 1\<rparr>)"
| Lock_Fails: "\<lbrakk>0 < weak_handles s; weak_ptr_lock_desired (references s) = None\<rbrakk> \<Longrightarrow>
     ref_step s s"
| Act: "pending s = p @ a # q \<Longrightarrow> ref_step s (perform a (s\<lparr>pending := p @ q\<rparr>))"

inductive_cases ref_step_E: "ref_step s t"

inductive ref_reachable :: "shared \<Rightarrow> bool" where
  Start: "ref_reachable new_shared"
| Step: "ref_reachable s \<Longrightarrow> ref_step s t \<Longrightarrow> ref_reachable t"

subsection \<open>The invariant\<close>

fun is_free :: "after \<Rightarrow> bool" where
  "is_free Delete_Block = True"
| "is_free Free_Block = True"
| "is_free _ = False"

definition total_frees :: "shared \<Rightarrow> nat" where
  "total_frees s = frees s + length (filter is_free (pending s))"

definition total_destructions :: "shared \<Rightarrow> nat" where
  "total_destructions s = destructions s + length (filter (\<lambda>a. a = Destroy_Object) (pending s))"

definition counts_match :: "shared \<Rightarrow> bool" where
  "counts_match s \<longleftrightarrow>
     references s = reference_count (of_nat (strong_handles s))
       (of_nat (weak_handles s + (if 0 < strong_handles s then 1 else 0))) \<and>
     strong_handles s \<le> handle_limit \<and> weak_handles s \<le> handle_limit"

definition life_matches :: "shared \<Rightarrow> bool" where
  "life_matches s \<longleftrightarrow>
     total_frees s = (if strong_handles s = 0 \<and> weak_handles s = 0 then 1 else 0) \<and>
     (0 < strong_handles s \<longrightarrow> total_destructions s = 0) \<and>
     (strong_handles s = 0 \<and> 0 < weak_handles s \<longrightarrow> total_destructions s = 1) \<and>
     total_destructions s \<le> 1"

lemma of_nat_u32_0_iff: "n < 2 ^ 32 \<Longrightarrow> (of_nat n :: u32) = 0 \<longleftrightarrow> n = 0"
  by (auto simp: word_of_nat_eq_0_iff dest: nat_dvd_not_less)

lemma of_nat_u32_inject:
  "m < 2 ^ 32 \<Longrightarrow> n < 2 ^ 32 \<Longrightarrow> (of_nat m :: u32) = of_nat n \<longleftrightarrow> m = n"
  by (simp add: word_of_nat_eq_iff take_bit_nat_eq_self)

lemma unat_of_nat_u32: "n < 2 ^ 32 \<Longrightarrow> unat (of_nat n :: u32) = n"
  by (simp add: unat_of_nat take_bit_nat_eq_self)

lemma counts_match_step:
  assumes "counts_match s" and "ref_step s t"
  shows "counts_match t"
  using assms(2) assms(1)
proof cases
  case Add_Ref
  with assms(1) show ?thesis
    by (auto simp: counts_match_def add_ref_counts unat_of_nat_u32 add_ac)
next
  case (Release desired)
  with assms(1) show ?thesis
    by (auto simp: counts_match_def release_counts of_nat_u32_inject [of _ 1, simplified] of_nat_diff
        add_ac)
next
  case Add_Weak
  define k where "k = weak_handles s + (if 0 < strong_handles s then 1 else 0)"
  have k: "k + 1 < 2 ^ 32" and r: "references s = reference_count (of_nat (strong_handles s)) (of_nat k)"
    using Add_Weak assms(1) by (auto simp: k_def counts_match_def)
  have "references t = reference_count (of_nat (strong_handles s)) (of_nat (k + 1))"
    using k unfolding Add_Weak(1) by (simp add: r add_weak_ref_counts unat_of_nat_u32 add_ac)
  moreover have "k + 1 = weak_handles t + (if 0 < strong_handles t then 1 else 0)"
    unfolding Add_Weak(1) by (simp add: k_def)
  ultimately show ?thesis
    using Add_Weak assms(1) unfolding counts_match_def by simp
next
  case (Release_Weak desired)
  with assms(1) show ?thesis
    by (auto simp: counts_match_def release_weak_counts of_nat_diff)
next
  case (Lock_Succeeds desired)
  with assms(1) show ?thesis
    by (auto simp: counts_match_def lock_counts add_ac of_nat_u32_0_iff split: if_splits)
next
  case Lock_Fails
  with assms(1) show ?thesis by simp
next
  case (Act p a q)
  with assms(1) show ?thesis
    by (auto simp: counts_match_def perform_def split: after.split)
qed

text \<open>Which action a release leaves, in terms of the handles.\<close>

lemma release_action:
  assumes "counts_match s" and "0 < strong_handles s"
  shows "weak_ptr_release_after (weak_ptr_release_desired (references s)) =
    (if strong_handles s = 1 then (if weak_handles s = 0 then Delete_Block else Destroy_Object)
     else Nothing_More)"
proof -
  have "references s = reference_count (of_nat (strong_handles s)) (of_nat (weak_handles s + 1))"
    and b: "strong_handles s \<le> handle_limit" "weak_handles s \<le> handle_limit"
    using assms by (auto simp: counts_match_def)
  moreover have "(of_nat (strong_handles s) :: u32) = 1 \<longleftrightarrow> strong_handles s = 1"
    using of_nat_u32_inject [of "strong_handles s" 1] b by simp
  moreover have "(of_nat (weak_handles s) :: u32) = 0 \<longleftrightarrow> weak_handles s = 0"
    using of_nat_u32_0_iff [of "weak_handles s"] b by simp
  ultimately show ?thesis
    by (auto simp: release_counts weak_ptr_release_after_def)
qed

lemma release_weak_action:
  assumes "counts_match s" and "0 < weak_handles s"
  shows "weak_ptr_release_weak_after (weak_ptr_release_weak_desired (references s)) =
    (if strong_handles s = 0 \<and> weak_handles s = 1 then Free_Block else Nothing_More)"
proof -
  define k where "k = weak_handles s - 1 + (if 0 < strong_handles s then 1 else 0)"
  have r: "weak_ptr_release_weak_desired (references s)
      = reference_count (of_nat (strong_handles s)) (of_nat k)"
    and b: "strong_handles s \<le> handle_limit" "weak_handles s \<le> handle_limit"
    using assms by (auto simp: k_def counts_match_def release_weak_counts of_nat_diff)
  have "(of_nat (strong_handles s) :: u32) = 0 \<longleftrightarrow> strong_handles s = 0"
    using of_nat_u32_0_iff [of "strong_handles s"] b by simp
  moreover have "(of_nat k :: u32) = 0 \<longleftrightarrow> k = 0"
  proof (rule of_nat_u32_0_iff)
    show "k < 2 ^ 32" using b unfolding k_def by auto
  qed
  moreover have "strong_handles s = 0 \<and> k = 0 \<longleftrightarrow> strong_handles s = 0 \<and> weak_handles s = 1"
    using assms(2) by (auto simp: k_def)
  ultimately show ?thesis
    unfolding r by (simp add: weak_ptr_release_weak_after_def reference_count_0)
qed

lemma lock_action:
  assumes "counts_match s"
  shows "weak_ptr_lock_desired (references s) = None \<longleftrightarrow> strong_handles s = 0"
  using assms of_nat_u32_0_iff [of "strong_handles s"]
  by (auto simp: counts_match_def lock_counts split: if_splits)

lemma total_perform:
  assumes "pending s = p @ a # q"
  shows "total_frees (perform a (s\<lparr>pending := p @ q\<rparr>)) = total_frees s"
    "total_destructions (perform a (s\<lparr>pending := p @ q\<rparr>)) = total_destructions s"
  using assms
  by (auto simp: total_frees_def total_destructions_def perform_def split: after.split)

lemma total_references [simp]:
  "total_frees (s\<lparr>references := r\<rparr>) = total_frees s"
  "total_frees (s\<lparr>strong_handles := n\<rparr>) = total_frees s"
  "total_frees (s\<lparr>weak_handles := n\<rparr>) = total_frees s"
  "total_destructions (s\<lparr>references := r\<rparr>) = total_destructions s"
  "total_destructions (s\<lparr>strong_handles := n\<rparr>) = total_destructions s"
  "total_destructions (s\<lparr>weak_handles := n\<rparr>) = total_destructions s"
  by (simp_all add: total_frees_def total_destructions_def)

lemma handles_perform [simp]:
  "strong_handles (perform a s) = strong_handles s"
  "weak_handles (perform a s) = weak_handles s"
  "references (perform a s) = references s"
  "pending (perform a s) = pending s"
  by (simp_all add: perform_def split: after.split)

lemma life_matches_step:
  assumes "counts_match s" and "life_matches s" and "ref_step s t"
  shows "life_matches t"
  using assms(3,2)
proof cases
  case (Release desired)
  then show ?thesis
    using assms(2) release_action [OF assms(1) Release(2)]
    by (auto simp: life_matches_def total_frees_def total_destructions_def push_action_def
        split: if_splits)
next
  case (Release_Weak desired)
  then show ?thesis
    using assms(2) release_weak_action [OF assms(1) Release_Weak(2)]
    by (auto simp: life_matches_def total_frees_def total_destructions_def push_action_def
        split: if_splits)
next
  case (Lock_Succeeds desired)
  then have "0 < strong_handles s" using lock_action [OF assms(1)] by auto
  with Lock_Succeeds assms(2) show ?thesis by (auto simp: life_matches_def split: if_splits)
next
  case (Act p a q)
  then show ?thesis
    using assms(2) total_perform [OF Act(2)] by (simp add: life_matches_def)
qed (auto simp: life_matches_def split: if_splits)

lemma ref_reachable_invariant:
  "ref_reachable s \<Longrightarrow> counts_match s \<and> life_matches s"
proof (induction rule: ref_reachable.induct)
  case Start
  show ?case
    by (simp add: counts_match_def life_matches_def new_shared_def weak_references_init_def
        total_frees_def total_destructions_def)
next
  case (Step s t)
  then show ?case using counts_match_step life_matches_step by blast
qed

section \<open>Properties\<close>

text \<open>
  C2: in every state the threads can reach, the word holds exactly the number of strong handles
  and the number of weak handles plus the one the strong handles share, and
  \<open>intrusive_weak_ptr_lock\<close> finds the object alive exactly when a strong handle exists.
\<close>

theorem counts_are_handles:
  assumes "ref_reachable s"
  shows "unat (strong_count (references s)) = strong_handles s \<and>
    unat (weak_count (references s))
      = weak_handles s + (if 0 < strong_handles s then 1 else 0) \<and>
    (weak_ptr_lock_desired (references s) = None \<longleftrightarrow> strong_handles s = 0)"
proof -
  define k where "k = weak_handles s + (if 0 < strong_handles s then 1 else 0)"
  have c: "counts_match s" using ref_reachable_invariant [OF assms] by simp
  then have r: "references s = reference_count (of_nat (strong_handles s)) (of_nat k)"
    and b: "strong_handles s < 2 ^ 32" "k < 2 ^ 32"
    by (auto simp: counts_match_def k_def)
  have "unat (strong_count (references s)) = strong_handles s \<and> unat (weak_count (references s)) = k"
    unfolding r using b by (simp add: unat_of_nat_u32)
  then show ?thesis using lock_action [OF c] by (simp add: k_def)
qed

lemma counts_are_handles_witness:
  "unat (strong_count (references new_shared)) = 1"
  using counts_are_handles [OF Start] by (simp add: new_shared_def)

text \<open>
  C6: the block of an object is deallocated at most once, never while a handle of either kind
  exists, and exactly once when all handles are gone and every started release has finished;
  the destructor runs at most once and never while a strong handle exists.
\<close>

theorem block_freed_exactly_once:
  assumes "ref_reachable s"
  shows "frees s \<le> 1 \<and> destructions s \<le> 1 \<and>
    (0 < frees s \<longrightarrow> strong_handles s = 0 \<and> weak_handles s = 0) \<and>
    (0 < destructions s \<longrightarrow> strong_handles s = 0) \<and>
    (strong_handles s = 0 \<and> weak_handles s = 0 \<and> pending s = [] \<longrightarrow> frees s = 1)"
  using ref_reachable_invariant [OF assms]
  by (auto simp: life_matches_def total_frees_def total_destructions_def split: if_splits)

definition sole_owner_gone :: shared where
  "sole_owner_gone = new_shared\<lparr>references := 0, strong_handles := 0, frees := 1\<rparr>"

lemma new_shared_fields:
  "strong_handles new_shared = 1" "weak_handles new_shared = 0" "pending new_shared = []"
  "references new_shared = weak_references_init"
  by (simp_all add: new_shared_def)

lemma sole_owner_gone_reachable: "ref_reachable sole_owner_gone"
proof -
  have e: "weak_ptr_release_desired weak_references_init = 0"
    by (simp add: weak_references_init_def release_counts reference_count_0)
  have a: "weak_ptr_release_after 0 = Delete_Block"
    by (simp add: weak_ptr_release_after_def strong_count_def weak_count_def)
  have "ref_step new_shared (new_shared\<lparr>references := 0, strong_handles := 0,
      pending := [Delete_Block]\<rparr>)" (is "ref_step _ ?t")
    using ref_step.Release [of new_shared, OF _ refl]
    by (simp add: e a push_action_def new_shared_fields)
  then have "ref_reachable ?t" using ref_reachable.intros by blast
  moreover have "ref_step ?t sole_owner_gone"
    using ref_step.Act [of ?t "[]" Delete_Block "[]"]
    by (simp add: perform_def sole_owner_gone_def new_shared_def)
  ultimately show ?thesis by (rule ref_reachable.Step)
qed

lemma block_freed_exactly_once_witness:
  "frees sole_owner_gone = 1 \<and> weak_handles sole_owner_gone = 0"
  using block_freed_exactly_once [OF sole_owner_gone_reachable]
  by (simp add: sole_owner_gone_def new_shared_def)

text \<open>
  Two ways the weak variant departs from a destroyed-then-freed life. When the only handle
  of an object without weak references is released, the block is freed and no destructor of the
  object runs (\<open>delete ptr\<close> is applied to the counter, not to \<open>derived\<close>). And since a release
  gives up the shared weak count in the same exchange that drops the last strong count, before
  \<open>derived->~T()\<close>, another thread can free the block while that destructor call is still to
  come.
\<close>

theorem release_order_hazards:
  "(\<exists>s. ref_reachable s \<and> frees s = 1 \<and> pending s = [] \<and> destructions s = 0) \<and>
   (\<exists>s. ref_reachable s \<and> frees s = 1 \<and> pending s = [Destroy_Object])"
proof
  show "\<exists>s. ref_reachable s \<and> frees s = 1 \<and> pending s = [] \<and> destructions s = 0"
    using sole_owner_gone_reachable by (force simp: sole_owner_gone_def new_shared_def)
next
  let ?r = "\<lambda>s w. reference_count s w"
  let ?a = "new_shared\<lparr>references := ?r 1 2, weak_handles := 1\<rparr>"
  let ?b = "?a\<lparr>references := ?r 0 1, strong_handles := 0, pending := [Destroy_Object]\<rparr>"
  let ?c = "?b\<lparr>references := ?r 0 0, weak_handles := 0, pending := [Free_Block, Destroy_Object]\<rparr>"
  have "ref_step new_shared ?a"
    using ref_step.Add_Weak [of new_shared]
    by (simp add: new_shared_def weak_references_init_def add_weak_ref_counts)
  moreover have "ref_step ?a ?b"
    using ref_step.Release [of ?a "?r 0 1"]
    by (simp add: new_shared_def release_counts weak_ptr_release_after_def push_action_def)
  moreover have "ref_step ?b ?c"
    using ref_step.Release_Weak [of ?b "?r 0 0"]
    by (simp add: new_shared_def release_weak_counts weak_ptr_release_weak_after_def
        push_action_def reference_count_0)
  moreover have "ref_step ?c (perform Free_Block (?c\<lparr>pending := [] @ [Destroy_Object]\<rparr>))"
    by (rule ref_step.Act) simp
  ultimately have "ref_reachable (perform Free_Block (?c\<lparr>pending := [Destroy_Object]\<rparr>))"
    using ref_reachable.intros by (metis append_Nil)
  then show "\<exists>s. ref_reachable s \<and> frees s = 1 \<and> pending s = [Destroy_Object]"
    by (force simp: perform_def new_shared_def)
qed

end
