(* ===== verification/Mpmc_Queue.thy ===== *)
theory Mpmc_Queue
  imports Ptl_Prelude
begin

text \<open>
  The bounded lock-free queue of \<open>include/ptl/mpmc_queue.hpp\<close>, run by any number of threads.
  A producer takes a ticket from \<open>head\<close>, a consumer from \<open>tail\<close>; ticket \<open>i\<close> uses slot
  \<open>idx i\<close>, whose sequence number says whose turn it is. Each atomic access and each access to
  the storage of a slot is one step of a thread, so every interleaving is a schedule: a list of
  thread numbers with the call each would start if it is between calls.

  \<open>try_emplace\<close> assigns to a \<open>const\<close> ticket and cannot be instantiated, and \<open>try_push\<close> drops its
  result; the model reads the ticket as a variable, as in \<open>try_pop\<close>, and the result as returned.
  The element operations do not throw (the class asserts so).
\<close>

section \<open>The code\<close>

record 'a slot =
  sequence :: u64
  data :: "'a option"

text \<open>
  Where a thread is. \<open>pop\<close> and \<open>try_pop\<close> end with the same three statements, the \<open>Take\<close> states,
  which carry what the call returns (\<open>None\<close> for \<open>pop\<close>), and \<open>emplace\<close> and \<open>try_emplace\<close> with the
  same two. The flags of \<open>Try_Reload\<close> and \<open>Try_Push_Reload\<close> are not part of the code: they record
  whether, at the failed check, the ticket was the current one and its element was not yet
  published, or the slot not yet given back by the consumer one lap before.
\<close>

datatype 'a pc =
    Idle "bool option"       \<comment> \<open>between calls, with the result of a last \<open>try_emplace\<close> or \<open>try_pop\<close>\<close>
  | Push_Wait u64 'a
  | Push_Construct u64 'a "bool option"
  | Push_Store u64 "bool option"
  | Try_Push_Check u64 'a
  | Try_Push_Cas u64 'a
  | Try_Push_Reload u64 'a bool
  | Pop_Wait u64
  | Take_Move u64 "bool option"
  | Take_Destruct u64 "bool option"
  | Take_Store u64 "bool option"
  | Try_Check u64
  | Try_Cas u64
  | Try_Reload u64 bool

datatype 'a call = Emplace 'a | Try_Emplace 'a | Pop | Try_Pop

text \<open>\<open>push\<close> and \<open>try_push\<close>, of a copied or moved element.\<close>

definition push :: "'a \<Rightarrow> 'a call" where
  "push v = Emplace v"

definition try_push :: "'a \<Rightarrow> 'a call" where
  "try_push v = Try_Emplace v"

text \<open>
  The state. The last five fields record history: what tickets were issued for, which tickets
  were published by a producer, what consumers received, which slots they gave back, and whether a step has constructed an
  element over a live one or moved from or destroyed a dead one.
\<close>

record 'a queue =
  slots :: "'a slot list"
  head :: u64
  tail :: u64
  pc :: "nat \<Rightarrow> 'a pc"
  in_log :: "'a list"
  published :: "nat list"
  out_log :: "(nat \<times> 'a) list"
  released :: "nat list"
  broken :: bool

definition queue_init :: "nat \<Rightarrow> 'a queue" where
  "queue_init capacity =
     \<lparr>slots = replicate capacity \<lparr>sequence = 0, data = None\<rparr>, head = 0, tail = 0,
      pc = (\<lambda>_. Idle None), in_log = [], published = [], out_log = [], released = [], broken = False\<rparr>"

definition size_of :: "'a queue \<Rightarrow> u64" where
  "size_of q = of_nat (length (slots q))"

definition idx :: "'a queue \<Rightarrow> u64 \<Rightarrow> u64" where
  "idx q i = i mod size_of q"

definition turn :: "'a queue \<Rightarrow> u64 \<Rightarrow> u64" where
  "turn q i = i div size_of q"

definition acquire_turn :: "'a queue \<Rightarrow> u64 \<Rightarrow> u64" where
  "acquire_turn q i = 2 * turn q i"

definition release_turn :: "'a queue \<Rightarrow> u64 \<Rightarrow> u64" where
  "release_turn q i = 2 * turn q i + 1"

definition slot_of :: "'a queue \<Rightarrow> u64 \<Rightarrow> 'a slot" where
  "slot_of q ticket = slots q ! unat (idx q ticket)"

definition store_sequence :: "u64 \<Rightarrow> u64 \<Rightarrow> 'a queue \<Rightarrow> 'a queue" where
  "store_sequence ticket s q =
     q\<lparr>slots := (slots q)[unat (idx q ticket) := (slot_of q ticket)\<lparr>sequence := s\<rparr>]\<rparr>"

definition construct :: "u64 \<Rightarrow> 'a \<Rightarrow> 'a queue \<Rightarrow> 'a queue" where
  "construct ticket v q =
     q\<lparr>slots := (slots q)[unat (idx q ticket) := (slot_of q ticket)\<lparr>data := Some v\<rparr>],
       broken := broken q \<or> data (slot_of q ticket) \<noteq> None\<rparr>"

definition destruct :: "u64 \<Rightarrow> 'a queue \<Rightarrow> 'a queue" where
  "destruct ticket q =
     q\<lparr>slots := (slots q)[unat (idx q ticket) := (slot_of q ticket)\<lparr>data := None\<rparr>],
       broken := broken q \<or> data (slot_of q ticket) = None\<rparr>"

definition move_out :: "u64 \<Rightarrow> 'a queue \<Rightarrow> 'a queue" where
  "move_out ticket q =
     (case data (slot_of q ticket) of
        None \<Rightarrow> q\<lparr>broken := True\<rparr>
      | Some v \<Rightarrow> q\<lparr>out_log := out_log q @ [(unat ticket, v)]\<rparr>)"

definition goto :: "nat \<Rightarrow> 'a pc \<Rightarrow> 'a queue \<Rightarrow> 'a queue" where
  "goto p c q = q\<lparr>pc := (pc q)(p := c)\<rparr>"

text \<open>The next step of thread \<open>p\<close>, starting \<open>call\<close> if it is between calls.\<close>

definition start_call :: "nat \<Rightarrow> 'a call \<Rightarrow> 'a queue \<Rightarrow> 'a queue" where
  "start_call p call q =
     (case call of
        Emplace v \<Rightarrow>
          goto p (Push_Wait (head q) v) (q\<lparr>head := head q + 1, in_log := in_log q @ [v]\<rparr>)
      | Try_Emplace v \<Rightarrow> goto p (Try_Push_Check (head q) v) q
      | Pop \<Rightarrow> goto p (Pop_Wait (tail q)) (q\<lparr>tail := tail q + 1\<rparr>)
      | Try_Pop \<Rightarrow> goto p (Try_Check (tail q)) q)"

definition emplace_step :: "nat \<Rightarrow> 'a pc \<Rightarrow> 'a queue \<Rightarrow> 'a queue" where
  "emplace_step p c q =
     (case c of
        Push_Wait ticket v \<Rightarrow>
          if acquire_turn q ticket = sequence (slot_of q ticket)
          then goto p (Push_Construct ticket v None) q else q
      | Push_Construct ticket v r \<Rightarrow> goto p (Push_Store ticket r) (construct ticket v q)
      | Push_Store ticket r \<Rightarrow>
          goto p (Idle r)
            ((store_sequence ticket (release_turn q ticket) q)
               \<lparr>published := unat ticket # published q\<rparr>)
      | _ \<Rightarrow> q)"

definition try_emplace_step :: "nat \<Rightarrow> 'a pc \<Rightarrow> 'a queue \<Rightarrow> 'a queue" where
  "try_emplace_step p c q =
     (case c of
        Try_Push_Check ticket v \<Rightarrow>
          if acquire_turn q ticket = sequence (slot_of q ticket)
          then goto p (Try_Push_Cas ticket v) q
          else goto p (Try_Push_Reload ticket v
                 (head q = ticket \<and> length (slots q) \<le> unat ticket \<and>
                  unat ticket - length (slots q) \<notin> set (released q))) q
      | Try_Push_Cas ticket v \<Rightarrow>
          if head q = ticket
          then goto p (Push_Construct ticket v (Some True))
                 (q\<lparr>head := ticket + 1, in_log := in_log q @ [v]\<rparr>)
          else goto p (Try_Push_Check (head q) v) q
      | Try_Push_Reload prev_ticket v _ \<Rightarrow>
          if head q = prev_ticket then goto p (Idle (Some False)) q
          else goto p (Try_Push_Check (head q) v) q
      | _ \<Rightarrow> q)"

definition pop_step :: "nat \<Rightarrow> 'a pc \<Rightarrow> 'a queue \<Rightarrow> 'a queue" where
  "pop_step p c q =
     (case c of
        Pop_Wait ticket \<Rightarrow>
          if release_turn q ticket = sequence (slot_of q ticket)
          then goto p (Take_Move ticket None) q else q
      | Take_Move ticket r \<Rightarrow> goto p (Take_Destruct ticket r) (move_out ticket q)
      | Take_Destruct ticket r \<Rightarrow> goto p (Take_Store ticket r) (destruct ticket q)
      | Take_Store ticket r \<Rightarrow>
          goto p (Idle r)
            ((store_sequence ticket (release_turn q ticket + 1) q)
               \<lparr>released := unat ticket # released q\<rparr>)
      | _ \<Rightarrow> q)"

definition try_pop_step :: "nat \<Rightarrow> 'a pc \<Rightarrow> 'a queue \<Rightarrow> 'a queue" where
  "try_pop_step p c q =
     (case c of
        Try_Check ticket \<Rightarrow>
          if release_turn q ticket = sequence (slot_of q ticket)
          then goto p (Try_Cas ticket) q
          else goto p (Try_Reload ticket (tail q = ticket \<and> unat ticket \<notin> set (published q))) q
      | Try_Cas ticket \<Rightarrow>
          if tail q = ticket
          then goto p (Take_Move ticket (Some True)) (q\<lparr>tail := ticket + 1\<rparr>)
          else goto p (Try_Check (tail q)) q
      | Try_Reload prev_ticket _ \<Rightarrow>
          if tail q = prev_ticket then goto p (Idle (Some False)) q
          else goto p (Try_Check (tail q)) q
      | _ \<Rightarrow> q)"

definition thread_step :: "nat \<Rightarrow> 'a call \<Rightarrow> 'a queue \<Rightarrow> 'a queue" where
  "thread_step p call q =
     (case pc q p of
        Idle _ \<Rightarrow> start_call p call q
      | Push_Wait _ _ \<Rightarrow> emplace_step p (pc q p) q
      | Push_Construct _ _ _ \<Rightarrow> emplace_step p (pc q p) q
      | Push_Store _ _ \<Rightarrow> emplace_step p (pc q p) q
      | Try_Push_Check _ _ \<Rightarrow> try_emplace_step p (pc q p) q
      | Try_Push_Cas _ _ \<Rightarrow> try_emplace_step p (pc q p) q
      | Try_Push_Reload _ _ _ \<Rightarrow> try_emplace_step p (pc q p) q
      | Pop_Wait _ \<Rightarrow> pop_step p (pc q p) q
      | Take_Move _ _ \<Rightarrow> pop_step p (pc q p) q
      | Take_Destruct _ _ \<Rightarrow> pop_step p (pc q p) q
      | Take_Store _ _ \<Rightarrow> pop_step p (pc q p) q
      | _ \<Rightarrow> try_pop_step p (pc q p) q)"

fun run :: "(nat \<times> 'a call) list \<Rightarrow> 'a queue \<Rightarrow> 'a queue" where
  "run [] q = q"
| "run ((p, call) # sched) q = run sched (thread_step p call q)"

text \<open>
  \<open>slot::~slot\<close>: the destructor of the queue destroys the element of a slot whose sequence is
  odd.
\<close>

definition slot_destructs :: "'a slot \<Rightarrow> bool" where
  "slot_destructs s \<longleftrightarrow> sequence s AND 1 \<noteq> 0"

section \<open>Tickets and turns as numbers\<close>

definition sq :: "'a queue \<Rightarrow> nat \<Rightarrow> nat" where
  "sq q j = unat (sequence (slots q ! j))"

definition dt :: "'a queue \<Rightarrow> nat \<Rightarrow> 'a option" where
  "dt q j = data (slots q ! j)"

definition pos :: "'a queue \<Rightarrow> nat \<Rightarrow> nat" where
  "pos q t = t mod length (slots q)"

definition lap :: "'a queue \<Rightarrow> nat \<Rightarrow> nat" where
  "lap q t = t div length (slots q)"

definition push_done :: "'a queue \<Rightarrow> nat \<Rightarrow> bool" where
  "push_done q t \<longleftrightarrow> 2 * lap q t < sq q (pos q t)"

definition take_done :: "'a queue \<Rightarrow> nat \<Rightarrow> bool" where
  "take_done q t \<longleftrightarrow> 2 * lap q t + 1 < sq q (pos q t)"

definition at_push :: "'a queue \<Rightarrow> nat \<Rightarrow> bool" where
  "at_push q t \<longleftrightarrow> sq q (pos q t) = 2 * lap q t"

definition at_take :: "'a queue \<Rightarrow> nat \<Rightarrow> bool" where
  "at_take q t \<longleftrightarrow> sq q (pos q t) = 2 * lap q t + 1"

lemma same_place: "pos q t = pos q u \<Longrightarrow> lap q t = lap q u \<Longrightarrow> t = u"
  unfolding pos_def lap_def by (metis div_mult_mod_eq)

lemma pos_less: "0 < length (slots q) \<Longrightarrow> pos q t < length (slots q)"
  by (simp add: pos_def)

lemma at_push_unique: "at_push q t \<Longrightarrow> at_push q u \<Longrightarrow> pos q t = pos q u \<Longrightarrow> t = u"
  by (auto simp: at_push_def intro: same_place)

lemma at_take_unique: "at_take q t \<Longrightarrow> at_take q u \<Longrightarrow> pos q t = pos q u \<Longrightarrow> t = u"
  by (auto simp: at_take_def intro: same_place)

lemma at_push_not_take: "at_push q t \<Longrightarrow> at_take q u \<Longrightarrow> pos q t \<noteq> pos q u"
  unfolding at_push_def at_take_def by (metis dvd_triv_left even_plus_one_iff)

lemma at_push_even: "at_push q t \<Longrightarrow> even (sq q (pos q t))"
  by (simp add: at_push_def)

lemma at_take_odd: "at_take q t \<Longrightarrow> odd (sq q (pos q t))"
  by (simp add: at_take_def)

text \<open>The size of the queue and the tickets are small enough that nothing wraps.\<close>

definition fits :: "'a queue \<Rightarrow> bool" where
  "fits q \<longleftrightarrow> 0 < length (slots q) \<and> length (slots q) < 2 ^ 63 \<and>
     unat (head q) < 2 ^ 63 \<and> unat (tail q) < 2 ^ 63"

lemma unat_size_of: "fits q \<Longrightarrow> unat (size_of q) = length (slots q)"
  by (simp add: fits_def size_of_def unat_of_nat take_bit_nat_eq_self)

lemma unat_idx: "fits q \<Longrightarrow> unat (idx q t) = pos q (unat t)"
  by (simp add: idx_def pos_def unat_mod unat_size_of)

lemma unat_turn: "fits q \<Longrightarrow> unat (turn q t) = lap q (unat t)"
  by (simp add: turn_def lap_def unat_div unat_size_of)

lemma lap_le: "lap q t \<le> t"
  by (simp add: lap_def)

lemma unat_acquire_turn:
  assumes "fits q" and "unat t < 2 ^ 63"
  shows "unat (acquire_turn q t) = 2 * lap q (unat t)"
  using assms lap_le [of q "unat t"]
  by (simp add: acquire_turn_def unat_word_ariths unat_turn)

lemma unat_release_turn:
  assumes "fits q" and "unat t < 2 ^ 63"
  shows "unat (release_turn q t) = 2 * lap q (unat t) + 1"
  using assms lap_le [of q "unat t"]
  by (simp add: release_turn_def unat_word_ariths unat_turn)

lemma unat_release_turn_Suc:
  assumes "fits q" and "unat t < unat (tail q)"
  shows "unat (release_turn q t + 1) = 2 * lap q (unat t) + 2"
proof -
  have "unat t < 2 ^ 63" and "unat t + 1 < 2 ^ 63" using assms by (auto simp: fits_def)
  then show ?thesis
    using unat_release_turn [of q t] assms lap_le [of q "unat t"]
    by (simp add: unat_word_ariths)
qed

lemma sequence_slot_of: "fits q \<Longrightarrow> unat (sequence (slot_of q t)) = sq q (pos q (unat t))"
  by (simp add: slot_of_def sq_def unat_idx)

lemma acquire_check:
  "fits q \<Longrightarrow> unat t < 2 ^ 63 \<Longrightarrow>
     acquire_turn q t = sequence (slot_of q t) \<longleftrightarrow> at_push q (unat t)"
  by (auto simp: word_unat_eq_iff unat_acquire_turn sequence_slot_of at_push_def)

lemma release_check:
  "fits q \<Longrightarrow> unat t < 2 ^ 63 \<Longrightarrow>
     release_turn q t = sequence (slot_of q t) \<longleftrightarrow> at_take q (unat t)"
  by (auto simp: word_unat_eq_iff unat_release_turn sequence_slot_of at_take_def)

subsection \<open>What each statement changes\<close>

lemma length_slots [simp]:
  "length (slots (store_sequence t s q)) = length (slots q)"
  "length (slots (construct t v q)) = length (slots q)"
  "length (slots (destruct t q)) = length (slots q)"
  "length (slots (move_out t q)) = length (slots q)"
  "length (slots (goto p c q)) = length (slots q)"
  by (simp_all add: store_sequence_def construct_def destruct_def move_out_def goto_def
      split: option.split)

lemma same_slots:
  assumes "slots q' = slots q"
  shows "sq q' = sq q" "dt q' = dt q" "pos q' = pos q" "lap q' = lap q"
  using assms by (auto simp: sq_def dt_def pos_def lap_def fun_eq_iff)

lemma same_slots_done:
  assumes "slots q' = slots q"
  shows "push_done q' = push_done q" "take_done q' = take_done q"
    "at_push q' = at_push q" "at_take q' = at_take q"
  using same_slots [OF assms]
  by (auto simp: push_done_def take_done_def at_push_def at_take_def fun_eq_iff)

lemma slots_goto [simp]: "slots (goto p c q) = slots q"
  by (simp add: goto_def)

lemma slots_move_out [simp]: "slots (move_out t q) = slots q"
  by (simp add: move_out_def split: option.split)

lemma pos_lap_store [simp]:
  "pos (store_sequence t s q) = pos q" "lap (store_sequence t s q) = lap q"
  "pos (construct t v q) = pos q" "lap (construct t v q) = lap q"
  "pos (destruct t q) = pos q" "lap (destruct t q) = lap q"
  by (simp_all add: pos_def lap_def fun_eq_iff)

lemma sq_store:
  assumes "fits q"
  shows "sq (store_sequence t s q) j = (if j = pos q (unat t) then unat s else sq q j)"
  using assms pos_less [of q "unat t"]
  by (auto simp: sq_def store_sequence_def unat_idx fits_def)

lemma dt_store [simp]: "fits q \<Longrightarrow> dt (store_sequence t s q) = dt q"
  using pos_less [of q "unat t"]
  by (auto simp: fun_eq_iff dt_def store_sequence_def slot_of_def unat_idx fits_def nth_list_update)

lemma sq_construct [simp]: "fits q \<Longrightarrow> sq (construct t v q) = sq q"
  using pos_less [of q "unat t"]
  by (auto simp: fun_eq_iff sq_def construct_def slot_of_def unat_idx fits_def nth_list_update)

lemma sq_destruct [simp]: "fits q \<Longrightarrow> sq (destruct t q) = sq q"
  using pos_less [of q "unat t"]
  by (auto simp: fun_eq_iff sq_def destruct_def slot_of_def unat_idx fits_def nth_list_update)

lemma dt_construct:
  "fits q \<Longrightarrow> dt (construct t v q) j = (if j = pos q (unat t) then Some v else dt q j)"
  using pos_less [of q "unat t"]
  by (auto simp: dt_def construct_def unat_idx fits_def)

lemma dt_destruct:
  "fits q \<Longrightarrow> dt (destruct t q) j = (if j = pos q (unat t) then None else dt q j)"
  using pos_less [of q "unat t"]
  by (auto simp: dt_def destruct_def unat_idx fits_def)

lemma data_slot_of: "fits q \<Longrightarrow> data (slot_of q t) = dt q (pos q (unat t))"
  by (simp add: slot_of_def dt_def unat_idx)

lemma same_sq_done:
  assumes "sq q' = sq q" and "length (slots q') = length (slots q)"
  shows "push_done q' = push_done q" "take_done q' = take_done q"
    "at_push q' = at_push q" "at_take q' = at_take q"
  using assms by (auto simp: push_done_def take_done_def at_push_def at_take_def pos_def lap_def fun_eq_iff)

text \<open>Publishing a ticket, and giving its slot back.\<close>

lemma same_places:
  assumes "length (slots q') = length (slots q)"
  shows "pos q' = pos q" "lap q' = lap q"
  using assms by (simp_all add: pos_def lap_def fun_eq_iff)

text \<open>The four tests at a place whose sequence number is \<open>s\<close>, for a ticket of lap \<open>l\<close>.\<close>

lemma parity_facts:
  fixes k l :: nat
  shows "2 * l < 2 * k + 1 \<longleftrightarrow> 2 * l < 2 * k \<or> l = k"
    and "2 * l + 1 < 2 * k + 1 \<longleftrightarrow> 2 * l + 1 < 2 * k"
    and "2 * k + 1 \<noteq> 2 * l" and "2 * k + 2 \<noteq> 2 * l + 1"
    and "2 * l < 2 * k + 2 \<longleftrightarrow> 2 * l < 2 * k + 1"
    and "2 * l + 1 < 2 * k + 2 \<longleftrightarrow> 2 * l + 1 < 2 * k + 1 \<or> l = k"
  by arith+

lemma publish_done:
  assumes len: "length (slots q') = length (slots q)"
    and "at_push q t" and sq: "sq q' = (sq q)(pos q t := 2 * lap q t + 1)"
  shows "push_done q' u \<longleftrightarrow> push_done q u \<or> u = t"
    and "take_done q' u \<longleftrightarrow> take_done q u"
    and "at_push q' u \<longleftrightarrow> at_push q u \<and> pos q u \<noteq> pos q t"
    and "at_take q' u \<longleftrightarrow> at_take q u \<or> u = t"
proof -
  have e: "sq q (pos q t) = 2 * lap q t" using assms(2) by (simp add: at_push_def)
  have s: "lap q u = lap q t \<longleftrightarrow> u = t" if "pos q u = pos q t" using same_place that by blast
  note d = push_done_def take_done_def at_push_def at_take_def same_places [OF len]
  consider "pos q u = pos q t" | "pos q u \<noteq> pos q t" "u \<noteq> t" by blast
  then show "push_done q' u \<longleftrightarrow> push_done q u \<or> u = t"
    and "take_done q' u \<longleftrightarrow> take_done q u"
    and "at_push q' u \<longleftrightarrow> at_push q u \<and> pos q u \<noteq> pos q t"
    and "at_take q' u \<longleftrightarrow> at_take q u \<or> u = t"
  proof (atomize (full), cases, goal_cases)
    case 1
    then have v: "sq q' (pos q u) = 2 * lap q t + 1" and w: "sq q (pos q u) = 2 * lap q t"
      using sq e by simp_all
    show ?case
      unfolding d v w s [OF 1, symmetric] using 1 parity_facts [of "lap q u" "lap q t"]
        parity_facts(3) [of "lap q t" "lap q u"]
      by (auto simp del: One_nat_def)
  next
    case 2
    then have "sq q' (pos q u) = sq q (pos q u)" using sq by simp
    with 2 show ?case unfolding d by simp
  qed
qed

lemma free_done:
  assumes len: "length (slots q') = length (slots q)"
    and "at_take q t" and sq: "sq q' = (sq q)(pos q t := 2 * lap q t + 2)"
  shows "push_done q' u \<longleftrightarrow> push_done q u"
    and "take_done q' u \<longleftrightarrow> take_done q u \<or> u = t"
    and "at_take q' u \<longleftrightarrow> at_take q u \<and> pos q u \<noteq> pos q t"
    and "pos q u \<noteq> pos q t \<Longrightarrow> at_push q' u \<longleftrightarrow> at_push q u"
proof -
  have e: "sq q (pos q t) = 2 * lap q t + 1" using assms(2) by (simp add: at_take_def)
  have s: "lap q u = lap q t \<longleftrightarrow> u = t" if "pos q u = pos q t" using same_place that by blast
  note d = push_done_def take_done_def at_push_def at_take_def same_places [OF len]
  show "pos q u \<noteq> pos q t \<Longrightarrow> at_push q' u \<longleftrightarrow> at_push q u"
    unfolding d by (simp add: sq)
  consider "pos q u = pos q t" | "pos q u \<noteq> pos q t" "u \<noteq> t" by blast
  then show "push_done q' u \<longleftrightarrow> push_done q u"
    and "take_done q' u \<longleftrightarrow> take_done q u \<or> u = t"
    and "at_take q' u \<longleftrightarrow> at_take q u \<and> pos q u \<noteq> pos q t"
  proof (atomize (full), cases, goal_cases)
    case 1
    then have v: "sq q' (pos q u) = 2 * lap q t + 2" and w: "sq q (pos q u) = 2 * lap q t + 1"
      using sq e by simp_all
    show ?case
      unfolding d v w s [OF 1, symmetric] using 1 parity_facts [of "lap q u" "lap q t"]
        parity_facts(4) [of "lap q t" "lap q u"]
      by (auto simp del: One_nat_def)
  next
    case 2
    then have "sq q' (pos q u) = sq q (pos q u)" using sq by simp
    with 2 show ?case unfolding d by simp
  qed
qed

section \<open>The invariant\<close>

fun push_ticket :: "'a pc \<Rightarrow> nat option" where
  "push_ticket (Push_Wait t v) = Some (unat t)"
| "push_ticket (Push_Construct t v r) = Some (unat t)"
| "push_ticket (Push_Store t r) = Some (unat t)"
| "push_ticket _ = None"

fun take_ticket :: "'a pc \<Rightarrow> nat option" where
  "take_ticket (Pop_Wait t) = Some (unat t)"
| "take_ticket (Take_Move t r) = Some (unat t)"
| "take_ticket (Take_Destruct t r) = Some (unat t)"
| "take_ticket (Take_Store t r) = Some (unat t)"
| "take_ticket _ = None"

text \<open>What a thread knows at each place of its program.\<close>

fun pc_ok :: "'a queue \<Rightarrow> 'a pc \<Rightarrow> bool" where
  "pc_ok q (Idle r) = True"
| "pc_ok q (Push_Wait t v) =
     (unat t < unat (head q) \<and> \<not> push_done q (unat t) \<and> in_log q ! unat t = v)"
| "pc_ok q (Push_Construct t v r) =
     (r \<noteq> Some False \<and> unat t < unat (head q) \<and> at_push q (unat t) \<and> in_log q ! unat t = v \<and>
      dt q (pos q (unat t)) = None)"
| "pc_ok q (Push_Store t r) =
     (r \<noteq> Some False \<and> unat t < unat (head q) \<and> at_push q (unat t) \<and>
      dt q (pos q (unat t)) = Some (in_log q ! unat t))"
| "pc_ok q (Try_Push_Check t v) = (unat t \<le> unat (head q))"
| "pc_ok q (Try_Push_Cas t v) = (unat t \<le> unat (head q) \<and> (t = head q \<longrightarrow> at_push q (unat t)))"
| "pc_ok q (Try_Push_Reload t v b) = (unat t \<le> unat (head q) \<and> (t = head q \<longrightarrow> b))"
| "pc_ok q (Pop_Wait t) = (unat t < unat (tail q) \<and> \<not> take_done q (unat t))"
| "pc_ok q (Take_Move t r) =
     (r \<noteq> Some False \<and> unat t < unat (tail q) \<and> at_take q (unat t) \<and>
      dt q (pos q (unat t)) = Some (in_log q ! unat t))"
| "pc_ok q (Take_Destruct t r) =
     (r \<noteq> Some False \<and> unat t < unat (tail q) \<and> at_take q (unat t) \<and>
      dt q (pos q (unat t)) = Some (in_log q ! unat t))"
| "pc_ok q (Take_Store t r) =
     (r \<noteq> Some False \<and> unat t < unat (tail q) \<and> at_take q (unat t) \<and> dt q (pos q (unat t)) = None)"
| "pc_ok q (Try_Check t) = (unat t \<le> unat (tail q))"
| "pc_ok q (Try_Cas t) = (unat t \<le> unat (tail q) \<and> (t = tail q \<longrightarrow> at_take q (unat t)))"
| "pc_ok q (Try_Reload t b) = (unat t \<le> unat (tail q) \<and> (t = tail q \<longrightarrow> b))"

text \<open>
  The tickets threads hold at given places: \<open>held f\<close> for a partial function from places to
  tickets. Only one thread can hold a given ticket.
\<close>

fun deliver_ticket :: "'a pc \<Rightarrow> nat option" where
  "deliver_ticket (Take_Destruct t r) = Some (unat t)"
| "deliver_ticket (Take_Store t r) = Some (unat t)"
| "deliver_ticket _ = None"

fun store_ticket :: "'a pc \<Rightarrow> nat option" where
  "store_ticket (Push_Store t r) = Some (unat t)"
| "store_ticket _ = None"

fun clear_ticket :: "'a pc \<Rightarrow> nat option" where
  "clear_ticket (Take_Store t r) = Some (unat t)"
| "clear_ticket _ = None"

definition held :: "('a pc \<Rightarrow> nat option) \<Rightarrow> (nat \<Rightarrow> 'a pc) \<Rightarrow> nat set" where
  "held f c = {t. \<exists>p. f (c p) = Some t}"

definition exclusive :: "('a pc \<Rightarrow> nat option) \<Rightarrow> (nat \<Rightarrow> 'a pc) \<Rightarrow> bool" where
  "exclusive f c \<longleftrightarrow> (\<forall>p p' t. f (c p) = Some t \<longrightarrow> f (c p') = Some t \<longrightarrow> p = p')"

lemma exclusiveD: "exclusive f c \<Longrightarrow> f (c p) = Some t \<Longrightarrow> f (c p') = Some t \<Longrightarrow> p = p'"
  by (auto simp: exclusive_def)

lemma held_update:
  assumes "exclusive f c"
  shows "held f (c(p := d)) = (held f c - set_option (f (c p))) \<union> set_option (f d)"
  using assms unfolding held_def exclusive_def
  by (auto split: if_splits)

lemma held_update_same: "f d = f (c p) \<Longrightarrow> held f (c(p := d)) = held f c"
  unfolding held_def by (auto split: if_splits)

lemma exclusive_update:
  "exclusive f c \<Longrightarrow> set_option (f d) \<inter> held f c \<subseteq> set_option (f (c p)) \<Longrightarrow> exclusive f (c(p := d))"
  unfolding exclusive_def held_def by (auto split: if_splits)

lemma exclusive_sub:
  assumes "exclusive g c" and "\<And>x t. f x = Some t \<Longrightarrow> g x = Some t"
  shows "exclusive f c"
  using assms unfolding exclusive_def by metis

lemma sub_tickets:
  "deliver_ticket x = Some t \<Longrightarrow> take_ticket x = Some t"
  "clear_ticket x = Some t \<Longrightarrow> take_ticket x = Some t"
  "store_ticket x = Some t \<Longrightarrow> push_ticket x = Some t"
  by (cases x; simp)+

text \<open>Every issued ticket is finished or held by exactly one thread.\<close>

definition owners :: "'a queue \<Rightarrow> bool" where
  "owners q \<longleftrightarrow>
     exclusive push_ticket (pc q) \<and> exclusive take_ticket (pc q) \<and>
     {t. push_done q t} \<union> held push_ticket (pc q) = {..<unat (head q)} \<and>
     {t. take_done q t} \<union> held take_ticket (pc q) = {..<unat (tail q)}"

text \<open>Which storage holds a live element.\<close>

definition storage :: "'a queue \<Rightarrow> bool" where
  "storage q \<longleftrightarrow>
     (\<forall>j < length (slots q). even (sq q j) \<longrightarrow> j \<notin> pos q ` held store_ticket (pc q) \<longrightarrow>
        dt q j = None) \<and>
     (\<forall>t. at_take q t \<longrightarrow> t \<notin> held clear_ticket (pc q) \<longrightarrow>
        dt q (pos q t) = Some (in_log q ! t))"

definition logs :: "'a queue \<Rightarrow> bool" where
  "logs q \<longleftrightarrow>
     set (published q) = {t. push_done q t} \<and> set (released q) = {t. take_done q t} \<and> distinct (map fst (out_log q)) \<and>
     (\<forall>(t, v) \<in> set (out_log q). v = in_log q ! t \<and> push_done q t) \<and>
     fst ` set (out_log q) = {t. take_done q t} \<union> held deliver_ticket (pc q)"

definition queue_inv :: "'a queue \<Rightarrow> bool" where
  "queue_inv q \<longleftrightarrow>
     fits q \<and> length (in_log q) = unat (head q) \<and> (\<forall>p. pc_ok q (pc q p)) \<and>
     owners q \<and> storage q \<and> logs q \<and> \<not> broken q"

lemma goto_fields [simp]:
  "head (goto p c q) = head q" "tail (goto p c q) = tail q" "in_log (goto p c q) = in_log q"
  "published (goto p c q) = published q" "out_log (goto p c q) = out_log q"
  "released (goto p c q) = released q"
  "broken (goto p c q) = broken q" "pc (goto p c q) = (pc q)(p := c)"
  by (simp_all add: goto_def)

lemmas goto_same [simp] = same_slots [OF slots_goto] same_slots_done [OF slots_goto]

lemma pc_ok_goto [simp]: "pc_ok (goto p c q) c' = pc_ok q c'"
  by (cases c') simp_all

lemma pc_ok_ticket:
  "pc_ok q c \<Longrightarrow> push_ticket c = Some t \<Longrightarrow> t < unat (head q) \<and> \<not> push_done q t"
  by (cases c) (auto simp: push_done_def at_push_def)

lemma pc_ok_take_ticket:
  "pc_ok q c \<Longrightarrow> take_ticket c = Some t \<Longrightarrow> t < unat (tail q) \<and> \<not> take_done q t"
  by (cases c) (auto simp: take_done_def at_take_def)

lemma inv_exclusive:
  assumes "queue_inv q"
  shows "exclusive push_ticket (pc q)" "exclusive take_ticket (pc q)"
    "exclusive store_ticket (pc q)" "exclusive clear_ticket (pc q)" "exclusive deliver_ticket (pc q)"
proof -
  show *: "exclusive push_ticket (pc q)" "exclusive take_ticket (pc q)"
    using assms by (auto simp: queue_inv_def owners_def)
  show "exclusive store_ticket (pc q)" "exclusive clear_ticket (pc q)" "exclusive deliver_ticket (pc q)"
    using exclusive_sub [OF *(1)] exclusive_sub [OF *(2)] sub_tickets by metis+
qed

text \<open>A step that only moves the thread.\<close>

lemma inv_goto:
  assumes inv: "queue_inv q" and ok: "pc_ok q c"
    and t: "push_ticket c = push_ticket (pc q p)" "take_ticket c = take_ticket (pc q p)"
      "store_ticket c = store_ticket (pc q p)" "clear_ticket c = clear_ticket (pc q p)"
      "deliver_ticket c = deliver_ticket (pc q p)"
  shows "queue_inv (goto p c q)"
  using inv ok t
  by (auto simp: queue_inv_def fits_def owners_def storage_def logs_def held_update_same
      intro: exclusive_update)

text \<open>Taking a ticket.\<close>

lemma unat_succ: "unat (x :: u64) + 1 < 2 ^ 63 \<Longrightarrow> unat (x + 1) = unat x + 1"
  by (simp add: unat_word_ariths)

lemma new_ticket_fresh:
  assumes "queue_inv q"
  shows "\<not> push_done q (unat (head q))" "unat (head q) \<notin> held push_ticket (pc q)"
    "\<not> take_done q (unat (tail q))" "unat (tail q) \<notin> held take_ticket (pc q)"
  using assms by (auto simp: queue_inv_def owners_def)

lemma inv_bounds:
  assumes "queue_inv q"
  shows "push_done q t \<Longrightarrow> t < unat (head q)" "take_done q t \<Longrightarrow> t < unat (tail q)"
    "at_take q t \<Longrightarrow> t < unat (head q)"
proof -
  show *: "push_done q t \<Longrightarrow> t < unat (head q)" "take_done q t \<Longrightarrow> t < unat (tail q)"
    using assms by (auto simp: queue_inv_def owners_def)
  show "at_take q t \<Longrightarrow> t < unat (head q)"
    using *(1) by (simp add: at_take_def push_done_def)
qed

lemma next_push_place_empty:
  assumes inv: "queue_inv q" and a: "at_push q (unat (head q))"
  shows "dt q (pos q (unat (head q))) = None"
proof -
  have fit: "fits q" and sto: "storage q" and ok: "\<And>p. pc_ok q (pc q p)"
    using inv by (auto simp: queue_inv_def)
  have "pos q (unat (head q)) \<notin> pos q ` held store_ticket (pc q)"
  proof
    assume "pos q (unat (head q)) \<in> pos q ` held store_ticket (pc q)"
    then obtain p u where u: "store_ticket (pc q p) = Some u" "pos q u = pos q (unat (head q))"
      by (auto simp: held_def)
    have "at_push q u \<and> u < unat (head q)" using ok [of p] u(1) by (cases "pc q p") auto
    then show False using at_push_unique a u(2) by blast
  qed
  then show ?thesis
    using sto fit at_push_even [OF a] pos_less [of q] unfolding storage_def fits_def by blast
qed

lemma inv_push_ticket:
  assumes inv: "queue_inv q" and b: "unat (head q) + 1 < 2 ^ 63"
    and p: "push_ticket (pc q p) = None" "take_ticket (pc q p) = None"
    and c: "c = Push_Wait (head q) v \<or> c = Push_Construct (head q) v r \<and> at_push q (unat (head q)) \<and> r \<noteq> Some False"
  shows "queue_inv (goto p c (q\<lparr>head := head q + 1, in_log := in_log q @ [v]\<rparr>))"
proof -
  let ?q = "q\<lparr>head := head q + 1, in_log := in_log q @ [v]\<rparr>"
  let ?q' = "goto p c ?q"
  have s: "slots ?q = slots q" by simp
  note [simp] = same_slots [OF s] same_slots_done [OF s] unat_succ [OF b]
  note fresh = new_ticket_fresh [OF inv] and ex = inv_exclusive [OF inv] and lt = inv_bounds [OF inv]
  have len: "length (in_log q) = unat (head q)" and ok: "\<And>p. pc_ok q (pc q p)"
    and own: "owners q" and sto: "storage q" and log: "logs q" and nb: "\<not> broken q" and fit: "fits q"
    using inv by (auto simp: queue_inv_def)
  have old: "store_ticket (pc q p) = None" "clear_ticket (pc q p) = None" "deliver_ticket (pc q p) = None"
    using p by (cases "pc q p"; simp)+
  have new: "push_ticket c = Some (unat (head q))" "take_ticket c = None" "store_ticket c = None"
    "clear_ticket c = None" "deliver_ticket c = None"
    using c by auto
  have lookup: "t < unat (head q) \<Longrightarrow> (in_log q @ [v]) ! t = in_log q ! t" for t
    using len by (simp add: nth_append)
  have "x \<noteq> head q + 1" if "unat x \<le> unat (head q)" for x
    using that unat_succ [OF b] by auto
  then have okq: "pc_ok q d \<Longrightarrow> pc_ok ?q d" for d
    by (cases d) (auto simp: lookup lt)
  have "pc_ok ?q c"
    using c fresh(1) len next_push_place_empty [OF inv] by (auto simp: nth_append)
  with ok okq have "\<forall>p'. pc_ok ?q' (pc ?q' p')" by simp
  moreover have "owners ?q'"
  proof -
    have "held push_ticket (pc ?q') = insert (unat (head q)) (held push_ticket (pc q))"
      using held_update [OF ex(1), of p] p new by simp
    moreover have "exclusive push_ticket (pc ?q')" "exclusive take_ticket (pc ?q')"
      using fresh p new ex by (auto intro!: exclusive_update)
    ultimately show ?thesis
      using own p new by (simp add: owners_def held_update_same lessThan_Suc)
  qed
  moreover have "storage ?q'"
    using sto old new unfolding storage_def by (auto simp: lookup lt held_update_same)
  moreover have "logs ?q'"
    using log old new unfolding logs_def by (auto simp: lookup lt held_update_same)
  ultimately show ?thesis
    using fit nb len b by (simp add: queue_inv_def fits_def)
qed

lemma inv_take_ticket:
  assumes inv: "queue_inv q" and b: "unat (tail q) + 1 < 2 ^ 63"
    and p: "push_ticket (pc q p) = None" "take_ticket (pc q p) = None"
    and c: "c = Pop_Wait (tail q) \<or> c = Take_Move (tail q) r \<and> at_take q (unat (tail q)) \<and> r \<noteq> Some False"
  shows "queue_inv (goto p c (q\<lparr>tail := tail q + 1\<rparr>))"
proof -
  let ?q = "q\<lparr>tail := tail q + 1\<rparr>"
  let ?q' = "goto p c ?q"
  have s: "slots ?q = slots q" by simp
  note [simp] = same_slots [OF s] same_slots_done [OF s] unat_succ [OF b]
  note fresh = new_ticket_fresh [OF inv] and ex = inv_exclusive [OF inv]
  have ok: "\<And>p. pc_ok q (pc q p)"
    and own: "owners q" and sto: "storage q" and log: "logs q" and nb: "\<not> broken q" and fit: "fits q"
    and len: "length (in_log q) = unat (head q)"
    using inv by (auto simp: queue_inv_def)
  have old: "store_ticket (pc q p) = None" "clear_ticket (pc q p) = None" "deliver_ticket (pc q p) = None"
    using p by (cases "pc q p"; simp)+
  have new: "push_ticket c = None" "take_ticket c = Some (unat (tail q))" "store_ticket c = None"
    "clear_ticket c = None" "deliver_ticket c = None"
    using c by auto
  have "x \<noteq> tail q + 1" if "unat x \<le> unat (tail q)" for x
    using that unat_succ [OF b] by auto
  then have okq: "pc_ok q d \<Longrightarrow> pc_ok ?q d" for d by (cases d) auto
  have "dt q (pos q (unat (tail q))) = Some (in_log q ! unat (tail q))" if "at_take q (unat (tail q))"
  proof -
    have "unat (tail q) \<notin> held clear_ticket (pc q)"
      using fresh(4) sub_tickets(2) unfolding held_def by blast
    with sto that show ?thesis by (simp add: storage_def)
  qed
  with c fresh(3) have "pc_ok ?q c" by auto
  with ok okq have "\<forall>p'. pc_ok ?q' (pc ?q' p')" by simp
  moreover have "owners ?q'"
  proof -
    have "held take_ticket (pc ?q') = insert (unat (tail q)) (held take_ticket (pc q))"
      using held_update [OF ex(2), of p] p new by simp
    moreover have "exclusive push_ticket (pc ?q')" "exclusive take_ticket (pc ?q')"
      using fresh p new ex by (auto intro!: exclusive_update)
    ultimately show ?thesis
      using own p new by (simp add: owners_def held_update_same lessThan_Suc)
  qed
  moreover have "storage ?q'"
    using sto old new unfolding storage_def by (auto simp: held_update_same)
  moreover have "logs ?q'"
    using log old new unfolding logs_def by (auto simp: held_update_same)
  ultimately show ?thesis
    using fit nb len b by (simp add: queue_inv_def fits_def)
qed

text \<open>Two threads that work on a slot at the same time work on different slots.\<close>

fun active_ticket :: "'a pc \<Rightarrow> nat option" where
  "active_ticket (Push_Construct t v r) = Some (unat t)"
| "active_ticket (Push_Store t r) = Some (unat t)"
| "active_ticket (Take_Move t r) = Some (unat t)"
| "active_ticket (Take_Destruct t r) = Some (unat t)"
| "active_ticket (Take_Store t r) = Some (unat t)"
| "active_ticket _ = None"

lemma active_cases:
  assumes "pc_ok q c" and "active_ticket c = Some t"
  shows "push_ticket c = Some t \<and> at_push q t \<or> take_ticket c = Some t \<and> at_take q t"
  using assms by (cases c) auto

lemma inv_separate:
  assumes inv: "queue_inv q" and "active_ticket (pc q p) = Some t"
    and "active_ticket (pc q p') = Some t'" and "p \<noteq> p'"
  shows "pos q t \<noteq> pos q t'"
proof
  assume e: "pos q t = pos q t'"
  have ok: "\<And>p. pc_ok q (pc q p)" using inv by (simp add: queue_inv_def)
  note ex = inv_exclusive [OF inv]
  have "push_ticket (pc q p) = Some t \<and> at_push q t \<or> take_ticket (pc q p) = Some t \<and> at_take q t"
    and "push_ticket (pc q p') = Some t' \<and> at_push q t' \<or> take_ticket (pc q p') = Some t' \<and> at_take q t'"
    using active_cases ok assms by blast+
  then show False
    using at_push_unique at_take_unique at_push_not_take e exclusiveD [OF ex(1)]
      exclusiveD [OF ex(2)] \<open>p \<noteq> p'\<close> by metis
qed

lemma construct_fields [simp]:
  "head (construct t v q) = head q" "tail (construct t v q) = tail q"
  "in_log (construct t v q) = in_log q" "published (construct t v q) = published q"
  "out_log (construct t v q) = out_log q" "pc (construct t v q) = pc q"
  "released (construct t v q) = released q" "released (destruct t q) = released q"
  "released (store_sequence t s q) = released q" "released (move_out t q) = released q"
  "head (destruct t q) = head q" "tail (destruct t q) = tail q"
  "in_log (destruct t q) = in_log q" "published (destruct t q) = published q"
  "out_log (destruct t q) = out_log q" "pc (destruct t q) = pc q"
  "head (store_sequence t s q) = head q" "tail (store_sequence t s q) = tail q"
  "in_log (store_sequence t s q) = in_log q" "published (store_sequence t s q) = published q"
  "out_log (store_sequence t s q) = out_log q" "pc (store_sequence t s q) = pc q"
  "broken (store_sequence t s q) = broken q"
  "head (move_out t q) = head q" "tail (move_out t q) = tail q"
  "in_log (move_out t q) = in_log q" "published (move_out t q) = published q"
  "pc (move_out t q) = pc q"
  by (simp_all add: construct_def destruct_def store_sequence_def move_out_def split: option.split)

text \<open>A step that writes the storage of the slot of one active thread leaves the others alone.\<close>

lemma pc_ok_other_storage:
  assumes "pc_ok q c" and "\<And>u. active_ticket c = Some u \<Longrightarrow> dt q' (pos q u) = dt q (pos q u)"
    and "sq q' = sq q" "length (slots q') = length (slots q)"
    and "head q' = head q" "tail q' = tail q" "in_log q' = in_log q"
  shows "pc_ok q' c"
  using assms(1,2) same_sq_done [OF assms(3,4)] same_places [OF assms(4)] assms(5-)
  by (cases c) auto

lemma inv_construct:
  assumes inv: "queue_inv q" and p: "pc q p = Push_Construct t v r"
  shows "queue_inv (goto p (Push_Store t r) (construct t v q))"
proof -
  let ?q = "construct t v q" and ?q' = "goto p (Push_Store t r) (construct t v q)"
  have ok: "\<And>p. pc_ok q (pc q p)"
    and own: "owners q" and sto: "storage q" and log: "logs q" and nb: "\<not> broken q" and fit: "fits q"
    and len: "length (in_log q) = unat (head q)"
    using inv by (auto simp: queue_inv_def)
  have s: "sq ?q = sq q" "length (slots ?q) = length (slots q)" using fit by simp_all
  note [simp] = same_sq_done [OF s] dt_construct [OF fit] and ex = inv_exclusive [OF inv]
  have me: "r \<noteq> Some False" "unat t < unat (head q)" "at_push q (unat t)" "in_log q ! unat t = v"
    "dt q (pos q (unat t)) = None"
    using ok [of p] p by auto
  have "pc_ok ?q (pc q p')" if "p' \<noteq> p" for p'
    using ok [of p'] inv_separate [OF inv, of p "unat t" p'] that p fit
    by (intro pc_ok_other_storage [of q "pc q p'" ?q]) auto
  moreover have "pc_ok ?q (Push_Store t r)"
    unfolding pc_ok.simps construct_fields same_sq_done [OF s] pos_lap_store dt_construct [OF fit]
    using me by simp
  ultimately have "\<forall>p'. pc_ok ?q' (pc ?q' p')" by (simp del: pc_ok.simps)
  moreover have "held store_ticket (pc ?q') = insert (unat t) (held store_ticket (pc q))"
    using held_update [OF ex(3), of p] p by simp
  then have "storage ?q'"
    using sto p fit at_push_not_take [OF me(3), THEN not_sym] unfolding storage_def
    by (auto simp: held_update_same)
  moreover have "owners ?q'" "logs ?q'"
    using own log p by (auto simp: owners_def logs_def held_update_same intro: exclusive_update)
  moreover have "\<not> broken ?q'"
    using nb me(5) fit by (simp add: construct_def data_slot_of)
  ultimately show ?thesis
    using fit len by (simp add: queue_inv_def fits_def)
qed

lemma inv_destruct:
  assumes inv: "queue_inv q" and p: "pc q p = Take_Destruct t r"
  shows "queue_inv (goto p (Take_Store t r) (destruct t q))"
proof -
  let ?q = "destruct t q" and ?q' = "goto p (Take_Store t r) (destruct t q)"
  have ok: "\<And>p. pc_ok q (pc q p)"
    and own: "owners q" and sto: "storage q" and log: "logs q" and nb: "\<not> broken q" and fit: "fits q"
    and len: "length (in_log q) = unat (head q)"
    using inv by (auto simp: queue_inv_def)
  have s: "sq ?q = sq q" "length (slots ?q) = length (slots q)" using fit by simp_all
  note [simp] = same_sq_done [OF s] dt_destruct [OF fit] and ex = inv_exclusive [OF inv]
  have me: "r \<noteq> Some False" "unat t < unat (tail q)" "at_take q (unat t)"
    "dt q (pos q (unat t)) = Some (in_log q ! unat t)"
    using ok [of p] p by auto
  have "pc_ok ?q (pc q p')" if "p' \<noteq> p" for p'
    using ok [of p'] inv_separate [OF inv, of p "unat t" p'] that p fit
    by (intro pc_ok_other_storage [of q "pc q p'" ?q]) auto
  moreover have "pc_ok ?q (Take_Store t r)" using me by simp
  ultimately have "\<forall>p'. pc_ok ?q' (pc ?q' p')" by simp
  moreover have "held clear_ticket (pc ?q') = insert (unat t) (held clear_ticket (pc q))"
    using held_update [OF ex(4), of p] p by simp
  then have "storage ?q'"
    using sto p fit at_take_unique [OF _ me(3)] unfolding storage_def
    by (auto simp: held_update_same)
  moreover have "owners ?q'" "logs ?q'"
    using own log p by (auto simp: owners_def logs_def held_update_same intro: exclusive_update)
  moreover have "\<not> broken ?q'"
    using nb me(4) fit by (simp add: destruct_def data_slot_of)
  ultimately show ?thesis
    using fit len by (simp add: queue_inv_def fits_def)
qed

lemma inv_move_out:
  assumes inv: "queue_inv q" and p: "pc q p = Take_Move t r"
  shows "queue_inv (goto p (Take_Destruct t r) (move_out t q))"
proof -
  let ?q = "move_out t q" and ?q' = "goto p (Take_Destruct t r) (move_out t q)"
  have ok: "\<And>p. pc_ok q (pc q p)"
    and own: "owners q" and sto: "storage q" and log: "logs q" and nb: "\<not> broken q" and fit: "fits q"
    and len: "length (in_log q) = unat (head q)"
    using inv by (auto simp: queue_inv_def)
  have s: "slots ?q = slots q" by simp
  note [simp] = same_slots [OF s] same_slots_done [OF s] and ex = inv_exclusive [OF inv]
  have me: "r \<noteq> Some False" "unat t < unat (tail q)" "at_take q (unat t)"
    "dt q (pos q (unat t)) = Some (in_log q ! unat t)"
    using ok [of p] p by auto
  have okq: "pc_ok q c \<Longrightarrow> pc_ok ?q c" for c by (cases c) auto
  have "pc_ok ?q (Take_Destruct t r)" using me by simp
  with ok okq have "\<forall>p'. pc_ok ?q' (pc ?q' p')" by simp
  moreover have "owners ?q'" "storage ?q'"
    using own sto p
    by (auto simp: owners_def storage_def held_update_same intro: exclusive_update)
  moreover have out: "out_log ?q = out_log q @ [(unat t, in_log q ! unat t)]"
    using me(4) fit by (simp add: move_out_def data_slot_of)
  have "held deliver_ticket (pc ?q') = insert (unat t) (held deliver_ticket (pc q))"
    using held_update [OF ex(5), of p] p by simp
  moreover have "unat t \<notin> fst ` set (out_log q)"
  proof -
    have "unat t \<notin> held deliver_ticket (pc q)"
    proof
      assume "unat t \<in> held deliver_ticket (pc q)"
      then obtain p' where p': "deliver_ticket (pc q p') = Some (unat t)" by (auto simp: held_def)
      then have "p' = p"
        using exclusiveD [OF ex(2) sub_tickets(1) [OF p'], of p] p by simp
      with p p' show False by simp
    qed
    moreover have "\<not> take_done q (unat t)" using me(3) by (simp add: at_take_def take_done_def)
    ultimately show ?thesis using log by (auto simp: logs_def)
  qed
  moreover have "push_done q (unat t)" using me(3) by (simp add: at_take_def push_done_def)
  ultimately have "logs ?q'"
    using log out unfolding logs_def by (auto simp: image_iff)
  moreover have "\<not> broken ?q'"
    using nb me(4) fit by (simp add: move_out_def data_slot_of)
  ultimately show ?thesis
    using fit len \<open>owners ?q'\<close> \<open>storage ?q'\<close> \<open>\<forall>p'. pc_ok ?q' (pc ?q' p')\<close>
    by (simp add: queue_inv_def fits_def)
qed

text \<open>Publishing an element, and giving the slot back.\<close>

lemma inv_push_store:
  assumes inv: "queue_inv q" and p: "pc q p = Push_Store t r"
  shows "queue_inv (emplace_step p (pc q p) q)"
proof -
  let ?s = "store_sequence t (release_turn q t) q"
  let ?q = "?s\<lparr>published := unat t # published q\<rparr>"
  let ?q' = "goto p (Idle r) ?q"
  have ok: "\<And>p. pc_ok q (pc q p)"
    and own: "owners q" and sto: "storage q" and log: "logs q" and nb: "\<not> broken q" and fit: "fits q"
    and len: "length (in_log q) = unat (head q)"
    using inv by (auto simp: queue_inv_def)
  have me: "unat t < unat (head q)" "at_push q (unat t)"
    "dt q (pos q (unat t)) = Some (in_log q ! unat t)"
    using ok [of p] p by auto
  have u: "unat (release_turn q t) = 2 * lap q (unat t) + 1"
    using me(1) fit by (intro unat_release_turn) (auto simp: fits_def)
  have slots: "slots ?q = slots ?s" by simp
  note same = same_slots [OF slots] same_slots_done [OF slots]
  have sq: "sq ?s = (sq q)(pos q (unat t) := 2 * lap q (unat t) + 1)"
    using u by (simp add: fun_eq_iff sq_store [OF fit])
  note dn = publish_done [OF length_slots(1) me(2) sq]
  note ex = inv_exclusive [OF inv]
  have okq: "pc_ok ?q (pc q p')" if "p' \<noteq> p" for p'
  proof -
    have "pos q (unat t) \<noteq> pos q w" if "active_ticket (pc q p') = Some w" for w
      using inv_separate [OF inv, of p "unat t" p' w] \<open>p' \<noteq> p\<close> that p by simp
    moreover have "push_ticket (pc q p') \<noteq> Some (unat t)"
      using exclusiveD [OF ex(1), of p "unat t" p'] that p by auto
    moreover have "pos q (unat t) \<noteq> pos q (unat (head q))" if "at_push q (unat (head q))"
      using at_push_unique [OF me(2) that] me(1) by auto
    ultimately show ?thesis
      using ok [of p'] fit dn
      by (cases "pc q p'") (auto simp: same dest: sym)
  qed
  then have "\<forall>p'. pc_ok ?q' (pc ?q' p')" by simp
  moreover have "owners ?q'"
  proof -
    have "held push_ticket (pc ?q') = held push_ticket (pc q) - {unat t}"
      using held_update [OF ex(1), of p] p by simp
    moreover have "exclusive push_ticket (pc ?q')" "exclusive take_ticket (pc ?q')"
      using p ex by (auto intro!: exclusive_update)
    ultimately show ?thesis
      using own p me(1) by (auto simp: owners_def held_update_same dn same)
  qed
  moreover have "storage ?q'"
  proof -
    have "held store_ticket (pc ?q') = held store_ticket (pc q) - {unat t}"
      using held_update [OF ex(3), of p] p by simp
    moreover have "w = unat t" if "w \<in> held store_ticket (pc q)" "pos q w = pos q (unat t)" for w
    proof -
      from that(1) obtain p' where s: "store_ticket (pc q p') = Some w" by (auto simp: held_def)
      then have a: "active_ticket (pc q p') = Some w" by (cases "pc q p'") auto
      have "p' = p"
        using inv_separate [OF inv _ a, of p "unat t"] p that(2) by auto
      with s p show ?thesis by simp
    qed
    ultimately show ?thesis
      using sto p fit me(3) unfolding storage_def
      by (auto simp: held_update_same dn same sq image_iff)
  qed
  moreover have "logs ?q'"
    using log p by (auto simp: logs_def held_update_same dn same)
  ultimately show ?thesis
    using fit nb len by (simp add: p emplace_step_def queue_inv_def fits_def)
qed

lemma inv_take_store:
  assumes inv: "queue_inv q" and p: "pc q p = Take_Store t r"
  shows "queue_inv (pop_step p (pc q p) q)"
proof -
  let ?s = "store_sequence t (release_turn q t + 1) q"
  let ?q = "?s\<lparr>released := unat t # released q\<rparr>"
  let ?q' = "goto p (Idle r) ?q"
  have ok: "\<And>p. pc_ok q (pc q p)"
    and own: "owners q" and sto: "storage q" and log: "logs q" and nb: "\<not> broken q" and fit: "fits q"
    and len: "length (in_log q) = unat (head q)"
    using inv by (auto simp: queue_inv_def)
  have me: "r \<noteq> Some False" "unat t < unat (tail q)" "at_take q (unat t)" "dt q (pos q (unat t)) = None"
    using ok [of p] p by auto
  have slots: "slots ?q = slots ?s" by simp
  note same = same_slots [OF slots] same_slots_done [OF slots]
  have sq: "sq ?s = (sq q)(pos q (unat t) := 2 * lap q (unat t) + 2)"
    using unat_release_turn_Suc [OF fit me(2)] by (simp add: fun_eq_iff sq_store [OF fit])
  note dn = free_done [OF length_slots(1) me(3) sq]
  note ex = inv_exclusive [OF inv]
  have other: "pos q (unat t) \<noteq> pos q w" if "active_ticket (pc q p') = Some w" "p' \<noteq> p" for p' w
    using inv_separate [OF inv, of p "unat t" p' w] that p by simp
  have okq: "pc_ok ?q (pc q p')" if "p' \<noteq> p" for p'
  proof -
    have "take_ticket (pc q p') \<noteq> Some (unat t)"
      using exclusiveD [OF ex(2), of p "unat t" p'] that p by auto
    moreover have "pos q (unat t) \<noteq> pos q (unat (tail q))" if "at_take q (unat (tail q))"
      using at_take_unique [OF me(3) that] me(2) by auto
    moreover have "pos q (unat (head q)) \<noteq> pos q (unat t)" if "at_push q (unat (head q))"
      using at_push_not_take [OF that me(3)] .
    ultimately show ?thesis
      using ok [of p'] fit dn other [of p'] that
      by (cases "pc q p'") (auto simp: same)
  qed
  then have "\<forall>p'. pc_ok ?q' (pc ?q' p')" by simp
  moreover have "owners ?q'"
  proof -
    have "held take_ticket (pc ?q') = held take_ticket (pc q) - {unat t}"
      using held_update [OF ex(2), of p] p by simp
    moreover have "exclusive push_ticket (pc ?q')" "exclusive take_ticket (pc ?q')"
      using p ex by (auto intro!: exclusive_update)
    ultimately show ?thesis
      using own p me(2) by (auto simp: owners_def held_update_same dn same)
  qed
  moreover have "storage ?q'"
  proof -
    have "held clear_ticket (pc ?q') = held clear_ticket (pc q) - {unat t}"
      using held_update [OF ex(4), of p] p by simp
    then show ?thesis
      using sto p fit me(4) unfolding storage_def
      by (auto simp: held_update_same dn same sq)
  qed
  moreover have "logs ?q'"
  proof -
    have "held deliver_ticket (pc ?q') = held deliver_ticket (pc q) - {unat t}"
      using held_update [OF ex(5), of p] p by simp
    moreover have "unat t \<in> held deliver_ticket (pc q)"
      using p unfolding held_def by (intro CollectI exI [of _ p]) simp
    ultimately show ?thesis
      using log by (auto simp: logs_def dn same)
  qed
  ultimately show ?thesis
    using fit nb len by (simp add: p pop_step_def queue_inv_def fits_def)
qed

section \<open>Every schedule keeps the invariant\<close>

text \<open>The slot of the next ticket is not ready only if the consumer one lap before still has it.\<close>

lemma next_slot_busy:
  assumes inv: "queue_inv q" and "\<not> at_push q (unat (head q))"
  shows "length (slots q) \<le> unat (head q) \<and> unat (head q) - length (slots q) \<notin> set (released q)"
proof -
  let ?t = "unat (head q)" and ?n = "length (slots q)"
  have n: "0 < ?n" and log: "logs q" using inv by (simp_all add: queue_inv_def fits_def)
  have lt: "sq q (pos q ?t) < 2 * lap q ?t"
    using new_ticket_fresh(1) [OF inv] assms(2) by (simp add: push_done_def at_push_def)
  then have le: "?n \<le> ?t" using n by (metis div_less lap_def less_zeroE mult_0_right not_le)
  then have "lap q ?t = lap q (?t - ?n) + 1" "pos q (?t - ?n) = pos q ?t"
    using n by (simp_all add: lap_def pos_def le_div_geq le_mod_geq)
  then have "\<not> take_done q (?t - ?n)" using lt by (simp add: take_done_def)
  then show ?thesis using le log by (simp add: logs_def)
qed

lemma inv_thread_step:
  assumes inv: "queue_inv q" and b: "unat (head q) + 1 < 2 ^ 63" "unat (tail q) + 1 < 2 ^ 63"
  shows "queue_inv (thread_step p call q)"
proof -
  have ok: "pc_ok q (pc q p)" and fit: "fits q" and log: "logs q"
    and sto: "storage q"
    using inv by (auto simp: queue_inv_def)
  have small: "unat t < unat (head q) \<Longrightarrow> unat t < 2 ^ 63" "unat t \<le> unat (tail q) \<Longrightarrow> unat t < 2 ^ 63"
    "unat t \<le> unat (head q) \<Longrightarrow> unat t < 2 ^ 63" for t using fit by (auto simp: fits_def)
  note ex = inv_exclusive [OF inv]
  show ?thesis
  proof (cases "pc q p")
    case (Idle r)
    show ?thesis
    proof (cases call)
      case (Emplace v)
      then show ?thesis
        using inv_push_ticket [OF inv b(1), of p "Push_Wait (head q) v" v] Idle
        by (simp add: thread_step_def start_call_def)
    next
      case (Try_Emplace v)
      then show ?thesis
        using inv_goto [OF inv, of "Try_Push_Check (head q) v" p] Idle
        by (simp add: thread_step_def start_call_def)
    next
      case Pop
      then show ?thesis
        using inv_take_ticket [OF inv b(2), of p "Pop_Wait (tail q)"] Idle
        by (simp add: thread_step_def start_call_def)
    next
      case Try_Pop
      then show ?thesis
        using inv_goto [OF inv, of "Try_Check (tail q)" p] Idle
        by (simp add: thread_step_def start_call_def)
    qed
  next
    case (Push_Wait t v)
    have "queue_inv (goto p (Push_Construct t v None) q)" if "at_push q (unat t)"
    proof (rule inv_goto [OF inv])
      have "pos q (unat t) \<notin> pos q ` held store_ticket (pc q)"
      proof
        assume "pos q (unat t) \<in> pos q ` held store_ticket (pc q)"
        then obtain p' u where u: "store_ticket (pc q p') = Some u" "pos q u = pos q (unat t)"
          by (auto simp: held_def)
        have "pc_ok q (pc q p')" using inv by (simp add: queue_inv_def)
        with u(1) have "at_push q u" by (cases "pc q p'") auto
        then have "u = unat t" using at_push_unique that u(2) by blast
        then have "p' = p"
          using exclusiveD [OF ex(1) sub_tickets(3) [OF u(1)], of p] Push_Wait by simp
        then show False using u(1) Push_Wait by simp
      qed
      then have "dt q (pos q (unat t)) = None"
        using sto fit at_push_even [OF that] pos_less [of q]
        unfolding storage_def fits_def by blast
      then show "pc_ok q (Push_Construct t v None)" using ok Push_Wait that by simp
    qed (simp_all add: Push_Wait)
    then show ?thesis
      using inv ok acquire_check [OF fit, of t] small(1) [of t] Push_Wait
      by (simp add: thread_step_def emplace_step_def)
  next
    case (Push_Construct t v r)
    then show ?thesis
      using inv_construct [OF inv Push_Construct] by (simp add: thread_step_def emplace_step_def)
  next
    case (Push_Store t r)
    then show ?thesis
      using inv_push_store [OF inv Push_Store] by (simp add: thread_step_def)
  next
    case (Try_Push_Check t v)
    then show ?thesis
      using ok acquire_check [OF fit, of t] small(3) [of t] next_slot_busy [OF inv]
        inv_goto [OF inv, of "Try_Push_Cas t v" p]
        inv_goto [OF inv, of "Try_Push_Reload t v (head q = t \<and> length (slots q) \<le> unat t \<and>
          unat t - length (slots q) \<notin> set (released q))" p]
      by (auto simp: thread_step_def try_emplace_step_def)
  next
    case (Try_Push_Cas t v)
    then show ?thesis
      using ok inv_push_ticket [OF inv b(1), of p "Push_Construct (head q) v (Some True)" v]
        inv_goto [OF inv, of "Try_Push_Check (head q) v" p]
      by (auto simp: thread_step_def try_emplace_step_def)
  next
    case (Try_Push_Reload t v x)
    then show ?thesis
      using inv_goto [OF inv, of "Idle (Some False)" p] inv_goto [OF inv, of "Try_Push_Check (head q) v" p]
      by (auto simp: thread_step_def try_emplace_step_def)
  next
    case (Pop_Wait t)
    have "queue_inv (goto p (Take_Move t None) q)" if "at_take q (unat t)"
    proof (rule inv_goto [OF inv])
      have "unat t \<notin> held clear_ticket (pc q)"
      proof
        assume "unat t \<in> held clear_ticket (pc q)"
        then obtain p' where u: "clear_ticket (pc q p') = Some (unat t)" by (auto simp: held_def)
        then have "p' = p"
          using exclusiveD [OF ex(2) sub_tickets(2) [OF u], of p] Pop_Wait by simp
        then show False using u Pop_Wait by simp
      qed
      then show "pc_ok q (Take_Move t None)"
        using sto ok Pop_Wait that by (simp add: storage_def)
    qed (simp_all add: Pop_Wait)
    then show ?thesis
      using inv ok release_check [OF fit, of t] small(2) [of t] Pop_Wait
      by (simp add: thread_step_def pop_step_def)
  next
    case (Take_Move t r)
    then show ?thesis
      using inv_move_out [OF inv Take_Move] by (simp add: thread_step_def pop_step_def)
  next
    case (Take_Destruct t r)
    then show ?thesis
      using inv_destruct [OF inv Take_Destruct] by (simp add: thread_step_def pop_step_def)
  next
    case (Take_Store t r)
    then show ?thesis
      using inv_take_store [OF inv Take_Store] by (simp add: thread_step_def)
  next
    case (Try_Check t)
    have "at_take q (unat t)" if "tail q = t" "unat t \<in> set (published q)"
    proof -
      have "push_done q (unat t)" using log that by (simp add: logs_def)
      moreover have "\<not> take_done q (unat t)" using new_ticket_fresh(3) [OF inv] that by simp
      ultimately show ?thesis by (simp add: push_done_def take_done_def at_take_def)
    qed
    then show ?thesis
      using ok Try_Check release_check [OF fit, of t] small(2) [of t]
        inv_goto [OF inv, of "Try_Cas t" p]
        inv_goto [OF inv, of "Try_Reload t (tail q = t \<and> unat t \<notin> set (published q))" p]
      by (auto simp: thread_step_def try_pop_step_def)
  next
    case (Try_Cas t)
    then show ?thesis
      using ok inv_take_ticket [OF inv b(2), of p "Take_Move (tail q) (Some True)"]
        inv_goto [OF inv, of "Try_Check (tail q)" p]
      by (auto simp: thread_step_def try_pop_step_def)
  next
    case (Try_Reload t x)
    then show ?thesis
      using inv_goto [OF inv, of "Idle (Some False)" p] inv_goto [OF inv, of "Try_Check (tail q)" p]
      by (auto simp: thread_step_def try_pop_step_def)
  qed
qed

lemma inv_init:
  assumes "0 < capacity" and "capacity < 2 ^ 63"
  shows "queue_inv (queue_init capacity)"
  using assms
  by (simp add: queue_inv_def queue_init_def fits_def owners_def storage_def logs_def held_def
      exclusive_def push_done_def take_done_def at_take_def sq_def dt_def pos_def lap_def)

lemma thread_step_tickets:
  assumes "unat (head q) + 1 < 2 ^ 63" and "unat (tail q) + 1 < 2 ^ 63"
  shows "unat (head (thread_step p call q)) \<le> unat (head q) + 1"
    and "unat (tail (thread_step p call q)) \<le> unat (tail q) + 1"
  using assms
  by (auto simp: thread_step_def start_call_def emplace_step_def try_emplace_step_def pop_step_def try_pop_step_def
      unat_succ split: pc.split call.split)

lemma inv_run:
  assumes "queue_inv q" and "unat (head q) + length sched < 2 ^ 63"
    and "unat (tail q) + length sched < 2 ^ 63"
  shows "queue_inv (run sched q)"
  using assms
proof (induction sched arbitrary: q)
  case (Cons a sched)
  obtain p call where a: "a = (p, call)" by (cases a)
  have "unat (head q) + 1 < 2 ^ 63" "unat (tail q) + 1 < 2 ^ 63" using Cons.prems by simp_all
  note s = thread_step_tickets [OF this, of p call] inv_thread_step [OF Cons.prems(1) this, of p call]
  show ?case
    unfolding a run.simps by (rule Cons.IH) (use s Cons.prems in auto)
qed simp

lemma inv_from_init:
  assumes "0 < capacity" and "capacity < 2 ^ 63" and "length sched < 2 ^ 63"
  shows "queue_inv (run sched (queue_init capacity))"
  using assms inv_run [OF inv_init [OF assms(1,2)]] by (simp add: queue_init_def)

section \<open>Properties\<close>

text \<open>
  C1: under every interleaving of \<open>emplace\<close>, \<open>try_emplace\<close>, \<open>pop\<close> and \<open>try_pop\<close> no step constructs an
  element over a live one or moves from or destroys a dead one; every ticket is delivered at
  most once, and what a consumer receives with ticket \<open>t\<close> is the element of the \<open>t\<close>-th
  \<open>emplace\<close>: the queue is first-in first-out.
\<close>

theorem queue_fifo_and_memory_safe:
  assumes "0 < capacity" and "capacity < 2 ^ 63" and "length sched < 2 ^ 63"
    and "q = run sched (queue_init capacity)"
  shows "\<not> broken q \<and> distinct (map fst (out_log q)) \<and>
    (\<forall>(t, v) \<in> set (out_log q). t < length (in_log q) \<and> in_log q ! t = v)"
proof -
  have inv: "queue_inv q" using inv_from_init assms by blast
  have "t < length (in_log q) \<and> in_log q ! t = v" if "(t, v) \<in> set (out_log q)" for t v
  proof -
    have "logs q" "length (in_log q) = unat (head q)" using inv by (simp_all add: queue_inv_def)
    with that inv_bounds(1) [OF inv, of t] show ?thesis by (fastforce simp: logs_def)
  qed
  then show ?thesis using inv by (auto simp: queue_inv_def logs_def)
qed

definition two_pushes_one_pop :: "(nat \<times> nat call) list" where
  "two_pushes_one_pop =
     replicate 4 (0, Emplace 7) @ replicate 2 (1, Pop) @ replicate 1 (2, Emplace 8) @
     replicate 3 (1, Pop)"

lemma queue_fifo_and_memory_safe_witness:
  "out_log (run two_pushes_one_pop (queue_init 2)) = [(0, 7)] \<and>
   \<not> broken (run two_pushes_one_pop (queue_init 2))"
proof
  show "out_log (run two_pushes_one_pop (queue_init 2)) = [(0, 7)]"
    by code_simp
  show "\<not> broken (run two_pushes_one_pop (queue_init 2))"
    using queue_fifo_and_memory_safe [of 2 two_pushes_one_pop "run two_pushes_one_pop (queue_init 2)"]
    by (simp add: two_pushes_one_pop_def)
qed

text \<open>A thread in one of the two waiting loops whose condition does not let it go on.\<close>

fun spins :: "'a queue \<Rightarrow> 'a pc \<Rightarrow> bool" where
  "spins q (Push_Wait t v) = (acquire_turn q t \<noteq> sequence (slot_of q t))"
| "spins q (Pop_Wait t) = (release_turn q t \<noteq> sequence (slot_of q t))"
| "spins q _ = False"

definition quiet :: "'a queue \<Rightarrow> bool" where
  "quiet q \<longleftrightarrow> (\<forall>p. (\<exists>r. pc q p = Idle r) \<or> spins q (pc q p))"

lemma quiet_place_blocked:
  assumes inv: "queue_inv q" and qu: "quiet q"
  shows "t < unat (head q) \<Longrightarrow> \<not> at_push q t" and "t < unat (tail q) \<Longrightarrow> \<not> at_take q t"
proof -
  have fit: "fits q" and own: "owners q" using inv by (simp_all add: queue_inv_def)
  show "\<not> at_push q t" if "t < unat (head q)"
  proof
    assume a: "at_push q t"
    then have "\<not> push_done q t" by (simp add: push_done_def at_push_def)
    moreover have "t \<in> {t. push_done q t} \<union> held push_ticket (pc q)"
      using own that unfolding owners_def by blast
    ultimately obtain p where p: "push_ticket (pc q p) = Some t" by (auto simp: held_def)
    have "(\<exists>r. pc q p = Idle r) \<or> spins q (pc q p)" using qu by (simp add: quiet_def)
    with p show False
      using acquire_check [OF fit] a that fit by (cases "pc q p") (auto simp: fits_def)
  qed
  show "\<not> at_take q t" if "t < unat (tail q)"
  proof
    assume a: "at_take q t"
    then have "\<not> take_done q t" by (simp add: take_done_def at_take_def)
    moreover have "t \<in> {t. take_done q t} \<union> held take_ticket (pc q)"
      using own that unfolding owners_def by blast
    ultimately obtain p where p: "take_ticket (pc q p) = Some t" by (auto simp: held_def)
    have "(\<exists>r. pc q p = Idle r) \<or> spins q (pc q p)" using qu by (simp add: quiet_def)
    with p show False
      using release_check [OF fit] a that fit by (cases "pc q p") (auto simp: fits_def)
  qed
qed

text \<open>The ticket whose turn it is at the slot of ticket \<open>t\<close>.\<close>

definition current_at :: "'a queue \<Rightarrow> nat \<Rightarrow> nat" where
  "current_at q t = (sq q (pos q t) div 2) * length (slots q) + pos q t"

lemma current_at:
  assumes "0 < length (slots q)"
  shows "pos q (current_at q t) = pos q t" and "lap q (current_at q t) = sq q (pos q t) div 2"
    and "t = lap q t * length (slots q) + pos q t"
    and "even (sq q (pos q t)) \<Longrightarrow> at_push q (current_at q t)"
    and "odd (sq q (pos q t)) \<Longrightarrow> at_take q (current_at q t)"
proof -
  show p: "pos q (current_at q t) = pos q t" and l: "lap q (current_at q t) = sq q (pos q t) div 2"
    using assms by (simp_all add: pos_def lap_def current_at_def)
  show "t = lap q t * length (slots q) + pos q t" by (simp add: lap_def pos_def)
  show "at_push q (current_at q t)" if "even (sq q (pos q t))"
    using that unfolding at_push_def p l by simp
  show "at_take q (current_at q t)" if "odd (sq q (pos q t))"
    using that unfolding at_take_def p l by (simp add: odd_two_times_div_two_succ)
qed

lemma quiet_not_waiting:
  assumes inv: "queue_inv q" and qu: "quiet q"
  shows "t < unat (head q) \<Longrightarrow> t < unat (tail q) + length (slots q) \<Longrightarrow> push_done q t"
    and "t < unat (tail q) \<Longrightarrow> t < unat (head q) \<Longrightarrow> take_done q t"
proof -
  have n: "0 < length (slots q)" using inv by (simp add: queue_inv_def fits_def)
  note cur = current_at [OF n, of t] and blocked = quiet_place_blocked [OF inv qu]
  let ?c = "current_at q t" and ?s = "sq q (pos q t)" and ?n = "length (slots q)"
  have c: "?c = ?s div 2 * ?n + pos q t" by (simp add: current_at_def)
  show "push_done q t" if a: "t < unat (head q)" "t < unat (tail q) + ?n"
  proof (rule ccontr)
    assume "\<not> push_done q t"
    then have le: "?s \<le> 2 * lap q t" by (simp add: push_done_def)
    then have "?s div 2 * ?n \<le> lap q t * ?n" by (intro mult_right_mono) auto
    then have ct: "?c \<le> t" using c cur(3) by linarith
    show False
    proof (cases "even ?s")
      case True
      then show False using cur(4) blocked(1) [of ?c] ct a(1) by simp
    next
      case False
      then have "?s div 2 + 1 \<le> lap q t" using le by presburger
      then have "(?s div 2 + 1) * ?n \<le> lap q t * ?n" by (intro mult_right_mono) auto
      then have "?c + ?n \<le> t" using c cur(3) by (simp add: add_mult_distrib)
      then show False using cur(5) [OF False] blocked(2) [of ?c] a(2) by simp
    qed
  qed
  show "take_done q t" if a: "t < unat (tail q)" "t < unat (head q)"
  proof (rule ccontr)
    assume "\<not> take_done q t"
    then have le: "?s \<le> 2 * lap q t + 1" by (simp add: take_done_def)
    then have "?s div 2 * ?n \<le> lap q t * ?n" by (intro mult_right_mono) auto
    then have ct: "?c \<le> t" using c cur(3) by linarith
    show False
    proof (cases "even ?s")
      case True
      then show False using cur(4) blocked(1) [of ?c] ct a(2) by simp
    next
      case False
      then show False using cur(5) [OF False] blocked(2) [of ?c] ct a(1) by simp
    qed
  qed
qed

text \<open>
  C15: the waiting loops end except when the queue really is full or empty. When every thread
  is between calls or spins, a producer that spins holds a ticket at least the capacity beyond
  the tickets consumers have taken, a consumer that spins holds a ticket no producer has taken,
  and producers and consumers never spin at the same time.
\<close>

theorem queue_blocks_only_full_or_empty:
  assumes "0 < capacity" and "capacity < 2 ^ 63" and "length sched < 2 ^ 63"
    and "q = run sched (queue_init capacity)" and "quiet q"
  shows "(\<forall>p t v. pc q p = Push_Wait t v \<longrightarrow> unat (tail q) + length (slots q) \<le> unat t) \<and>
    (\<forall>p t. pc q p = Pop_Wait t \<longrightarrow> unat (head q) \<le> unat t) \<and>
    \<not> (\<exists>p p' t t' v. pc q p = Push_Wait t v \<and> pc q p' = Pop_Wait t')"
proof -
  have inv: "queue_inv q" using inv_from_init assms by blast
  then have ok: "\<And>p. pc_ok q (pc q p)" by (simp add: queue_inv_def)
  note done_unless = quiet_not_waiting [OF inv assms(5)]
  have full: "unat (tail q) + length (slots q) \<le> unat t" if "pc q p = Push_Wait t v" for p t v
    using done_unless(1) [of "unat t"] ok [of p] that by force
  have empty: "unat (head q) \<le> unat t" if "pc q p = Pop_Wait t" for p t
    using done_unless(2) [of "unat t"] ok [of p] that by force
  have "False" if a: "pc q p = Push_Wait t v" "pc q p' = Pop_Wait t'" for p p' t t' v
    using full [OF a(1)] empty [OF a(2)] ok [of p] ok [of p'] a by simp
  with full empty show ?thesis by blast
qed

definition full_of_one :: "(nat \<times> nat call) list" where
  "full_of_one = replicate 4 (0, Emplace 7) @ [(1, Emplace 8)]"

lemma thread_step_other: "p' \<noteq> p \<Longrightarrow> pc (thread_step p call q) p' = pc q p'"
  by (simp add: thread_step_def start_call_def emplace_step_def try_emplace_step_def pop_step_def try_pop_step_def
      split: pc.split call.split)

lemma run_other: "p \<notin> fst ` set sched \<Longrightarrow> pc (run sched q) p = pc q p"
  by (induction sched q rule: run.induct) (auto simp: thread_step_other)

lemma quiet_full_of_one: "quiet (run full_of_one (queue_init 1))"
proof -
  let ?q = "run full_of_one (queue_init 1) :: nat queue"
  have "pc ?q 0 = Idle None" and "pc ?q 1 = Push_Wait 1 8" and "spins ?q (Push_Wait 1 8)"
    by code_simp+
  moreover have "pc ?q p = Idle None" if "p \<noteq> 0" "p \<noteq> 1" for p
    using run_other [of p full_of_one "queue_init 1"] that
    by (simp add: full_of_one_def queue_init_def)
  ultimately show ?thesis unfolding quiet_def by metis
qed

lemma queue_blocks_only_full_or_empty_witness:
  "unat (tail (run full_of_one (queue_init 1))) + 1 \<le> unat (1 :: u64)"
proof -
  let ?q = "run full_of_one (queue_init 1) :: nat queue"
  have "pc ?q 1 = Push_Wait 1 8" and "length (slots ?q) = 1" by code_simp+
  then show ?thesis
    using queue_blocks_only_full_or_empty [of 1 full_of_one ?q] quiet_full_of_one
    by (fastforce simp: full_of_one_def)
qed

lemma odd_sequence: "slot_destructs (slots q ! j) \<longleftrightarrow> odd (sq q j)"
  by (simp add: slot_destructs_def and_one_eq odd_iff_mod_2_eq_one [symmetric] sq_def even_unat_iff)

text \<open>
  C33: when no call is in progress the queue's destructor destroys exactly the elements that are
  still stored. The destructor of a slot goes by the parity of the sequence number alone; after any
  run of pushes and pops by any number of threads, that parity says whether the storage holds an
  element, so that no element is leaked and none is destroyed that is not there.
\<close>

theorem queue_destructor_exact:
  assumes "0 < capacity" and "capacity < 2 ^ 63" and "length sched < 2 ^ 63"
    and "q = run sched (queue_init capacity)" and "\<forall>p. \<exists>r. pc q p = Idle r"
  shows "\<forall>s \<in> set (slots q). slot_destructs s \<longleftrightarrow> data s \<noteq> None"
proof -
  have inv: "queue_inv q" using inv_from_init assms by blast
  then have sto: "storage q" by (simp add: queue_inv_def)
  have none: "held store_ticket (pc q) = {}" "held clear_ticket (pc q) = {}"
    using assms(5) unfolding held_def
    by (auto, (metis clear_ticket.simps store_ticket.simps option.distinct(1))+)
  have "slot_destructs (slots q ! j) \<longleftrightarrow> data (slots q ! j) \<noteq> None" if j: "j < length (slots q)" for j
  proof -
    have p: "pos q j = j" using j by (simp add: pos_def)
    have n: "0 < length (slots q)" using j by (rule le_less_trans [rotated]) simp
    show ?thesis
    proof (cases "even (sq q j)")
      case True
      then show ?thesis using sto none j by (simp add: odd_sequence storage_def dt_def)
    next
      case False
      then have "at_take q (current_at q j)" "pos q (current_at q j) = j"
        using current_at(1,5) [OF n, of j] p by simp_all
      then have "dt q j \<noteq> None" using sto none unfolding storage_def by force
      with False show ?thesis by (simp add: odd_sequence dt_def)
    qed
  qed
  then show ?thesis by (auto simp: in_set_conv_nth)
qed

lemma queue_destructor_exact_witness:
  "list_all (\<lambda>s. slot_destructs s \<longleftrightarrow> data s \<noteq> None)
     (slots (run (replicate 4 (0, Emplace (7 :: nat))) (queue_init 1)))"
proof -
  let ?s = "replicate 4 (0, Emplace (7 :: nat))"
  have "pc (run ?s (queue_init 1)) 0 = Idle None" by code_simp
  moreover have "pc (run ?s (queue_init 1)) p = Idle None" if "p \<noteq> 0" for p
    using run_other [of p ?s "queue_init 1"] that by (simp add: queue_init_def)
  ultimately have "\<forall>p. \<exists>r. pc (run ?s (queue_init 1)) p = Idle r" by metis
  then have "\<forall>s \<in> set (slots (run ?s (queue_init 1))). slot_destructs s \<longleftrightarrow> data s \<noteq> None"
    by (intro queue_destructor_exact [OF _ _ _ refl]) simp_all
  then show ?thesis by (simp only: list_all_iff)
qed

text \<open>The flags of the reloading states are about a moment since the call began its last round.\<close>

lemma run_snoc: "run (sched @ [(p, call)]) q = thread_step p call (run sched q)"
  by (induction sched arbitrary: q) auto

lemma reload_pop_since:
  assumes "pc (run sched q) p = Try_Reload t True" and "\<And>t. pc q p \<noteq> Try_Reload t True"
  shows "\<exists>before since. sched = before @ since \<and>
    tail (run before q) = t \<and> unat t \<notin> set (published (run before q))"
  using assms(1)
proof (induction sched rule: rev_induct)
  case (snoc x sched)
  obtain p' call where x: "x = (p', call)" by fastforce
  show ?case
  proof (cases "pc (run sched q) p = Try_Reload t True")
    case True
    then show ?thesis using snoc.IH by fastforce
  next
    case False
    then have "p' = p" using snoc.prems thread_step_other [of p p'] unfolding x run_snoc by metis
    then have "tail (run sched q) = t \<and> unat t \<notin> set (published (run sched q))"
      using snoc.prems False unfolding x run_snoc
      by (auto simp: thread_step_def start_call_def emplace_step_def try_emplace_step_def pop_step_def
          try_pop_step_def split: pc.splits call.splits if_splits)
    then show ?thesis by blast
  qed
qed (use assms(2) in simp)

lemma reload_push_since:
  assumes "pc (run sched q) p = Try_Push_Reload t v True" and "\<And>t v. pc q p \<noteq> Try_Push_Reload t v True"
  shows "\<exists>before since. sched = before @ since \<and> head (run before q) = t \<and>
    length (slots (run before q)) \<le> unat t \<and>
    unat t - length (slots (run before q)) \<notin> set (released (run before q))"
  using assms(1)
proof (induction sched rule: rev_induct)
  case (snoc x sched)
  obtain p' call where x: "x = (p', call)" by fastforce
  show ?case
  proof (cases "pc (run sched q) p = Try_Push_Reload t v True")
    case True
    then show ?thesis using snoc.IH by fastforce
  next
    case False
    then have "p' = p" using snoc.prems thread_step_other [of p p'] unfolding x run_snoc by metis
    then have "head (run sched q) = t \<and> length (slots (run sched q)) \<le> unat t \<and>
        unat t - length (slots (run sched q)) \<notin> set (released (run sched q))"
      using snoc.prems False unfolding x run_snoc
      by (auto simp: thread_step_def start_call_def emplace_step_def try_emplace_step_def pop_step_def
          try_pop_step_def split: pc.splits call.splits if_splits)
    then show ?thesis by blast
  qed
qed (use assms(2) in simp)

text \<open>
  C17: \<open>try_pop\<close> and \<open>try_emplace\<close> return false only for a reason. When \<open>try_pop\<close> does, there was a
  moment in the run when the ticket that is the queue's tail now was its tail already and no
  producer had published that ticket's element, so there was nothing to pop. When \<open>try_emplace\<close>
  does, there was a moment when the ticket that is the head now was the head already, a lap was
  full, and the consumer of the ticket one lap before had not given the slot back.
\<close>

theorem try_calls_fail_for_a_reason:
  assumes "0 < capacity" and "capacity < 2 ^ 63" and "length sched < 2 ^ 63"
    and "q = run sched (queue_init capacity)" and "\<not> (\<exists>r. pc q p = Idle r)"
    and "pc (thread_step p call q) p = Idle (Some False)"
  shows "\<exists>before since q'. sched = before @ since \<and> q' = run before (queue_init capacity) \<and>
    ((\<exists>t. pc q p = Try_Reload t True) \<and> tail q' = tail q \<and> unat (tail q) \<notin> set (published q') \<or>
     (\<exists>t v. pc q p = Try_Push_Reload t v True) \<and> head q' = head q \<and> length (slots q') \<le> unat (head q) \<and>
       unat (head q) - length (slots q') \<notin> set (released q'))"
proof -
  have "queue_inv q" using inv_from_init assms by blast
  then have ok: "pc_ok q (pc q p)" by (simp add: queue_inv_def)
  from assms(5,6) ok have "pc q p = Try_Reload (tail q) True \<or> (\<exists>v. pc q p = Try_Push_Reload (head q) v True)"
    by (auto simp: thread_step_def emplace_step_def try_emplace_step_def pop_step_def try_pop_step_def
        split: pc.splits if_splits)
  then show ?thesis
  proof
    assume r: "pc q p = Try_Reload (tail q) True"
    then obtain before since where "sched = before @ since" "tail (run before (queue_init capacity)) = tail q"
        "unat (tail q) \<notin> set (published (run before (queue_init capacity)))"
      using reload_pop_since [of sched "queue_init capacity" p "tail q"] assms(4) by (auto simp: queue_init_def)
    with r show ?thesis by blast
  next
    assume "\<exists>v. pc q p = Try_Push_Reload (head q) v True"
    then obtain v where r: "pc q p = Try_Push_Reload (head q) v True" ..
    then show ?thesis
      using reload_push_since [of sched "queue_init capacity" p "head q" v] assms(4)
      by (fastforce simp: queue_init_def)
  qed
qed

definition full_then_try :: "(nat \<times> nat call) list" where
  "full_then_try = replicate 4 (0, Emplace 7) @ replicate 2 (1, Try_Emplace 8)"

lemma try_calls_fail_for_a_reason_witness:
  "\<exists>before since q'. full_then_try = before @ since \<and> q' = run before (queue_init 1) \<and>
     head q' = 1 \<and> length (slots q') \<le> 1 \<and> 1 - length (slots q') \<notin> set (released q')"
proof -
  let ?q = "run full_then_try (queue_init 1)"
  have "pc ?q 1 = Try_Push_Reload 1 8 True" "head ?q = 1" "pc (thread_step 1 Pop ?q) 1 = Idle (Some False)"
    by code_simp+
  then show ?thesis
    using try_calls_fail_for_a_reason [of 1 full_then_try ?q 1 Pop] by (auto simp: full_then_try_def)
qed

text \<open>A producer that tries at a queue with a free slot gets in.\<close>

lemma try_emplace_succeeds_example:
  "out_log (run (replicate 5 (0, try_push (7 :: nat)) @ replicate 4 (1, Pop)) (queue_init 1)) = [(0, 7)] \<and>
   pc (run (replicate 5 (0, try_push (7 :: nat))) (queue_init 1)) 0 = Idle (Some True)"
  by (rule conjI; code_simp)

end
