(* ===== verification/Intrusive_Ptr.thy ===== *)
theory Intrusive_Ptr
  imports Ref_Count
begin

text \<open>
  The handle classes \<open>intrusive_ptr\<close> and \<open>intrusive_wptr\<close> of \<open>include/ptl/intrusive_ptr.hpp\<close>: the
  constructors, assignments, \<open>swap\<close> and \<open>reset\<close> as operations on a store of objects and handle
  variables. The counting functions a class calls (\<open>intrusive_ptr_add_ref\<close> and
  \<open>intrusive_ptr_release\<close>, or \<open>intrusive_wptr_add_ref\<close> and \<open>intrusive_wptr_release\<close>, found as
  members or by name) are arguments of the operations; \<open>counted\<close> is the contract they keep,
  and it is interpreted by the counters of \<open>Ref_Count\<close>.
\<close>

section \<open>The store and the operations\<close>

text \<open>
  \<open>objects\<close> maps the address of a live object to its counter. A handle variable in scope has
  its \<open>ptr_\<close>, which is \<open>None\<close> for \<open>nullptr\<close>. \<open>raw\<close> counts the references raw pointers own:
  one for every new object, given up when a handle adopts the pointer. \<open>deleted\<close> is the
  history of deletions.
\<close>

record 'r store =
  objects :: "nat \<Rightarrow> 'r option"
  handles :: "nat \<Rightarrow> nat option option"
  raw :: "nat \<Rightarrow> nat"
  deleted :: "nat list"

record 'r api =
  api_init :: 'r
  api_add_ref :: "'r \<Rightarrow> 'r"
  api_release :: "'r \<Rightarrow> 'r \<times> bool"

definition empty_store :: "'r store" where
  "empty_store = \<lparr>objects = (\<lambda>_. None), handles = (\<lambda>_. None), raw = (\<lambda>_. 0), deleted = []\<rparr>"

definition call_add_ref :: "'r api \<Rightarrow> nat \<Rightarrow> 'r store \<Rightarrow> 'r store res" where
  "call_add_ref a p s =
     (case objects s p of
        None \<Rightarrow> Inl Bad_Access
      | Some r \<Rightarrow> Inr (s\<lparr>objects := (objects s)(p := Some (api_add_ref a r))\<rparr>))"

definition call_release :: "'r api \<Rightarrow> nat \<Rightarrow> 'r store \<Rightarrow> 'r store res" where
  "call_release a p s =
     (case objects s p of
        None \<Rightarrow> Inl Bad_Access
      | Some r \<Rightarrow>
          (case api_release a r of (r', del) \<Rightarrow>
             if del then Inr (s\<lparr>objects := (objects s)(p := None), deleted := p # deleted s\<rparr>)
             else Inr (s\<lparr>objects := (objects s)(p := Some r')\<rparr>)))"

text \<open>Constructors return the new value of \<open>ptr_\<close>; temporaries are such values.\<close>

definition ptr_construct :: "'r api \<Rightarrow> bool \<Rightarrow> nat option \<Rightarrow> 'r store \<Rightarrow> 'r store res" where
  "ptr_construct a add_ref ptr s =
     (case ptr of
        None \<Rightarrow> Inr s
      | Some p \<Rightarrow> if add_ref then call_add_ref a p s else Inr s)"

definition ptr_copy :: "'r api \<Rightarrow> nat option \<Rightarrow> 'r store \<Rightarrow> 'r store res" where
  "ptr_copy a other s =
     (case other of None \<Rightarrow> Inr s | Some p \<Rightarrow> call_add_ref a p s)"

definition ptr_destroy :: "'r api \<Rightarrow> nat option \<Rightarrow> 'r store \<Rightarrow> 'r store res" where
  "ptr_destroy a v s =
     (case v of None \<Rightarrow> Inr s | Some p \<Rightarrow> call_release a p s)"

definition set_handle :: "nat \<Rightarrow> nat option \<Rightarrow> 'r store \<Rightarrow> 'r store" where
  "set_handle x v s = s\<lparr>handles := (handles s)(x := Some v)\<rparr>"

definition drop_handle :: "nat \<Rightarrow> 'r store \<Rightarrow> 'r store" where
  "drop_handle x s = s\<lparr>handles := (handles s)(x := None)\<rparr>"

text \<open>A temporary holding \<open>tmp\<close> is swapped with \<open>x\<close> and destroyed.\<close>

definition swap_destroy :: "'r api \<Rightarrow> nat \<Rightarrow> nat option \<Rightarrow> 'r store \<Rightarrow> 'r store res" where
  "swap_destroy a x tmp s =
     ptr_destroy a (the (handles s x)) (set_handle x tmp s)"

datatype command =
    New nat                     \<comment> \<open>a raw pointer to a new object\<close>
  | Default nat                 \<comment> \<open>\<open>intrusive_ptr()\<close>\<close>
  | From_Raw nat bool "nat option"  \<comment> \<open>\<open>intrusive_ptr(add_ref, ptr)\<close>; \<open>intrusive_ptr(ptr)\<close> is the \<open>False\<close> case\<close>
  | Copy nat nat
  | Move nat nat
  | Assign_Raw nat "nat option" \<comment> \<open>\<open>operator=(T*)\<close> and \<open>reset(T*)\<close>\<close>
  | Assign nat nat
  | Assign_Move nat nat
  | Swap nat nat
  | Reset nat
  | Destroy nat

fun exec :: "'r api \<Rightarrow> command \<Rightarrow> 'r store \<Rightarrow> 'r store res" where
  "exec a (New p) s =
     Inr (s\<lparr>objects := (objects s)(p := Some (api_init a)), raw := (raw s)(p := 1)\<rparr>)"
| "exec a (Default x) s = Inr (set_handle x None s)"
| "exec a (From_Raw x add_ref ptr) s =
     res_bind (ptr_construct a add_ref ptr s) (\<lambda>s. Inr (set_handle x ptr s))"
| "exec a (Copy x y) s =
     (let other = the (handles s y)
      in res_bind (ptr_copy a other s) (\<lambda>s. Inr (set_handle x other s)))"
| "exec a (Move x y) s =
     (let other = the (handles s y) in Inr (set_handle x other (set_handle y None s)))"
| "exec a (Assign_Raw x ptr) s =
     res_bind (ptr_construct a False ptr s) (swap_destroy a x ptr)"
| "exec a (Assign x y) s =
     (let other = the (handles s y)
      in res_bind (ptr_copy a other s) (swap_destroy a x other))"
| "exec a (Assign_Move x y) s =
     (let other = the (handles s y) in swap_destroy a x other (set_handle y None s))"
| "exec a (Swap x y) s =
     Inr (set_handle y (the (handles s x)) (set_handle x (the (handles s y)) s))"
| "exec a (Reset x) s = swap_destroy a x None s"
| "exec a (Destroy x) s =
     res_bind (ptr_destroy a (the (handles s x)) s) (\<lambda>s. Inr (drop_handle x s))"

text \<open>
  What the language and the contract of the class ask of a caller: handles are constructed
  once and used in their scope, an object is created at a free address, a raw pointer is
  shared only while its object is alive and adopted only while it owns a reference. A pointer that is adopted gives that reference up.
\<close>

fun permitted :: "command \<Rightarrow> 'r store \<Rightarrow> bool" where
  "permitted (New p) s = (objects s p = None)"
| "permitted (Default x) s = (handles s x = None)"
| "permitted (From_Raw x add_ref ptr) s =
     (handles s x = None \<and>
      (case ptr of
         None \<Rightarrow> True
       | Some p \<Rightarrow> if add_ref then objects s p \<noteq> None else 0 < raw s p))"
| "permitted (Copy x y) s = (handles s x = None \<and> handles s y \<noteq> None)"
| "permitted (Move x y) s = (handles s x = None \<and> handles s y \<noteq> None)"
| "permitted (Assign_Raw x ptr) s =
     (handles s x \<noteq> None \<and> (case ptr of None \<Rightarrow> True | Some p \<Rightarrow> 0 < raw s p))"
| "permitted (Assign x y) s = (handles s x \<noteq> None \<and> handles s y \<noteq> None)"
| "permitted (Assign_Move x y) s = (handles s x \<noteq> None \<and> handles s y \<noteq> None)"
| "permitted (Swap x y) s = (handles s x \<noteq> None \<and> handles s y \<noteq> None)"
| "permitted (Reset x) s = (handles s x \<noteq> None)"
| "permitted (Destroy x) s = (handles s x \<noteq> None)"

fun adopts :: "command \<Rightarrow> nat option" where
  "adopts (From_Raw x False ptr) = ptr"
| "adopts (Assign_Raw x ptr) = ptr"
| "adopts _ = None"

definition give_up :: "nat option \<Rightarrow> 'r store \<Rightarrow> 'r store" where
  "give_up ptr s =
     (case ptr of None \<Rightarrow> s | Some p \<Rightarrow> s\<lparr>raw := (raw s)(p := raw s p - 1)\<rparr>)"

fun run_commands :: "'r api \<Rightarrow> command list \<Rightarrow> 'r store \<Rightarrow> 'r store res" where
  "run_commands a [] s = Inr s"
| "run_commands a (c # cs) s =
     (if permitted c s then res_bind (exec a c (give_up (adopts c) s)) (run_commands a cs)
      else Inl Undefined_Behaviour)"

section \<open>The references to an object\<close>

text \<open>Handles, raw references and temporaries \<open>T\<close> of an expression that refer to \<open>p\<close>.\<close>

definition pointing :: "'r store \<Rightarrow> nat \<Rightarrow> nat set" where
  "pointing s p = {x. handles s x = Some (Some p)}"

definition refs :: "nat option list \<Rightarrow> 'r store \<Rightarrow> nat \<Rightarrow> nat" where
  "refs T s p = card (pointing s p) + raw s p + count_list T (Some p)"

lemma finite_pointing: "finite (dom (handles s)) \<Longrightarrow> finite (pointing s p)"
  by (rule finite_subset) (auto simp: pointing_def)

lemma pointing_set_handle:
  "pointing (set_handle x v s) p =
     (if v = Some p then insert x (pointing s p) else pointing s p - {x})"
  by (auto simp: pointing_def set_handle_def)

lemma pointing_drop_handle: "pointing (drop_handle x s) p = pointing s p - {x}"
  by (auto simp: pointing_def drop_handle_def)

lemma set_handle_fields [simp]:
  "objects (set_handle x v s) = objects s" "raw (set_handle x v s) = raw s"
  "handles (set_handle x v s) = (handles s)(x := Some v)" "deleted (set_handle x v s) = deleted s"
  "objects (drop_handle x s) = objects s" "raw (drop_handle x s) = raw s"
  "handles (drop_handle x s) = (handles s)(x := None)" "deleted (drop_handle x s) = deleted s"
  by (simp_all add: set_handle_def drop_handle_def)

lemma refs_set_fresh:
  assumes "finite (dom (handles s))" and "handles s x = None"
  shows "refs T (set_handle x v s) p = refs (v # T) s p"
proof -
  have "x \<notin> pointing s p" using assms(2) by (simp add: pointing_def)
  then show ?thesis
    using finite_pointing [OF assms(1), of p]
    by (simp add: refs_def pointing_set_handle)
qed

lemma refs_drop:
  assumes "finite (dom (handles s))" and "handles s x = Some v"
  shows "refs (v # T) (drop_handle x s) p = refs T s p"
proof -
  have "x \<in> pointing s p \<longleftrightarrow> v = Some p" using assms(2) by (simp add: pointing_def)
  then show ?thesis
    using finite_pointing [OF assms(1), of p] card_Suc_Diff1 [of "pointing s p" x]
    by (auto simp: refs_def pointing_drop_handle)
qed

lemma refs_set_old:
  assumes "finite (dom (handles s))" and "handles s x = Some old"
  shows "refs (old # T) (set_handle x v s) p = refs (v # T) s p"
proof -
  have e: "set_handle x v s = set_handle x v (drop_handle x s)"
    by (simp add: set_handle_def drop_handle_def)
  have f: "finite (dom (handles (drop_handle x s)))" using assms(1) by simp
  have "refs (old # T) (set_handle x v s) p = refs (v # old # T) (drop_handle x s) p"
    unfolding e by (rule refs_set_fresh [OF f]) simp
  also have "\<dots> = refs (old # v # T) (drop_handle x s) p" by (simp add: refs_def)
  also have "\<dots> = refs (v # T) s p" using refs_drop [OF assms] .
  finally show ?thesis .
qed

section \<open>The contract of a counter\<close>

locale counted =
  fixes count :: "'r \<Rightarrow> nat" and good :: "'r \<Rightarrow> bool" and limit :: nat and a :: "'r api"
  assumes init: "good (api_init a)" "count (api_init a) = 1"
    and limit_pos: "0 < limit"
    and add_ref: "good r \<Longrightarrow> count r < limit \<Longrightarrow>
      good (api_add_ref a r) \<and> count (api_add_ref a r) = count r + 1"
    and release: "good r \<Longrightarrow> 0 < count r \<Longrightarrow>
      good (fst (api_release a r)) \<and> count (fst (api_release a r)) = count r - 1 \<and>
      (snd (api_release a r) \<longleftrightarrow> count r = 1)"
begin

definition agrees :: "'r option \<Rightarrow> nat \<Rightarrow> bool" where
  "agrees object n \<longleftrightarrow>
     (case object of None \<Rightarrow> n = 0 | Some r \<Rightarrow> good r \<and> 0 < count r \<and> count r = n)"

lemma agrees_simps [simp]:
  "agrees None n \<longleftrightarrow> n = 0"
  "agrees (Some r) n \<longleftrightarrow> good r \<and> 0 < count r \<and> count r = n"
  by (simp_all add: agrees_def)

definition inv :: "nat \<Rightarrow> nat option list \<Rightarrow> 'r store \<Rightarrow> bool" where
  "inv k T s \<longleftrightarrow>
     finite (dom (handles s)) \<and> (\<forall>p. agrees (objects s p) (refs T s p) \<and> refs T s p \<le> k)"

lemma inv_mono: "inv k T s \<Longrightarrow> k \<le> l \<Longrightarrow> inv l T s"
  unfolding inv_def by (meson le_trans)

lemma refs_None [simp]: "refs (None # T) s = refs T s"
  by (simp add: refs_def fun_eq_iff)

lemma inv_None [simp]: "inv k (None # T) s = inv k T s"
  by (simp add: inv_def)

lemma inv_cong:
  assumes "finite (dom (handles s)) \<Longrightarrow> finite (dom (handles s'))"
    and "objects s' = objects s" and "\<And>p. refs T' s' p = refs T s p" and "inv k T s"
  shows "inv k T' s'"
  using assms by (simp add: inv_def)

lemma inv_alive:
  assumes "inv k T s" and "0 < refs T s p"
  obtains r where "objects s p = Some r"
  using assms by (cases "objects s p") (auto simp: inv_def dest: spec [of _ p])

lemma alive_refs: "inv k T s \<Longrightarrow> objects s p = Some r \<Longrightarrow> 0 < refs T s p"
  unfolding inv_def by (metis agrees_simps(2))

lemma call_add_ref_ok:
  assumes "inv k T s" and "0 < refs T s p" and "k < limit"
  shows "\<exists>s'. call_add_ref a p s = Inr s' \<and> inv (k + 1) (Some p # T) s' \<and> handles s' = handles s"
proof -
  obtain r where r: "objects s p = Some r" using inv_alive [OF assms(1,2)] .
  let ?s = "s\<lparr>objects := (objects s)(p := Some (api_add_ref a r))\<rparr>"
  have e: "call_add_ref a p s = Inr ?s" using r by (simp add: call_add_ref_def)
  have refs: "refs (Some p # T) ?s q = refs T s q + (if q = p then 1 else 0)" for q
    by (simp add: refs_def pointing_def)
  have all: "agrees (objects s q) (refs T s q) \<and> refs T s q \<le> k" for q
    using assms(1) by (simp add: inv_def)
  have "agrees (objects ?s q) (refs (Some p # T) ?s q) \<and> refs (Some p # T) ?s q \<le> k + 1" for q
    using r add_ref [of r] assms(3) all [of q] all [of p] by (auto simp: refs)
  then show ?thesis using e assms(1) by (simp add: inv_def)
qed

lemma call_release_ok:
  assumes "inv k (Some p # T) s"
  shows "\<exists>s'. call_release a p s = Inr s' \<and> inv k T s' \<and> handles s' = handles s"
proof -
  have pos: "0 < refs (Some p # T) s p" by (simp add: refs_def)
  obtain r where r: "objects s p = Some r" using inv_alive [OF assms pos] .
  have all: "agrees (objects s q) (refs (Some p # T) s q) \<and> refs (Some p # T) s q \<le> k" for q
    using assms by (simp add: inv_def)
  have refs: "refs (Some p # T) s q = refs T s q + (if q = p then 1 else 0)" for q
    by (simp add: refs_def)
  obtain r' del where rel: "api_release a r = (r', del)" by (cases "api_release a r")
  have good: "good r" "0 < count r" "count r = refs T s p + 1"
    using all [of p] r refs [of p] by auto
  then have r': "good r'" "count r' = refs T s p" "del \<longleftrightarrow> refs T s p = 0"
    using release [of r] rel by auto
  let ?o = "if del then None else Some r'"
  let ?s = "s\<lparr>objects := (objects s)(p := ?o), deleted := (if del then p # deleted s else deleted s)\<rparr>"
  have e: "call_release a p s = Inr ?s" using r rel by (simp add: call_release_def)
  have same: "refs T ?s q = refs T s q" for q by (simp add: refs_def pointing_def)
  have "agrees (objects ?s q) (refs T ?s q) \<and> refs T ?s q \<le> k" for q
    unfolding same using all [of q] refs [of q] r' by (cases "q = p") auto
  then show ?thesis using e assms by (simp add: inv_def)
qed

lemma ptr_copy_ok:
  assumes "inv k T s" and "v = None \<or> (\<exists>p. v = Some p \<and> 0 < refs T s p)" and "k < limit"
  shows "\<exists>s'. ptr_copy a v s = Inr s' \<and> inv (k + 1) (v # T) s' \<and> handles s' = handles s"
  using assms call_add_ref_ok [OF assms(1) _ assms(3)] inv_mono [OF assms(1), of "k + 1"]
  by (cases v) (auto simp: ptr_copy_def)

lemma ptr_destroy_ok:
  assumes "inv k (v # T) s"
  shows "\<exists>s'. ptr_destroy a v s = Inr s' \<and> inv k T s' \<and> handles s' = handles s"
  using assms call_release_ok [of k] by (cases v) (auto simp: ptr_destroy_def)

lemma set_fresh_ok:
  assumes "inv k (v # T) s" and "handles s x = None"
  shows "inv k T (set_handle x v s)"
proof -
  have "finite (dom (handles s))" using assms(1) by (simp add: inv_def)
  then show ?thesis
    by (intro inv_cong [OF _ _ _ assms(1)]) (simp_all add: refs_set_fresh assms(2))
qed

lemma set_old_ok:
  assumes "inv k (v # T) s" and "handles s x = Some old"
  shows "inv k (old # T) (set_handle x v s)"
proof -
  have "finite (dom (handles s))" using assms(1) by (simp add: inv_def)
  then show ?thesis
    by (intro inv_cong [OF _ _ _ assms(1)]) (simp_all add: refs_set_old assms(2))
qed

lemma drop_ok:
  assumes "inv k T s" and "handles s x = Some v"
  shows "inv k (v # T) (drop_handle x s)"
proof -
  have "finite (dom (handles s))" using assms(1) by (simp add: inv_def)
  then show ?thesis
    by (intro inv_cong [OF _ _ _ assms(1)]) (simp_all add: refs_drop assms(2))
qed

lemma handle_alive:
  assumes "inv k T s" and "handles s x = Some v"
  shows "v = None \<or> (\<exists>p. v = Some p \<and> 0 < refs T s p)"
proof (cases v)
  case (Some p)
  have "finite (pointing s p)" using assms(1) finite_pointing unfolding inv_def by blast
  moreover have "x \<in> pointing s p" using assms(2) Some by (simp add: pointing_def)
  ultimately have "0 < card (pointing s p)" using card_gt_0_iff by blast
  with Some show ?thesis by (simp add: refs_def)
qed simp

lemma swap_destroy_ok:
  assumes "inv k (v # T) s" and "handles s x = Some old"
  shows "\<exists>s'. swap_destroy a x v s = Inr s' \<and> inv k T s' \<and> handles s' = (handles s)(x := Some v)"
  using ptr_destroy_ok [OF set_old_ok [OF assms]] assms(2) by (simp add: swap_destroy_def)

lemma give_up_ok:
  assumes "inv k T s" and "case ptr of None \<Rightarrow> True | Some p \<Rightarrow> 0 < raw s p"
  shows "inv k (ptr # T) (give_up ptr s)" and "handles (give_up ptr s) = handles s"
proof -
  show h: "handles (give_up ptr s) = handles s" by (simp add: give_up_def split: option.split)
  have "refs (ptr # T) (give_up ptr s) q = refs T s q" for q
    using assms(2) by (auto simp: refs_def give_up_def pointing_def split: option.split)
  then show "inv k (ptr # T) (give_up ptr s)"
    by (intro inv_cong [OF _ _ _ assms(1)])
      (simp_all add: h, simp add: give_up_def split: option.split)
qed

lemma destroy_handle_ok:
  assumes "inv k T s" and "handles s x = Some v"
  shows "\<exists>s'. res_bind (ptr_destroy a v s) (\<lambda>s. Inr (drop_handle x s)) = Inr s' \<and> inv k T s'"
proof -
  obtain s' where s': "ptr_destroy a v (drop_handle x s) = Inr s'" "inv k T s'"
    using ptr_destroy_ok [OF drop_ok [OF assms]] by blast
  have "res_bind (ptr_destroy a v s) (\<lambda>s. Inr (drop_handle x s)) = ptr_destroy a v (drop_handle x s)"
    by (cases v)
      (auto simp: ptr_destroy_def call_release_def drop_handle_def split: option.split prod.split)
  with s' show ?thesis by simp
qed

lemma new_ok:
  assumes "inv k [] s" and "objects s p = None"
  shows "inv (k + 1) [] (s\<lparr>objects := (objects s)(p := Some (api_init a)), raw := (raw s)(p := 1)\<rparr>)"
    (is "inv _ _ ?s")
proof -
  have all: "agrees (objects s q) (refs [] s q) \<and> refs [] s q \<le> k" for q
    using assms(1) by (simp add: inv_def)
  have "refs [] s p = 0" using all [of p] assms(2) by simp
  then have r: "refs [] ?s q = (if q = p then 1 else refs [] s q)" for q
    by (auto simp: refs_def pointing_def)
  have "agrees (objects ?s q) (refs [] ?s q) \<and> refs [] ?s q \<le> k + 1" for q
    unfolding r using all [of q] init by (cases "q = p") auto
  then show ?thesis using assms(1) by (simp add: inv_def)
qed

lemma exec_ok:
  assumes inv: "inv k [] s" and ok: "permitted c s" and k: "k < limit"
  shows "\<exists>s'. exec a c (give_up (adopts c) s) = Inr s' \<and> inv (k + 1) [] s'"
proof -
  have inv1: "inv (k + 1) [] s" using inv_mono [OF inv] by simp
  have live: "\<exists>v. handles s x = Some v" if "handles s x \<noteq> None" for x using that by blast
  show ?thesis
  proof (cases c)
    case (New p)
    then show ?thesis using new_ok [OF inv] ok by (simp add: give_up_def)
  next
    case (Default x)
    then show ?thesis using set_fresh_ok [of "k + 1" None "[]" s x] inv1 ok
      by (simp add: give_up_def)
  next
    case (From_Raw x add ptr)
    show ?thesis
    proof (cases add)
      case True
      have "ptr = None \<or> (\<exists>p. ptr = Some p \<and> 0 < refs [] s p)"
        using ok From_Raw True alive_refs [OF inv] by (auto split: option.splits)
      moreover have "ptr_construct a True ptr s = ptr_copy a ptr s"
        by (simp add: ptr_construct_def ptr_copy_def split: option.split)
      ultimately show ?thesis
        using ptr_copy_ok [OF inv _ k, of ptr] set_fresh_ok [of "k + 1" ptr "[]"] ok From_Raw True
        by (fastforce simp: give_up_def)
    next
      case False
      then have "ptr_construct a add ptr u = Inr u" for u :: "'r store"
        by (simp add: ptr_construct_def split: option.split)
      moreover have "case ptr of None \<Rightarrow> True | Some p \<Rightarrow> 0 < raw s p"
        using ok From_Raw False by (simp split: option.splits)
      then have "inv (k + 1) [ptr] (give_up ptr s)" "handles (give_up ptr s) = handles s"
        using give_up_ok [OF inv1] by simp_all
      ultimately show ?thesis
        using set_fresh_ok [of "k + 1" ptr "[]" "give_up ptr s" x] ok From_Raw False by simp
    qed
  next
    case (Copy x y)
    obtain v where y: "handles s y = Some v" using live [of y] ok Copy by auto
    then show ?thesis
      using ptr_copy_ok [OF inv handle_alive [OF inv y] k] set_fresh_ok [of "k + 1" v "[]"] ok Copy
      by (fastforce simp: give_up_def)
  next
    case (Move x y)
    obtain v where y: "handles s y = Some v" using live [of y] ok Move by auto
    have "inv (k + 1) [v] (set_handle y None s)"
      using set_old_ok [OF _ y, of "k + 1" None "[]"] inv1 by simp
    then show ?thesis
      using set_fresh_ok [of "k + 1" v "[]" "set_handle y None s" x] ok Move y
      by (cases "x = y") (auto simp: give_up_def)
  next
    case (Assign_Raw x ptr)
    obtain old where x: "handles s x = Some old" using live [of x] ok Assign_Raw by auto
    have "ptr_construct a False ptr u = Inr u" for u :: "'r store"
      by (simp add: ptr_construct_def split: option.split)
    then show ?thesis
      using give_up_ok [OF inv1, of ptr] swap_destroy_ok [of "k + 1" ptr "[]" _ x old] ok Assign_Raw x
      by fastforce
  next
    case (Assign x y)
    obtain v where y: "handles s y = Some v" using live [of y] ok Assign by auto
    obtain old where x: "handles s x = Some old" using live [of x] ok Assign by auto
    obtain s1 where "ptr_copy a v s = Inr s1" "inv (k + 1) [v] s1" "handles s1 = handles s"
      using ptr_copy_ok [OF inv handle_alive [OF inv y] k] by blast
    then show ?thesis
      using swap_destroy_ok [of "k + 1" v "[]" s1 x old] x y Assign by (auto simp: give_up_def)
  next
    case (Assign_Move x y)
    obtain v where y: "handles s y = Some v" using live [of y] ok Assign_Move by auto
    obtain old where x: "handles (set_handle y None s) x = Some old"
      using live [of x] ok Assign_Move by (cases "x = y") auto
    have "inv (k + 1) [v] (set_handle y None s)"
      using set_old_ok [OF _ y, of "k + 1" None "[]"] inv1 by simp
    then show ?thesis
      using swap_destroy_ok [OF _ x, of "k + 1" v "[]"] y Assign_Move by (auto simp: give_up_def)
  next
    case (Swap x y)
    obtain v where y: "handles s y = Some v" using live [of y] ok Swap by auto
    obtain u where x: "handles s x = Some u" using live [of x] ok Swap by auto
    have "inv (k + 1) [] (set_handle y u (set_handle x v s))"
    proof (cases "x = y")
      case True
      then have "set_handle y u (set_handle x v s) = s"
        using x y by (simp add: set_handle_def fun_upd_idem)
      then show ?thesis using inv1 by simp
    next
      case False
      have "inv (k + 1) [v] (set_handle y None s)"
        using set_old_ok [OF _ y, of "k + 1" None "[]"] inv1 by simp
      from set_old_ok [OF this, of x u]
      have "inv (k + 1) [u] (set_handle x v (set_handle y None s))"
        using x False by simp
      from set_old_ok [OF this, of y None]
      have "inv (k + 1) [None] (set_handle y u (set_handle x v (set_handle y None s)))"
        using False by simp
      moreover have "set_handle y u (set_handle x v (set_handle y None s))
          = set_handle y u (set_handle x v s)"
        using False by (simp add: set_handle_def fun_upd_twist)
      ultimately show ?thesis by simp
    qed
    then show ?thesis using x y Swap by (simp add: give_up_def)
  next
    case (Reset x)
    obtain old where x: "handles s x = Some old" using live [of x] ok Reset by auto
    then show ?thesis
      using swap_destroy_ok [of "k + 1" None "[]" s x old] inv1 Reset by (auto simp: give_up_def)
  next
    case (Destroy x)
    obtain v where x: "handles s x = Some v" using live [of x] ok Destroy by auto
    then show ?thesis
      using destroy_handle_ok [OF inv1 x] Destroy by (auto simp: give_up_def)
  qed
qed

lemma inv_empty: "inv k [] empty_store"
  by (simp add: inv_def empty_store_def refs_def pointing_def)

lemma run_from:
  assumes "inv k [] s" and "k + length cs \<le> limit"
  shows "(\<exists>s'. run_commands a cs s = Inr s' \<and> inv (k + length cs) [] s') \<or>
    run_commands a cs s = Inl Undefined_Behaviour"
  using assms
proof (induction cs arbitrary: k s)
  case (Cons c cs)
  show ?case
  proof (cases "permitted c s")
    case True
    then obtain s' where "exec a c (give_up (adopts c) s) = Inr s'" "inv (k + 1) [] s'"
      using exec_ok [OF Cons.prems(1) True] Cons.prems(2) by auto
    then show ?thesis using Cons.IH [of "k + 1" s'] Cons.prems(2) True by simp
  qed simp
qed simp

lemma run_safe:
  "length cs \<le> limit \<Longrightarrow> run_commands a cs empty_store \<noteq> Inl Bad_Access"
  using run_from [OF inv_empty, of 0 cs] by auto

lemma run_counts:
  assumes "length cs \<le> limit" and "run_commands a cs empty_store = Inr s"
  shows "case objects s p of
      None \<Rightarrow> refs [] s p = 0
    | Some r \<Rightarrow> 0 < refs [] s p \<and> count r = refs [] s p"
  using run_from [OF inv_empty, of 0 cs] assms
  by (cases "objects s p") (auto simp: inv_def dest: spec [of _ p])

end

section \<open>The counters keep the contract\<close>

definition strong_api :: "u32 api" where
  "strong_api = \<lparr>api_init = strong_init, api_add_ref = intrusive_strong_ptr_add_ref,
     api_release = intrusive_strong_ptr_release\<rparr>"

text \<open>
  The strong count of an object with weak references; the object is gone for its handles when
  a release destroys or deletes it.
\<close>

definition weak_strong_api :: "u64 api" where
  "weak_strong_api = \<lparr>api_init = weak_references_init, api_add_ref = intrusive_weak_ptr_add_ref,
     api_release = (\<lambda>v. let d = weak_ptr_release_desired v
                         in (d, weak_ptr_release_after d \<noteq> Nothing_More))\<rparr>"

text \<open>
  The weak count, for the \<open>intrusive_wptr\<close> handles that outlive the object: the first is a raw
  reference to a word without strong count.
\<close>

definition weak_weak_api :: "u64 api" where
  "weak_weak_api = \<lparr>api_init = reference_count 0 1, api_add_ref = intrusive_weak_ptr_add_weak_ref,
     api_release = (\<lambda>v. let d = weak_ptr_release_weak_desired v
                         in (d, weak_ptr_release_weak_after d = Free_Block))\<rparr>"

lemma unat_u32_less: "unat (x :: u32) < 2 ^ 32"
  using unsigned_less [of x, where 'a = nat] by simp

lemma unat_u32_Suc: "unat x < 2 ^ 32 - 1 \<Longrightarrow> unat (x + 1 :: u32) = unat x + 1"
  by (simp add: unat_word_ariths)

lemma unat_u32_pred: "0 < unat x \<Longrightarrow> unat (x - 1 :: u32) = unat x - 1"
  by (metis unat_gt_0 unat_minus_one)

lemma unat_u32_eq_1: "unat x = Suc 0 \<longleftrightarrow> x = 1" for x :: u32
  by (simp add: word_unat_eq_iff)

interpretation strong: counted unat "\<lambda>_. True" "2 ^ 32 - 1" strong_api
  by unfold_locales
    (auto simp: strong_api_def strong_init_def intrusive_strong_ptr_add_ref_def
      intrusive_strong_ptr_release_def unat_u32_Suc unat_u32_pred unat_u32_eq_1)

lemma strong_count_add_ref:
  "unat (strong_count v) < 2 ^ 32 - 1 \<Longrightarrow>
     unat (strong_count (intrusive_weak_ptr_add_ref v)) = unat (strong_count v) + 1"
  using add_ref_counts [of "strong_count v" "weak_count v"]
  by (simp add: reference_count_surj unat_u32_Suc)

lemma weak_count_add_weak_ref:
  assumes "unat (weak_count v) < 2 ^ 32 - 1"
  shows "unat (weak_count (intrusive_weak_ptr_add_weak_ref v)) = unat (weak_count v) + 1"
    and "strong_count (intrusive_weak_ptr_add_weak_ref v) = strong_count v"
  using add_weak_ref_counts [of "weak_count v" "strong_count v"] assms
  by (simp_all add: reference_count_surj unat_u32_Suc)

interpretation weak_strong: counted "\<lambda>v. unat (strong_count v)" "\<lambda>_. True" "2 ^ 32 - 1" weak_strong_api
proof unfold_locales
  fix r :: u64
  assume "0 < unat (strong_count r)"
  then show "True \<and> unat (strong_count (fst (api_release weak_strong_api r)))
        = unat (strong_count r) - 1 \<and>
      (snd (api_release weak_strong_api r) \<longleftrightarrow> unat (strong_count r) = 1)"
    by (simp add: weak_strong_api_def Let_def weak_ptr_release_desired_def unat_u32_pred unat_u32_eq_1
        weak_ptr_release_after_def)
qed (simp_all add: weak_strong_api_def weak_references_init_def strong_count_add_ref)

interpretation weak_weak: counted "\<lambda>v. unat (weak_count v)" "\<lambda>v. strong_count v = 0" "2 ^ 32 - 1" weak_weak_api
proof unfold_locales
  fix r :: u64
  assume "strong_count r = 0" "0 < unat (weak_count r)"
  then show "strong_count (fst (api_release weak_weak_api r)) = 0 \<and>
      unat (weak_count (fst (api_release weak_weak_api r))) = unat (weak_count r) - 1 \<and>
      (snd (api_release weak_weak_api r) \<longleftrightarrow> unat (weak_count r) = 1)"
    by (simp add: weak_weak_api_def Let_def weak_ptr_release_weak_desired_def unat_u32_pred
        unat_u32_eq_1 weak_ptr_release_weak_after_def reference_count_0)
qed (simp_all add: weak_weak_api_def weak_count_add_weak_ref)

section \<open>Properties\<close>

text \<open>
  C4: no sequence of operations on handles reaches an object after its deletion, whichever of
  the three counters the object uses: copies, moves, assignments (self-assignment included),
  swaps and resets that the rules of the language permit never call \<open>add_ref\<close> or \<open>release\<close> on
  a deleted object.
\<close>

theorem handles_never_dangle:
  assumes "length cs < 2 ^ 32"
  shows "run_commands strong_api cs empty_store \<noteq> Inl Bad_Access \<and>
    run_commands weak_strong_api cs empty_store \<noteq> Inl Bad_Access \<and>
    run_commands weak_weak_api cs empty_store \<noteq> Inl Bad_Access"
  using assms strong.run_safe weak_strong.run_safe weak_weak.run_safe by simp

definition sample_commands :: "command list" where
  "sample_commands =
     [New 5, From_Raw 0 False (Some 5), Copy 1 0, Assign 1 1, Move 2 1, Assign_Move 2 2,
      Swap 0 2, Reset 0, Destroy 1, Destroy 2, New 5]"

lemma handles_never_dangle_witness:
  "run_commands strong_api sample_commands empty_store \<noteq> Inl Bad_Access"
  using handles_never_dangle [of sample_commands] by (simp add: sample_commands_def)

text \<open>
  C19: after any sequence of permitted operations an object is alive exactly when something
  refers to it, and its strong count is the number of handles that point to it plus the
  references raw pointers own: it is deleted by the release of the last reference, not before
  and not later.
\<close>

theorem object_lives_while_referenced:
  assumes "length cs < 2 ^ 32" and "run_commands strong_api cs empty_store = Inr s"
  shows "case objects s p of
      None \<Rightarrow> refs [] s p = 0
    | Some r \<Rightarrow> 0 < refs [] s p \<and> unat r = refs [] s p"
  using strong.run_counts [of cs s p] assms by simp

lemma sample_commands_run:
  "\<exists>s. run_commands strong_api (take 8 sample_commands) empty_store = Inr s \<and> deleted s = [] \<and>
     objects s 5 = Some 1 \<and> raw s 5 = 0"
  by (simp add: sample_commands_def strong_api_def empty_store_def Let_def ptr_construct_def
      ptr_copy_def ptr_destroy_def swap_destroy_def call_add_ref_def call_release_def give_up_def
      set_handle_def strong_init_def intrusive_strong_ptr_add_ref_def
      intrusive_strong_ptr_release_def)

lemma object_lives_while_referenced_witness:
  "\<exists>s. run_commands strong_api (take 8 sample_commands) empty_store = Inr s \<and>
     card (pointing s 5) = 1"
proof -
  obtain s where s: "run_commands strong_api (take 8 sample_commands) empty_store = Inr s"
    "objects s 5 = Some 1" "raw s 5 = 0" using sample_commands_run by blast
  have "length (take 8 sample_commands) < 2 ^ 32" by (simp add: sample_commands_def)
  from object_lives_while_referenced [OF this s(1), of 5] s show ?thesis
    by (simp add: refs_def)
qed

end
