(* ===== verification/Weak_Ptr.thy ===== *)
theory Weak_Ptr
  imports Ref_Count
begin

text \<open>
  \<open>intrusive_wptr\<close> of \<open>include/ptl/intrusive_ptr.hpp\<close> together with the strong handles it is made
  from and turned into: objects whose counting members are the functions of
  \<open>intrusive_weak_references\<close>, strong and weak handle variables that share them, the life of the
  object and of the memory block it sits in. The assignments between strong handles are those
  of \<open>Intrusive_Ptr\<close>; here strong handles are made, shared and dropped.
\<close>

section \<open>Blocks and handles\<close>

text \<open>
  A block is the memory of an object and its word of counts; the object in it may have been
  destroyed already. A handle variable in scope has its \<open>ptr_\<close>, \<open>None\<close> for \<open>nullptr\<close>.
\<close>

record shared_block =
  counts :: u64
  object_alive :: bool

type_synonym handle_table = "nat \<Rightarrow> nat option option"

record shared_world =
  blocks :: "nat \<Rightarrow> shared_block option"
  strong_vars :: handle_table
  weak_vars :: handle_table

definition empty_shared :: shared_world where
  "empty_shared = \<lparr>blocks = (\<lambda>_. None), strong_vars = (\<lambda>_. None), weak_vars = (\<lambda>_. None)\<rparr>"

definition new_block :: shared_block where
  "new_block = \<lparr>counts = weak_references_init, object_alive = True\<rparr>"

text \<open>
  The members a handle calls, on the block: \<open>None\<close> is a block that was freed. The members of
  the strong interface are called on a living object only.
\<close>

definition on_block :: "(shared_block \<Rightarrow> shared_block option) \<Rightarrow> nat option \<Rightarrow> shared_world \<Rightarrow> shared_world res" where
  "on_block f ptr w =
     (case ptr of
        None \<Rightarrow> Inl Bad_Access
      | Some p \<Rightarrow>
          (case blocks w p of
             None \<Rightarrow> Inl Bad_Access
           | Some b \<Rightarrow> Inr (w\<lparr>blocks := (blocks w)(p := f b)\<rparr>)))"

definition on_object :: "(shared_block \<Rightarrow> shared_block option) \<Rightarrow> nat option \<Rightarrow> shared_world \<Rightarrow> shared_world res" where
  "on_object f ptr w =
     (case ptr of
        None \<Rightarrow> Inl Bad_Access
      | Some p \<Rightarrow>
          (case blocks w p of
             None \<Rightarrow> Inl Bad_Access
           | Some b \<Rightarrow>
               if object_alive b then Inr (w\<lparr>blocks := (blocks w)(p := f b)\<rparr>) else Inl Bad_Access))"

definition block_add_ref :: "shared_block \<Rightarrow> shared_block option" where
  "block_add_ref b = Some (b\<lparr>counts := intrusive_weak_ptr_add_ref (counts b)\<rparr>)"

definition block_release :: "shared_block \<Rightarrow> shared_block option" where
  "block_release b =
     (let desired = weak_ptr_release_desired (counts b)
      in case weak_ptr_release_after desired of
           Delete_Block \<Rightarrow> None
         | Destroy_Object \<Rightarrow> Some \<lparr>counts = desired, object_alive = False\<rparr>
         | _ \<Rightarrow> Some (b\<lparr>counts := desired\<rparr>))"

definition block_add_weak :: "shared_block \<Rightarrow> shared_block option" where
  "block_add_weak b = Some (b\<lparr>counts := intrusive_weak_ptr_add_weak_ref (counts b)\<rparr>)"

definition block_release_weak :: "shared_block \<Rightarrow> shared_block option" where
  "block_release_weak b =
     (let desired = weak_ptr_release_weak_desired (counts b)
      in if weak_ptr_release_weak_after desired = Free_Block then None
         else Some (b\<lparr>counts := desired\<rparr>))"

definition block_locked :: "shared_block \<Rightarrow> shared_block option" where
  "block_locked b =
     (case weak_ptr_lock_desired (counts b) of
        None \<Rightarrow> Some b
      | Some desired \<Rightarrow> Some (b\<lparr>counts := desired\<rparr>))"

section \<open>The members of \<open>intrusive_wptr\<close>\<close>

text \<open>
  The constructor from a pointer, which \<open>intrusive_ptr::weak\<close> calls, does not test for
  \<open>nullptr\<close>; the others do.
\<close>

definition wptr_construct :: "nat option \<Rightarrow> shared_world \<Rightarrow> shared_world res" where
  "wptr_construct ptr w = on_block block_add_weak ptr w"

definition wptr_copy :: "nat option \<Rightarrow> shared_world \<Rightarrow> shared_world res" where
  "wptr_copy other w = (if other \<noteq> None then on_block block_add_weak other w else Inr w)"

definition wptr_destroy :: "nat option \<Rightarrow> shared_world \<Rightarrow> shared_world res" where
  "wptr_destroy ptr w = (if ptr \<noteq> None then on_block block_release_weak ptr w else Inr w)"

definition set_weak :: "nat \<Rightarrow> nat option \<Rightarrow> shared_world \<Rightarrow> shared_world" where
  "set_weak x v w = w\<lparr>weak_vars := (weak_vars w)(x := Some v)\<rparr>"

definition set_strong :: "nat \<Rightarrow> nat option \<Rightarrow> shared_world \<Rightarrow> shared_world" where
  "set_strong x v w = w\<lparr>strong_vars := (strong_vars w)(x := Some v)\<rparr>"

text \<open>A temporary holding \<open>tmp\<close> is swapped with \<open>x\<close> and destroyed.\<close>

definition wptr_swap_destroy :: "nat \<Rightarrow> nat option \<Rightarrow> shared_world \<Rightarrow> shared_world res" where
  "wptr_swap_destroy x tmp w = wptr_destroy (the (weak_vars w x)) (set_weak x tmp w)"

text \<open>\<open>lock\<close> makes \<open>x\<close> the strong handle it returns; it does not test \<open>ptr_\<close> either.\<close>

definition wptr_lock :: "nat \<Rightarrow> nat option \<Rightarrow> shared_world \<Rightarrow> shared_world res" where
  "wptr_lock x ptr w =
     res_bind (on_block block_locked ptr w) (\<lambda>w'.
       let success = (weak_ptr_lock_desired (counts (the (blocks w (the ptr)))) \<noteq> None)
       in Inr (set_strong x (if success then ptr else None) w'))"

datatype weak_command =
    Make nat nat           \<comment> \<open>\<open>intrusive_ptr x(new T)\<close>\<close>
  | Share nat nat          \<comment> \<open>\<open>intrusive_ptr x(y)\<close>\<close>
  | Drop nat
  | Weak_Default nat
  | Weak_Of nat nat        \<comment> \<open>\<open>x = y.weak()\<close> for a strong \<open>y\<close>\<close>
  | Weak_Copy nat nat
  | Weak_Move nat nat
  | Weak_Assign nat nat
  | Weak_Assign_Move nat nat
  | Weak_Swap nat nat
  | Weak_Reset nat
  | Weak_Destroy nat
  | Lock nat nat           \<comment> \<open>\<open>intrusive_ptr x(y.lock())\<close>\<close>

fun weak_exec :: "weak_command \<Rightarrow> shared_world \<Rightarrow> shared_world res" where
  "weak_exec (Make x p) w = Inr (set_strong x (Some p) (w\<lparr>blocks := (blocks w)(p := Some new_block)\<rparr>))"
| "weak_exec (Share x y) w =
     (let other = the (strong_vars w y)
      in if other \<noteq> None then res_bind (on_object block_add_ref other w) (\<lambda>w. Inr (set_strong x other w))
         else Inr (set_strong x other w))"
| "weak_exec (Drop x) w =
     (let ptr = the (strong_vars w x); w = w\<lparr>strong_vars := (strong_vars w)(x := None)\<rparr>
      in if ptr \<noteq> None then on_object block_release ptr w else Inr w)"
| "weak_exec (Weak_Default x) w = Inr (set_weak x None w)"
| "weak_exec (Weak_Of x y) w =
     (let ptr = the (strong_vars w y) in res_bind (wptr_construct ptr w) (\<lambda>w. Inr (set_weak x ptr w)))"
| "weak_exec (Weak_Copy x y) w =
     (let other = the (weak_vars w y) in res_bind (wptr_copy other w) (\<lambda>w. Inr (set_weak x other w)))"
| "weak_exec (Weak_Move x y) w =
     (let other = the (weak_vars w y) in Inr (set_weak x other (set_weak y None w)))"
| "weak_exec (Weak_Assign x y) w =
     (let other = the (weak_vars w y) in res_bind (wptr_copy other w) (wptr_swap_destroy x other))"
| "weak_exec (Weak_Assign_Move x y) w =
     (let other = the (weak_vars w y) in wptr_swap_destroy x other (set_weak y None w))"
| "weak_exec (Weak_Swap x y) w =
     Inr (set_weak y (the (weak_vars w x)) (set_weak x (the (weak_vars w y)) w))"
| "weak_exec (Weak_Reset x) w = wptr_swap_destroy x None w"
| "weak_exec (Weak_Destroy x) w =
     wptr_destroy (the (weak_vars w x)) (w\<lparr>weak_vars := (weak_vars w)(x := None)\<rparr>)"
| "weak_exec (Lock x y) w = wptr_lock x (the (weak_vars w y)) w"

text \<open>
  The rules of the language, and one of the class: \<open>weak\<close> and \<open>lock\<close> are called on handles
  that point to something.
\<close>

fun weak_permitted :: "weak_command \<Rightarrow> shared_world \<Rightarrow> bool" where
  "weak_permitted (Make x p) w \<longleftrightarrow> strong_vars w x = None \<and> blocks w p = None"
| "weak_permitted (Share x y) w \<longleftrightarrow> strong_vars w x = None \<and> strong_vars w y \<noteq> None"
| "weak_permitted (Drop x) w \<longleftrightarrow> strong_vars w x \<noteq> None"
| "weak_permitted (Weak_Default x) w \<longleftrightarrow> weak_vars w x = None"
| "weak_permitted (Weak_Of x y) w \<longleftrightarrow> weak_vars w x = None \<and> strong_vars w y \<notin> {None, Some None}"
| "weak_permitted (Weak_Copy x y) w \<longleftrightarrow> weak_vars w x = None \<and> weak_vars w y \<noteq> None"
| "weak_permitted (Weak_Move x y) w \<longleftrightarrow> weak_vars w x = None \<and> weak_vars w y \<noteq> None"
| "weak_permitted (Weak_Assign x y) w \<longleftrightarrow> weak_vars w x \<noteq> None \<and> weak_vars w y \<noteq> None"
| "weak_permitted (Weak_Assign_Move x y) w \<longleftrightarrow> weak_vars w x \<noteq> None \<and> weak_vars w y \<noteq> None"
| "weak_permitted (Weak_Swap x y) w \<longleftrightarrow> weak_vars w x \<noteq> None \<and> weak_vars w y \<noteq> None"
| "weak_permitted (Weak_Reset x) w \<longleftrightarrow> weak_vars w x \<noteq> None"
| "weak_permitted (Weak_Destroy x) w \<longleftrightarrow> weak_vars w x \<noteq> None"
| "weak_permitted (Lock x y) w \<longleftrightarrow> strong_vars w x = None \<and> weak_vars w y \<notin> {None, Some None}"

fun weak_run :: "weak_command list \<Rightarrow> shared_world \<Rightarrow> shared_world res" where
  "weak_run [] w = Inr w"
| "weak_run (c # cs) w =
     (if weak_permitted c w then res_bind (weak_exec c w) (weak_run cs) else Inl Undefined_Behaviour)"

section \<open>The counts are the handles\<close>

definition users :: "handle_table \<Rightarrow> nat \<Rightarrow> nat set" where
  "users f p = {x. f x = Some (Some p)}"

definition hit :: "nat option \<Rightarrow> nat \<Rightarrow> nat" where
  "hit v p = (if v = Some p then 1 else 0)"

lemma hit_None [simp]: "hit None p = 0"
  by (simp add: hit_def)

lemma finite_users: "finite (dom f) \<Longrightarrow> finite (users f p)"
  by (rule finite_subset) (auto simp: users_def)

lemma users_replace:
  assumes "finite (dom f)" and "f x = Some old"
  shows "card (users (f(x := Some v)) p) + hit old p = card (users f p) + hit v p"
proof -
  have "users (f(x := Some v)) p = (if v = Some p then insert x (users f p) else users f p - {x})"
    by (auto simp: users_def)
  moreover have "x \<in> users f p \<longleftrightarrow> old = Some p" using assms(2) by (simp add: users_def)
  ultimately show ?thesis
    using finite_users [OF assms(1), of p] card_Suc_Diff1 [of "users f p" x]
    by (auto simp: hit_def insert_absorb)
qed

lemma users_fresh:
  assumes "finite (dom f)" and "f x = None"
  shows "card (users (f(x := Some v)) p) = card (users f p) + hit v p"
proof -
  have "users (f(x := Some v)) p = (if v = Some p then insert x (users f p) else users f p)"
    "x \<notin> users f p"
    using assms(2) by (auto simp: users_def)
  then show ?thesis using finite_users [OF assms(1), of p] by (simp add: hit_def)
qed

lemma users_drop:
  assumes "finite (dom f)" and "f x = Some v"
  shows "card (users (f(x := None)) p) + hit v p = card (users f p)"
proof -
  have "users (f(x := None)) p = users f p - {x}" by (auto simp: users_def)
  moreover have "x \<in> users f p \<longleftrightarrow> v = Some p" using assms(2) by (simp add: users_def)
  ultimately show ?thesis
    using finite_users [OF assms(1), of p] card_Suc_Diff1 [of "users f p" x] by (auto simp: hit_def)
qed

lemma users_pos: "finite (dom f) \<Longrightarrow> f x = Some (Some p) \<Longrightarrow> 0 < card (users f p)"
  using finite_users [of f p] card_gt_0_iff by (fastforce simp: users_def)

text \<open>
  A block with \<open>n\<close> strong and \<open>m\<close> weak references: all strong references together own one weak
  count.
\<close>

definition block_matches :: "shared_block option \<Rightarrow> nat \<Rightarrow> nat \<Rightarrow> bool" where
  "block_matches block n m \<longleftrightarrow>
     (case block of
        None \<Rightarrow> n = 0 \<and> m = 0
      | Some b \<Rightarrow>
          unat (strong_count (counts b)) = n \<and>
          unat (weak_count (counts b)) = m + (if n > 0 then 1 else 0) \<and>
          (object_alive b \<longleftrightarrow> n > 0) \<and> (n > 0 \<or> m > 0))"

lemma block_matches_simps [simp]:
  "block_matches None n m \<longleftrightarrow> n = 0 \<and> m = 0"
  "block_matches (Some b) n m \<longleftrightarrow>
     unat (strong_count (counts b)) = n \<and>
     unat (weak_count (counts b)) = m + (if n > 0 then 1 else 0) \<and>
     (object_alive b \<longleftrightarrow> n > 0) \<and> (n > 0 \<or> m > 0)"
  by (simp_all add: block_matches_def)

lemma counts_cases:
  obtains s w where "counts b = reference_count s w"
  by (metis reference_count_surj)

lemma count_Suc: "unat x + 1 < 2 ^ 32 \<Longrightarrow> unat (x + 1 :: u32) = unat x + 1"
  by (simp add: unat_word_ariths)

lemma count_pred: "0 < unat x \<Longrightarrow> unat (x - 1 :: u32) = unat x - 1"
  by (metis unat_gt_0 unat_minus_one)

lemma unat_is_1: "unat x = Suc 0 \<longleftrightarrow> x = 1" for x :: u32
  by (simp add: word_unat_eq_iff)

lemma matches_add_ref:
  assumes "block_matches (Some b) n m" and "0 < n" and "n + 1 < 2 ^ 32"
  shows "block_matches (block_add_ref b) (n + 1) m"
proof -
  obtain s w where c: "counts b = reference_count s w" by (rule counts_cases)
  then show ?thesis
    using assms count_Suc [of s] add_ref_counts [of s w] by (auto simp: block_add_ref_def)
qed

lemma matches_add_weak:
  assumes "block_matches (Some b) n m" and "m + 2 < 2 ^ 32"
  shows "block_matches (block_add_weak b) n (m + 1)"
proof -
  obtain s w where c: "counts b = reference_count s w" by (rule counts_cases)
  then have "unat w + 1 < 2 ^ 32" using assms by (auto split: if_splits)
  then show ?thesis
    using assms c count_Suc [of w] add_weak_ref_counts [of w s] by (auto simp: block_add_weak_def)
qed

lemma matches_release:
  assumes "block_matches (Some b) n m" and "0 < n"
  shows "block_matches (block_release b) (n - 1) m"
proof -
  obtain s w where c: "counts b = reference_count s w" by (rule counts_cases)
  have u: "unat s = n" "unat w = m + 1" using assms c by auto
  show ?thesis
  proof (cases "n = 1")
    case True
    then have "s = 1" using u unat_is_1 by simp
    moreover have "unat (w - 1) = m" using u count_pred [of w] by simp
    moreover have "w - 1 = 0 \<longleftrightarrow> m = 0" using calculation(2) by (metis unat_eq_zero)
    ultimately show ?thesis
      using c True by (simp add: block_release_def Let_def release_counts weak_ptr_release_after_def)
  next
    case False
    then have "s \<noteq> 1" "unat (s - 1) = n - 1" using u unat_is_1 count_pred [of s] assms(2) by auto
    moreover from this have "s - 1 \<noteq> 0" by simp
    ultimately show ?thesis
      using c False assms u by (simp add: block_release_def Let_def release_counts weak_ptr_release_after_def)
  qed
qed

lemma matches_release_weak:
  assumes "block_matches (Some b) n m" and "0 < m"
  shows "block_matches (block_release_weak b) n (m - 1)"
proof -
  obtain s w where c: "counts b = reference_count s w" by (rule counts_cases)
  have "unat s = n" "unat w = m + (if n > 0 then 1 else 0)" using assms c by auto
  moreover from this have "unat (w - 1) = m - 1 + (if n > 0 then 1 else 0)"
    using count_pred [of w] assms(2) by auto
  moreover from this have "s = 0 \<and> w - 1 = 0 \<longleftrightarrow> n = 0 \<and> m = 1"
    using calculation(1) assms(2) by (auto simp: word_unat_eq_iff split: if_splits)
  ultimately show ?thesis
    using c assms by (auto simp: block_release_weak_def Let_def release_weak_counts
        weak_ptr_release_weak_after_def reference_count_0)
qed

lemma matches_lock:
  assumes "block_matches (Some b) n m" and "n + 1 < 2 ^ 32"
  shows "block_matches (block_locked b) (if n = 0 then 0 else n + 1) m"
    and "weak_ptr_lock_desired (counts b) = None \<longleftrightarrow> n = 0"
proof -
  obtain s w where c: "counts b = reference_count s w" by (rule counts_cases)
  have "unat s = n" using assms c by auto
  moreover from this have "s = 0 \<longleftrightarrow> n = 0" by (simp add: word_unat_eq_iff)
  ultimately show "block_matches (block_locked b) (if n = 0 then 0 else n + 1) m"
    and "weak_ptr_lock_desired (counts b) = None \<longleftrightarrow> n = 0"
    using c assms count_Suc [of s] by (auto simp: block_locked_def lock_counts)
qed

text \<open>
  The state between the operations of a member: \<open>v\<close> is a temporary weak handle, \<open>k\<close> bounds the
  number of handles of either kind.
\<close>

definition shared_inv :: "nat \<Rightarrow> nat option \<Rightarrow> shared_world \<Rightarrow> bool" where
  "shared_inv k v w \<longleftrightarrow>
     finite (dom (strong_vars w)) \<and> finite (dom (weak_vars w)) \<and>
     (\<forall>p. block_matches (blocks w p) (card (users (strong_vars w) p))
            (card (users (weak_vars w) p) + hit v p) \<and>
          card (users (strong_vars w) p) \<le> k \<and> card (users (weak_vars w) p) + hit v p \<le> k)"

abbreviation small :: "nat \<Rightarrow> bool" where
  "small k \<equiv> k + 2 < 2 ^ 32"

lemma shared_inv_mono: "shared_inv k v w \<Longrightarrow> k \<le> l \<Longrightarrow> shared_inv l v w"
  unfolding shared_inv_def by (meson le_trans)

lemma shared_invD:
  assumes "shared_inv k v w"
  shows "finite (dom (strong_vars w))" "finite (dom (weak_vars w))"
    and "block_matches (blocks w p) (card (users (strong_vars w) p))
            (card (users (weak_vars w) p) + hit v p)"
    and "card (users (strong_vars w) p) \<le> k" "card (users (weak_vars w) p) + hit v p \<le> k"
  using assms by (simp_all add: shared_inv_def)

lemma handle_fields [simp]:
  "blocks (set_weak x v w) = blocks w" "strong_vars (set_weak x v w) = strong_vars w"
  "weak_vars (set_weak x v w) = (weak_vars w)(x := Some v)"
  "blocks (set_strong x v w) = blocks w" "weak_vars (set_strong x v w) = weak_vars w"
  "strong_vars (set_strong x v w) = (strong_vars w)(x := Some v)"
  by (simp_all add: set_weak_def set_strong_def)

text \<open>Moving the temporary into and out of the variables.\<close>

lemma set_weak_fresh:
  "shared_inv k v w \<Longrightarrow> weak_vars w x = None \<Longrightarrow> shared_inv k None (set_weak x v w)"
  by (auto simp: shared_inv_def users_fresh)

lemma set_weak_old:
  assumes "shared_inv k v w" and "weak_vars w x = Some old"
  shows "shared_inv k old (set_weak x v w)"
  using assms users_replace [of "weak_vars w" x old v] by (simp add: shared_inv_def)

lemma drop_weak:
  assumes "shared_inv k None w" and "weak_vars w x = Some v"
  shows "shared_inv k v (w\<lparr>weak_vars := (weak_vars w)(x := None)\<rparr>)"
  using assms users_drop [of "weak_vars w" x v] by (simp add: shared_inv_def)

text \<open>A block that something refers to exists, and it is alive for a strong handle.\<close>

lemma referenced_block:
  assumes "shared_inv k v w"
    and "0 < card (users (strong_vars w) p) \<or> 0 < card (users (weak_vars w) p) + hit v p"
  obtains b where "blocks w p = Some b" "object_alive b \<longleftrightarrow> 0 < card (users (strong_vars w) p)"
  using shared_invD(3) [OF assms(1), of p] assms(2) by (cases "blocks w p") auto

lemma add_weak_ok:
  assumes inv: "shared_inv k None w" and "small k"
    and ref: "0 < card (users (strong_vars w) p) \<or> 0 < card (users (weak_vars w) p)"
  shows "\<exists>w'. on_block block_add_weak (Some p) w = Inr w' \<and> shared_inv (k + 1) (Some p) w' \<and>
    strong_vars w' = strong_vars w \<and> weak_vars w' = weak_vars w"
proof -
  obtain b where b: "blocks w p = Some b" using referenced_block [OF inv, of p] ref by auto
  have m: "block_matches (block_add_weak b) (card (users (strong_vars w) p))
      (card (users (weak_vars w) p) + 1)"
    using matches_add_weak [of b] shared_invD(3,5) [OF inv, of p] b assms(2) by simp
  have "block_matches (if q = p then block_add_weak b else blocks w q) (card (users (strong_vars w) q))
      (card (users (weak_vars w) q) + hit (Some p) q)" for q
    using m shared_invD(3) [OF inv, of q] by (cases "q = p") (simp_all add: hit_def)
  moreover have "card (users (strong_vars w) q) \<le> k + 1 \<and>
      card (users (weak_vars w) q) + hit (Some p) q \<le> k + 1" for q
    using shared_invD(4,5) [OF inv, of q] by (simp add: hit_def)
  ultimately have "shared_inv (k + 1) (Some p) (w\<lparr>blocks := (blocks w)(p := block_add_weak b)\<rparr>)"
    using shared_invD(1,2) [OF inv] by (simp add: shared_inv_def)
  then show ?thesis using b by (simp add: on_block_def)
qed

lemma wptr_copy_ok:
  assumes inv: "shared_inv k None w" and "small k" and y: "weak_vars w y = Some v"
  shows "\<exists>w'. wptr_copy v w = Inr w' \<and> shared_inv (k + 1) v w' \<and>
    strong_vars w' = strong_vars w \<and> weak_vars w' = weak_vars w"
proof (cases v)
  case None
  then show ?thesis using shared_inv_mono [OF inv] by (simp add: wptr_copy_def)
next
  case (Some p)
  then have "0 < card (users (weak_vars w) p)" using users_pos shared_invD(2) [OF inv] y by simp
  then show ?thesis using add_weak_ok [OF inv assms(2), of p] Some by (simp add: wptr_copy_def)
qed

lemma wptr_destroy_ok:
  assumes inv: "shared_inv k v w"
  shows "\<exists>w'. wptr_destroy v w = Inr w' \<and> shared_inv k None w' \<and>
    strong_vars w' = strong_vars w \<and> weak_vars w' = weak_vars w"
proof (cases v)
  case None
  then show ?thesis using inv by (simp add: wptr_destroy_def)
next
  case (Some p)
  obtain b where b: "blocks w p = Some b"
    using referenced_block [OF inv, of p] Some by (auto simp: hit_def)
  have m: "block_matches (block_release_weak b) (card (users (strong_vars w) p))
      (card (users (weak_vars w) p))"
    using matches_release_weak [of b] shared_invD(3) [OF inv, of p] b Some by (force simp: hit_def)
  have "block_matches (if q = p then block_release_weak b else blocks w q)
      (card (users (strong_vars w) q)) (card (users (weak_vars w) q))" for q
    using m shared_invD(3) [OF inv, of q] Some by (cases "q = p") (simp_all add: hit_def)
  moreover have "card (users (strong_vars w) q) \<le> k \<and> card (users (weak_vars w) q) \<le> k" for q
    using shared_invD(4,5) [OF inv, of q] by simp
  ultimately have "shared_inv k None (w\<lparr>blocks := (blocks w)(p := block_release_weak b)\<rparr>)"
    using shared_invD(1,2) [OF inv] by (simp add: shared_inv_def)
  then show ?thesis using b Some by (simp add: wptr_destroy_def on_block_def)
qed

lemma wptr_swap_destroy_ok:
  assumes "shared_inv k v w" and "weak_vars w x = Some old"
  shows "\<exists>w'. wptr_swap_destroy x v w = Inr w' \<and> shared_inv k None w'"
  using wptr_destroy_ok [OF set_weak_old [OF assms]] assms(2) by (auto simp: wptr_swap_destroy_def)

section \<open>Strong handles\<close>

lemma make_ok:
  assumes inv: "shared_inv k None w" and "strong_vars w x = None" and "blocks w p = None"
  shows "shared_inv (k + 1) None (set_strong x (Some p) (w\<lparr>blocks := (blocks w)(p := Some new_block)\<rparr>))"
    (is "shared_inv _ _ ?w")
proof -
  have fin: "finite (dom (strong_vars w))" "finite (dom (weak_vars w))" by (rule shared_invD [OF inv])+
  have c: "card (users (strong_vars ?w) q) = card (users (strong_vars w) q) + hit (Some p) q"
    "card (users (weak_vars ?w) q) = card (users (weak_vars w) q)" for q
    using users_fresh [OF fin(1) assms(2)] by simp_all
  have "card (users (strong_vars w) p) = 0" "card (users (weak_vars w) p) = 0"
    using shared_invD(3) [OF inv, of p] assms(3) by simp_all
  then have "block_matches (blocks ?w q) (card (users (strong_vars ?w) q))
      (card (users (weak_vars ?w) q) + hit None q)" for q
    using shared_invD(3) [OF inv, of q] unfolding c
    by (cases "q = p") (simp_all add: hit_def new_block_def weak_references_init_def)
  moreover have "card (users (strong_vars ?w) q) \<le> k + 1 \<and> card (users (weak_vars ?w) q) + hit None q \<le> k + 1"
    for q using shared_invD(4,5) [OF inv, of q] unfolding c by (simp add: hit_def)
  ultimately show ?thesis using fin by (simp add: shared_inv_def)
qed

text \<open>A strong handle to \<open>p\<close> more or less, with the block changed to match.\<close>

lemma strong_table_ok:
  assumes inv: "shared_inv k None w" and fin: "finite (dom f)"
    and others: "\<And>q. q \<noteq> p \<Longrightarrow> card (users f q) = card (users (strong_vars w) q)"
    and m: "block_matches b (card (users f p)) (card (users (weak_vars w) p))"
    and bound: "card (users f p) \<le> k + 1"
  shows "shared_inv (k + 1) None (w\<lparr>blocks := (blocks w)(p := b), strong_vars := f\<rparr>)"
proof -
  have "block_matches (if q = p then b else blocks w q) (card (users f q)) (card (users (weak_vars w) q))"
    for q using m shared_invD(3) [OF inv, of q] others [of q] by (cases "q = p") simp_all
  moreover have "card (users f q) \<le> k + 1 \<and> card (users (weak_vars w) q) \<le> k + 1" for q
    using bound shared_invD(4,5) [OF inv, of q] others [of q] by (cases "q = p") simp_all
  ultimately show ?thesis using fin shared_invD(2) [OF inv] by (simp add: shared_inv_def)
qed

lemma share_ok:
  assumes inv: "shared_inv k None w" and "small k" and x: "strong_vars w x = None"
    and y: "strong_vars w y = Some (Some p)"
  shows "\<exists>w'. on_object block_add_ref (Some p) w = Inr w' \<and> shared_inv (k + 1) None (set_strong x (Some p) w')"
proof -
  have fin: "finite (dom (strong_vars w))" by (rule shared_invD [OF inv])
  have pos: "0 < card (users (strong_vars w) p)" using users_pos [OF fin y] .
  then obtain b where b: "blocks w p = Some b" "object_alive b"
    using referenced_block [OF inv, of p] by auto
  let ?f = "(strong_vars w)(x := Some (Some p))"
  have c: "card (users ?f q) = card (users (strong_vars w) q) + hit (Some p) q" for q
    using users_fresh [OF fin x] .
  have bound: "card (users (strong_vars w) p) + 1 < 2 ^ 32"
    using shared_invD(4) [OF inv, of p] assms(2) by simp
  have "block_matches (block_add_ref b) (card (users ?f p)) (card (users (weak_vars w) p))"
    using matches_add_ref [OF _ pos bound, of b] shared_invD(3) [OF inv, of p] b unfolding c
    by (simp add: hit_def)
  then have "shared_inv (k + 1) None (w\<lparr>blocks := (blocks w)(p := block_add_ref b), strong_vars := ?f\<rparr>)"
    using shared_invD(4) [OF inv, of p] fin unfolding c
    by (intro strong_table_ok [OF inv]) (simp_all add: c hit_def)
  then show ?thesis using b by (simp add: on_object_def set_strong_def)
qed

lemma drop_strong_ok:
  assumes inv: "shared_inv k None w" and x: "strong_vars w x = Some (Some p)"
  shows "\<exists>w'. on_object block_release (Some p) (w\<lparr>strong_vars := (strong_vars w)(x := None)\<rparr>) = Inr w' \<and>
    shared_inv (k + 1) None w'"
proof -
  have fin: "finite (dom (strong_vars w))" by (rule shared_invD [OF inv])
  have pos: "0 < card (users (strong_vars w) p)" using users_pos [OF fin x] .
  then obtain b where b: "blocks w p = Some b" "object_alive b"
    using referenced_block [OF inv, of p] by auto
  let ?f = "(strong_vars w)(x := None)"
  have c: "card (users ?f q) + hit (Some p) q = card (users (strong_vars w) q)" for q
    using users_drop [OF fin x] .
  have n: "card (users ?f p) = card (users (strong_vars w) p) - 1" using c [of p] by (simp add: hit_def)
  have same: "card (users ?f q) = card (users (strong_vars w) q)" if "q \<noteq> p" for q
    using c [of q] that by (simp add: hit_def)
  have "block_matches (block_release b) (card (users ?f p)) (card (users (weak_vars w) p))"
    using matches_release [OF _ pos, of b] shared_invD(3) [OF inv, of p] b unfolding n by simp
  then have "shared_inv (k + 1) None (w\<lparr>blocks := (blocks w)(p := block_release b), strong_vars := ?f\<rparr>)"
    using shared_invD(4) [OF inv, of p] fin n same by (intro strong_table_ok [OF inv]) auto
  moreover have "on_object block_release (Some p) (w\<lparr>strong_vars := ?f\<rparr>)
      = Inr (w\<lparr>blocks := (blocks w)(p := block_release b), strong_vars := ?f\<rparr>)"
    using b by (simp add: on_object_def)
  ultimately show ?thesis by blast
qed

lemma lock_ok:
  assumes inv: "shared_inv k None w" and "small k" and x: "strong_vars w x = None"
    and y: "weak_vars w y = Some (Some p)"
  shows "\<exists>w'. wptr_lock x (Some p) w = Inr w' \<and> shared_inv (k + 1) None w' \<and>
    strong_vars w' = (strong_vars w)(x := Some (if users (strong_vars w) p = {} then None else Some p))"
proof -
  have fin: "finite (dom (strong_vars w))" "finite (dom (weak_vars w))" by (rule shared_invD [OF inv])+
  have "0 < card (users (weak_vars w) p)" using users_pos [OF fin(2) y] .
  then obtain b where b: "blocks w p = Some b" using referenced_block [OF inv, of p] by auto
  let ?n = "card (users (strong_vars w) p)"
  have zero: "?n = 0 \<longleftrightarrow> users (strong_vars w) p = {}" using finite_users [OF fin(1)] by simp
  have bound: "?n + 1 < 2 ^ 32" using shared_invD(4) [OF inv, of p] assms(2) by simp
  have m: "block_matches (Some b) ?n (card (users (weak_vars w) p))"
    using shared_invD(3) [OF inv, of p] b by simp
  let ?v = "if users (strong_vars w) p = {} then None else Some p"
  let ?f = "(strong_vars w)(x := Some ?v)"
  have c: "card (users ?f q) = card (users (strong_vars w) q) + hit ?v q" for q
    using users_fresh [OF fin(1) x] .
  have "block_matches (block_locked b) (card (users ?f p)) (card (users (weak_vars w) p))"
    using matches_lock(1) [OF m bound] zero unfolding c by (auto simp: hit_def split: if_splits)
  then have "shared_inv (k + 1) None (w\<lparr>blocks := (blocks w)(p := block_locked b), strong_vars := ?f\<rparr>)"
    using shared_invD(4) [OF inv, of p] fin
    by (intro strong_table_ok [OF inv]) (auto simp: c hit_def)
  then show ?thesis
    using b matches_lock(2) [OF m bound] zero
    by (auto simp: wptr_lock_def on_block_def set_strong_def split: if_splits)
qed

section \<open>Programs\<close>

lemma shared_inv_strong_null:
  "shared_inv k None w \<Longrightarrow> strong_vars w x = None \<Longrightarrow> shared_inv k None (set_strong x None w)"
  by (simp add: shared_inv_def users_fresh)

lemma shared_inv_strong_drop_null:
  assumes "shared_inv k None w" and "strong_vars w x = Some None"
  shows "shared_inv k None (w\<lparr>strong_vars := (strong_vars w)(x := None)\<rparr>)"
  using assms users_drop [of "strong_vars w" x None] by (simp add: shared_inv_def)

lemma weak_swap_ok:
  assumes inv: "shared_inv k None w" and x: "weak_vars w x = Some u" and y: "weak_vars w y = Some v"
  shows "shared_inv k None (set_weak y u (set_weak x v w))"
proof (cases "x = y")
  case True
  then have "set_weak y u (set_weak x v w) = w" using x y by (simp add: set_weak_def fun_upd_idem)
  then show ?thesis using inv by simp
next
  case False
  have "shared_inv k v (set_weak y None w)" by (rule set_weak_old [OF inv y])
  from set_weak_old [OF this, of x u] have "shared_inv k u (set_weak x v (set_weak y None w))"
    using x False by simp
  from set_weak_old [OF this, of y None]
  have "shared_inv k None (set_weak y u (set_weak x v (set_weak y None w)))" using False by simp
  moreover have "set_weak y u (set_weak x v (set_weak y None w)) = set_weak y u (set_weak x v w)"
    using False by (simp add: set_weak_def fun_upd_twist)
  ultimately show ?thesis by simp
qed

lemma weak_exec_weak_ok:
  assumes inv: "shared_inv k None w" and "small k"
  shows "weak_permitted (Weak_Of x y) w \<Longrightarrow> \<exists>w'. weak_exec (Weak_Of x y) w = Inr w' \<and> shared_inv (k + 1) None w'"
    and "weak_permitted (Weak_Copy x y) w \<Longrightarrow> \<exists>w'. weak_exec (Weak_Copy x y) w = Inr w' \<and> shared_inv (k + 1) None w'"
    and "weak_permitted (Weak_Move x y) w \<Longrightarrow> \<exists>w'. weak_exec (Weak_Move x y) w = Inr w' \<and> shared_inv (k + 1) None w'"
    and "weak_permitted (Weak_Assign x y) w \<Longrightarrow> \<exists>w'. weak_exec (Weak_Assign x y) w = Inr w' \<and> shared_inv (k + 1) None w'"
    and "weak_permitted (Weak_Assign_Move x y) w \<Longrightarrow>
      \<exists>w'. weak_exec (Weak_Assign_Move x y) w = Inr w' \<and> shared_inv (k + 1) None w'"
proof -
  assume "weak_permitted (Weak_Of x y) w"
  then obtain p where v: "strong_vars w y = Some (Some p)" "weak_vars w x = None" by auto
  then have "0 < card (users (strong_vars w) p)" using users_pos shared_invD(1) [OF inv] by blast
  then obtain w' where "on_block block_add_weak (Some p) w = Inr w'" "shared_inv (k + 1) (Some p) w'"
    "weak_vars w' = weak_vars w" using add_weak_ok [OF inv assms(2), of p] by blast
  then show "\<exists>w'. weak_exec (Weak_Of x y) w = Inr w' \<and> shared_inv (k + 1) None w'"
    using set_weak_fresh v by (simp add: wptr_construct_def)
next
  assume "weak_permitted (Weak_Copy x y) w"
  then obtain v where v: "weak_vars w y = Some v" "weak_vars w x = None" by auto
  obtain w' where "wptr_copy v w = Inr w'" "shared_inv (k + 1) v w'" "weak_vars w' = weak_vars w"
    using wptr_copy_ok [OF inv assms(2) v(1)] by blast
  then show "\<exists>w'. weak_exec (Weak_Copy x y) w = Inr w' \<and> shared_inv (k + 1) None w'"
    using set_weak_fresh v by simp
next
  have inv1: "shared_inv (k + 1) None w" using shared_inv_mono [OF inv] by simp
  assume "weak_permitted (Weak_Move x y) w"
  then obtain v where v: "weak_vars w y = Some v" "weak_vars w x = None" "x \<noteq> y" by (cases "x = y") auto
  then show "\<exists>w'. weak_exec (Weak_Move x y) w = Inr w' \<and> shared_inv (k + 1) None w'"
    using set_weak_fresh [OF set_weak_old [OF inv1 v(1)], of x] by simp
next
  assume "weak_permitted (Weak_Assign x y) w"
  then obtain v old where v: "weak_vars w y = Some v" "weak_vars w x = Some old" by auto
  obtain w' where "wptr_copy v w = Inr w'" "shared_inv (k + 1) v w'" "weak_vars w' = weak_vars w"
    using wptr_copy_ok [OF inv assms(2) v(1)] by blast
  then show "\<exists>w'. weak_exec (Weak_Assign x y) w = Inr w' \<and> shared_inv (k + 1) None w'"
    using wptr_swap_destroy_ok v by simp
next
  have inv1: "shared_inv (k + 1) None w" using shared_inv_mono [OF inv] by simp
  assume "weak_permitted (Weak_Assign_Move x y) w"
  then obtain v where v: "weak_vars w y = Some v" by auto
  moreover have "weak_vars (set_weak y None w) x \<noteq> None"
    using \<open>weak_permitted (Weak_Assign_Move x y) w\<close> by simp
  ultimately show "\<exists>w'. weak_exec (Weak_Assign_Move x y) w = Inr w' \<and> shared_inv (k + 1) None w'"
    using wptr_swap_destroy_ok [OF set_weak_old [OF inv1 v]] by fastforce
qed

lemma weak_exec_ok:
  assumes inv: "shared_inv k None w" and "small k" and ok: "weak_permitted c w"
  shows "\<exists>w'. weak_exec c w = Inr w' \<and> shared_inv (k + 1) None w'"
proof (cases c)
  case (Make x p)
  then show ?thesis using make_ok [OF inv] ok by simp
next
  case (Share x y)
  then obtain v where v: "strong_vars w y = Some v" "strong_vars w x = None" using ok by auto
  show ?thesis
  proof (cases v)
    case None
    then show ?thesis using shared_inv_strong_null [OF shared_inv_mono [OF inv]] v Share by simp
  next
    case (Some p)
    then show ?thesis using share_ok [OF inv assms(2) v(2), of y p] v Share by auto
  qed
next
  case (Drop x)
  then obtain v where v: "strong_vars w x = Some v" using ok by auto
  show ?thesis
  proof (cases v)
    case None
    then show ?thesis using shared_inv_strong_drop_null [OF shared_inv_mono [OF inv]] v Drop by simp
  next
    case (Some p)
    then show ?thesis using drop_strong_ok [OF inv, of x p] v Drop by simp
  qed
next
  case (Weak_Default x)
  then show ?thesis using set_weak_fresh [OF shared_inv_mono [OF inv]] ok by simp
next
  case (Weak_Swap x y)
  then obtain u v where v: "weak_vars w x = Some u" "weak_vars w y = Some v" using ok by auto
  show ?thesis using weak_swap_ok [OF shared_inv_mono [OF inv] v, of "k + 1"] v Weak_Swap by simp
next
  case (Weak_Reset x)
  then obtain u where v: "weak_vars w x = Some u" using ok by auto
  then show ?thesis
    using wptr_swap_destroy_ok [OF shared_inv_mono [OF inv] v, of "k + 1"] Weak_Reset by simp
next
  case (Weak_Destroy x)
  then obtain u where v: "weak_vars w x = Some u" using ok by auto
  then show ?thesis
    using wptr_destroy_ok [OF drop_weak [OF shared_inv_mono [OF inv] v], of "k + 1"] Weak_Destroy by auto
next
  case (Lock x y)
  then obtain p where v: "weak_vars w y = Some (Some p)" "strong_vars w x = None" using ok by auto
  then show ?thesis using lock_ok [OF inv assms(2) v(2,1)] Lock by auto
qed (use weak_exec_weak_ok [OF assms(1,2)] ok in \<open>auto simp del: weak_exec.simps weak_permitted.simps\<close>)

lemma weak_run_from:
  assumes "shared_inv k None w" and "small (k + length cs)"
  shows "(\<exists>w'. weak_run cs w = Inr w' \<and> shared_inv (k + length cs) None w') \<or>
    weak_run cs w = Inl Undefined_Behaviour"
  using assms
proof (induction cs arbitrary: k w)
  case (Cons c cs)
  show ?case
  proof (cases "weak_permitted c w")
    case True
    then obtain w' where "weak_exec c w = Inr w'" "shared_inv (k + 1) None w'"
      using weak_exec_ok [OF Cons.prems(1) _ True] Cons.prems(2) by auto
    then show ?thesis using Cons.IH [of "k + 1" w'] Cons.prems(2) True by simp
  qed simp
qed simp

lemma shared_inv_empty: "shared_inv 0 None empty_shared"
  by (simp add: shared_inv_def empty_shared_def users_def)

lemma weak_run_inv:
  "weak_run cs empty_shared = Inr w \<Longrightarrow> small (length cs) \<Longrightarrow> shared_inv (length cs) None w"
  using weak_run_from [OF shared_inv_empty, of cs] by auto

text \<open>
  C5: no program of strong and weak handles touches a freed block or calls a destroyed object,
  and at every moment the block is there exactly while some handle points to it and the object
  in it lives exactly while a strong handle does: weak handles keep the memory, not the object.
\<close>

theorem weak_handles_keep_the_block:
  assumes "length cs < 2 ^ 31"
  shows "case weak_run cs empty_shared of
      Inl fault \<Rightarrow> fault = Undefined_Behaviour
    | Inr w \<Rightarrow>
        \<forall>p. (blocks w p = None \<longleftrightarrow> users (strong_vars w) p = {} \<and> users (weak_vars w) p = {}) \<and>
            (case blocks w p of None \<Rightarrow> True
             | Some b \<Rightarrow> object_alive b \<longleftrightarrow> users (strong_vars w) p \<noteq> {})"
proof (cases "weak_run cs empty_shared")
  case (Inl fault)
  then show ?thesis using weak_run_from [OF shared_inv_empty, of cs] assms by auto
next
  case (Inr w)
  then have inv: "shared_inv (length cs) None w" using weak_run_inv assms by simp
  have zero: "card (users (strong_vars w) p) = 0 \<longleftrightarrow> users (strong_vars w) p = {}"
    "card (users (weak_vars w) p) = 0 \<longleftrightarrow> users (weak_vars w) p = {}" for p
    using finite_users shared_invD(1,2) [OF inv] by simp_all
  have "(blocks w p = None \<longleftrightarrow> users (strong_vars w) p = {} \<and> users (weak_vars w) p = {}) \<and>
      (case blocks w p of None \<Rightarrow> True | Some b \<Rightarrow> object_alive b \<longleftrightarrow> users (strong_vars w) p \<noteq> {})" for p
    using shared_invD(3) [OF inv, of p] zero [of p] by (cases "blocks w p") auto
  with Inr show ?thesis by simp
qed

definition sample_weak :: "weak_command list" where
  "sample_weak = [Make 0 7, Weak_Of 0 0, Weak_Copy 1 0, Share 1 0, Drop 0, Weak_Assign 1 1, Lock 2 1,
     Weak_Swap 0 1, Drop 1, Weak_Destroy 0]"

lemma sample_weak_runs:
  "case weak_run sample_weak empty_shared of
     Inl fault \<Rightarrow> False
   | Inr w \<Rightarrow> map_option object_alive (blocks w 7) = Some True \<and> strong_vars w 3 = None \<and>
       weak_vars w 1 = Some (Some 7)"
  by code_simp

lemma weak_handles_keep_the_block_witness:
  "\<exists>w. weak_run sample_weak empty_shared = Inr w \<and> users (strong_vars w) 7 \<noteq> {}"
proof -
  obtain w where w: "weak_run sample_weak empty_shared = Inr w"
    "map_option object_alive (blocks w 7) = Some True"
    using sample_weak_runs by (auto split: sum.splits)
  have "length sample_weak < 2 ^ 31" by (simp add: sample_weak_def)
  from weak_handles_keep_the_block [OF this] w show ?thesis by (fastforce split: option.splits)
qed

text \<open>
  C20: \<open>lock\<close> on a weak handle never fails on memory and gives a strong handle to the same object
  exactly while that object still has a strong handle; otherwise it gives a null handle.
\<close>

theorem lock_gives_the_living_object:
  assumes "length cs < 2 ^ 31" and "weak_run cs empty_shared = Inr w"
    and "weak_vars w y = Some (Some p)" and "strong_vars w x = None"
  shows "\<exists>w'. weak_exec (Lock x y) w = Inr w' \<and>
    strong_vars w' x = Some (if users (strong_vars w) p \<noteq> {} then Some p else None)"
proof -
  have "shared_inv (length cs) None w" "small (length cs)"
    using weak_run_inv assms(1,2) by simp_all
  from lock_ok [OF this assms(4,3)] assms(3) show ?thesis
    by (cases "users (strong_vars w) p = {}") auto
qed

lemma lock_gives_the_living_object_witness:
  "\<exists>w w'. weak_run sample_weak empty_shared = Inr w \<and> weak_exec (Lock 3 1) w = Inr w' \<and>
     strong_vars w' 3 \<in> {Some (Some 7), Some None}"
proof -
  obtain w where w: "weak_run sample_weak empty_shared = Inr w" "strong_vars w 3 = None"
    "weak_vars w 1 = Some (Some 7)"
    using sample_weak_runs by (auto split: sum.splits)
  have "length sample_weak < 2 ^ 31" by (simp add: sample_weak_def)
  from lock_gives_the_living_object [OF this w(1,3,2)] w(1) show ?thesis by fastforce
qed

text \<open>\<open>weak\<close> on a null strong handle and \<open>lock\<close> on a null weak handle go through \<open>nullptr\<close>.\<close>

lemma null_handles_crash:
  "strong_vars w y = Some None \<Longrightarrow> weak_exec (Weak_Of x y) w = Inl Bad_Access"
  "weak_vars w y = Some None \<Longrightarrow> weak_exec (Lock x y) w = Inl Bad_Access"
  by (simp_all add: wptr_construct_def wptr_lock_def on_block_def)

end
