(* ===== verification/Expected.thy ===== *)
theory Expected
  imports Ptl_Prelude
begin

text \<open>
  \<open>expected<T, E, EPOLICY>\<close> of \<open>include/ptl/expected.hpp\<close>: the primary template and its
  specialisations for \<open>T&\<close> and \<open>void\<close>. An object is the discriminant \<open>contains_\<close> and a union;
  which member of the union is alive is part of the model, so that a constructor run over a
  live member, a destructor run on a dead one and a member that is never destroyed are all
  visible.

  What the program does with the types \<open>T\<close> and \<open>E\<close> is a parameter (\<open>elements\<close>): copying may
  throw, moving leaves a moved-from value behind.
\<close>

section \<open>Objects\<close>

datatype contains = EXPECTED | UNEXPECTED | NOTHING

datatype ('t, 'e) members = Dead | Live_Value 't | Live_Error 'e

record ('t, 'e) expected =
  contains :: contains
  members :: "('t, 'e) members"

record ('t, 'e) elements =
  copy_value :: "'t \<Rightarrow> 't res"
  copy_error :: "'e \<Rightarrow> 'e res"
  move_value :: "'t \<Rightarrow> 't \<times> 't"     \<comment> \<open>the new value and what is left behind\<close>
  move_error :: "'e \<Rightarrow> 'e \<times> 'e"

datatype policy = Error_Policy_Assert | Error_Policy_Throw

text \<open>
  The number of elements constructed and destroyed so far. Constructing over a live member
  does not destroy it.
\<close>

record ledger =
  constructed :: nat
  destroyed :: nat

definition count_construct :: "ledger \<Rightarrow> ledger" where
  "count_construct l = l\<lparr>constructed := constructed l + 1\<rparr>"

definition count_destroy :: "ledger \<Rightarrow> ledger" where
  "count_destroy l = l\<lparr>destroyed := destroyed l + 1\<rparr>"

fun live :: "('t, 'e) members \<Rightarrow> nat" where
  "live Dead = 0"
| "live (Live_Value v) = 1"
| "live (Live_Error e) = 1"

section \<open>The primary template\<close>

definition expected_nothing :: "('t, 'e) expected" where
  "expected_nothing = \<lparr>contains = NOTHING, members = Dead\<rparr>"

definition expected_value ::
  "('t, 'e) elements \<Rightarrow> 't \<Rightarrow> ledger \<Rightarrow> (('t, 'e) expected \<times> ledger) res" where
  "expected_value el v l =
     res_bind (copy_value el v)
       (\<lambda>v. Inr (\<lparr>contains = EXPECTED, members = Live_Value v\<rparr>, count_construct l))"

definition expected_value_move ::
  "('t, 'e) elements \<Rightarrow> 't \<Rightarrow> ledger \<Rightarrow> ('t, 'e) expected \<times> 't \<times> ledger" where
  "expected_value_move el v l =
     (let (v, rest) = move_value el v
      in (\<lparr>contains = EXPECTED, members = Live_Value v\<rparr>, rest, count_construct l))"

text \<open>
  The constructor with \<open>std::in_place\<close> writes \<open>std::forward<ARGS>...\<close> without arguments and cannot be
  instantiated; read as forwarding them, it makes the value with a constructor of \<open>T\<close>, a parameter.
\<close>

definition expected_in_place ::
  "('args \<Rightarrow> 't res) \<Rightarrow> 'args \<Rightarrow> ledger \<Rightarrow> (('t, 'e) expected \<times> ledger) res" where
  "expected_in_place construct args l =
     res_bind (construct args)
       (\<lambda>v. Inr (\<lparr>contains = EXPECTED, members = Live_Value v\<rparr>, count_construct l))"

definition expected_error ::
  "('t, 'e) elements \<Rightarrow> 'e \<Rightarrow> ledger \<Rightarrow> (('t, 'e) expected \<times> ledger) res" where
  "expected_error el e l =
     res_bind (copy_error el e)
       (\<lambda>e. Inr (\<lparr>contains = UNEXPECTED, members = Live_Error e\<rparr>, count_construct l))"

definition expected_error_move ::
  "('t, 'e) elements \<Rightarrow> 'e \<Rightarrow> ledger \<Rightarrow> ('t, 'e) expected \<times> 'e \<times> ledger" where
  "expected_error_move el e l =
     (let (e, rest) = move_error el e
      in (\<lparr>contains = UNEXPECTED, members = Live_Error e\<rparr>, rest, count_construct l))"

text \<open>
  Reading a member that is not alive is undefined. \<open>construct_from\<close> is the pair of branches
  the copying and moving members share: it constructs in \<open>this\<close> the member \<open>contains_\<close> names.
  A copy that throws leaves \<open>this\<close> as it is; the second component is the exception.
\<close>

fun value_of :: "('t, 'e) members \<Rightarrow> 't res" where
  "value_of (Live_Value v) = Inr v"
| "value_of _ = Inl Undefined_Behaviour"

fun error_of :: "('t, 'e) members \<Rightarrow> 'e res" where
  "error_of (Live_Error e) = Inr e"
| "error_of _ = Inl Undefined_Behaviour"

definition copy_from ::
  "('t, 'e) elements \<Rightarrow> ('t, 'e) expected \<Rightarrow> ('t, 'e) expected \<Rightarrow> ledger
     \<Rightarrow> ('t, 'e) expected \<times> ledger \<times> fault option" where
  "copy_from el this other l =
     (case contains this of
        EXPECTED \<Rightarrow>
          (case res_bind (value_of (members other)) (copy_value el) of
             Inl f \<Rightarrow> (this, l, Some f)
           | Inr v \<Rightarrow> (this\<lparr>members := Live_Value v\<rparr>, count_construct l, None))
      | UNEXPECTED \<Rightarrow>
          (case res_bind (error_of (members other)) (copy_error el) of
             Inl f \<Rightarrow> (this, l, Some f)
           | Inr e \<Rightarrow> (this\<lparr>members := Live_Error e\<rparr>, count_construct l, None))
      | NOTHING \<Rightarrow> (this, l, None))"

definition move_from ::
  "('t, 'e) elements \<Rightarrow> ('t, 'e) expected \<Rightarrow> ('t, 'e) expected \<Rightarrow> ledger
     \<Rightarrow> (('t, 'e) expected \<times> ('t, 'e) expected \<times> ledger) res" where
  "move_from el this other l =
     (case contains this of
        EXPECTED \<Rightarrow>
          res_bind (value_of (members other)) (\<lambda>v.
            let (v, rest) = move_value el v
            in Inr (this\<lparr>members := Live_Value v\<rparr>, other\<lparr>members := Live_Value rest\<rparr>,
                 count_construct l))
      | UNEXPECTED \<Rightarrow>
          res_bind (error_of (members other)) (\<lambda>e.
            let (e, rest) = move_error el e
            in Inr (this\<lparr>members := Live_Error e\<rparr>, other\<lparr>members := Live_Error rest\<rparr>,
                 count_construct l))
      | NOTHING \<Rightarrow> Inr (this, other, l))"

definition expected_move ::
  "('t, 'e) elements \<Rightarrow> ('t, 'e) expected \<Rightarrow> ledger
     \<Rightarrow> (('t, 'e) expected \<times> ('t, 'e) expected \<times> ledger) res" where
  "expected_move el other l = move_from el \<lparr>contains = contains other, members = Dead\<rparr> other l"

text \<open>A constructor that throws leaves no object.\<close>

definition expected_copy ::
  "('t, 'e) elements \<Rightarrow> ('t, 'e) expected \<Rightarrow> ledger \<Rightarrow> (('t, 'e) expected \<times> ledger) res" where
  "expected_copy el other l =
     (case copy_from el \<lparr>contains = contains other, members = Dead\<rparr> other l of
        (this, l, None) \<Rightarrow> Inr (this, l)
      | (this, l, Some f) \<Rightarrow> Inl f)"

definition destroy_value :: "('t, 'e) expected \<Rightarrow> ledger \<Rightarrow> (('t, 'e) expected \<times> ledger) res" where
  "destroy_value this l =
     res_bind (value_of (members this)) (\<lambda>_. Inr (this\<lparr>members := Dead\<rparr>, count_destroy l))"

definition destroy_error :: "('t, 'e) expected \<Rightarrow> ledger \<Rightarrow> (('t, 'e) expected \<times> ledger) res" where
  "destroy_error this l =
     res_bind (error_of (members this)) (\<lambda>_. Inr (this\<lparr>members := Dead\<rparr>, count_destroy l))"

definition destroy :: "('t, 'e) expected \<Rightarrow> ledger \<Rightarrow> (('t, 'e) expected \<times> ledger) res" where
  "destroy this l =
     (let contained = contains this; this = this\<lparr>contains := NOTHING\<rparr>
      in case contained of
           EXPECTED \<Rightarrow> destroy_value this l
         | UNEXPECTED \<Rightarrow> destroy_error this l
         | NOTHING \<Rightarrow> Inr (this, l))"

definition destructor :: "('t, 'e) expected \<Rightarrow> ledger \<Rightarrow> ledger res" where
  "destructor this l =
     (case contains this of
        EXPECTED \<Rightarrow> res_bind (destroy_value this l) (\<lambda>(_, l). Inr l)
      | UNEXPECTED \<Rightarrow> res_bind (destroy_error this l) (\<lambda>(_, l). Inr l)
      | NOTHING \<Rightarrow> Inr l)"

text \<open>Assignments between two different objects; the self-assignment test is in the caller.\<close>

definition move_assign ::
  "('t, 'e) elements \<Rightarrow> ('t, 'e) expected \<Rightarrow> ('t, 'e) expected \<Rightarrow> ledger
     \<Rightarrow> (('t, 'e) expected \<times> ('t, 'e) expected \<times> ledger) res" where
  "move_assign el this other l =
     res_bind (destroy this l) (\<lambda>(this, l).
       move_from el (this\<lparr>contains := contains other\<rparr>) other l)"

definition copy_assign ::
  "('t, 'e) elements \<Rightarrow> ('t, 'e) expected \<Rightarrow> ('t, 'e) expected \<Rightarrow> ledger
     \<Rightarrow> (('t, 'e) expected \<times> ledger \<times> fault option)" where
  "copy_assign el this other l =
     (case destroy this l of
        Inl f \<Rightarrow> (this, l, Some f)
      | Inr (this, l) \<Rightarrow> copy_from el (this\<lparr>contains := contains other\<rparr>) other l)"

definition is_value :: "('t, 'e) expected \<Rightarrow> bool" where
  "is_value this \<longleftrightarrow> contains this = EXPECTED"

definition is_error :: "('t, 'e) expected \<Rightarrow> bool" where
  "is_error this \<longleftrightarrow> contains this = UNEXPECTED"

text \<open>
  \<open>as_exception\<close> gives the exception an error holds when \<open>E\<close> derives from
  \<open>std::exception_ptr\<close>, and is \<open>None\<close> everywhere for other \<open>E\<close>.
\<close>

definition enforce ::
  "policy \<Rightarrow> ('e \<Rightarrow> nat option) \<Rightarrow> contains \<Rightarrow> ('t, 'e) expected \<Rightarrow> unit res" where
  "enforce policy as_exception kind this =
     (case policy of
        Error_Policy_Throw \<Rightarrow>
          if contains this \<noteq> kind then
            (if contains this = UNEXPECTED then
               res_bind (error_of (members this)) (\<lambda>e.
                 case as_exception e of
                   Some x \<Rightarrow> Inl (Rethrown x)
                 | None \<Rightarrow> Inl Logic_Error)
             else Inl Logic_Error)
          else Inr ()
      | Error_Policy_Assert \<Rightarrow> if contains this = kind then Inr () else Inl Assert_Failed)"

definition value_lvalue :: "policy \<Rightarrow> ('e \<Rightarrow> nat option) \<Rightarrow> ('t, 'e) expected \<Rightarrow> 't res" where
  "value_lvalue policy as_exception this =
     res_bind (enforce policy as_exception EXPECTED this) (\<lambda>_. value_of (members this))"

text \<open>
  \<open>value() &&\<close>: the caller moves from the returned reference, which leaves \<open>rest\<close> in the union.
\<close>

definition value_rvalue ::
  "('t, 'e) elements \<Rightarrow> policy \<Rightarrow> ('e \<Rightarrow> nat option) \<Rightarrow> ('t, 'e) expected
     \<Rightarrow> ('t \<times> ('t, 'e) expected) res" where
  "value_rvalue el policy as_exception this =
     res_bind (enforce policy as_exception EXPECTED this) (\<lambda>_.
       res_bind (value_of (members this)) (\<lambda>v.
         let (v, rest) = move_value el v
         in Inr (v, \<lparr>contains = NOTHING, members = Live_Value rest\<rparr>)))"

definition error_access :: "policy \<Rightarrow> ('e \<Rightarrow> nat option) \<Rightarrow> ('t, 'e) expected \<Rightarrow> 'e res" where
  "error_access policy as_exception this =
     res_bind (enforce policy as_exception UNEXPECTED this) (\<lambda>_. error_of (members this))"

subsection \<open>Well-formed objects\<close>

definition wf :: "('t, 'e) expected \<Rightarrow> bool" where
  "wf this \<longleftrightarrow>
     (case contains this of
        EXPECTED \<Rightarrow> \<exists>v. members this = Live_Value v
      | UNEXPECTED \<Rightarrow> \<exists>e. members this = Live_Error e
      | NOTHING \<Rightarrow> members this = Dead)"

definition alive :: "('t, 'e) expected \<Rightarrow> nat" where
  "alive this = live (members this)"

definition no_throw :: "('t, 'e) elements \<Rightarrow> bool" where
  "no_throw el \<longleftrightarrow> (\<forall>v. \<exists>w. copy_value el v = Inr w) \<and> (\<forall>e. \<exists>d. copy_error el e = Inr d)"

text \<open>\<open>balanced l n l'\<close>: an operation that changed the number of live elements by \<open>n\<close>.\<close>

definition balance :: "ledger \<Rightarrow> int" where
  "balance l = int (constructed l) - int (destroyed l)"

lemma balance_simps [simp]:
  "balance (count_construct l) = balance l + 1" "balance (count_destroy l) = balance l - 1"
  by (simp_all add: balance_def count_construct_def count_destroy_def)

lemma wf_cases:
  assumes "wf this"
  obtains (value_) v where "this = \<lparr>contains = EXPECTED, members = Live_Value v\<rparr>"
    | (error) e where "this = \<lparr>contains = UNEXPECTED, members = Live_Error e\<rparr>"
    | (nothing) "this = \<lparr>contains = NOTHING, members = Dead\<rparr>"
  using assms by (cases this) (auto simp: wf_def split: contains.splits)

lemma wf_intros [simp]:
  "wf \<lparr>contains = EXPECTED, members = Live_Value v\<rparr>"
  "wf \<lparr>contains = UNEXPECTED, members = Live_Error e\<rparr>"
  "wf \<lparr>contains = NOTHING, members = Dead\<rparr>"
  by (simp_all add: wf_def)

lemma alive_simps [simp]: "alive \<lparr>contains = c, members = m\<rparr> = live m"
  by (simp add: alive_def)

lemma destroy_ok:
  assumes "wf this"
  shows "\<exists>l'. destroy this l = Inr (expected_nothing, l') \<and> balance l' = balance l - int (alive this)"
  using assms
  by (cases rule: wf_cases)
    (simp_all add: destroy_def destroy_value_def destroy_error_def expected_nothing_def)

lemma destructor_ok:
  assumes "wf this"
  shows "\<exists>l'. destructor this l = Inr l' \<and> balance l' = balance l - int (alive this)"
  using assms
  by (cases rule: wf_cases) (simp_all add: destructor_def destroy_value_def destroy_error_def)

lemma move_from_ok:
  assumes "wf other"
  shows "\<exists>this' other' l'.
    move_from el \<lparr>contains = contains other, members = Dead\<rparr> other l = Inr (this', other', l') \<and>
    wf this' \<and> wf other' \<and> contains this' = contains other \<and> alive other' = alive other \<and>
    balance l' = balance l + int (alive this')"
  using assms by (cases rule: wf_cases) (simp_all add: move_from_def split: prod.split)

lemma move_assign_ok:
  assumes "wf this" and "wf other"
  shows "\<exists>this' other' l'. move_assign el this other l = Inr (this', other', l') \<and>
    wf this' \<and> wf other' \<and> contains this' = contains other \<and> alive other' = alive other \<and>
    balance l' = balance l - int (alive this) + int (alive this')"
proof -
  obtain l1 where "destroy this l = Inr (expected_nothing, l1)"
    "balance l1 = balance l - int (alive this)"
    using destroy_ok [OF assms(1)] by blast
  with move_from_ok [OF assms(2), of el l1] show ?thesis
    by (auto simp: move_assign_def expected_nothing_def)
qed

section \<open>Programs over expected variables\<close>

datatype ('t, 'e) command =
    Make_Nothing nat
  | Make_Value nat 't
  | Make_Error nat 'e
  | Copy_Of nat nat
  | Move_Of nat nat
  | Assign_Copy nat nat
  | Assign_Move nat nat
  | Take nat
  | Scope_End nat

record ('t, 'e) world =
  vars :: "nat \<Rightarrow> ('t, 'e) expected option"
  ledger_of :: ledger

definition empty_world :: "('t, 'e) world" where
  "empty_world = \<lparr>vars = (\<lambda>_. None), ledger_of = \<lparr>constructed = 0, destroyed = 0\<rparr>\<rparr>"

definition bind_var ::
  "nat \<Rightarrow> ('t, 'e) expected option \<Rightarrow> ledger \<Rightarrow> ('t, 'e) world \<Rightarrow> ('t, 'e) world" where
  "bind_var x v l w = \<lparr>vars = (vars w)(x := v), ledger_of = l\<rparr>"

text \<open>
  One statement. The result is the new state and the exception that left the statement.
  \<open>Take x\<close> is \<open>std::move(x).value()\<close>; the object the caller makes of it is the caller's and is
  not counted. A variable is constructed before its use and once; other programs are not written.
\<close>

fun exec :: "('t, 'e) elements \<Rightarrow> policy \<Rightarrow> ('e \<Rightarrow> nat option) \<Rightarrow> ('t, 'e) command
    \<Rightarrow> ('t, 'e) world \<Rightarrow> ('t, 'e) world \<times> fault option" where
  "exec el p ex (Make_Nothing x) w = (bind_var x (Some expected_nothing) (ledger_of w) w, None)"
| "exec el p ex (Make_Value x v) w =
     (case expected_value el v (ledger_of w) of
        Inl f \<Rightarrow> (w, Some f)
      | Inr (this, l) \<Rightarrow> (bind_var x (Some this) l w, None))"
| "exec el p ex (Make_Error x e) w =
     (case expected_error el e (ledger_of w) of
        Inl f \<Rightarrow> (w, Some f)
      | Inr (this, l) \<Rightarrow> (bind_var x (Some this) l w, None))"
| "exec el p ex (Copy_Of x y) w =
     (case expected_copy el (the (vars w y)) (ledger_of w) of
        Inl f \<Rightarrow> (w, Some f)
      | Inr (this, l) \<Rightarrow> (bind_var x (Some this) l w, None))"
| "exec el p ex (Move_Of x y) w =
     (case expected_move el (the (vars w y)) (ledger_of w) of
        Inl f \<Rightarrow> (w, Some f)
      | Inr (this, other, l) \<Rightarrow> (bind_var x (Some this) l (bind_var y (Some other) l w), None))"
| "exec el p ex (Assign_Copy x y) w =
     (if x = y then (w, None)
      else case copy_assign el (the (vars w x)) (the (vars w y)) (ledger_of w) of
             (this, l, f) \<Rightarrow> (bind_var x (Some this) l w, f))"
| "exec el p ex (Assign_Move x y) w =
     (if x = y then (w, None)
      else case move_assign el (the (vars w x)) (the (vars w y)) (ledger_of w) of
             Inl f \<Rightarrow> (w, Some f)
           | Inr (this, other, l) \<Rightarrow> (bind_var x (Some this) l (bind_var y (Some other) l w), None))"
| "exec el p ex (Take x) w =
     (case value_rvalue el p ex (the (vars w x)) of
        Inl f \<Rightarrow> (w, Some f)
      | Inr (v, this) \<Rightarrow> (bind_var x (Some this) (ledger_of w) w, None))"
| "exec el p ex (Scope_End x) w =
     (case destructor (the (vars w x)) (ledger_of w) of
        Inl f \<Rightarrow> (w, Some f)
      | Inr l \<Rightarrow> (bind_var x None l w, None))"

fun permitted :: "('t, 'e) command \<Rightarrow> ('t, 'e) world \<Rightarrow> bool" where
  "permitted (Make_Nothing x) w = (vars w x = None)"
| "permitted (Make_Value x v) w = (vars w x = None)"
| "permitted (Make_Error x e) w = (vars w x = None)"
| "permitted (Copy_Of x y) w = (vars w x = None \<and> vars w y \<noteq> None)"
| "permitted (Move_Of x y) w = (vars w x = None \<and> vars w y \<noteq> None)"
| "permitted (Assign_Copy x y) w = (vars w x \<noteq> None \<and> vars w y \<noteq> None)"
| "permitted (Assign_Move x y) w = (vars w x \<noteq> None \<and> vars w y \<noteq> None)"
| "permitted (Take x) w = (vars w x \<noteq> None)"
| "permitted (Scope_End x) w = (vars w x \<noteq> None)"

text \<open>
  A program runs to its end, to a statement that is not permitted (\<open>None\<close>), to an abort or to
  undefined behaviour; the exceptions of other statements are caught. The trace lists the
  statements that ran with the fault that left each of them.
\<close>

fun run_program :: "('t, 'e) elements \<Rightarrow> policy \<Rightarrow> ('e \<Rightarrow> nat option) \<Rightarrow> ('t, 'e) command list
    \<Rightarrow> ('t, 'e) world \<Rightarrow> (('t, 'e) world \<times> (('t, 'e) command \<times> fault option) list) option" where
  "run_program el p ex [] w = Some (w, [])"
| "run_program el p ex (c # cs) w =
     (if permitted c w then
        (case exec el p ex c w of
           (w', f) \<Rightarrow>
             if f = Some Undefined_Behaviour \<or> f = Some Assert_Failed then Some (w', [(c, f)])
             else map_option (\<lambda>(w'', t). (w'', (c, f) # t)) (run_program el p ex cs w'))
      else None)"

fun copies_over :: "('t, 'e) command \<Rightarrow> bool" where
  "copies_over (Assign_Copy x y) = True"
| "copies_over _ = False"

fun takes :: "('t, 'e) command \<times> fault option \<Rightarrow> bool" where
  "takes (Take x, None) = True"
| "takes _ = False"

definition taken_out :: "(('t, 'e) command \<times> fault option) list \<Rightarrow> nat" where
  "taken_out t = length [s \<leftarrow> t. takes s]"

text \<open>
  Copying an element may throw any exception; the other ways not to return are not those of a
  copy constructor.
\<close>

definition throws_only :: "('t, 'e) elements \<Rightarrow> bool" where
  "throws_only el \<longleftrightarrow>
     (\<forall>v f. copy_value el v = Inl f \<longrightarrow> (\<exists>x. f = Rethrown x)) \<and>
     (\<forall>e f. copy_error el e = Inl f \<longrightarrow> (\<exists>x. f = Rethrown x))"

text \<open>
  An object is sound when the member its discriminant names is alive. What it holds is what its
  destructor has to destroy: one element, or none when it says that it holds nothing.
\<close>

definition sound :: "('t, 'e) expected \<Rightarrow> bool" where
  "sound this \<longleftrightarrow>
     (case contains this of
        EXPECTED \<Rightarrow> \<exists>v. members this = Live_Value v
      | UNEXPECTED \<Rightarrow> \<exists>e. members this = Live_Error e
      | NOTHING \<Rightarrow> True)"

definition held :: "('t, 'e) expected \<Rightarrow> nat" where
  "held this = (if contains this = NOTHING then 0 else 1)"

definition total_held :: "(nat \<Rightarrow> ('t, 'e) expected option) \<Rightarrow> nat" where
  "total_held vs = (\<Sum>x \<in> dom vs. held (the (vs x)))"

lemma sound_cases:
  assumes "sound this"
  obtains (value_) v where "this = \<lparr>contains = EXPECTED, members = Live_Value v\<rparr>"
    | (error) e where "this = \<lparr>contains = UNEXPECTED, members = Live_Error e\<rparr>"
    | (nothing) m where "this = \<lparr>contains = NOTHING, members = m\<rparr>"
  using assms by (cases this) (auto simp: sound_def split: contains.splits)

lemma sound_intros [simp]:
  "sound \<lparr>contains = EXPECTED, members = Live_Value v\<rparr>"
  "sound \<lparr>contains = UNEXPECTED, members = Live_Error e\<rparr>"
  "sound \<lparr>contains = NOTHING, members = m\<rparr>"
  by (simp_all add: sound_def)

lemma held_simps [simp]: "held \<lparr>contains = c, members = m\<rparr> = (if c = NOTHING then 0 else 1)"
  by (simp add: held_def)

text \<open>The operations on sound objects.\<close>

lemma sound_destroy:
  assumes "sound this"
  shows "\<exists>m l'. destroy this l = Inr (\<lparr>contains = NOTHING, members = m\<rparr>, l') \<and>
    balance l' = balance l - int (held this)"
  using assms
  by (cases rule: sound_cases) (simp_all add: destroy_def destroy_value_def destroy_error_def)

lemma sound_destructor:
  assumes "sound this"
  shows "\<exists>l'. destructor this l = Inr l' \<and> balance l' = balance l - int (held this)"
  using assms
  by (cases rule: sound_cases) (simp_all add: destructor_def destroy_value_def destroy_error_def)

lemma sound_copy_from:
  assumes "sound other" and "throws_only el"
  obtains (copied) this' l' where
      "copy_from el \<lparr>contains = contains other, members = m\<rparr> other l = (this', l', None)"
      "sound this'" "balance l' = balance l + int (held this')"
    | (thrown) this' x where
      "copy_from el \<lparr>contains = contains other, members = m\<rparr> other l = (this', l, Some (Rethrown x))"
  using assms(1)
proof (cases rule: sound_cases)
  case (value_ v)
  show ?thesis
  proof (cases "copy_value el v")
    case (Inl f)
    then obtain x where "f = Rethrown x" using assms(2) unfolding throws_only_def by blast
    then show ?thesis using value_ Inl thrown by (simp add: copy_from_def)
  qed (use value_ copied in \<open>simp add: copy_from_def\<close>)
next
  case (error e)
  show ?thesis
  proof (cases "copy_error el e")
    case (Inl f)
    then obtain x where "f = Rethrown x" using assms(2) unfolding throws_only_def by blast
    then show ?thesis using error Inl thrown by (simp add: copy_from_def)
  qed (use error copied in \<open>simp add: copy_from_def\<close>)
qed (simp add: copy_from_def copied)

lemma sound_move_from:
  assumes "sound other"
  shows "\<exists>this' other' l'.
    move_from el \<lparr>contains = contains other, members = m\<rparr> other l = Inr (this', other', l') \<and>
    sound this' \<and> sound other' \<and> held other' = held other \<and> balance l' = balance l + int (held this')"
  using assms by (cases rule: sound_cases) (simp_all add: move_from_def split: prod.split)

lemma sound_copy_assign:
  assumes "sound this" and "sound other" and "throws_only el"
  obtains (copied) this' l' where "copy_assign el this other l = (this', l', None)"
      "sound this'" "balance l' = balance l - int (held this) + int (held this')"
    | (thrown) this' l' x where "copy_assign el this other l = (this', l', Some (Rethrown x))"
proof -
  obtain m l1 where d: "destroy this l = Inr (\<lparr>contains = NOTHING, members = m\<rparr>, l1)"
    "balance l1 = balance l - int (held this)"
    using sound_destroy [OF assms(1)] by blast
  show ?thesis
    by (rule sound_copy_from [OF assms(2,3), of m l1])
      (use d copied thrown in \<open>simp_all add: copy_assign_def\<close>)
qed

lemma sound_move_assign:
  assumes "sound this" and "sound other"
  shows "\<exists>this' other' l'. move_assign el this other l = Inr (this', other', l') \<and>
    sound this' \<and> sound other' \<and> held other' = held other \<and>
    balance l' = balance l - int (held this) + int (held this')"
proof -
  obtain m l1 where "destroy this l = Inr (\<lparr>contains = NOTHING, members = m\<rparr>, l1)"
    "balance l1 = balance l - int (held this)"
    using sound_destroy [OF assms(1)] by blast
  with sound_move_from [OF assms(2), of el m l1] show ?thesis by (auto simp: move_assign_def)
qed

lemma sound_value_rvalue:
  assumes "sound this"
  shows "(\<exists>v m. value_rvalue el p ex this = Inr (v, \<lparr>contains = NOTHING, members = m\<rparr>) \<and> held this = 1) \<or>
    (\<exists>f. value_rvalue el p ex this = Inl f \<and> f \<noteq> Undefined_Behaviour)"
  using assms
  by (cases rule: sound_cases; cases p)
    (auto simp: value_rvalue_def enforce_def split: option.split prod.split)

subsection \<open>The account of a run\<close>

definition world_ok :: "('t, 'e) world \<Rightarrow> nat \<Rightarrow> bool" where
  "world_ok w n \<longleftrightarrow>
     finite (dom (vars w)) \<and> (\<forall>x v. vars w x = Some v \<longrightarrow> sound v) \<and>
     balance (ledger_of w) = int (total_held (vars w)) + int n"

lemma total_held_set:
  assumes "finite (dom vs)"
  shows "total_held (vs(x := Some v)) + (case vs x of None \<Rightarrow> 0 | Some u \<Rightarrow> held u)
    = total_held vs + held v"
proof -
  have "total_held (vs(x := Some v)) = (\<Sum>y \<in> insert x (dom vs - {x}). held (the ((vs(x := Some v)) y)))"
    unfolding total_held_def by (rule sum.cong) auto
  also have "\<dots> = held v + (\<Sum>y \<in> dom vs - {x}. held (the (vs y)))"
    using assms by (subst sum.insert) (auto intro!: sum.cong)
  finally have a: "total_held (vs(x := Some v)) = held v + (\<Sum>y \<in> dom vs - {x}. held (the (vs y)))" .
  have "(\<Sum>y \<in> dom vs - {x}. held (the (vs y))) + (case vs x of None \<Rightarrow> 0 | Some u \<Rightarrow> held u)
      = total_held vs"
    unfolding total_held_def using assms sum.remove [of "dom vs" x "\<lambda>y. held (the (vs y))"]
    by (cases "vs x") (auto simp: domIff)
  with a show ?thesis by simp
qed

lemma total_held_drop:
  assumes "finite (dom vs)" and "vs x = Some u"
  shows "total_held (vs(x := None)) + held u = total_held vs"
proof -
  have "total_held (vs(x := None)) = (\<Sum>y \<in> dom vs - {x}. held (the (vs y)))"
    unfolding total_held_def by (rule sum.cong) auto
  then show ?thesis
    unfolding total_held_def using assms sum.remove [of "dom vs" x "\<lambda>y. held (the (vs y))"]
    by (auto simp: domIff)
qed

lemma world_ok_set:
  assumes "world_ok w n" and "sound v"
    and "balance l + int n = balance (ledger_of w) + int (held v) + int n' -
      int (case vars w x of None \<Rightarrow> 0 | Some u \<Rightarrow> held u)"
  shows "world_ok (bind_var x (Some v) l w) n'"
  using assms total_held_set [of "vars w" x v]
  by (auto simp: world_ok_def bind_var_def split: if_splits)

lemma world_ok_drop:
  assumes "world_ok w n" and "vars w x = Some u"
    and "balance l = balance (ledger_of w) - int (held u)"
  shows "world_ok (bind_var x None l w) n"
  using assms total_held_drop [of "vars w" x u]
  by (auto simp: world_ok_def bind_var_def split: if_splits)

lemma world_ok_relabel:
  assumes "world_ok w n" and "vars w y = Some u" and "sound v" and "held v = held u"
    and "balance l = balance (ledger_of w)"
  shows "world_ok (bind_var y (Some v) l w) n"
  using world_ok_set [OF assms(1,3), of l n y] assms by simp

lemma bind_var_fields [simp]:
  "vars (bind_var x v l w) = (vars w)(x := v)" "ledger_of (bind_var x v l w) = l"
  by (simp_all add: bind_var_def)

text \<open>A ledger can be exchanged for one that differs by what a later statement constructs.\<close>

lemma bind_var_twice:
  "bind_var x v l (bind_var y u l w) = bind_var x v l (bind_var y u (ledger_of w) w)"
  by (simp add: bind_var_def)

text \<open>
  A statement keeps the account when it is not a copy assignment that throws; \<open>taken_out\<close> counts one
  element for a \<open>value() &&\<close> that succeeds.
\<close>

lemma move_statements_ok:
  assumes w: "world_ok w n" and ok: "permitted c w" and c: "c = Move_Of x y \<or> c = Assign_Move x y"
  shows "\<exists>w'. exec el p ex c w = (w', None) \<and> world_ok w' n"
proof -
  have sound_var: "sound v" if "vars w x = Some v" for x v using w that by (simp add: world_ok_def)
  obtain v where y: "vars w y = Some v" using ok c by auto
  show ?thesis
  proof (cases "c = Move_Of x y")
    case True
    obtain this' other' l' where m:
      "move_from el \<lparr>contains = contains v, members = Dead\<rparr> v (ledger_of w) = Inr (this', other', l')"
      "sound this'" "sound other'" "held other' = held v"
      "balance l' = balance (ledger_of w) + int (held this')"
      using sound_move_from [OF sound_var [OF y], of el Dead "ledger_of w"] by blast
    have "world_ok (bind_var y (Some other') (ledger_of w) w) n"
      using world_ok_relabel [OF w y m(3,4)] by simp
    then have "world_ok (bind_var x (Some this') l' (bind_var y (Some other') (ledger_of w) w)) n"
      using world_ok_set [of "bind_var y (Some other') (ledger_of w) w" n this' l' n x] m(2,5) ok True y
      by (cases "x = y") auto
    then show ?thesis using m(1) y True by (simp add: expected_move_def bind_var_twice)
  next
    case False
    then have c: "c = Assign_Move x y" using c by simp
    obtain u where x: "vars w x = Some u" using ok c by auto
    show ?thesis
    proof (cases "x = y")
      case False
      obtain this' other' l' where m: "move_assign el u v (ledger_of w) = Inr (this', other', l')"
        "sound this'" "sound other'" "held other' = held v"
        "balance l' = balance (ledger_of w) - int (held u) + int (held this')"
        using sound_move_assign [OF sound_var [OF x] sound_var [OF y], of el "ledger_of w"] by blast
      have "world_ok (bind_var y (Some other') (ledger_of w) w) n"
        using world_ok_relabel [OF w y m(3,4)] by simp
      then have "world_ok (bind_var x (Some this') l' (bind_var y (Some other') (ledger_of w) w)) n"
        using world_ok_set [of "bind_var y (Some other') (ledger_of w) w" n this' l' n x] m(2,5) x False
        by simp
      then show ?thesis using m(1) x y c False by (simp add: bind_var_twice)
    qed (use w c in simp)
  qed
qed

lemma object_exec_ok:
  assumes w: "world_ok w n" and ok: "permitted c w" and el: "throws_only el"
    and run: "exec el p ex c w = (w', f)" and quiet: "copies_over c \<Longrightarrow> f = None"
  shows "f \<noteq> Some Undefined_Behaviour \<and> world_ok w' (n + taken_out [(c, f)])"
proof -
  have sound_var: "sound v" if "vars w x = Some v" for x v using w that by (simp add: world_ok_def)
  note throws = el [unfolded throws_only_def]
  show ?thesis
  proof (cases c)
    case (Make_Nothing x)
    then show ?thesis using world_ok_set [OF w, of expected_nothing] ok run
      by (auto simp: expected_nothing_def taken_out_def)
  next
    case (Make_Value x v)
    then show ?thesis using world_ok_set [OF w] ok run w throws
      by (cases "copy_value el v") (auto simp: expected_value_def taken_out_def)
  next
    case (Make_Error x e)
    then show ?thesis using world_ok_set [OF w] ok run w throws
      by (cases "copy_error el e") (auto simp: expected_error_def taken_out_def)
  next
    case (Copy_Of x y)
    then obtain v where y: "vars w y = Some v" using ok by auto
    show ?thesis
      by (rule sound_copy_from [OF sound_var [OF y] el, of Dead "ledger_of w"])
        (use world_ok_set [OF w] w ok run y Copy_Of in \<open>auto simp: expected_copy_def taken_out_def\<close>)
  next
    case (Move_Of x y)
    then show ?thesis using move_statements_ok [OF w ok, of x y el p ex] run by (auto simp: taken_out_def)
  next
    case (Assign_Copy x y)
    then obtain u v where x: "vars w x = Some u" and y: "vars w y = Some v" using ok by auto
    show ?thesis
      by (rule sound_copy_assign [OF sound_var [OF x] sound_var [OF y] el, of "ledger_of w"])
        (use world_ok_set [OF w] w x y Assign_Copy run quiet in
          \<open>auto simp: taken_out_def split: if_splits\<close>)
  next
    case (Assign_Move x y)
    then show ?thesis using move_statements_ok [OF w ok, of x y el p ex] run by (auto simp: taken_out_def)
  next
    case (Take x)
    then obtain u where x: "vars w x = Some u" using ok by auto
    show ?thesis
      using sound_value_rvalue [OF sound_var [OF x], of el p ex] world_ok_set [OF w] w run x Take
      by (auto simp: taken_out_def)
  next
    case (Scope_End x)
    then obtain u where x: "vars w x = Some u" using ok by auto
    show ?thesis
      using sound_destructor [OF sound_var [OF x], of "ledger_of w"] world_ok_drop [OF w x] Scope_End x run
      by (auto simp: taken_out_def)
  qed
qed

lemma world_ok_empty: "world_ok empty_world 0"
  by (simp add: world_ok_def empty_world_def total_held_def balance_def)

lemma taken_out_Cons: "taken_out ((c, f) # t) = taken_out [(c, f)] + taken_out t"
  by (simp add: taken_out_def)

lemma object_run_ok:
  assumes "world_ok w n" and "throws_only el" and "run_program el p ex cs w = Some (w', t)"
    and "\<forall>(c, f) \<in> set t. copies_over c \<longrightarrow> f = None"
  shows "world_ok w' (n + taken_out t) \<and> (\<forall>(c, f) \<in> set t. f \<noteq> Some Undefined_Behaviour)"
  using assms(1,3,4)
proof (induction cs arbitrary: w n t)
  case Nil
  then show ?case by (simp add: taken_out_def)
next
  case (Cons c cs)
  then have ok: "permitted c w" by (auto split: if_splits)
  obtain w1 f where e: "exec el p ex c w = (w1, f)" by (cases "exec el p ex c w") auto
  have "(c, f) \<in> set t" using Cons.prems(2) e ok by (auto split: if_splits)
  then have step: "f \<noteq> Some Undefined_Behaviour \<and> world_ok w1 (n + taken_out [(c, f)])"
    using object_exec_ok [OF Cons.prems(1) ok assms(2) e] Cons.prems(3) by auto
  show ?case
  proof (cases "f = Some Assert_Failed")
    case False
    then obtain t' where t: "t = (c, f) # t'" and r: "run_program el p ex cs w1 = Some (w', t')"
      using Cons.prems(2) e ok step by (auto split: if_splits)
    have "world_ok w' (n + taken_out [(c, f)] + taken_out t') \<and> (\<forall>(c, f) \<in> set t'. f \<noteq> Some Undefined_Behaviour)"
      using Cons.IH [OF conjunct2 [OF step] r] Cons.prems(3) t by auto
    then show ?thesis using step t by (auto simp: taken_out_Cons [of c f t'] add.assoc)
  qed (use Cons.prems(2) e ok step in auto)
qed

section \<open>Properties of the primary template\<close>

text \<open>
  C7: programs of constructions, copies, moves, assignments (self-assignment included), calls of
  \<open>value() &&\<close> under either policy and scope ends over \<open>expected\<close> objects, where copying an element
  may throw and the exceptions are caught. As long as no copy assignment has thrown, no statement
  has undefined behaviour, the member that the discriminant of an object names is alive, and the
  elements constructed are the elements destroyed, plus one for every object that holds something,
  plus one for every \<open>value() &&\<close> that succeeded: that call leaves its moved-from element behind
  without a destructor, and it is the only leak; no element is destroyed twice.
\<close>

theorem expected_elements_balanced:
  assumes "throws_only el" and "run_program el p ex cs empty_world = Some (w, t)"
    and "\<forall>(c, f) \<in> set t. copies_over c \<longrightarrow> f = None"
  shows "(\<forall>(c, f) \<in> set t. f \<noteq> Some Undefined_Behaviour) \<and>
    (\<forall>x this. vars w x = Some this \<longrightarrow> sound this) \<and>
    constructed (ledger_of w) = destroyed (ledger_of w) + total_held (vars w) + taken_out t"
  using object_run_ok [OF world_ok_empty assms] by (auto simp: world_ok_def balance_def)

definition nat_elements :: "(nat, nat) elements" where
  "nat_elements = \<lparr>copy_value = Inr, copy_error = Inr, move_value = (\<lambda>v. (v, 0)),
     move_error = (\<lambda>e. (e, 0))\<rparr>"

definition throwing_elements :: "(nat, nat) elements" where
  "throwing_elements = nat_elements\<lparr>copy_value := (\<lambda>v. if v = 0 then Inr 0 else Inl (Rethrown 9))\<rparr>"

definition sample_program :: "(nat, nat) command list" where
  "sample_program = [Make_Value 0 0, Make_Value 2 7, Make_Error 1 5, Take 1, Take 0, Assign_Copy 0 1,
     Scope_End 0, Scope_End 1]"

lemma expected_elements_balanced_witness:
  "\<exists>w t. run_program throwing_elements Error_Policy_Throw Some sample_program empty_world = Some (w, t) \<and>
     map snd t = [None, Some (Rethrown 9), None, Some (Rethrown 5), None, None, None, None] \<and>
     constructed (ledger_of w) = destroyed (ledger_of w) + total_held (vars w) + 1"
proof -
  let ?r = "run_program throwing_elements Error_Policy_Throw Some sample_program empty_world"
  have "case ?r of None \<Rightarrow> False
      | Some (w, t) \<Rightarrow> t = zip sample_program
          [None, Some (Rethrown 9), None, Some (Rethrown 5), None, None, None, None]"
    by (simp add: sample_program_def nat_elements_def throwing_elements_def empty_world_def expected_value_def
        expected_error_def expected_copy_def copy_from_def copy_assign_def value_rvalue_def enforce_def
        destroy_def destroy_value_def destroy_error_def destructor_def
        count_construct_def count_destroy_def bind_var_def)
  then obtain w t where r: "?r = Some (w, t)" "t = zip sample_program
      [None, Some (Rethrown 9), None, Some (Rethrown 5), None, None, None, None]"
    by (auto split: option.splits)
  moreover have "throws_only throwing_elements"
    by (simp add: throws_only_def throwing_elements_def nat_elements_def)
  moreover have "taken_out t = 1" "\<forall>(c, f) \<in> set t. copies_over c \<longrightarrow> f = None"
      "map snd t = [None, Some (Rethrown 9), None, Some (Rethrown 5), None, None, None, None]"
    using r(2) by (simp_all add: sample_program_def taken_out_def)
  ultimately show ?thesis
    using expected_elements_balanced [of throwing_elements Error_Policy_Throw Some sample_program w t] by auto
qed

text \<open>
  C34: access is checked on every path. On an object whose discriminant agrees with its union,
  \<open>value()\<close> and \<open>error()\<close> return the live member exactly when \<open>is_value\<close>, \<open>is_error\<close>, and
  otherwise never touch the union: the assert policy aborts, the throw policy rethrows the
  exception an error holds and throws \<open>std::logic_error\<close> for everything else.
\<close>

theorem expected_access_checked:
  assumes "wf this"
  shows "value_lvalue p ex this =
      (case members this of
         Live_Value v \<Rightarrow> Inr v
       | Live_Error e \<Rightarrow>
           (case p of
              Error_Policy_Assert \<Rightarrow> Inl Assert_Failed
            | Error_Policy_Throw \<Rightarrow>
                (case ex e of Some x \<Rightarrow> Inl (Rethrown x) | None \<Rightarrow> Inl Logic_Error))
       | Dead \<Rightarrow>
           (case p of Error_Policy_Assert \<Rightarrow> Inl Assert_Failed | Error_Policy_Throw \<Rightarrow> Inl Logic_Error)) \<and>
    error_access p ex this =
      (case members this of
         Live_Error e \<Rightarrow> Inr e
       | _ \<Rightarrow>
           (case p of Error_Policy_Assert \<Rightarrow> Inl Assert_Failed | Error_Policy_Throw \<Rightarrow> Inl Logic_Error))"
  using assms
  by (cases rule: wf_cases)
    (simp_all add: value_lvalue_def error_access_def enforce_def split: policy.split option.split)

lemma expected_access_checked_witness:
  "value_lvalue Error_Policy_Throw Some \<lparr>contains = UNEXPECTED, members = Live_Error 3\<rparr>
     = (Inl (Rethrown 3) :: nat res)"
  using expected_access_checked [of "\<lparr>contains = UNEXPECTED, members = Live_Error 3\<rparr> :: (nat, nat) expected"
      Error_Policy_Throw Some]
  by simp

text \<open>
  Two departures from that discipline. Taking the value out of an object with \<open>value() &&\<close>
  marks it as holding nothing while the moved-from element is still alive, so no destructor
  ever runs for it. And copy assignment sets \<open>contains_\<close> before it constructs: when the
  element's copy constructor throws, the object claims a value it does not have, and its own
  destructor is undefined.
\<close>

theorem expected_lifetime_gaps:
  shows "(\<forall>el p ex v l. \<exists>w this. value_rvalue el p ex \<lparr>contains = EXPECTED, members = Live_Value v\<rparr> = Inr (w, this) \<and>
      alive this = 1 \<and> destructor this l = Inr l) \<and>
    (\<forall>el v w l f. copy_value el w = Inl f \<longrightarrow>
      (\<exists>this l'. copy_assign el \<lparr>contains = EXPECTED, members = Live_Value v\<rparr>
          \<lparr>contains = EXPECTED, members = Live_Value w\<rparr> l = (this, l', Some f) \<and>
        destructor this l' = Inl Undefined_Behaviour))"
  by (simp add: value_rvalue_def enforce_def destructor_def copy_assign_def destroy_def
      destroy_value_def copy_from_def split: policy.split prod.split)

lemma expected_lifetime_gaps_witness:
  "\<exists>this l'. copy_assign throwing_elements \<lparr>contains = EXPECTED, members = Live_Value 0\<rparr>
      \<lparr>contains = EXPECTED, members = Live_Value 1\<rparr> \<lparr>constructed = 2, destroyed = 0\<rparr>
      = (this, l', Some (Rethrown 9)) \<and> destructor this l' = Inl Undefined_Behaviour"
proof -
  have "copy_value throwing_elements 1 = Inl (Rethrown 9)" by (simp add: throwing_elements_def)
  with expected_lifetime_gaps [THEN conjunct2, rule_format, of throwing_elements 1 "Rethrown 9" 0]
  show ?thesis by blast
qed

section \<open>The specialisation for references\<close>

text \<open>
  \<open>expected<T&, E>\<close> stores an address, a value that needs no destructor. Its copy and move
  constructors and its copy assignment write \<open>new (&value_) T(other.value_)\<close>, which builds a
  \<open>T\<close> from a \<open>T*\<close> and is not usable with ordinary types; the model reads the \<open>T*\<close> that the move
  assignment writes. The constructor from \<open>T&&\<close> initialises a pointer with a value and is left out.
\<close>

definition ref_from_lvalue :: "u64 \<Rightarrow> (u64, 'e) expected" where
  "ref_from_lvalue v = \<lparr>contains = EXPECTED, members = Live_Value v\<rparr>"

definition ref_error ::
  "(u64, 'e) elements \<Rightarrow> 'e \<Rightarrow> ledger \<Rightarrow> ((u64, 'e) expected \<times> ledger) res" where
  "ref_error el e l =
     res_bind (copy_error el e)
       (\<lambda>e. Inr (\<lparr>contains = UNEXPECTED, members = Live_Error e\<rparr>, count_construct l))"

definition ref_destroy :: "(u64, 'e) expected \<Rightarrow> ledger \<Rightarrow> ((u64, 'e) expected \<times> ledger) res" where
  "ref_destroy this l =
     (let contained = contains this; this = this\<lparr>contains := NOTHING\<rparr>
      in if contained = UNEXPECTED then destroy_error this l else Inr (this, l))"

definition ref_destructor :: "(u64, 'e) expected \<Rightarrow> ledger \<Rightarrow> ledger res" where
  "ref_destructor this l =
     (if contains this = UNEXPECTED then res_bind (destroy_error this l) (\<lambda>(_, l). Inr l)
      else Inr l)"

definition ref_move_assign ::
  "(u64, 'e) elements \<Rightarrow> (u64, 'e) expected \<Rightarrow> (u64, 'e) expected \<Rightarrow> ledger
     \<Rightarrow> ((u64, 'e) expected \<times> (u64, 'e) expected \<times> ledger) res" where
  "ref_move_assign el this other l =
     res_bind (ref_destroy this l) (\<lambda>(this, l).
       let this = this\<lparr>contains := contains other\<rparr>
       in case contains this of
            EXPECTED \<Rightarrow>
              res_bind (value_of (members other)) (\<lambda>v.
                Inr (this\<lparr>members := Live_Value v\<rparr>, other, l))
          | UNEXPECTED \<Rightarrow>
              res_bind (error_of (members other)) (\<lambda>e.
                let (e, rest) = move_error el e
                in Inr (this\<lparr>members := Live_Error e\<rparr>, other\<lparr>members := Live_Error rest\<rparr>,
                     count_construct l))
          | NOTHING \<Rightarrow> Inr (this, other, l))"

definition ref_move ::
  "(u64, 'e) elements \<Rightarrow> (u64, 'e) expected \<Rightarrow> ledger
     \<Rightarrow> ((u64, 'e) expected \<times> (u64, 'e) expected \<times> ledger) res" where
  "ref_move el other l =
     (let this = \<lparr>contains = contains other, members = Dead\<rparr>
      in case contains this of
           EXPECTED \<Rightarrow>
             res_bind (value_of (members other)) (\<lambda>v. Inr (this\<lparr>members := Live_Value v\<rparr>, other, l))
         | UNEXPECTED \<Rightarrow>
             res_bind (error_of (members other)) (\<lambda>e.
               let (e, rest) = move_error el e
               in Inr (this\<lparr>members := Live_Error e\<rparr>, other\<lparr>members := Live_Error rest\<rparr>,
                    count_construct l))
         | NOTHING \<Rightarrow> Inr (this, other, l))"

definition ref_copy_from ::
  "(u64, 'e) elements \<Rightarrow> (u64, 'e) expected \<Rightarrow> (u64, 'e) expected \<Rightarrow> ledger
     \<Rightarrow> (u64, 'e) expected \<times> ledger \<times> fault option" where
  "ref_copy_from el this other l =
     (case contains this of
        EXPECTED \<Rightarrow>
          (case value_of (members other) of
             Inl f \<Rightarrow> (this, l, Some f)
           | Inr v \<Rightarrow> (this\<lparr>members := Live_Value v\<rparr>, l, None))
      | UNEXPECTED \<Rightarrow>
          (case res_bind (error_of (members other)) (copy_error el) of
             Inl f \<Rightarrow> (this, l, Some f)
           | Inr e \<Rightarrow> (this\<lparr>members := Live_Error e\<rparr>, count_construct l, None))
      | NOTHING \<Rightarrow> (this, l, None))"

definition ref_copy ::
  "(u64, 'e) elements \<Rightarrow> (u64, 'e) expected \<Rightarrow> ledger \<Rightarrow> ((u64, 'e) expected \<times> ledger) res" where
  "ref_copy el other l =
     (case ref_copy_from el \<lparr>contains = contains other, members = Dead\<rparr> other l of
        (this, l, None) \<Rightarrow> Inr (this, l)
      | (this, l, Some f) \<Rightarrow> Inl f)"

definition ref_copy_assign ::
  "(u64, 'e) elements \<Rightarrow> (u64, 'e) expected \<Rightarrow> (u64, 'e) expected \<Rightarrow> ledger
     \<Rightarrow> (u64, 'e) expected \<times> ledger \<times> fault option" where
  "ref_copy_assign el this other l =
     (case ref_destroy this l of
        Inl f \<Rightarrow> (this, l, Some f)
      | Inr (this, l) \<Rightarrow> ref_copy_from el (this\<lparr>contains := contains other\<rparr>) other l)"

definition ref_value :: "policy \<Rightarrow> ('e \<Rightarrow> nat option) \<Rightarrow> (u64, 'e) expected \<Rightarrow> u64 res" where
  "ref_value policy as_exception this =
     res_bind (enforce policy as_exception EXPECTED this) (\<lambda>_. value_of (members this))"

definition ref_value_rvalue ::
  "policy \<Rightarrow> ('e \<Rightarrow> nat option) \<Rightarrow> (u64, 'e) expected \<Rightarrow> (u64 \<times> (u64, 'e) expected) res" where
  "ref_value_rvalue policy as_exception this =
     res_bind (enforce policy as_exception EXPECTED this) (\<lambda>_.
       res_bind (value_of (members this)) (\<lambda>v. Inr (v, this\<lparr>contains := NOTHING\<rparr>)))"

definition ref_error_move ::
  "(u64, 'e) elements \<Rightarrow> 'e \<Rightarrow> ledger \<Rightarrow> (u64, 'e) expected \<times> 'e \<times> ledger" where
  "ref_error_move el e l =
     (let (e, rest) = move_error el e
      in (\<lparr>contains = UNEXPECTED, members = Live_Error e\<rparr>, rest, count_construct l))"

definition ref_is_value :: "(u64, 'e) expected \<Rightarrow> bool" where
  "ref_is_value this \<longleftrightarrow> contains this = EXPECTED"

definition ref_is_error :: "(u64, 'e) expected \<Rightarrow> bool" where
  "ref_is_error this \<longleftrightarrow> contains this = UNEXPECTED"

definition ref_error_access :: "policy \<Rightarrow> ('e \<Rightarrow> nat option) \<Rightarrow> (u64, 'e) expected \<Rightarrow> 'e res" where
  "ref_error_access policy as_exception this =
     res_bind (enforce policy as_exception UNEXPECTED this) (\<lambda>_. error_of (members this))"

text \<open>Only errors need a destructor; an address may stay behind in the union.\<close>

definition ref_wf :: "(u64, 'e) expected \<Rightarrow> bool" where
  "ref_wf this \<longleftrightarrow>
     (case contains this of
        EXPECTED \<Rightarrow> \<exists>v. members this = Live_Value v
      | UNEXPECTED \<Rightarrow> \<exists>e. members this = Live_Error e
      | NOTHING \<Rightarrow> \<forall>e. members this \<noteq> Live_Error e)"

definition ref_alive :: "(u64, 'e) expected \<Rightarrow> nat" where
  "ref_alive this = (case members this of Live_Error e \<Rightarrow> 1 | _ \<Rightarrow> 0)"

section \<open>The specialisation for void\<close>

text \<open>Success is \<open>NOTHING\<close>; the union has only the error.\<close>

definition void_error ::
  "(unit, 'e) elements \<Rightarrow> 'e \<Rightarrow> ledger \<Rightarrow> ((unit, 'e) expected \<times> ledger) res" where
  "void_error el e l =
     res_bind (copy_error el e)
       (\<lambda>e. Inr (\<lparr>contains = UNEXPECTED, members = Live_Error e\<rparr>, count_construct l))"

definition void_error_move ::
  "(unit, 'e) elements \<Rightarrow> 'e \<Rightarrow> ledger \<Rightarrow> (unit, 'e) expected \<times> 'e \<times> ledger" where
  "void_error_move el e l =
     (let (e, rest) = move_error el e
      in (\<lparr>contains = UNEXPECTED, members = Live_Error e\<rparr>, rest, count_construct l))"

definition void_copy_from ::
  "(unit, 'e) elements \<Rightarrow> (unit, 'e) expected \<Rightarrow> (unit, 'e) expected \<Rightarrow> ledger
     \<Rightarrow> (unit, 'e) expected \<times> ledger \<times> fault option" where
  "void_copy_from el this other l =
     (if contains this = UNEXPECTED then
        (case res_bind (error_of (members other)) (copy_error el) of
           Inl f \<Rightarrow> (this, l, Some f)
         | Inr e \<Rightarrow> (this\<lparr>members := Live_Error e\<rparr>, count_construct l, None))
      else (this, l, None))"

definition void_copy ::
  "(unit, 'e) elements \<Rightarrow> (unit, 'e) expected \<Rightarrow> ledger \<Rightarrow> ((unit, 'e) expected \<times> ledger) res" where
  "void_copy el other l =
     (case void_copy_from el \<lparr>contains = contains other, members = Dead\<rparr> other l of
        (this, l, None) \<Rightarrow> Inr (this, l)
      | (this, l, Some f) \<Rightarrow> Inl f)"

definition void_move_from ::
  "(unit, 'e) elements \<Rightarrow> (unit, 'e) expected \<Rightarrow> (unit, 'e) expected \<Rightarrow> ledger
     \<Rightarrow> ((unit, 'e) expected \<times> (unit, 'e) expected \<times> ledger) res" where
  "void_move_from el this other l =
     (if contains this = UNEXPECTED then
        res_bind (error_of (members other)) (\<lambda>e.
          let (e, rest) = move_error el e
          in Inr (this\<lparr>members := Live_Error e\<rparr>, other\<lparr>members := Live_Error rest\<rparr>,
               count_construct l))
      else Inr (this, other, l))"

definition void_move ::
  "(unit, 'e) elements \<Rightarrow> (unit, 'e) expected \<Rightarrow> ledger
     \<Rightarrow> ((unit, 'e) expected \<times> (unit, 'e) expected \<times> ledger) res" where
  "void_move el other l = void_move_from el \<lparr>contains = contains other, members = Dead\<rparr> other l"

definition void_destroy :: "(unit, 'e) expected \<Rightarrow> ledger \<Rightarrow> ((unit, 'e) expected \<times> ledger) res" where
  "void_destroy this l =
     (let contained = contains this; this = this\<lparr>contains := NOTHING\<rparr>
      in if contained = UNEXPECTED then destroy_error this l else Inr (this, l))"

definition void_destructor :: "(unit, 'e) expected \<Rightarrow> ledger \<Rightarrow> ledger res" where
  "void_destructor this l =
     (if contains this = UNEXPECTED then res_bind (destroy_error this l) (\<lambda>(_, l). Inr l)
      else Inr l)"

definition void_copy_assign ::
  "(unit, 'e) elements \<Rightarrow> (unit, 'e) expected \<Rightarrow> (unit, 'e) expected \<Rightarrow> ledger
     \<Rightarrow> (unit, 'e) expected \<times> ledger \<times> fault option" where
  "void_copy_assign el this other l =
     (case void_destroy this l of
        Inl f \<Rightarrow> (this, l, Some f)
      | Inr (this, l) \<Rightarrow> void_copy_from el (this\<lparr>contains := contains other\<rparr>) other l)"

definition void_move_assign ::
  "(unit, 'e) elements \<Rightarrow> (unit, 'e) expected \<Rightarrow> (unit, 'e) expected \<Rightarrow> ledger
     \<Rightarrow> ((unit, 'e) expected \<times> (unit, 'e) expected \<times> ledger) res" where
  "void_move_assign el this other l =
     res_bind (void_destroy this l) (\<lambda>(this, l).
       void_move_from el (this\<lparr>contains := contains other\<rparr>) other l)"

definition void_value :: "policy \<Rightarrow> ('e \<Rightarrow> nat option) \<Rightarrow> (unit, 'e) expected \<Rightarrow> unit res" where
  "void_value policy as_exception this = enforce policy as_exception NOTHING this"

definition void_is_error :: "(unit, 'e) expected \<Rightarrow> bool" where
  "void_is_error this \<longleftrightarrow> contains this = UNEXPECTED"

definition void_error_access :: "policy \<Rightarrow> ('e \<Rightarrow> nat option) \<Rightarrow> (unit, 'e) expected \<Rightarrow> 'e res" where
  "void_error_access policy as_exception this =
     res_bind (enforce policy as_exception UNEXPECTED this) (\<lambda>_. error_of (members this))"

definition void_wf :: "(unit, 'e) expected \<Rightarrow> bool" where
  "void_wf this \<longleftrightarrow>
     (contains this = NOTHING \<and> members this = Dead) \<or>
     (contains this = UNEXPECTED \<and> (\<exists>e. members this = Live_Error e))"

text \<open>
  Copies of the reference variant give the same address or a copy of the error, and count only
  errors; moving out of one leaves an object that can be destroyed.
\<close>

lemma ref_cases:
  assumes "ref_wf x"
  obtains (value_) v where "x = \<lparr>contains = EXPECTED, members = Live_Value v\<rparr>"
    | (error) e where "x = \<lparr>contains = UNEXPECTED, members = Live_Error e\<rparr>"
    | (address) v where "x = \<lparr>contains = NOTHING, members = Live_Value v\<rparr>"
    | (nothing) "x = \<lparr>contains = NOTHING, members = Dead\<rparr>"
  using assms by (cases x; cases "contains x"; cases "members x") (auto simp: ref_wf_def)

lemma ref_copy_from_ok:
  assumes "ref_wf y" and "no_throw el" and "\<forall>e. m \<noteq> Live_Error e"
  shows "\<exists>x l'. ref_copy_from el \<lparr>contains = contains y, members = m\<rparr> y l = (x, l', None) \<and> ref_wf x \<and>
    contains x = contains y \<and> balance l' = balance l + int (ref_alive x) \<and>
    (ref_is_value y \<longrightarrow> ref_value p ex x = ref_value p ex y)"
  using assms(1)
proof (cases rule: ref_cases)
  case (error e)
  obtain d where "copy_error el e = Inr d" using assms(2) by (auto simp: no_throw_def)
  then show ?thesis using error by (simp add: ref_copy_from_def ref_wf_def ref_alive_def ref_is_value_def)
qed (use assms(3) in \<open>auto simp: ref_copy_from_def ref_wf_def ref_alive_def ref_is_value_def ref_value_def
    enforce_def split: policy.split members.split\<close>)

lemma ref_copies_and_moves:
  assumes "ref_wf y"
  shows "no_throw el \<Longrightarrow> \<exists>x l'. ref_copy el y l = Inr (x, l') \<and> ref_wf x \<and> contains x = contains y \<and>
      balance l' = balance l + int (ref_alive x) \<and> (ref_is_value y \<longrightarrow> ref_value p ex x = ref_value p ex y)"
    and "no_throw el \<Longrightarrow> ref_wf x \<Longrightarrow> \<exists>x' l'. ref_copy_assign el x y l = (x', l', None) \<and> ref_wf x' \<and>
      contains x' = contains y \<and> balance l' = balance l - int (ref_alive x) + int (ref_alive x')"
    and "\<exists>x y' l'. ref_move el y l = Inr (x, y', l') \<and> ref_wf x \<and> ref_wf y' \<and> contains x = contains y \<and>
      balance l' = balance l + int (ref_alive x) \<and> (ref_is_value y \<longrightarrow> ref_value p ex x = ref_value p ex y)"
proof -
  show "\<exists>x l'. ref_copy el y l = Inr (x, l') \<and> ref_wf x \<and> contains x = contains y \<and>
      balance l' = balance l + int (ref_alive x) \<and> (ref_is_value y \<longrightarrow> ref_value p ex x = ref_value p ex y)"
    if "no_throw el"
    using ref_copy_from_ok [OF assms that, of Dead l p ex] by (auto simp: ref_copy_def)
  show "\<exists>x' l'. ref_copy_assign el x y l = (x', l', None) \<and> ref_wf x' \<and> contains x' = contains y \<and>
      balance l' = balance l - int (ref_alive x) + int (ref_alive x')"
    if n: "no_throw el" and x: "ref_wf x"
    using x
  proof (cases rule: ref_cases)
    case (value_ v)
    then show ?thesis
      using ref_copy_from_ok [OF assms n, of "Live_Value v" l p ex]
      by (auto simp: ref_copy_assign_def ref_destroy_def ref_alive_def)
  next
    case (error e)
    then show ?thesis
      using ref_copy_from_ok [OF assms n, of Dead "count_destroy l" p ex]
      by (auto simp: ref_copy_assign_def ref_destroy_def destroy_error_def ref_alive_def)
  next
    case (address v)
    then show ?thesis
      using ref_copy_from_ok [OF assms n, of "Live_Value v" l p ex]
      by (auto simp: ref_copy_assign_def ref_destroy_def ref_alive_def)
  next
    case nothing
    then show ?thesis
      using ref_copy_from_ok [OF assms n, of Dead l p ex]
      by (auto simp: ref_copy_assign_def ref_destroy_def ref_alive_def)
  qed
  show "\<exists>x y' l'. ref_move el y l = Inr (x, y', l') \<and> ref_wf x \<and> ref_wf y' \<and> contains x = contains y \<and>
      balance l' = balance l + int (ref_alive x) \<and> (ref_is_value y \<longrightarrow> ref_value p ex x = ref_value p ex y)"
    using assms
    by (cases rule: ref_cases)
      (simp_all add: ref_move_def ref_wf_def ref_alive_def ref_is_value_def ref_value_def enforce_def Let_def
        split: prod.split policy.split)
qed

text \<open>
  Access is checked in the specialisations as in the primary template: a well-formed object
  gives the member it holds or the failure of the policy, and never reads the other one.
\<close>

lemma specialised_access_checked:
  assumes "ref_wf r" and "void_wf v"
  shows "ref_is_value r \<Longrightarrow> \<exists>address. ref_value p ex r = Inr address"
    and "\<not> ref_is_value r \<Longrightarrow> \<exists>f. ref_value p ex r = Inl f \<and> f \<noteq> Undefined_Behaviour"
    and "ref_is_error r \<Longrightarrow> \<exists>e. ref_error_access p ex r = Inr e"
    and "\<not> ref_is_error r \<Longrightarrow> \<exists>f. ref_error_access p ex r = Inl f \<and> f \<noteq> Undefined_Behaviour"
    and "void_is_error v \<Longrightarrow> \<exists>e f. void_error_access p ex v = Inr e \<and> void_value p ex v = Inl f \<and> f \<noteq> Undefined_Behaviour"
    and "\<not> void_is_error v \<Longrightarrow>
      \<exists>f. void_error_access p ex v = Inl f \<and> f \<noteq> Undefined_Behaviour \<and> void_value p ex v = Inr ()"
proof -
  note defs = ref_wf_def void_wf_def ref_is_value_def ref_is_error_def ref_value_def ref_error_access_def
    void_is_error_def void_error_access_def void_value_def enforce_def
  show "ref_is_value r \<Longrightarrow> \<exists>address. ref_value p ex r = Inr address"
    and "\<not> ref_is_value r \<Longrightarrow> \<exists>f. ref_value p ex r = Inl f \<and> f \<noteq> Undefined_Behaviour"
    and "ref_is_error r \<Longrightarrow> \<exists>e. ref_error_access p ex r = Inr e"
    and "\<not> ref_is_error r \<Longrightarrow> \<exists>f. ref_error_access p ex r = Inl f \<and> f \<noteq> Undefined_Behaviour"
    using assms(1) by (cases "contains r"; cases p; auto simp: defs split: option.split)+
  show "void_is_error v \<Longrightarrow> \<exists>e f. void_error_access p ex v = Inr e \<and> void_value p ex v = Inl f \<and> f \<noteq> Undefined_Behaviour"
    and "\<not> void_is_error v \<Longrightarrow>
      \<exists>f. void_error_access p ex v = Inl f \<and> f \<noteq> Undefined_Behaviour \<and> void_value p ex v = Inr ()"
    using assms(2) by (cases p; auto simp: defs split: option.split)+
qed

section \<open>The contract the three variants share\<close>

text \<open>
  Objects that can be destroyed and moved into: what a container of them relies on.
\<close>

locale destructible =
  fixes good :: "'o \<Rightarrow> bool" and weight :: "'o \<Rightarrow> nat"
    and destruct :: "'o \<Rightarrow> ledger \<Rightarrow> ledger res"
    and assign :: "'o \<Rightarrow> 'o \<Rightarrow> ledger \<Rightarrow> ('o \<times> 'o \<times> ledger) res"
  assumes destruct_law: "good x \<Longrightarrow> \<exists>l'. destruct x l = Inr l' \<and> balance l' = balance l - int (weight x)"
    and assign_law: "good x \<Longrightarrow> good y \<Longrightarrow>
      \<exists>x' y' l'. assign x y l = Inr (x', y', l') \<and> good x' \<and> good y' \<and> weight x' = weight y \<and>
        weight y' = weight y \<and> balance l' = balance l - int (weight x) + int (weight y)"
begin

primrec destruct_all :: "'o list \<Rightarrow> ledger \<Rightarrow> ledger res" where
  "destruct_all [] l = Inr l"
| "destruct_all (x # xs) l = res_bind (destruct x l) (destruct_all xs)"

lemma destruct_all_ok:
  "\<forall>x \<in> set xs. good x \<Longrightarrow>
     \<exists>l'. destruct_all xs l = Inr l' \<and> balance l' = balance l - int (sum_list (map weight xs))"
proof (induction xs arbitrary: l)
  case (Cons x xs)
  obtain l1 where "destruct x l = Inr l1" "balance l1 = balance l - int (weight x)"
    using destruct_law Cons.prems by (metis list.set_intros(1))
  then show ?case using Cons.IH [of l1] Cons.prems by auto
qed simp

text \<open>Moving one object into another and destroying both destroys what the two held.\<close>

lemma assign_then_destruct:
  assumes "good x" and "good y"
  shows "\<exists>l'. res_bind (assign x y l) (\<lambda>(x, y, l). res_bind (destruct x l) (destruct y)) = Inr l' \<and>
    balance l' = balance l - int (weight x) - int (weight y)"
proof -
  obtain x' y' l1 where "assign x y l = Inr (x', y', l1)" "good x'" "good y'" "weight x' = weight y"
    "weight y' = weight y" "balance l1 = balance l - int (weight x) + int (weight y)"
    using assign_law [OF assms] by blast
  moreover obtain l2 where "destruct x' l1 = Inr l2" "balance l2 = balance l1 - int (weight x')"
    using destruct_law calculation(2) by blast
  moreover obtain l3 where "destruct y' l2 = Inr l3" "balance l3 = balance l2 - int (weight y')"
    using destruct_law calculation(3) by blast
  ultimately show ?thesis by auto
qed

end

interpretation whole: destructible wf alive destructor "move_assign el" for el
proof unfold_locales
  fix x y :: "('a, 'b) expected" and l
  show "wf x \<Longrightarrow> \<exists>l'. destructor x l = Inr l' \<and> balance l' = balance l - int (alive x)"
    by (rule destructor_ok)
  assume w: "wf x" "wf y"
  obtain x' y' l' where m: "move_assign el x y l = Inr (x', y', l')" "wf x'" "wf y'"
    "contains x' = contains y" "alive y' = alive y"
    "balance l' = balance l - int (alive x) + int (alive x')"
    using move_assign_ok [OF w] by blast
  moreover have "alive x' = alive y"
    using m(2,4) w(2) by (elim wf_cases) auto
  ultimately show "\<exists>x' y' l'. move_assign el x y l = Inr (x', y', l') \<and> wf x' \<and> wf y' \<and>
      alive x' = alive y \<and> alive y' = alive y \<and> balance l' = balance l - int (alive x) + int (alive y)"
    by auto
qed

interpretation by_ref: destructible ref_wf ref_alive ref_destructor "ref_move_assign el" for el
proof unfold_locales
  fix x y :: "(u64, 'a) expected" and l
  show "ref_wf x \<Longrightarrow> \<exists>l'. ref_destructor x l = Inr l' \<and> balance l' = balance l - int (ref_alive x)"
    by (cases "members x"; cases "contains x")
      (auto simp: ref_wf_def ref_alive_def ref_destructor_def destroy_error_def)
  assume "ref_wf x" "ref_wf y"
  then show "\<exists>x' y' l'. ref_move_assign el x y l = Inr (x', y', l') \<and> ref_wf x' \<and> ref_wf y' \<and>
      ref_alive x' = ref_alive y \<and> ref_alive y' = ref_alive y \<and>
      balance l' = balance l - int (ref_alive x) + int (ref_alive y)"
    by (cases "members x"; cases "contains x"; cases "members y"; cases "contains y")
      (auto simp: ref_wf_def ref_alive_def ref_move_assign_def ref_destroy_def destroy_error_def
        split: prod.split)
qed

interpretation void: destructible void_wf alive void_destructor "void_move_assign el" for el
proof unfold_locales
  fix x y :: "(unit, 'a) expected" and l
  show "void_wf x \<Longrightarrow> \<exists>l'. void_destructor x l = Inr l' \<and> balance l' = balance l - int (alive x)"
    by (auto simp: void_wf_def alive_def void_destructor_def destroy_error_def)
  assume "void_wf x" "void_wf y"
  then show "\<exists>x' y' l'. void_move_assign el x y l = Inr (x', y', l') \<and> void_wf x' \<and> void_wf y' \<and>
      alive x' = alive y \<and> alive y' = alive y \<and> balance l' = balance l - int (alive x) + int (alive y)"
    by (auto simp: void_wf_def alive_def void_move_assign_def void_move_from_def void_destroy_def
        destroy_error_def split: prod.split)
qed

text \<open>
  In all three variants, moving one object into another and then destroying both runs no
  destructor on a dead member and destroys exactly the errors and values the two held
  before (for \<open>T&\<close> only errors count): move assignment neither leaks nor duplicates an
  element.
\<close>

theorem expected_move_assign_conserves:
  shows "(\<forall>el (x :: ('t, 'e) expected) y l. wf x \<longrightarrow> wf y \<longrightarrow>
      (\<exists>l'. res_bind (move_assign el x y l) (\<lambda>(x, y, l). res_bind (destructor x l) (destructor y)) = Inr l' \<and>
        balance l' = balance l - int (alive x) - int (alive y))) \<and>
    (\<forall>el (x :: (u64, 'e) expected) y l. ref_wf x \<longrightarrow> ref_wf y \<longrightarrow>
      (\<exists>l'. res_bind (ref_move_assign el x y l) (\<lambda>(x, y, l). res_bind (ref_destructor x l) (ref_destructor y)) = Inr l' \<and>
        balance l' = balance l - int (ref_alive x) - int (ref_alive y))) \<and>
    (\<forall>el (x :: (unit, 'e) expected) y l. void_wf x \<longrightarrow> void_wf y \<longrightarrow>
      (\<exists>l'. res_bind (void_move_assign el x y l) (\<lambda>(x, y, l). res_bind (void_destructor x l) (void_destructor y)) = Inr l' \<and>
        balance l' = balance l - int (alive x) - int (alive y)))"
  using whole.assign_then_destruct by_ref.assign_then_destruct void.assign_then_destruct by blast

lemma expected_move_assign_conserves_witness:
  "\<exists>l'. res_bind (move_assign nat_elements \<lparr>contains = EXPECTED, members = Live_Value 1\<rparr>
       \<lparr>contains = UNEXPECTED, members = Live_Error 2\<rparr> \<lparr>constructed = 2, destroyed = 0\<rparr>)
      (\<lambda>(x, y, l). res_bind (destructor x l) (destructor y)) = Inr l' \<and> balance l' = 0"
  using expected_move_assign_conserves [THEN conjunct1, rule_format,
      of "\<lparr>contains = EXPECTED, members = Live_Value 1\<rparr>"
        "\<lparr>contains = UNEXPECTED, members = Live_Error 2\<rparr>" nat_elements "\<lparr>constructed = 2, destroyed = 0\<rparr>"]
  by (simp add: balance_def)

end
