(* ===== verification/Intrusive_List.thy ===== *)
theory Intrusive_List
  imports Ptl_Prelude
begin

text \<open>
  The intrusive doubly linked list of \<open>include/ptl/containers/list.hpp\<close>. An entry is a pair of
  fields at an address; the heap gives both fields of every address. A list is the ring through
  its \<open>head_\<close> entry. An item of type \<open>T\<close> has its entry at the offset the binding records.

  \<open>ListEntry::next()\<close> and \<open>prev()\<close> call \<open>from_entry\<close> with the neighbour as an argument it does not
  take, so they cannot be used; they are read as calls on the neighbour.
\<close>

section \<open>Entries\<close>

record heap =
  next_of :: "u64 \<Rightarrow> u64"
  prev_of :: "u64 \<Rightarrow> u64"

definition set_next :: "u64 \<Rightarrow> u64 \<Rightarrow> heap \<Rightarrow> heap" where
  "set_next e v h = h\<lparr>next_of := (next_of h)(e := v)\<rparr>"

definition set_prev :: "u64 \<Rightarrow> u64 \<Rightarrow> heap \<Rightarrow> heap" where
  "set_prev e v h = h\<lparr>prev_of := (prev_of h)(e := v)\<rparr>"

definition entry_construct :: "u64 \<Rightarrow> heap \<Rightarrow> heap" where
  "entry_construct this h = set_prev this this (set_next this this h)"

definition entry_remove :: "u64 \<Rightarrow> heap \<Rightarrow> heap" where
  "entry_remove this h =
     (let prev = prev_of h this; next = next_of h this;
          h = set_prev (next_of h this) prev h;
          h = set_next (prev_of h this) next h
      in set_next this this (set_prev this this h))"

definition in_list :: "u64 \<Rightarrow> heap \<Rightarrow> bool" where
  "in_list this h \<longleftrightarrow> next_of h this \<noteq> this"

definition insert_before :: "u64 \<Rightarrow> u64 \<Rightarrow> heap \<Rightarrow> heap" where
  "insert_before this other h =
     (let h = set_next this other h;
          h = set_prev this (prev_of h other) h;
          h = set_prev (next_of h this) this h
      in set_next (prev_of h this) this h)"

definition insert_after :: "u64 \<Rightarrow> u64 \<Rightarrow> heap \<Rightarrow> heap" where
  "insert_after this other h =
     (let h = set_prev this other h;
          h = set_next this (next_of h other) h;
          h = set_next (prev_of h this) this h
      in set_prev (next_of h this) this h)"

section \<open>Lists\<close>

definition to_entry :: "u64 \<Rightarrow> u64 \<Rightarrow> u64" where
  "to_entry offset item = item + offset"

definition from_entry :: "u64 \<Rightarrow> u64 \<Rightarrow> u64" where
  "from_entry offset entry = entry - offset"

definition list_next :: "u64 \<Rightarrow> u64 \<Rightarrow> heap \<Rightarrow> u64" where
  "list_next offset this h = from_entry offset (next_of h this)"

definition list_prev :: "u64 \<Rightarrow> u64 \<Rightarrow> heap \<Rightarrow> u64" where
  "list_prev offset this h = from_entry offset (prev_of h this)"

definition list_empty :: "u64 \<Rightarrow> heap \<Rightarrow> bool" where
  "list_empty head h \<longleftrightarrow> \<not> in_list head h"

definition push_back :: "u64 \<Rightarrow> u64 \<Rightarrow> u64 \<Rightarrow> heap \<Rightarrow> heap" where
  "push_back offset head item h = insert_before (to_entry offset item) head h"

definition push_front :: "u64 \<Rightarrow> u64 \<Rightarrow> u64 \<Rightarrow> heap \<Rightarrow> heap" where
  "push_front offset head item h = insert_after (to_entry offset item) head h"

definition list_front :: "u64 \<Rightarrow> u64 \<Rightarrow> heap \<Rightarrow> u64 option" where
  "list_front offset head h =
     (if list_empty head h then None else Some (from_entry offset (next_of h head)))"

definition list_back :: "u64 \<Rightarrow> u64 \<Rightarrow> heap \<Rightarrow> u64 option" where
  "list_back offset head h =
     (if list_empty head h then None else Some (from_entry offset (prev_of h head)))"

text \<open>
  \<open>delete item\<close> runs \<open>~ListEntry\<close> of every entry of the item, in reverse order of declaration.
  \<open>~List\<close> deletes the front until the list is empty and then removes \<open>head_\<close>; it gives the
  items it deleted, or \<open>None\<close> when the loop does not end.
\<close>

definition delete_item :: "u64 list \<Rightarrow> u64 \<Rightarrow> heap \<Rightarrow> heap" where
  "delete_item offsets item h =
     fold (\<lambda>offset. entry_remove (to_entry offset item)) (rev offsets) h"

partial_function (option) list_destroy ::
  "u64 list \<Rightarrow> u64 \<Rightarrow> u64 \<Rightarrow> heap \<Rightarrow> (u64 list \<times> heap) option" where
  "list_destroy offsets offset head h =
     (case list_front offset head h of
        None \<Rightarrow> Some ([], entry_remove head h)
      | Some item \<Rightarrow>
          Option.bind (list_destroy offsets offset head (delete_item offsets item h))
            (\<lambda>(items, h'). Some (item # items, h')))"

lemma from_to_entry [simp]: "from_entry offset (to_entry offset item) = item"
  by (simp add: from_entry_def to_entry_def)

lemma to_from_entry [simp]: "to_entry offset (from_entry offset entry) = entry"
  by (simp add: from_entry_def to_entry_def)

section \<open>Rings\<close>

fun linked :: "heap \<Rightarrow> u64 list \<Rightarrow> bool" where
  "linked h (a # b # es) = (next_of h a = b \<and> prev_of h b = a \<and> linked h (b # es))"
| "linked h _ = True"

definition ring :: "heap \<Rightarrow> u64 \<Rightarrow> u64 list \<Rightarrow> bool" where
  "ring h head es \<longleftrightarrow> linked h (head # es @ [head]) \<and> distinct (head # es)"

lemma linked_append: "linked h (xs @ a # ys) \<longleftrightarrow> linked h (xs @ [a]) \<and> linked h (a # ys)"
proof (induction xs)
  case (Cons x xs)
  then show ?case by (cases xs) auto
qed simp

lemma linked_cong:
  assumes "\<And>e. e \<in> set (butlast es) \<Longrightarrow> next_of h' e = next_of h e"
    and "\<And>e. e \<in> set (tl es) \<Longrightarrow> prev_of h' e = prev_of h e"
  shows "linked h' es = linked h es"
  using assms
proof (induction h es rule: linked.induct)
  case (1 h a b es)
  have "linked h' (b # es) = linked h (b # es)"
    by (rule "1.IH") (use "1.prems" in \<open>auto split: if_splits\<close>)
  then show ?case using "1.prems"(1) [of a] "1.prems"(2) [of b] by simp
qed simp_all

lemma set_fields [simp]:
  "next_of (set_next e v h) = (next_of h)(e := v)" "prev_of (set_next e v h) = prev_of h"
  "prev_of (set_prev e v h) = (prev_of h)(e := v)" "next_of (set_prev e v h) = next_of h"
  by (simp_all add: set_next_def set_prev_def)

text \<open>The three operations in terms of the neighbours, for entries that are all different.\<close>

lemma insert_before_fields:
  assumes "e \<noteq> x" and "prev_of h x \<noteq> e"
  shows "next_of (insert_before e x h) = (next_of h)(e := x, prev_of h x := e)"
    and "prev_of (insert_before e x h) = (prev_of h)(e := prev_of h x, x := e)"
  using assms by (auto simp: insert_before_def Let_def fun_eq_iff)

lemma insert_after_fields:
  assumes "e \<noteq> x" and "next_of h x \<noteq> e"
  shows "next_of (insert_after e x h) = (next_of h)(e := next_of h x, x := e)"
    and "prev_of (insert_after e x h) = (prev_of h)(e := x, next_of h x := e)"
  using assms by (auto simp: insert_after_def Let_def fun_eq_iff)

lemma entry_remove_fields:
  assumes "prev_of h e \<noteq> e" and "next_of h e \<noteq> e"
  shows "next_of (entry_remove e h) = (next_of h)(prev_of h e := next_of h e, e := e)"
    and "prev_of (entry_remove e h) = (prev_of h)(next_of h e := prev_of h e, e := e)"
  using assms by (auto simp: entry_remove_def Let_def fun_eq_iff)

lemma entry_remove_single:
  assumes "prev_of h e = e" and "next_of h e = e"
  shows "next_of (entry_remove e h) = next_of h" and "prev_of (entry_remove e h) = prev_of h"
  using assms by (auto simp: entry_remove_def Let_def fun_eq_iff)

text \<open>A ring can be read from any of its entries.\<close>

lemma ring_rotate:
  assumes "ring h a (xs @ b # ys)"
  shows "ring h b (ys @ a # xs)"
proof -
  have "linked h (a # xs @ [b])" "linked h (b # ys @ [a])"
    using assms linked_append [of h "a # xs" b "ys @ [a]"] by (simp_all add: ring_def)
  then have "linked h (b # ys @ a # xs @ [b])"
    using linked_append [of h "b # ys" a "xs @ [b]"] by simp
  with assms show ?thesis by (auto simp: ring_def)
qed

lemma ring_ends:
  assumes "ring h head es"
  shows "next_of h head = hd (es @ [head])" and "prev_of h head = last (head # es)"
proof -
  have l: "linked h (head # es @ [head])" using assms by (simp add: ring_def)
  show "next_of h head = hd (es @ [head])" using l by (cases es) auto
  show "prev_of h head = last (head # es)"
  proof (cases es rule: rev_cases)
    case Nil
    then show ?thesis using l by simp
  next
    case (snoc ys y)
    then have "linked h ((head # ys) @ y # [head])" using l by simp
    then have "linked h (y # [head])" using linked_append [of h "head # ys" y "[head]"] by blast
    then show ?thesis using snoc by simp
  qed
qed

lemma ring_insert_before:
  assumes r: "ring h head es" and e: "e \<notin> set (head # es)"
  shows "ring (insert_before e head h) head (es @ [e])"
proof (cases es rule: rev_cases)
  case Nil
  then have "next_of h head = head" "prev_of h head = head" using ring_ends [OF r] by simp_all
  then show ?thesis
    using Nil e insert_before_fields [of e head h] by (auto simp: ring_def)
next
  case (snoc ys y)
  have l: "linked h ((head # ys) @ y # [head])" and d: "distinct (head # ys @ [y])"
    using r snoc by (simp_all add: ring_def)
  have p: "prev_of h head = y" using ring_ends [OF r] snoc by simp
  have f: "next_of (insert_before e head h) = (next_of h)(e := head, y := e)"
    "prev_of (insert_before e head h) = (prev_of h)(e := y, head := e)"
    using insert_before_fields [of e head h] p e snoc by auto
  have "linked (insert_before e head h) (head # ys @ [y]) = linked h (head # ys @ [y])"
    by (rule linked_cong) (use f d e snoc in auto)
  moreover have "linked h (head # ys @ [y])"
    using l linked_append [of h "head # ys" y "[head]"] by simp
  moreover have "linked (insert_before e head h) (y # [e, head])" using f e d snoc by auto
  ultimately have "linked (insert_before e head h) ((head # ys) @ y # [e, head])"
    using linked_append [of "insert_before e head h" "head # ys" y "[e, head]"] by simp
  then show ?thesis using d e snoc by (auto simp: ring_def)
qed

lemma ring_insert_after:
  assumes r: "ring h head es" and e: "e \<notin> set (head # es)"
  shows "ring (insert_after e head h) head (e # es)"
proof (cases es)
  case Nil
  then have "next_of h head = head" "prev_of h head = head" using ring_ends [OF r] by simp_all
  then show ?thesis
    using Nil e insert_after_fields [of e head h] by (auto simp: ring_def)
next
  case (Cons y ys)
  have l: "linked h (head # y # ys @ [head])" and d: "distinct (head # y # ys)"
    using r Cons by (simp_all add: ring_def)
  have n: "next_of h head = y" using l by simp
  have f: "next_of (insert_after e head h) = (next_of h)(e := y, head := e)"
    "prev_of (insert_after e head h) = (prev_of h)(e := head, y := e)"
    using insert_after_fields [of e head h] n e Cons by auto
  have "linked (insert_after e head h) (y # ys @ [head]) = linked h (y # ys @ [head])"
    by (rule linked_cong) (use f d e Cons in \<open>auto simp: butlast_append\<close>)
  then have "linked (insert_after e head h) (y # ys @ [head])" using l by simp
  then show ?thesis using f d e Cons by (auto simp: ring_def)
qed

lemma ring_remove_next:
  assumes r: "ring h a (e # es)"
  shows "ring (entry_remove e h) a es" and "next_of (entry_remove e h) e = e"
    and "prev_of (entry_remove e h) e = e"
proof -
  have l: "linked h (a # e # es @ [a])" and d: "distinct (a # e # es)"
    using r by (simp_all add: ring_def)
  let ?n = "hd (es @ [a])"
  have nb: "prev_of h e = a" "next_of h e = ?n" using l by (cases es; simp)+
  have ne: "?n \<noteq> e" "a \<noteq> e" using d by (cases es; auto)+
  have f: "next_of (entry_remove e h) = (next_of h)(a := ?n, e := e)"
    "prev_of (entry_remove e h) = (prev_of h)(?n := a, e := e)"
    using entry_remove_fields [of h e] nb ne by auto
  show "next_of (entry_remove e h) e = e" "prev_of (entry_remove e h) e = e" using f by simp_all
  have "linked (entry_remove e h) (es @ [a]) = linked h (es @ [a])"
  proof (rule linked_cong)
    fix x
    show "next_of (entry_remove e h) x = next_of h x" if "x \<in> set (butlast (es @ [a]))"
      using that f d by auto
    show "prev_of (entry_remove e h) x = prev_of h x" if "x \<in> set (tl (es @ [a]))"
      using that f d by (cases es) auto
  qed
  moreover have "linked h (es @ [a])" using l by (cases es) auto
  ultimately have "linked (entry_remove e h) (a # es @ [a])"
    using f ne by (cases es) auto
  then show "ring (entry_remove e h) a es" using d by (simp add: ring_def)
qed

lemma ring_remove:
  assumes "ring h head (xs @ e # ys)"
  shows "ring (entry_remove e h) head (xs @ ys)" and "next_of (entry_remove e h) e = e"
    and "prev_of (entry_remove e h) e = e"
proof -
  have "ring (entry_remove e h) head (xs @ ys) \<and> next_of (entry_remove e h) e = e \<and>
      prev_of (entry_remove e h) e = e"
  proof (cases xs rule: rev_cases)
    case Nil
    then show ?thesis using ring_remove_next [of h head e ys] assms by simp
  next
    case (snoc zs z)
    then have "ring h z ((e # ys) @ head # zs)"
      using ring_rotate [of h head zs z "e # ys"] assms by simp
    then have z: "ring h z (e # ys @ head # zs)" by simp
    then have "ring (entry_remove e h) z (ys @ head # zs)" by (rule ring_remove_next)
    then show ?thesis
      using ring_rotate [of "entry_remove e h" z ys head zs] ring_remove_next(2,3) [OF z] snoc by simp
  qed
  then show "ring (entry_remove e h) head (xs @ ys)" "next_of (entry_remove e h) e = e"
    "prev_of (entry_remove e h) e = e" by simp_all
qed

text \<open>Operations on one ring leave the rings of other entries alone.\<close>

lemma ring_other:
  assumes "ring h head es"
    and "\<And>x. x \<in> set (head # es) \<Longrightarrow> next_of h' x = next_of h x \<and> prev_of h' x = prev_of h x"
  shows "ring h' head es"
proof -
  have "linked h' (head # es @ [head]) = linked h (head # es @ [head])"
    by (rule linked_cong) (use assms(2) in \<open>auto simp: butlast_append split: if_splits\<close>)
  then show ?thesis using assms(1) by (simp add: ring_def)
qed

lemma insert_before_other:
  assumes "ring h head es" and "ring h other os" and "e \<notin> set (head # es)" and "e \<notin> set (other # os)"
    and "set (head # es) \<inter> set (other # os) = {}"
  shows "ring (insert_before e head h) other os"
proof (rule ring_other [OF assms(2)])
  fix x
  assume x: "x \<in> set (other # os)"
  have p: "prev_of h head \<in> set (head # es)"
    using ring_ends(2) [OF assms(1)] by (metis last_in_set list.distinct(1))
  then have "prev_of h head \<noteq> e" using assms(3) by metis
  with p show "next_of (insert_before e head h) x = next_of h x \<and> prev_of (insert_before e head h) x = prev_of h x"
    using insert_before_fields [of e head h] x assms(3-) by auto
qed

lemma insert_after_other:
  assumes "ring h head es" and "ring h other os" and "e \<notin> set (head # es)" and "e \<notin> set (other # os)"
    and "set (head # es) \<inter> set (other # os) = {}"
  shows "ring (insert_after e head h) other os"
proof (rule ring_other [OF assms(2)])
  fix x
  assume x: "x \<in> set (other # os)"
  have n: "next_of h head \<in> set (head # es)"
    using ring_ends(1) [OF assms(1)] by (cases es) simp_all
  then have "next_of h head \<noteq> e" using assms(3) by metis
  with n show "next_of (insert_after e head h) x = next_of h x \<and> prev_of (insert_after e head h) x = prev_of h x"
    using insert_after_fields [of e head h] x assms(3-) by auto
qed

lemma entry_remove_other:
  assumes "ring h head es" and "ring h other os" and "e \<in> set es"
    and "set (head # es) \<inter> set (other # os) = {}"
  shows "ring (entry_remove e h) other os"
proof (rule ring_other [OF assms(2)])
  fix x
  assume x: "x \<in> set (other # os)"
  obtain xs ys where es: "es = xs @ e # ys" using assms(3) by (meson split_list)
  have "ring h e (ys @ head # xs)" using ring_rotate assms(1) es by blast
  note ends = ring_ends [OF this]
  have "next_of h e \<in> set (ys @ head # xs)" using ends(1) by (cases ys) simp_all
  moreover have "prev_of h e \<in> set (ys @ head # xs)"
    using ends(2) last_in_set [of "head # xs"] by auto
  moreover have "distinct (e # ys @ head # xs)" using \<open>ring h e _\<close> by (simp add: ring_def)
  ultimately have n: "next_of h e \<noteq> e" "next_of h e \<in> set (head # es)"
    and p: "prev_of h e \<noteq> e" "prev_of h e \<in> set (head # es)"
    unfolding es by auto
  have "x \<notin> set (head # es)" using x assms(4) by blast
  then have "x \<noteq> e" "x \<noteq> next_of h e" "x \<noteq> prev_of h e"
    using assms(3) n p by (metis list.set_intros(2))+
  then show "next_of (entry_remove e h) x = next_of h x \<and> prev_of (entry_remove e h) x = prev_of h x"
    by (simp add: entry_remove_fields [OF p(1) n(1)])
qed

lemma ring_Nil: "ring h a [] \<longleftrightarrow> next_of h a = a \<and> prev_of h a = a"
  by (auto simp: ring_def)

lemma ring_empty_iff: "ring h head es \<Longrightarrow> list_empty head h \<longleftrightarrow> es = []"
  using ring_ends(1) [of h head es]
  by (cases es) (auto simp: list_empty_def in_list_def ring_def)

lemma entry_remove_ring:
  assumes "ring h head es" and "e \<in> set es"
  shows "ring (entry_remove e h) head (filter (\<lambda>x. x \<noteq> e) es)" and "ring (entry_remove e h) e []"
proof -
  obtain xs ys where es: "es = xs @ e # ys" using assms(2) by (meson split_list)
  moreover have "distinct es" using assms(1) by (simp add: ring_def)
  moreover have "filter (\<lambda>x. x \<noteq> e) zs = zs" if "e \<notin> set zs" for zs
    using that by (auto simp: filter_id_conv)
  ultimately have "filter (\<lambda>x. x \<noteq> e) es = xs @ ys" by simp
  with ring_remove [of h head xs e ys] assms(1) es
  show "ring (entry_remove e h) head (filter (\<lambda>x. x \<noteq> e) es)" "ring (entry_remove e h) e []"
    by (simp_all add: ring_Nil)
qed

lemma entry_remove_alone: "ring h e [] \<Longrightarrow> entry_remove e h = h"
  by (rule heap.equality) (simp_all add: ring_Nil entry_remove_single)

lemma inj_to_entry: "inj (to_entry offset)"
  by (rule injI) (metis from_to_entry)

lemma filter_map_entry:
  "filter (\<lambda>e. e \<noteq> to_entry offset x) (map (to_entry offset) xs) = map (to_entry offset) (filter (\<lambda>y. y \<noteq> x) xs)"
  by (simp add: filter_map o_def inj_eq [OF inj_to_entry])

section \<open>Properties\<close>

text \<open>
  A list refines a sequence of items: when the ring of entries spells out \<open>xs\<close>, pushing a
  new item at the back or the front, asking for either end and testing for emptiness have the
  results of the same operations on \<open>xs\<close>, and every other list of the program, such as one
  through another entry of the same items, stays as it is.
\<close>

theorem list_refines_sequence:
  assumes "ring h head (map (to_entry offset) xs)"
    and "to_entry offset item \<notin> set (head # map (to_entry offset) xs)"
    and "ring h other os" and "to_entry offset item \<notin> set (other # os)"
    and "set (head # map (to_entry offset) xs) \<inter> set (other # os) = {}"
  shows "ring (push_back offset head item h) head (map (to_entry offset) (xs @ [item])) \<and>
    ring (push_front offset head item h) head (map (to_entry offset) (item # xs)) \<and>
    ring (push_back offset head item h) other os \<and>
    ring (push_front offset head item h) other os \<and>
    list_front offset head h = (if xs = [] then None else Some (hd xs)) \<and>
    list_back offset head h = (if xs = [] then None else Some (last xs)) \<and>
    (list_empty head h \<longleftrightarrow> xs = [])"
proof -
  note e = ring_empty_iff [OF assms(1)] and n = ring_ends [OF assms(1)]
  have "list_front offset head h = (if xs = [] then None else Some (hd xs))"
    using e n(1) by (cases xs) (simp_all add: list_front_def)
  moreover have "list_back offset head h = (if xs = [] then None else Some (last xs))"
    using e n(2) by (simp add: list_back_def last_map)
  ultimately show ?thesis
    using ring_insert_before [OF assms(1,2)] ring_insert_after [OF assms(1,2)]
      insert_before_other [OF assms(1,3,2,4,5)] insert_after_other [OF assms(1,3,2,4,5)] e
    by (simp add: push_back_def push_front_def)
qed

text \<open>\<open>next\<close> and \<open>prev\<close> walk from item to item.\<close>

lemma next_and_prev:
  assumes "ring h head (map (to_entry offset) (xs @ a # b # ys))"
  shows "list_next offset (to_entry offset a) h = b" and "list_prev offset (to_entry offset b) h = a"
proof -
  have "ring h (to_entry offset a) (map (to_entry offset) (b # ys) @ head # map (to_entry offset) xs)"
    using ring_rotate [of h head "map (to_entry offset) xs" "to_entry offset a" "map (to_entry offset) (b # ys)"]
      assms by simp
  then show "list_next offset (to_entry offset a) h = b"
    using ring_ends(1) by (fastforce simp: list_next_def)
  have "ring h (to_entry offset b) (map (to_entry offset) ys @ head # map (to_entry offset) (xs @ [a]))"
    using ring_rotate [of h head "map (to_entry offset) (xs @ [a])" "to_entry offset b" "map (to_entry offset) ys"]
      assms by simp
  then show "list_prev offset (to_entry offset b) h = a"
    using ring_ends(2) by (fastforce simp: list_prev_def)
qed

definition fresh_heap :: heap where
  "fresh_heap = \<lparr>next_of = (\<lambda>a. a), prev_of = (\<lambda>a. a)\<rparr>"

lemma fresh_ring: "ring fresh_heap a []"
  by (simp add: ring_Nil fresh_heap_def)

lemma list_refines_sequence_witness:
  "list_front 8 100 (push_back 8 100 200 fresh_heap) = Some 200"
proof -
  have "ring (push_back 8 100 200 fresh_heap) 100 (map (to_entry 8) [200])"
    using list_refines_sequence [of fresh_heap 100 8 "[]" 200 300 "[]"] fresh_ring
    by (simp add: to_entry_def)
  then show ?thesis
    by (simp add: list_front_def list_empty_def in_list_def ring_def to_entry_def from_entry_def)
qed

text \<open>
  Removing an entry, wherever it is in its list, takes exactly that item out and keeps the
  order of the others; the entry is then in no list, removing it again changes nothing, and
  other lists stay as they are. This is also what destroying an item does.
\<close>

theorem remove_takes_item_out:
  assumes "ring h head (map (to_entry offset) xs)" and "x \<in> set xs"
    and "ring h other os" and "set (head # map (to_entry offset) xs) \<inter> set (other # os) = {}"
  shows "ring (entry_remove (to_entry offset x) h) head (map (to_entry offset) (filter (\<lambda>y. y \<noteq> x) xs)) \<and>
    \<not> in_list (to_entry offset x) (entry_remove (to_entry offset x) h) \<and>
    entry_remove (to_entry offset x) (entry_remove (to_entry offset x) h)
      = entry_remove (to_entry offset x) h \<and>
    ring (entry_remove (to_entry offset x) h) other os"
proof -
  let ?e = "to_entry offset x"
  have e: "?e \<in> set (map (to_entry offset) xs)" using assms(2) by simp
  note r = entry_remove_ring [OF assms(1) e]
  show ?thesis
    using r entry_remove_alone [OF r(2)] entry_remove_other [OF assms(1,3) e assms(4)]
    by (simp add: filter_map_entry in_list_def ring_Nil)
qed

lemma remove_takes_item_out_witness:
  "ring (entry_remove 208 (push_back 8 100 200 fresh_heap)) 100 []"
proof -
  have "ring (push_back 8 100 200 fresh_heap) 100 (map (to_entry 8) [200])"
    and "ring (push_back 8 100 200 fresh_heap) 300 []"
    using list_refines_sequence [of fresh_heap 100 8 "[]" 200 300 "[]"] fresh_ring
    by (simp_all add: to_entry_def)
  from remove_takes_item_out [OF this(1) _ this(2)] show ?thesis by (simp add: to_entry_def)
qed

section \<open>The destructor\<close>

text \<open>
  Items with an entry in the list and another entry, at \<open>other_offset\<close>, that is in the second
  list or in none.
\<close>

definition two_lists ::
  "u64 \<Rightarrow> u64 \<Rightarrow> u64 list \<Rightarrow> u64 \<Rightarrow> u64 \<Rightarrow> u64 list \<Rightarrow> heap \<Rightarrow> bool" where
  "two_lists offset head xs other_offset other ys h \<longleftrightarrow>
     ring h head (map (to_entry offset) xs) \<and> ring h other (map (to_entry other_offset) ys) \<and>
     (\<forall>z \<in> set xs - set ys. ring h (to_entry other_offset z) []) \<and>
     set (head # map (to_entry offset) xs) \<inter>
       (insert other (to_entry other_offset ` (set xs \<union> set ys))) = {} \<and>
     other \<notin> to_entry other_offset ` (set xs \<union> set ys)"

lemma delete_front:
  assumes "two_lists offset head (x # xs) other_offset other ys h"
  shows "two_lists offset head xs other_offset other (filter (\<lambda>y. y \<noteq> x) ys)
    (delete_item [offset, other_offset] x h)"
proof -
  let ?e = "to_entry offset x" and ?o = "to_entry other_offset x"
  let ?h1 = "entry_remove ?o h"
  have r1: "ring h head (map (to_entry offset) (x # xs))"
    and r2: "ring h other (map (to_entry other_offset) ys)"
    and single: "\<And>z. z \<in> set (x # xs) \<Longrightarrow> z \<notin> set ys \<Longrightarrow> ring h (to_entry other_offset z) []"
    and disj: "set (head # map (to_entry offset) (x # xs)) \<inter>
       (insert other (to_entry other_offset ` (set (x # xs) \<union> set ys))) = {}"
    and o: "other \<notin> to_entry other_offset ` (set (x # xs) \<union> set ys)"
    using assms by (auto simp: two_lists_def)
  have xs: "x \<notin> set xs" using r1 by (auto simp: ring_def)
  have inj: "to_entry other_offset a = to_entry other_offset b \<longleftrightarrow> a = b" for a b
    by (simp add: inj_eq [OF inj_to_entry])
  have d12: "set (other # map (to_entry other_offset) ys) \<inter> set (head # map (to_entry offset) (x # xs)) = {}"
    using disj by auto
  have h1: "ring ?h1 head (map (to_entry offset) (x # xs)) \<and>
      ring ?h1 other (map (to_entry other_offset) (filter (\<lambda>y. y \<noteq> x) ys)) \<and>
      (\<forall>z \<in> set xs - set ys. ring ?h1 (to_entry other_offset z) [])"
  proof (cases "x \<in> set ys")
    case True
    then have e: "?o \<in> set (map (to_entry other_offset) ys)" by simp
    have "ring ?h1 (to_entry other_offset z) []" if "z \<in> set xs" "z \<notin> set ys" for z
      by (rule entry_remove_other [OF r2 single e]) (use that o inj in auto)
    then show ?thesis
      using entry_remove_ring(1) [OF r2 e] entry_remove_other [OF r2 r1 e d12] filter_map_entry
      by auto
  next
    case False
    then have "?h1 = h" using single [of x] entry_remove_alone by simp
    moreover have "filter (\<lambda>y. y \<noteq> x) ys = ys" using False by (auto simp: filter_id_conv)
    ultimately show ?thesis using r1 r2 single by simp
  qed
  have del: "delete_item [offset, other_offset] x h = entry_remove ?e ?h1"
    by (simp add: delete_item_def)
  have e: "?e \<in> set (map (to_entry offset) (x # xs))" by simp
  have f: "filter (\<lambda>y. y \<noteq> x) (x # xs) = xs" using xs by (auto simp: filter_id_conv)
  have "ring (entry_remove ?e ?h1) head (map (to_entry offset) xs)"
    using entry_remove_ring(1) [OF h1 [THEN conjunct1] e] filter_map_entry [of offset x "x # xs"] f
    by simp
  moreover have "ring (entry_remove ?e ?h1) other (map (to_entry other_offset) (filter (\<lambda>y. y \<noteq> x) ys))"
  proof (rule entry_remove_other [OF h1 [THEN conjunct1] _ e])
    show "set (head # map (to_entry offset) (x # xs)) \<inter>
        set (other # map (to_entry other_offset) (filter (\<lambda>y. y \<noteq> x) ys)) = {}"
      using d12 by auto
  qed (use h1 in blast)
  moreover have "\<forall>z \<in> set xs - set ys. ring (entry_remove ?e ?h1) (to_entry other_offset z) []"
  proof
    fix z
    assume z: "z \<in> set xs - set ys"
    have "to_entry other_offset z \<in> insert other (to_entry other_offset ` (set (x # xs) \<union> set ys))"
      using z by simp
    then have "to_entry other_offset z \<notin> set (head # map (to_entry offset) (x # xs))"
      using disj by blast
    then show "ring (entry_remove ?e ?h1) (to_entry other_offset z) []"
      using h1 z by (intro entry_remove_other [OF h1 [THEN conjunct1] _ e]) auto
  qed
  moreover have "set xs - set (filter (\<lambda>y. y \<noteq> x) ys) = set xs - set ys" using xs by auto
  moreover have "set (head # map (to_entry offset) xs) \<inter>
      insert other (to_entry other_offset ` (set xs \<union> set (filter (\<lambda>y. y \<noteq> x) ys))) = {}"
  proof -
    have "set (head # map (to_entry offset) xs) \<subseteq> set (head # map (to_entry offset) (x # xs))"
      and "set xs \<union> set (filter (\<lambda>y. y \<noteq> x) ys) \<subseteq> set (x # xs) \<union> set ys" by auto
    with disj show ?thesis by blast
  qed
  moreover have "other \<notin> to_entry other_offset ` (set xs \<union> set (filter (\<lambda>y. y \<noteq> x) ys))"
    using o by auto
  ultimately show ?thesis
    unfolding del two_lists_def by simp
qed

lemma list_destroy_two:
  assumes "two_lists offset head xs other_offset other ys h"
  shows "\<exists>h'. list_destroy [offset, other_offset] offset head h = Some (xs, h') \<and>
    ring h' head [] \<and> ring h' other (map (to_entry other_offset) (filter (\<lambda>y. y \<notin> set xs) ys))"
  using assms
proof (induction xs arbitrary: h ys)
  case Nil
  then have r: "ring h head []" "ring h other (map (to_entry other_offset) ys)"
    by (simp_all add: two_lists_def)
  then have "list_front offset head h = None"
    using ring_empty_iff by (simp add: list_front_def)
  with r show ?case
    by (subst list_destroy.simps) (simp add: entry_remove_alone)
next
  case (Cons x xs)
  have r: "ring h head (map (to_entry offset) (x # xs))" using Cons.prems by (simp add: two_lists_def)
  then have "list_front offset head h = Some x"
    using ring_empty_iff [OF r] ring_ends(1) [OF r] by (simp add: list_front_def)
  moreover obtain h' where "list_destroy [offset, other_offset] offset head
        (delete_item [offset, other_offset] x h) = Some (xs, h')"
    "ring h' head []"
    "ring h' other (map (to_entry other_offset) (filter (\<lambda>y. y \<notin> set xs) (filter (\<lambda>y. y \<noteq> x) ys)))"
    using Cons.IH [OF delete_front [OF Cons.prems]] by blast
  ultimately show ?case
    by (subst list_destroy.simps) (auto simp: conj_commute)
qed

text \<open>
  C35: the destructor's loop always ends. It deletes the items of the list, each once and from
  front to back, leaves the list empty, and an item that was also in a second list through
  another entry has left that list, whose other items keep their order.
\<close>

theorem list_destructor_deletes_all:
  assumes "two_lists offset head xs other_offset other ys h"
  shows "\<exists>h'. list_destroy [offset, other_offset] offset head h = Some (xs, h') \<and>
    list_empty head h' \<and>
    ring h' other (map (to_entry other_offset) (filter (\<lambda>y. y \<notin> set xs) ys))"
  using list_destroy_two [OF assms] ring_empty_iff by blast

lemma list_destructor_deletes_all_witness:
  "\<exists>h'. list_destroy [8, 24] 8 100 (push_back 8 100 200 fresh_heap) = Some ([200], h') \<and>
     list_empty 100 h'"
proof -
  let ?h = "push_back 8 100 200 fresh_heap"
  have "ring ?h 100 (map (to_entry 8) [200])" and "ring ?h 300 []"
    using list_refines_sequence [of fresh_heap 100 8 "[]" 200 300 "[]"] fresh_ring
    by (simp_all add: to_entry_def)
  moreover have "ring ?h 224 []"
    using list_refines_sequence [of fresh_heap 100 8 "[]" 200 224 "[]"] fresh_ring
    by (simp add: to_entry_def)
  ultimately have "two_lists 8 100 [200] 24 300 [] ?h"
    by (simp add: two_lists_def to_entry_def)
  from list_destructor_deletes_all [OF this] show ?thesis by auto
qed

end
