(* ===== verification/Slist.thy ===== *)
theory Slist
  imports Ptl_Prelude
begin

text \<open>
  \<open>containers/slist.hpp\<close>: the singly linked list through entries inside the items. Memory is the
  \<open>next_\<close> pointer of the entry at every address, \<open>0\<close> being \<open>nullptr\<close>; \<open>offset\<close> is that of the entry
  in the item. Loops over the list return \<open>None\<close> when they never end. \<open>back\<close> and \<open>push_front\<close>
  assign pointers of unrelated types and cannot be instantiated, and \<open>next\<close> gives an argument to a
  function without parameters: the model reads these pointers as the entries they are meant to be.
\<close>

section \<open>The operations\<close>

type_synonym links = "u64 \<Rightarrow> u64"

definition slist_to_entry :: "u64 \<Rightarrow> u64 \<Rightarrow> u64" where
  "slist_to_entry offset item = item + offset"

definition slist_from_entry :: "u64 \<Rightarrow> u64 \<Rightarrow> u64" where
  "slist_from_entry offset entry = entry - offset"

definition slist_entry_construct :: "u64 \<Rightarrow> links \<Rightarrow> links" where
  "slist_entry_construct entry h = h(entry := 0)"

definition slist_entry_destroy :: "u64 \<Rightarrow> links \<Rightarrow> unit res" where
  "slist_entry_destroy entry h = (if h entry = 0 then Inr () else Inl Assert_Failed)"

definition slist_next :: "u64 \<Rightarrow> u64 \<Rightarrow> links \<Rightarrow> u64" where
  "slist_next offset entry h = slist_from_entry offset (h entry)"

definition slist_in_list :: "u64 \<Rightarrow> links \<Rightarrow> bool" where
  "slist_in_list entry h \<longleftrightarrow> h entry \<noteq> 0"

definition slist_empty :: "u64 \<Rightarrow> links \<Rightarrow> bool" where
  "slist_empty head h \<longleftrightarrow> \<not> slist_in_list head h"

text \<open>The item at the front, or \<open>0\<close>.\<close>

definition slist_front :: "u64 \<Rightarrow> u64 \<Rightarrow> links \<Rightarrow> u64" where
  "slist_front offset head h = (if slist_empty head h then 0 else slist_from_entry offset (h head))"

text \<open>
  The loop of \<open>push_back\<close>: \<open>cur\<close> is the address of a \<open>next_\<close> field, named by its entry.
\<close>

partial_function (option) last_link :: "links \<Rightarrow> u64 \<Rightarrow> u64 option" where
  "last_link h cur = (if h cur = 0 then Some cur else last_link h (h cur))"

text \<open>\<open>item->in_list()\<close> is the item's own member, taken to ask its entry.\<close>

definition slist_push_back :: "u64 \<Rightarrow> u64 \<Rightarrow> u64 \<Rightarrow> links \<Rightarrow> links res option" where
  "slist_push_back offset head item h =
     (if slist_in_list (slist_to_entry offset item) h then Some (Inl Assert_Failed)
      else map_option (\<lambda>cur. Inr (h(cur := slist_to_entry offset item))) (last_link h head))"

definition slist_push_front :: "u64 \<Rightarrow> u64 \<Rightarrow> u64 \<Rightarrow> links \<Rightarrow> links res" where
  "slist_push_front offset head item h =
     (let e = slist_to_entry offset item
      in if slist_in_list e h then Inl Assert_Failed else Inr (h(e := h head, head := e)))"

text \<open>The loop of \<open>back\<close> sets \<open>curr\<close> to the first entry again each time.\<close>

partial_function (option) back_entry :: "u64 \<Rightarrow> links \<Rightarrow> u64 \<Rightarrow> u64 \<Rightarrow> u64 option" where
  "back_entry head h prev cur = (if cur = 0 then Some prev else back_entry head h cur (h head))"

definition slist_back :: "u64 \<Rightarrow> u64 \<Rightarrow> links \<Rightarrow> u64 option" where
  "slist_back offset head h =
     (if slist_empty head h then Some 0 else map_option (slist_from_entry offset) (back_entry head h 0 (h head)))"

text \<open>
  The destructor: \<open>delete cur\<close> runs the destructor of the entry, which asserts that \<open>next_\<close> is
  null. The result is what was deleted, the last first.
\<close>

partial_function (option) slist_destroy :: "u64 \<Rightarrow> links \<Rightarrow> u64 list \<Rightarrow> u64 list res option" where
  "slist_destroy head h deleted =
     (let cur = h head
      in if cur = 0 then Some (Inr deleted)
         else let h = h(head := h cur)
              in case slist_entry_destroy cur h of
                   Inl e \<Rightarrow> Some (Inl e)
                 | Inr _ \<Rightarrow> slist_destroy head h (cur # deleted))"

section \<open>Lists in memory\<close>

text \<open>The entries that follow the entry \<open>a\<close>.\<close>

fun schain :: "links \<Rightarrow> u64 \<Rightarrow> u64 list \<Rightarrow> bool" where
  "schain h a [] \<longleftrightarrow> h a = 0"
| "schain h a (x # xs) \<longleftrightarrow> h a = x \<and> x \<noteq> 0 \<and> schain h x xs"

definition holds_list :: "u64 \<Rightarrow> links \<Rightarrow> u64 list \<Rightarrow> bool" where
  "holds_list head h es \<longleftrightarrow> schain h head es \<and> distinct (head # es)"

lemma schain_update: "c \<notin> set (a # butlast (a # es)) \<Longrightarrow> c \<notin> set (a # es) \<Longrightarrow> schain (h(c := v)) a es = schain h a es"
  by (induction es arbitrary: a) auto

lemma schain_last: "schain h a es \<Longrightarrow> h (last (a # es)) = 0"
  by (induction es arbitrary: a) auto

lemma last_link_schain: "schain h a es \<Longrightarrow> last_link h a = Some (last (a # es))"
  by (induction es arbitrary: a) (auto simp: last_link.simps)

lemma schain_append:
  assumes "schain h a es" and "distinct (a # es)" and "e \<notin> set (a # es)" and "h e = 0" and "e \<noteq> 0"
  shows "schain (h(last (a # es) := e)) a (es @ [e])"
  using assms
proof (induction es arbitrary: a)
  case (Cons x xs)
  then have "last (x # xs) \<noteq> a" by (metis distinct.simps(2) last_in_set list.distinct(1))
  with Cons show ?case by auto
qed simp

lemma push_back_chain:
  assumes "holds_list head h es" and "slist_to_entry offset item \<notin> set (head # es)"
    and "h (slist_to_entry offset item) = 0" and "slist_to_entry offset item \<noteq> 0"
  shows "\<exists>h'. slist_push_back offset head item h = Some (Inr h') \<and>
    holds_list head h' (es @ [slist_to_entry offset item]) \<and>
    (\<forall>a. a \<notin> set (head # es) \<longrightarrow> h' a = h a)"
proof -
  let ?e = "slist_to_entry offset item" and ?c = "last (head # es)"
  have "slist_push_back offset head item h = Some (Inr (h(?c := ?e)))"
    using last_link_schain [of h head es] assms(1,3)
    by (simp add: slist_push_back_def slist_in_list_def holds_list_def)
  moreover have "holds_list head (h(?c := ?e)) (es @ [?e])"
    using schain_append [of h head es ?e] assms by (auto simp: holds_list_def)
  moreover have "\<forall>a. a \<notin> set (head # es) \<longrightarrow> (h(?c := ?e)) a = h a"
    using last_in_set [of "head # es"] by auto
  ultimately show ?thesis by blast
qed

fun push_all :: "u64 \<Rightarrow> u64 \<Rightarrow> u64 list \<Rightarrow> links \<Rightarrow> links res option" where
  "push_all offset head [] h = Some (Inr h)"
| "push_all offset head (item # items) h =
     (case slist_push_back offset head item h of
        None \<Rightarrow> None
      | Some (Inl f) \<Rightarrow> Some (Inl f)
      | Some (Inr h) \<Rightarrow> push_all offset head items h)"

lemma push_all_chain:
  assumes "holds_list head h es" and "distinct (head # es @ map (slist_to_entry offset) items)"
    and "\<forall>item \<in> set items. h (slist_to_entry offset item) = 0 \<and> slist_to_entry offset item \<noteq> 0"
  shows "\<exists>h'. push_all offset head items h = Some (Inr h') \<and>
    holds_list head h' (es @ map (slist_to_entry offset) items)"
  using assms
proof (induction items arbitrary: h es)
  case (Cons item items)
  let ?e = "slist_to_entry offset item"
  obtain h' where h': "slist_push_back offset head item h = Some (Inr h')" "holds_list head h' (es @ [?e])"
    "\<forall>a. a \<notin> set (head # es) \<longrightarrow> h' a = h a"
    using push_back_chain [OF Cons.prems(1), of offset item] Cons.prems(2,3) by auto
  have "h' (slist_to_entry offset i) = 0 \<and> slist_to_entry offset i \<noteq> 0" if i: "i \<in> set items" for i
  proof -
    have "slist_to_entry offset i \<in> set (map (slist_to_entry offset) items)" using i by simp
    then have "slist_to_entry offset i \<notin> set (head # es)" using Cons.prems(2) by auto
    then show ?thesis using h'(3) Cons.prems(3) i by simp
  qed
  moreover have "distinct (head # (es @ [?e]) @ map (slist_to_entry offset) items)"
    using Cons.prems(2) by auto
  ultimately obtain h'' where "push_all offset head items h' = Some (Inr h'')"
      "holds_list head h'' ((es @ [?e]) @ map (slist_to_entry offset) items)"
    using Cons.IH [OF h'(2)] by blast
  then show ?case using h'(1) by simp
qed simp

text \<open>
  \<open>push_back\<close> appends: pushing items that are in no list, one after the other, onto a list
  terminates without an assertion and leaves the old entries followed by those of the items, in
  order; \<open>front\<close> is then the first item and \<open>empty\<close> says whether there is none.
\<close>

theorem slist_push_back_appends:
  assumes "holds_list head h es" and "distinct (head # es @ map (slist_to_entry offset) items)"
    and "\<forall>item \<in> set items. h (slist_to_entry offset item) = 0 \<and> slist_to_entry offset item \<noteq> 0"
  shows "\<exists>h'. push_all offset head items h = Some (Inr h') \<and>
    holds_list head h' (es @ map (slist_to_entry offset) items) \<and>
    slist_empty head h' = (es = [] \<and> items = []) \<and>
    slist_front offset head h' =
      (case map (slist_from_entry offset) es @ items of [] \<Rightarrow> 0 | item # _ \<Rightarrow> item)"
proof -
  obtain h' where h': "push_all offset head items h = Some (Inr h')"
    "holds_list head h' (es @ map (slist_to_entry offset) items)"
    using push_all_chain [OF assms] by blast
  have "schain h' head (es @ map (slist_to_entry offset) items)" using h'(2) by (simp add: holds_list_def)
  then have "slist_empty head h' = (es = [] \<and> items = []) \<and>
      slist_front offset head h' = (case map (slist_from_entry offset) es @ items of [] \<Rightarrow> 0 | item # _ \<Rightarrow> item)"
    by (cases es; cases items)
      (auto simp: slist_empty_def slist_in_list_def slist_front_def slist_from_entry_def slist_to_entry_def)
  with h' show ?thesis by blast
qed

lemma fresh_list: "holds_list 1000 (\<lambda>_. 0) []"
  by (simp add: holds_list_def)

lemma slist_push_back_appends_witness:
  "\<exists>h. push_all 8 1000 [2000, 3000] (\<lambda>_. 0) = Some (Inr h) \<and> slist_front 8 1000 h = 2000 \<and>
     holds_list 1000 h [2008, 3008]"
  using slist_push_back_appends [OF fresh_list, of 8 "[2000, 3000]"]
  by (auto simp: slist_to_entry_def simp del: push_all.simps)

text \<open>\<open>push_front\<close> and \<open>push_back\<close> in any order.\<close>

lemma push_front_chain:
  assumes "holds_list head h es" and "slist_to_entry offset item \<notin> set (head # es)"
    and "h (slist_to_entry offset item) = 0" and "slist_to_entry offset item \<noteq> 0"
  shows "\<exists>h'. slist_push_front offset head item h = Inr h' \<and>
    holds_list head h' (slist_to_entry offset item # es) \<and> (\<forall>a. a \<noteq> slist_to_entry offset item \<and> a \<noteq> head \<longrightarrow> h' a = h a)"
proof -
  let ?e = "slist_to_entry offset item"
  let ?h = "h(?e := h head, head := ?e)"
  have "schain ?h ?e es"
  proof (cases es)
    case Nil
    then show ?thesis using assms(1,2) by (simp add: holds_list_def)
  next
    case (Cons x xs)
    have "schain (h(?e := h head, head := ?e)) x xs = schain (h(?e := h head)) x xs"
      by (rule schain_update) (use assms(1) Cons in \<open>auto simp: holds_list_def dest: in_set_butlastD\<close>)
    also have "\<dots> = schain h x xs"
      by (rule schain_update) (use assms(2) Cons in \<open>auto dest: in_set_butlastD\<close>)
    finally show ?thesis using assms(1,2) Cons by (simp add: holds_list_def)
  qed
  then have "holds_list head ?h (?e # es)" using assms by (auto simp: holds_list_def)
  then show ?thesis using assms(3) by (simp add: slist_push_front_def slist_in_list_def Let_def)
qed

datatype slist_push = Push_Back u64 | Push_Front u64

fun push_sequence :: "u64 \<Rightarrow> u64 \<Rightarrow> slist_push list \<Rightarrow> links \<Rightarrow> links res option" where
  "push_sequence offset head [] h = Some (Inr h)"
| "push_sequence offset head (c # cs) h =
     (case (case c of Push_Back item \<Rightarrow> slist_push_back offset head item h
                    | Push_Front item \<Rightarrow> Some (slist_push_front offset head item h)) of
        None \<Rightarrow> None
      | Some (Inl f) \<Rightarrow> Some (Inl f)
      | Some (Inr h) \<Rightarrow> push_sequence offset head cs h)"

fun pushed_item :: "slist_push \<Rightarrow> u64" where
  "pushed_item (Push_Back item) = item"
| "pushed_item (Push_Front item) = item"

fun push_order :: "slist_push list \<Rightarrow> u64 list \<Rightarrow> u64 list" where
  "push_order [] items = items"
| "push_order (Push_Back item # cs) items = push_order cs (items @ [item])"
| "push_order (Push_Front item # cs) items = push_order cs (item # items)"

text \<open>
  Pushing items that are in no list, at either end and in any order, gives the list in the
  order of a double-ended sequence.
\<close>

theorem slist_pushes_in_order:
  assumes "holds_list head h (map (slist_to_entry offset) items)"
    and "distinct (head # map (slist_to_entry offset) (items @ map pushed_item cs))"
    and "\<forall>c \<in> set cs. h (slist_to_entry offset (pushed_item c)) = 0 \<and> slist_to_entry offset (pushed_item c) \<noteq> 0"
  shows "\<exists>h'. push_sequence offset head cs h = Some (Inr h') \<and>
    holds_list head h' (map (slist_to_entry offset) (push_order cs items))"
  using assms
proof (induction cs arbitrary: h items)
  case (Cons c cs)
  let ?e = "slist_to_entry offset (pushed_item c)"
  have fresh: "?e \<notin> set (head # map (slist_to_entry offset) items)" "h ?e = 0" "?e \<noteq> 0"
    using Cons.prems(2,3) by auto
  obtain h1 items1 where step: "(case c of Push_Back item \<Rightarrow> slist_push_back offset head item h
        | Push_Front item \<Rightarrow> Some (slist_push_front offset head item h)) = Some (Inr h1)"
      "holds_list head h1 (map (slist_to_entry offset) items1)"
      "push_order (c # cs) items = push_order cs items1" "set items1 = insert (pushed_item c) (set items)"
      "distinct (map (slist_to_entry offset) items1) = distinct (map (slist_to_entry offset) (items @ [pushed_item c]))"
      "\<forall>a. a \<notin> set (head # ?e # map (slist_to_entry offset) items) \<longrightarrow> h1 a = h a"
  proof (cases c)
    case (Push_Back item)
    then show ?thesis
      using that [of _ "items @ [item]"] push_back_chain [OF Cons.prems(1)] fresh by fastforce
  next
    case (Push_Front item)
    then show ?thesis
      using that [of _ "item # items"] push_front_chain [OF Cons.prems(1)] fresh by fastforce
  qed
  have "distinct (head # map (slist_to_entry offset) (items1 @ map pushed_item cs))"
    using Cons.prems(2) step(4,5) by auto
  moreover have "h1 (slist_to_entry offset (pushed_item d)) = h (slist_to_entry offset (pushed_item d))"
    if "d \<in> set cs" for d
  proof -
    have "slist_to_entry offset (pushed_item d) \<in> set (map (slist_to_entry offset) (map pushed_item cs))"
      using that by simp
    then have "slist_to_entry offset (pushed_item d) \<notin> set (head # ?e # map (slist_to_entry offset) items)"
      using Cons.prems(2) by auto
    then show ?thesis using step(6) by blast
  qed
  ultimately obtain h' where "push_sequence offset head cs h1 = Some (Inr h')"
      "holds_list head h' (map (slist_to_entry offset) (push_order cs items1))"
    using Cons.IH [OF step(2)] Cons.prems(3) by auto
  then show ?case using step(1,3) by (simp only: push_sequence.simps) auto
qed simp

lemma slist_pushes_in_order_witness:
  "\<exists>h. push_sequence 8 1000 [Push_Back 2000, Push_Front 3000, Push_Back 4000] (\<lambda>_. 0) = Some (Inr h) \<and>
     holds_list 1000 h [3008, 2008, 4008]"
  using slist_pushes_in_order [of 1000 "\<lambda>_. 0" 8 "[]" "[Push_Back 2000, Push_Front 3000, Push_Back 4000]"]
  by (auto simp: slist_to_entry_def fresh_list simp del: push_sequence.simps)

section \<open>What goes wrong\<close>

text \<open>\<open>back\<close> of a list with items never returns.\<close>

lemma slist_back_never_returns:
  assumes "h head \<noteq> 0"
  shows "slist_back offset head h = None"
proof -
  have loop: "cur \<noteq> 0 \<longrightarrow> h head \<noteq> 0 \<longrightarrow> False" if "back_entry head h prev cur = Some e" for head h prev cur e
    using that
  proof (rule back_entry.raw_induct [where P = "\<lambda>head h prev cur e. cur \<noteq> 0 \<longrightarrow> h head \<noteq> 0 \<longrightarrow> False", rotated])
    fix f :: "u64 \<Rightarrow> links \<Rightarrow> u64 \<Rightarrow> u64 \<Rightarrow> u64 option" and head h prev cur e
    assume IH: "\<And>head h prev cur e. f head h prev cur = Some e \<Longrightarrow> cur \<noteq> 0 \<longrightarrow> h head \<noteq> 0 \<longrightarrow> False"
      and "(if cur = 0 then Some prev else f head h cur (h head)) = Some e"
    then show "cur \<noteq> 0 \<longrightarrow> h head \<noteq> 0 \<longrightarrow> False" using IH [of head h cur "h head" e] by auto
  qed
  have "back_entry head h 0 (h head) = None"
    using assms loop [of head h 0 "h head"] by (cases "back_entry head h 0 (h head)") blast+
  then show ?thesis using assms by (simp add: slist_back_def slist_empty_def slist_in_list_def)
qed

text \<open>The search for the end cannot end in a cycle.\<close>

lemma last_link_ends:
  assumes "last_link h cur = Some c" and "cur \<in> S" and "h ` S \<subseteq> S"
  shows "h c = 0 \<and> c \<in> S"
proof -
  have "last_link h cur = Some c \<Longrightarrow> cur \<in> S \<longrightarrow> h ` S \<subseteq> S \<longrightarrow> h c = 0 \<and> c \<in> S"
  proof (rule last_link.raw_induct [where P = "\<lambda>h cur c. cur \<in> S \<longrightarrow> h ` S \<subseteq> S \<longrightarrow> h c = 0 \<and> c \<in> S"])
    fix f :: "links \<Rightarrow> u64 \<Rightarrow> u64 option" and h cur c
    assume IH: "\<And>h cur c. f h cur = Some c \<Longrightarrow> cur \<in> S \<longrightarrow> h ` S \<subseteq> S \<longrightarrow> h c = 0 \<and> c \<in> S"
      and "(if h cur = 0 then Some cur else f h (h cur)) = Some c"
    then show "cur \<in> S \<longrightarrow> h ` S \<subseteq> S \<longrightarrow> h c = 0 \<and> c \<in> S"
      using IH [of h "h cur" c] by (cases "h cur = 0") (auto simp: image_subset_iff)
  qed simp
  then show ?thesis using assms by blast
qed

lemma schain_enters: "schain h a es \<Longrightarrow> es \<noteq> [] \<Longrightarrow> last_link h' (last es) = None \<Longrightarrow>
   (\<forall>b \<in> set (butlast (a # es)). h' b = h b) \<Longrightarrow> last_link h' a = None"
proof (induction es arbitrary: a)
  case (Cons x xs)
  show ?case
  proof (cases "xs = []")
    case True
    then show ?thesis using Cons.prems by (subst last_link.simps) auto
  next
    case False
    then have "last_link h' x = None" using Cons.IH [of x] Cons.prems by auto
    then show ?thesis using Cons.prems False by (subst last_link.simps) auto
  qed
qed simp

text \<open>
  An entry knows that it is in a list only by its successor, so the last item can be pushed
  again: it is then its own successor, and the next \<open>push_back\<close> never returns. And the
  destructor of a list stops at an assertion unless the list has at most one item.
\<close>

theorem slist_defects:
  assumes "holds_list head h (es @ [e])" and "e = slist_to_entry offset item"
  shows "slist_push_back offset head item h = Some (Inr (h(e := e))) \<and>
    last_link (h(e := e)) head = None \<and>
    slist_destroy head h [] = Some (if es = [] then Inr [e] else Inl Assert_Failed)"
proof (intro conjI)
  have c: "schain h head (es @ [e])" "distinct (head # es @ [e])" using assms(1) by (simp_all add: holds_list_def)
  have last: "last (head # es @ [e]) = e" by simp
  have e0: "h e = 0" using schain_last [OF c(1)] last by simp
  have ne: "e \<noteq> 0" using c(1) by (induction es arbitrary: head) auto
  show "slist_push_back offset head item h = Some (Inr (h(e := e)))"
    using last_link_schain [OF c(1)] e0 assms(2) by (simp add: slist_push_back_def slist_in_list_def)
  have "last_link (h(e := e)) e = None"
  proof (cases "last_link (h(e := e)) e")
    case (Some d)
    from last_link_ends [OF this, of "{e}"] show ?thesis using ne by auto
  qed
  moreover have "\<forall>b \<in> set (butlast (head # es @ [e])). (h(e := e)) b = h b"
    using c(2) by (auto simp: butlast_append)
  ultimately show "last_link (h(e := e)) head = None" using schain_enters [OF c(1)] by simp
  show "slist_destroy head h [] = Some (if es = [] then Inr [e] else Inl Assert_Failed)"
  proof (cases es)
    case Nil
    then show ?thesis
      using c e0 by (subst slist_destroy.simps) (auto simp: Let_def slist_entry_destroy_def slist_destroy.simps)
  next
    case (Cons x xs)
    then have "x \<noteq> head" "h head = x" "x \<noteq> 0" "h x \<noteq> 0" using c by (auto, cases xs) auto
    then show ?thesis using Cons by (subst slist_destroy.simps) (auto simp: Let_def slist_entry_destroy_def)
  qed
qed

lemma slist_defects_witness:
  "slist_destroy 1000 ((\<lambda>_. 0)(1000 := 2008, 2008 := 3008)) [] = Some (Inl Assert_Failed)"
proof -
  have "holds_list 1000 ((\<lambda>_. 0)(1000 := 2008, 2008 := 3008)) ([2008] @ [3008])"
    by (simp add: holds_list_def)
  from slist_defects [OF this, of 8 3000] show ?thesis by (simp add: slist_to_entry_def)
qed

end
