(* ===== verification/Ring_Buffer.thy ===== *)
theory Ring_Buffer
  imports Ptl_Prelude
begin

text \<open>
  The bounded ring buffer of \<open>containers/bounded_ring_buffer.hpp\<close>: an array of \<open>N\<close> elements
  with two 64-bit indices that wrap at \<open>N - 1\<close>. The bodies that the members run under the lock
  are modelled by their effect on the buffer: \<open>synchronize\<close> drops what a body returns, and no
  member returns anything. The bodies of \<open>pop\<close> and \<open>exchange\<close> moreover return values of two
  types and do not compile when instantiated; their definitions below read the statements of
  these bodies, and no property rests on them. The lock makes every body one step.
  The abstraction is the list of the elements from \<open>head_\<close> to \<open>tail_\<close>; the locale \<open>bounded_fifo\<close>
  states what a client that looks at the contents relies on, and the buffer is shown to provide
  it for at most \<open>N - 2\<close> elements.
\<close>

section \<open>The buffer\<close>

record 'a ring =
  ring_head :: u64
  ring_tail :: u64
  ring_slots :: "'a list"

text \<open>The array is a parameter of the constructor: elements of scalar type are uninitialised.\<close>

definition ring_init :: "'a list \<Rightarrow> 'a ring" where
  "ring_init slots = \<lparr>ring_head = 0, ring_tail = 0, ring_slots = slots\<rparr>"

definition total_size :: "u64 \<Rightarrow> u64" where
  "total_size N = N - 1"

definition available :: "u64 \<Rightarrow> 'a ring \<Rightarrow> u64" where
  "available N r =
     (if ring_tail r < ring_head r then total_size N + ring_head r - ring_tail r
      else ring_tail r - ring_head r)"

definition free_slots :: "u64 \<Rightarrow> 'a ring \<Rightarrow> u64" where
  "free_slots N r = total_size N - available N r"

text \<open>An access to the array; beyond its end it is undefined behaviour.\<close>

definition slot_exchange :: "u64 \<Rightarrow> 'a \<Rightarrow> 'a ring \<Rightarrow> ('a \<times> 'a ring) res" where
  "slot_exchange i x r =
     (if unat i < length (ring_slots r)
      then Inr (ring_slots r ! unat i, r\<lparr>ring_slots := (ring_slots r)[unat i := x]\<rparr>)
      else Inl Undefined_Behaviour)"

definition wrap_head :: "u64 \<Rightarrow> 'a ring \<Rightarrow> 'a ring" where
  "wrap_head N r = (if ring_head r = total_size N then r\<lparr>ring_head := 0\<rparr> else r)"

definition wrap_tail :: "u64 \<Rightarrow> 'a ring \<Rightarrow> 'a ring" where
  "wrap_tail N r = (if ring_tail r = total_size N then r\<lparr>ring_tail := 0\<rparr> else r)"

text \<open>\<open>std::exchange(buffer_[tail_++], item)\<close> and \<open>std::exchange(buffer_[head_++], {})\<close>.\<close>

definition put_tail :: "'a \<Rightarrow> 'a ring \<Rightarrow> 'a ring res" where
  "put_tail x r =
     res_bind (slot_exchange (ring_tail r) x r)
       (\<lambda>(old, r'). Inr (r'\<lparr>ring_tail := ring_tail r' + 1\<rparr>))"

definition take_head :: "'a \<Rightarrow> 'a ring \<Rightarrow> ('a \<times> 'a ring) res" where
  "take_head d r =
     res_bind (slot_exchange (ring_head r) d r)
       (\<lambda>(old, r'). Inr (old, r'\<lparr>ring_head := ring_head r' + 1\<rparr>))"

definition ring_push :: "u64 \<Rightarrow> 'a \<Rightarrow> 'a ring \<Rightarrow> 'a ring res" where
  "ring_push N x r =
     (if free_slots N r > 0 then res_bind (put_tail x r) (\<lambda>r'. Inr (wrap_tail N r'))
      else Inl Assert_Failed)"

text \<open>
  The statements of the other bodies; the value at the head goes nowhere. The branch of \<open>exchange\<close>
  that would hand the argument back leaves the buffer as it is. \<open>count\<close> discards the number and
  flows off the end of a function that returns a value.
\<close>

definition ring_pop :: "u64 \<Rightarrow> 'a \<Rightarrow> 'a ring \<Rightarrow> 'a ring res" where
  "ring_pop N d r =
     (if available N r > 0
      then res_bind (take_head d r) (\<lambda>(x, r'). Inr (wrap_head N r'))
      else Inr r)"

definition ring_exchange :: "u64 \<Rightarrow> 'a \<Rightarrow> 'a \<Rightarrow> 'a ring \<Rightarrow> 'a ring res" where
  "ring_exchange N d y r =
     (if available N r > 0
      then if ring_head r = ring_tail r then Inr r
           else res_bind (put_tail y r) (\<lambda>r1. res_bind (take_head d r1)
                  (\<lambda>(x, r2). Inr (wrap_tail N (wrap_head N r2))))
      else res_bind (put_tail y r) (\<lambda>r'. Inr (wrap_tail N r')))"

definition ring_count :: "u64 \<Rightarrow> 'a ring \<Rightarrow> u64 res" where
  "ring_count N r = (let number = available N r in Inl Undefined_Behaviour)"

section \<open>What a client relies on\<close>

datatype 'a queue_op = Push 'a | Pop | Exchange 'a

text \<open>The specification: a first-in first-out queue, as a list.\<close>

fun fifo_step :: "'a queue_op \<Rightarrow> 'a list \<Rightarrow> 'a list" where
  "fifo_step (Push x) q = q @ [x]"
| "fifo_step Pop q = tl q"
| "fifo_step (Exchange y) q = tl q @ [y]"

fun fifo_run :: "'a queue_op list \<Rightarrow> 'a list \<Rightarrow> 'a list" where
  "fifo_run [] q = q"
| "fifo_run (c # cs) q = fifo_run cs (fifo_step c q)"

text \<open>The queue never holds more than \<open>cap\<close> elements.\<close>

fun fifo_fits :: "nat \<Rightarrow> 'a queue_op list \<Rightarrow> 'a list \<Rightarrow> bool" where
  "fifo_fits cap [] q = True"
| "fifo_fits cap (c # cs) q = (length (fifo_step c q) \<le> cap \<and> fifo_fits cap cs (fifo_step c q))"

fun queue_run :: "('a queue_op \<Rightarrow> 's \<Rightarrow> 's res) \<Rightarrow> 'a queue_op list \<Rightarrow> 's \<Rightarrow> 's res" where
  "queue_run f [] s = Inr s"
| "queue_run f (c # cs) s = res_bind (f c s) (queue_run f cs)"

locale bounded_fifo =
  fixes inv :: "'s \<Rightarrow> bool"
    and contents :: "'s \<Rightarrow> 'a list"
    and cap :: nat
    and f :: "'a queue_op \<Rightarrow> 's \<Rightarrow> 's res"
  assumes step_refines:
    "inv s \<Longrightarrow> length (fifo_step c (contents s)) \<le> cap \<Longrightarrow>
     \<exists>s'. f c s = Inr s' \<and> inv s' \<and> contents s' = fifo_step c (contents s)"
begin

lemma run_refines:
  "inv s \<Longrightarrow> fifo_fits cap cs (contents s) \<Longrightarrow>
   \<exists>s'. queue_run f cs s = Inr s' \<and> inv s' \<and> contents s' = fifo_run cs (contents s)"
proof (induction cs arbitrary: s)
  case (Cons c cs)
  then obtain s1 where s1: "f c s = Inr s1" "inv s1" "contents s1 = fifo_step c (contents s)"
    using step_refines [of s c] by auto
  with Cons.prems Cons.IH [of s1] show ?case by auto
qed simp

end

section \<open>Indices on a circle\<close>

text \<open>The elements of an array \<open>b\<close> from index \<open>h\<close>, \<open>k\<close> of them, the indices taken modulo \<open>m\<close>.\<close>

definition arc :: "'a list \<Rightarrow> nat \<Rightarrow> nat \<Rightarrow> nat \<Rightarrow> 'a list" where
  "arc b m h k = map (\<lambda>i. b ! ((h + i) mod m)) [0..<k]"

definition arc_length :: "nat \<Rightarrow> nat \<Rightarrow> nat \<Rightarrow> nat" where
  "arc_length m h t = (if h \<le> t then t - h else m + t - h)"

lemma arc_simps [simp]: "length (arc b m h k) = k" "arc b m h 0 = []"
  by (simp_all add: arc_def)

lemma circle_mod: "h < m \<Longrightarrow> i \<le> m \<Longrightarrow> (h + i) mod m = (if h + i < m then h + i else h + i - m)"
  for m :: nat
  by (auto simp: le_mod_geq)

lemma circle_inject:
  "h < m \<Longrightarrow> i < m \<Longrightarrow> j < m \<Longrightarrow> (h + i) mod m = (h + j) mod m \<longleftrightarrow> i = j"
  for m :: nat
  by (auto simp: circle_mod split: if_splits)

lemma circle_Suc: "h < m \<Longrightarrow> (Suc h mod m + i) mod m = (h + Suc i) mod m"
  by (simp add: mod_add_left_eq)

lemma arc_length_less: "h < m \<Longrightarrow> t < m \<Longrightarrow> arc_length m h t < m"
  by (auto simp: arc_length_def)

lemma arc_end: "h < m \<Longrightarrow> t < m \<Longrightarrow> (h + arc_length m h t) mod m = t"
  by (simp add: arc_length_def)

lemma arc_length_end:
  "h < m \<Longrightarrow> k < m \<Longrightarrow> arc_length m h ((h + k) mod m) = k"
  by (auto simp: circle_mod arc_length_def)

lemma arc_length_next:
  assumes "h < m" "k < m"
  shows "arc_length m h ((h + Suc k) mod m) = (if Suc k < m then Suc k else 0)"
proof (cases "Suc k < m")
  case False
  with assms have "Suc k = m" by simp
  then have "(h + Suc k) mod m = h" using assms by (simp del: add_Suc_right)
  then show ?thesis using False by (simp add: arc_length_def)
qed (use assms arc_length_end [of h m "Suc k"] in simp)

text \<open>Writing behind the last element appends it; a full circle looks empty.\<close>

lemma arc_put:
  assumes "h < m" "t < m" "m < length b"
  shows "arc (b[t := x]) m h (arc_length m h (Suc t mod m)) =
    (if Suc (arc_length m h t) < m then arc b m h (arc_length m h t) @ [x] else [])"
proof -
  let ?k = "arc_length m h t"
  have k: "?k < m" and t: "t = (h + ?k) mod m"
    using assms by (simp_all add: arc_length_less arc_end)
  have "Suc t mod m = (h + Suc ?k) mod m"
    by (metis t add_Suc_right mod_Suc_eq)
  moreover have "arc_length m h ((h + Suc ?k) mod m) = (if Suc ?k < m then Suc ?k else 0)"
    using assms(1) k by (rule arc_length_next)
  moreover have "i < ?k \<Longrightarrow> b[t := x] ! ((h + i) mod m) = b ! ((h + i) mod m)" for i
    using k assms(1) circle_inject [of h m i ?k] t by (metis less_trans nat_neq_iff nth_list_update_neq)
  ultimately show ?thesis
    using assms t by (auto simp: arc_def)
qed

text \<open>Taking the first element off leaves the rest.\<close>

lemma arc_take:
  assumes "h < m" "k < m" "m < length b"
  shows "arc b m h (Suc k) = b ! h # arc (b[h := d]) m (Suc h mod m) k"
proof -
  have "b[h := d] ! ((h + Suc i) mod m) = b ! ((h + Suc i) mod m)" if "i < k" for i
    using that assms circle_inject [of h m "Suc i" 0] by simp
  then show ?thesis
    using assms(1) by (simp add: arc_def circle_Suc upt_conv_Cons map_Suc_upt [symmetric] del: upt_Suc)
qed

lemma arc_length_take:
  "h < m \<Longrightarrow> t < m \<Longrightarrow> h \<noteq> t \<Longrightarrow> Suc (arc_length m (Suc h mod m) t) = arc_length m h t"
  by (cases "Suc h = m") (auto simp: arc_length_def)

section \<open>The buffer on its circle\<close>

definition ring_limit :: "u64 \<Rightarrow> nat" where
  "ring_limit N = unat (total_size N)"

definition ring_ok :: "u64 \<Rightarrow> 'a ring \<Rightarrow> bool" where
  "ring_ok N r \<longleftrightarrow>
     ring_limit N < length (ring_slots r) \<and> ring_limit N < 2 ^ 63 \<and>
     unat (ring_head r) < ring_limit N \<and> unat (ring_tail r) < ring_limit N"

definition ring_contents :: "u64 \<Rightarrow> 'a ring \<Rightarrow> 'a list" where
  "ring_contents N r =
     arc (ring_slots r) (ring_limit N) (unat (ring_head r))
       (arc_length (ring_limit N) (unat (ring_head r)) (unat (ring_tail r)))"

lemma ring_init_ok:
  assumes "1 < N" "unat N \<le> 2 ^ 63" "length slots = unat N"
  shows "ring_ok N (ring_init slots)" and "ring_contents N (ring_init slots) = []"
proof -
  have N: "1 < unat N" using assms(1) by (simp add: word_less_nat_alt)
  then have "unat (N - 1) = unat N - 1"
    by (intro unat_minus_one) auto
  with assms(2,3) N show "ring_ok N (ring_init slots)"
    by (simp add: ring_ok_def ring_init_def ring_limit_def total_size_def)
qed (simp add: ring_contents_def ring_init_def arc_length_def)

lemma unat_next:
  fixes w t :: u64
  assumes "unat w < unat t"
  shows "unat (if w + 1 = t then 0 else w + 1) = Suc (unat w) mod unat t"
proof -
  have "unat t < 2 ^ 64" using unsigned_less [of t, where 'a = nat] by simp
  with assms have s: "unat (w + 1) = Suc (unat w)"
    by (subst unat_add_lem [THEN iffD1]) auto
  then have "w + 1 = t \<longleftrightarrow> Suc (unat w) = unat t" by (metis unsigned_word_eqI)
  with s assms show ?thesis by (auto simp: mod_Suc)
qed

lemma ring_contents_empty_iff: 
  "ring_ok N r \<Longrightarrow> ring_contents N r = [] \<longleftrightarrow> ring_head r = ring_tail r"
  by (auto simp: ring_contents_def ring_ok_def arc_def arc_length_def intro: unsigned_word_eqI [where 'a = nat])

text \<open>The element count is compared with zero only, and that comparison is right.\<close>

lemma available_positive:
  assumes "ring_ok N r"
  shows "available N r > 0 \<longleftrightarrow> ring_contents N r \<noteq> []"
proof -
  let ?T = "total_size N" and ?h = "ring_head r" and ?t = "ring_tail r"
  have "?T + ?h - ?t \<noteq> 0" if "?t < ?h"
  proof -
    have "unat (?T + ?h) = unat ?T + unat ?h"
      using assms by (intro unat_add_lem [THEN iffD1]) (simp add: ring_ok_def ring_limit_def)
    with that show ?thesis by (auto simp: word_less_nat_alt)
  qed
  with assms show ?thesis
    by (auto simp: available_def ring_contents_empty_iff word_gt_0)
qed

text \<open>The assertion of \<open>push\<close> cannot fail, whether the buffer has room or not.\<close>

lemma free_always_positive:
  assumes "ring_ok N r"
  shows "free_slots N r > 0"
proof -
  have "ring_tail r \<noteq> total_size N + ring_head r"
    if "\<not> ring_tail r < ring_head r"
  proof
    assume "ring_tail r = total_size N + ring_head r"
    moreover have "unat (total_size N + ring_head r) = unat (total_size N) + unat (ring_head r)"
      using assms by (intro unat_add_lem [THEN iffD1]) (simp add: ring_ok_def ring_limit_def)
    ultimately show False using assms by (simp add: ring_ok_def ring_limit_def)
  qed
  then show ?thesis
    using assms by (auto simp: free_slots_def available_def word_gt_0 algebra_simps)
qed

section \<open>The operations on the contents\<close>

lemma wrap_next:
  "unat i < ring_limit N \<Longrightarrow>
   unat (if i + 1 = total_size N then 0 else i + 1) = Suc (unat i) mod ring_limit N"
  unfolding ring_limit_def by (rule unat_next)

text \<open>Writing at the tail: it appends, but the element that would fill the circle empties it.\<close>

lemma put_tail_appends:
  assumes "ring_ok N r"
  shows "\<exists>r'. put_tail x r = Inr r' \<and> ring_ok N (wrap_tail N r') \<and>
    ring_contents N (wrap_tail N r') =
      (if Suc (length (ring_contents N r)) < ring_limit N then ring_contents N r @ [x] else [])"
proof -
  define r' where "r' = r\<lparr>ring_slots := (ring_slots r)[unat (ring_tail r) := x],
    ring_tail := ring_tail r + 1\<rparr>"
  have bounds: "unat (ring_head r) < ring_limit N" "unat (ring_tail r) < ring_limit N"
      "ring_limit N < length (ring_slots r)"
    using assms by (simp_all add: ring_ok_def)
  have put: "put_tail x r = Inr r'"
    using bounds by (simp add: put_tail_def slot_exchange_def r'_def)
  have fields: "ring_head (wrap_tail N r') = ring_head r"
      "unat (ring_tail (wrap_tail N r')) = Suc (unat (ring_tail r)) mod ring_limit N"
      "ring_slots (wrap_tail N r') = (ring_slots r)[unat (ring_tail r) := x]"
    using wrap_next [OF bounds(2)] by (auto simp: wrap_tail_def r'_def)
  have "ring_ok N (wrap_tail N r')"
    using assms by (auto simp: ring_ok_def fields)
  moreover have "ring_contents N (wrap_tail N r') =
      (if Suc (length (ring_contents N r)) < ring_limit N then ring_contents N r @ [x] else [])"
    using arc_put [OF bounds] by (simp add: ring_contents_def fields)
  ultimately show ?thesis using put by blast
qed

lemma take_head_takes:
  assumes "ring_ok N r" "ring_contents N r = x # xs"
  shows "\<exists>r'. take_head d r = Inr (x, r') \<and> ring_ok N (wrap_head N r') \<and>
    ring_contents N (wrap_head N r') = xs"
proof -
  define r' where "r' = r\<lparr>ring_slots := (ring_slots r)[unat (ring_head r) := d],
    ring_head := ring_head r + 1\<rparr>"
  let ?m = "ring_limit N" and ?h = "unat (ring_head r)" and ?t = "unat (ring_tail r)"
  have bounds: "?h < ?m" "?t < ?m" "?m < length (ring_slots r)"
    using assms by (simp_all add: ring_ok_def)
  have fields: "unat (ring_head (wrap_head N r')) = Suc ?h mod ?m"
      "ring_tail (wrap_head N r') = ring_tail r"
      "ring_slots (wrap_head N r') = (ring_slots r)[?h := d]"
    using wrap_next [OF bounds(1)] by (auto simp: wrap_head_def r'_def)
  have "?h \<noteq> ?t"
    using assms ring_contents_empty_iff [of N r] by (auto dest: unsigned_word_eqI)
  with bounds have len: "Suc (arc_length ?m (Suc ?h mod ?m) ?t) = arc_length ?m ?h ?t"
    by (intro arc_length_take)
  have "x # xs = ring_slots r ! ?h # arc ((ring_slots r)[?h := d]) ?m (Suc ?h mod ?m)
      (arc_length ?m (Suc ?h mod ?m) ?t)"
    using assms(2) arc_take [of ?h ?m "arc_length ?m (Suc ?h mod ?m) ?t" "ring_slots r" d]
      bounds arc_length_less [of ?h ?m ?t] by (simp add: ring_contents_def len [symmetric])
  moreover have "take_head d r = Inr (ring_slots r ! ?h, r')"
    using bounds by (simp add: take_head_def slot_exchange_def r'_def)
  moreover have "ring_ok N (wrap_head N r')"
    using assms by (auto simp: ring_ok_def fields)
  ultimately show ?thesis
    by (auto simp: ring_contents_def fields)
qed

lemma ring_push_step:
  assumes "ring_ok N r"
  shows "\<exists>r'. ring_push N x r = Inr r' \<and> ring_ok N r' \<and> ring_contents N r' =
      (if Suc (length (ring_contents N r)) < ring_limit N then ring_contents N r @ [x] else [])"
  using put_tail_appends [OF assms, of x] free_always_positive [OF assms]
  by (auto simp: ring_push_def)

lemma ring_pop_step:
  assumes "ring_ok N r"
  shows "\<exists>r'. ring_pop N d r = Inr r' \<and> ring_ok N r' \<and>
    ring_contents N r' = fifo_step Pop (ring_contents N r)"
proof (cases "ring_contents N r")
  case (Cons x xs)
  then show ?thesis
    using take_head_takes [OF assms Cons, of d] available_positive [OF assms]
    by (auto simp: ring_pop_def)
qed (use assms available_positive [OF assms] in \<open>auto simp: ring_pop_def\<close>)

text \<open>Exchanging puts before it takes; on different slots the order does not matter.\<close>

lemma put_take_commute:
  assumes "ring_ok N r" "ring_head r \<noteq> ring_tail r"
  shows "res_bind (put_tail y r) (\<lambda>r1. res_bind (take_head d r1)
      (\<lambda>(x, r2). Inr (wrap_tail N (wrap_head N r2)))) =
    res_bind (take_head d r) (\<lambda>(x, r1). res_bind (put_tail y (wrap_head N r1))
      (\<lambda>r2. Inr (wrap_tail N r2)))"
proof -
  have "unat (ring_head r) \<noteq> unat (ring_tail r)"
    using assms(2) by (auto dest: unsigned_word_eqI)
  moreover have "unat (ring_head r) < length (ring_slots r)" "unat (ring_tail r) < length (ring_slots r)"
    using assms(1) by (simp_all add: ring_ok_def)
  ultimately show ?thesis
    by (simp add: put_tail_def take_head_def slot_exchange_def wrap_head_def wrap_tail_def
        list_update_swap)
qed

lemma ring_exchange_step:
  assumes "ring_ok N r" "length (fifo_step (Exchange y) (ring_contents N r)) < ring_limit N"
  shows "\<exists>r'. ring_exchange N d y r = Inr r' \<and> ring_ok N r' \<and>
    ring_contents N r' = fifo_step (Exchange y) (ring_contents N r)"
proof (cases "ring_contents N r")
  case Nil
  then show ?thesis
    using put_tail_appends [OF assms(1), of y] available_positive [OF assms(1)] assms(2)
    by (auto simp: ring_exchange_def)
next
  case (Cons x xs)
  obtain r1 where r1: "take_head d r = Inr (x, r1)" "ring_ok N (wrap_head N r1)"
      "ring_contents N (wrap_head N r1) = xs"
    using take_head_takes [OF assms(1) Cons] by blast
  have "ring_head r \<noteq> ring_tail r" "available N r > 0"
    using Cons ring_contents_empty_iff [OF assms(1)] available_positive [OF assms(1)] by auto
  then have "ring_exchange N d y r =
      res_bind (put_tail y (wrap_head N r1)) (\<lambda>r2. Inr (wrap_tail N r2))"
    using put_take_commute [OF assms(1)] r1(1) by (simp add: ring_exchange_def)
  then show ?thesis
    using put_tail_appends [OF r1(2), of y] assms(2) Cons r1(3) by auto
qed

text \<open>The three members as one operation, and the buffer as a queue of bounded size.\<close>

fun ring_op :: "u64 \<Rightarrow> 'a \<Rightarrow> 'a queue_op \<Rightarrow> 'a ring \<Rightarrow> 'a ring res" where
  "ring_op N d (Push x) r = ring_push N x r"
| "ring_op N d Pop r = ring_pop N d r"
| "ring_op N d (Exchange y) r = ring_exchange N d y r"

interpretation ring_fifo: bounded_fifo "ring_ok N" "ring_contents N" "ring_limit N - 1" "ring_op N d"
  for N and d :: 'a
proof unfold_locales
  fix r :: "'a ring" and c
  assume r: "ring_ok N r"
    and fits: "length (fifo_step c (ring_contents N r)) \<le> ring_limit N - 1"
  have "ring_limit N > 0" using r by (auto simp: ring_ok_def)
  with fits have "length (fifo_step c (ring_contents N r)) < ring_limit N" by simp
  then show "\<exists>r'. ring_op N d c r = Inr r' \<and> ring_ok N r' \<and>
      ring_contents N r' = fifo_step c (ring_contents N r)"
  proof (cases c)
    case (Push x)
    with \<open>length _ < _\<close> show ?thesis using ring_push_step [OF r, of x] by auto
  next
    case Pop
    then show ?thesis using ring_pop_step [OF r, of d] by simp
  next
    case (Exchange y)
    with \<open>length _ < _\<close> show ?thesis using ring_exchange_step [OF r, of y d] by simp
  qed
qed

lemma queue_while_it_fits:
  assumes "1 < N" "unat N \<le> 2 ^ 63" "length slots = unat N"
    and "fifo_fits (unat (total_size N) - 1) cs []"
  shows "\<exists>r. queue_run (ring_op N d) cs (ring_init slots) = Inr r \<and> ring_contents N r = fifo_run cs []"
  using ring_fifo.run_refines [OF ring_init_ok(1) [OF assms(1-3)]] assms(4)
  by (auto simp: ring_init_ok(2) [OF assms(1-3)] ring_limit_def)

section \<open>Any number of pushes\<close>

primrec push_all :: "u64 \<Rightarrow> 'a list \<Rightarrow> 'a ring \<Rightarrow> 'a ring res" where
  "push_all N [] r = Inr r"
| "push_all N (x # xs) r = res_bind (ring_push N x r) (push_all N xs)"

text \<open>A lap ends when the tail meets the head: the items of the lap are no longer in the buffer.\<close>

definition last_lap :: "nat \<Rightarrow> 'a list \<Rightarrow> 'a list" where
  "last_lap m xs = drop (length xs - length xs mod m) xs"

lemma last_lap_snoc:
  assumes "0 < m"
  shows "last_lap m (xs @ [x]) =
    (if Suc (length (last_lap m xs)) < m then last_lap m xs @ [x] else [])"
proof (cases "Suc (length xs mod m) = m")
  case True
  then show ?thesis by (simp add: last_lap_def mod_Suc)
next
  case False
  then have "Suc (length xs mod m) < m" using assms mod_less_divisor [of m "length xs"] by linarith
  then show ?thesis using False by (simp add: last_lap_def mod_Suc)
qed

lemma push_all_snoc: "push_all N (xs @ [x]) r = res_bind (push_all N xs r) (ring_push N x)"
proof (induction xs arbitrary: r)
  case Nil
  show ?case by (cases "ring_push N x r") simp_all
next
  case (Cons y ys)
  then show ?case by (cases "ring_push N y r") simp_all
qed

lemma pushes_from_empty:
  assumes "ring_ok N r" "ring_contents N r = []"
  shows "\<exists>r'. push_all N xs r = Inr r' \<and> ring_ok N r' \<and> ring_contents N r' = last_lap (ring_limit N) xs"
proof (induction xs rule: rev_induct)
  case (snoc x xs)
  then obtain r' where r': "push_all N xs r = Inr r'" "ring_ok N r'"
    "ring_contents N r' = last_lap (ring_limit N) xs" by blast
  have "0 < ring_limit N" using assms(1) by (auto simp: ring_ok_def)
  then show ?case
    using ring_push_step [OF r'(2), of x] r' by (auto simp: push_all_snoc last_lap_snoc)
qed (use assms in \<open>simp add: last_lap_def\<close>)

section \<open>Properties\<close>

text \<open>
  C16: any number of \<open>push\<close> calls on a fresh buffer of \<open>N\<close> elements. None of them fails its
  assertion and none writes outside the array, though nothing is ever taken out. From \<open>head_\<close> to
  \<open>tail_\<close> the buffer then holds, oldest first, exactly the items pushed since \<open>tail_\<close> last met
  \<open>head_\<close>, which happens at every \<open>N - 1\<close>st push and loses all elements: of \<open>k\<close> items the last
  \<open>k mod (N - 1)\<close> are there. In particular up to \<open>N - 2\<close> items are kept in their order.
\<close>

theorem pushes_keep_last_lap:
  assumes "1 < N" "unat N \<le> 2 ^ 63" "length slots = unat N"
  shows "\<exists>r. push_all N xs (ring_init slots) = Inr r \<and> length (ring_slots r) = length slots \<and>
    ring_contents N r = drop (length xs - length xs mod (unat N - 1)) xs"
proof -
  have "unat N \<noteq> 0" using assms(1) by (auto simp: word_less_nat_alt)
  then have "ring_limit N = unat N - 1"
    by (simp add: ring_limit_def total_size_def unat_minus_one unat_eq_zero)
  moreover have "length (ring_slots r') = length (ring_slots r)" if "push_all N xs r = Inr r'" for r r'
    using that
  proof (induction xs arbitrary: r)
    case (Cons x xs)
    then obtain r1 where "ring_push N x r = Inr r1" "push_all N xs r1 = Inr r'"
      by (auto simp: res_bind_Inr_iff)
    moreover from this(1) have "length (ring_slots r1) = length (ring_slots r)"
      by (auto simp: ring_push_def put_tail_def slot_exchange_def wrap_tail_def res_bind_Inr_iff
          split: if_splits)
    ultimately show ?case using Cons.IH by simp
  qed simp
  ultimately show ?thesis
    using pushes_from_empty [OF ring_init_ok(1) [OF assms], of xs] ring_init_ok(2) [OF assms]
    by (fastforce simp: last_lap_def ring_init_def)
qed

theorem pushes_keep_last_lap_witness:
  "\<exists>r. push_all 4 [1, 2, 3, 4, 5 :: nat] (ring_init [0, 0, 0, 0]) = Inr r \<and> ring_contents 4 r = [4, 5]"
  using pushes_keep_last_lap [of 4 "[0, 0, 0, 0]" "[1, 2, 3, 4, 5 :: nat]"]
  by (auto simp del: push_all.simps)

text \<open>
  The buffer has no guard against its capacity: the assertion of \<open>push\<close> holds in every state,
  and the push that fills the last usable slot loses all elements.
\<close>

lemma full_push_loses_everything:
  assumes "ring_ok N r" "Suc (length (ring_contents N r)) = ring_limit N"
  shows "\<exists>r'. ring_push N x r = Inr r' \<and> ring_contents N r' = []"
  using ring_push_step [OF assms(1), of x] assms(2) by auto

text \<open>
  The number that the guards and \<open>count\<close> compute is not the number of elements of a wrapped
  buffer: the two indices are subtracted the wrong way round.
\<close>

lemma count_wrong_when_wrapped:
  fixes r :: "nat ring"
  defines "r \<equiv> \<lparr>ring_head = 2, ring_tail = 0, ring_slots = [0, 0, 7, 0]\<rparr>"
  shows "ring_ok 4 r" and "ring_contents 4 r = [7]" and "available 4 r = 5"
  by (simp_all add: r_def ring_ok_def ring_limit_def total_size_def ring_contents_def
      available_def arc_length_def arc_def)

text \<open>
  The branch of \<open>exchange\<close> that would hand its argument back asks for an empty buffer where it is
  known not to be empty.
\<close>

lemma exchange_never_returns_its_argument:
  assumes "ring_ok N r" "available N r > 0"
  shows "ring_head r \<noteq> ring_tail r"
  using assms available_positive [OF assms(1)] ring_contents_empty_iff [OF assms(1)] by auto

section \<open>The ordered scheduler\<close>

text \<open>
  \<open>OrderedScheduler\<close> (\<open>scheduling/ordered_scheduler.hpp\<close>) puts a coroutine that awaits it into
  the buffer and resumes the one that \<open>exchange\<close> returns. \<open>exchange\<close> does not return one, so what
  the scheduler receives from the call is a parameter, \<open>returned\<close>. \<open>null\<close> is the empty handle left
  in the slot, \<open>noop\<close> the handle that does nothing.
\<close>

definition schedule_ready :: bool where
  "schedule_ready = False"

definition exchange_next ::
  "u64 \<Rightarrow> 'h \<Rightarrow> 'h \<Rightarrow> 'h option \<Rightarrow> 'h \<Rightarrow> 'h ring \<Rightarrow> ('h \<times> 'h ring) res" where
  "exchange_next N null noop returned handle r =
     res_bind (ring_exchange N null handle r)
       (\<lambda>r'. case returned of Some next \<Rightarrow> Inr (next, r') | None \<Rightarrow> Inr (noop, r'))"

definition schedule_suspend ::
  "u64 \<Rightarrow> 'h \<Rightarrow> 'h \<Rightarrow> 'h option \<Rightarrow> 'h \<Rightarrow> 'h ring \<Rightarrow> ('h \<times> 'h ring) res" where
  "schedule_suspend N null noop returned awaiting r = exchange_next N null noop returned awaiting r"

text \<open>
  The buffer rotates: the coroutine goes to the end and the first one leaves. With nobody waiting it
  stays in the buffer, and an \<open>exchange\<close> that returns nothing gives the thread the idle handle.
\<close>

lemma schedule_rotates:
  assumes "ring_ok N r" "1 < ring_limit N"
  shows "\<exists>r'. schedule_suspend N null noop returned h r =
      Inr (case returned of Some next \<Rightarrow> next | None \<Rightarrow> noop, r') \<and> ring_ok N r' \<and>
    ring_contents N r' = tl (ring_contents N r) @ [h]"
proof -
  have "length (ring_contents N r) < ring_limit N"
    using assms(1) by (auto simp: ring_ok_def ring_contents_def intro: arc_length_less)
  then have "length (fifo_step (Exchange h) (ring_contents N r)) < ring_limit N" using assms(2) by auto
  then show ?thesis
    using ring_exchange_step [OF assms(1), of h null]
    by (auto simp: schedule_suspend_def exchange_next_def split: option.split)
qed

end
