(* ===== verification/Error_Code.thy ===== *)
theory Error_Code
  imports Ptl_Prelude
begin

text \<open>
  \<open>error.hpp\<close>, \<open>source_location.hpp\<close> and the \<open>void\<close> specialisation of \<open>exceptable.hpp\<close>.
  An \<open>error_code\<close> is a 32-bit number. Where it was made is kept beside it, in one record per
  thread, so the model threads the records of all threads through the constructors. The
  constructors with a reason have a parameter \<open>std::enable_if_t<..., void> = 0\<close>, so that they are
  never candidates of overload resolution; the model reads it as an \<open>int\<close>.
\<close>

section \<open>Source locations\<close>

record source_location =
  file_name :: string
  function_name :: string
  loc_line :: u32
  loc_column :: u32

definition location_default :: source_location where
  "location_default =
     \<lparr>file_name = ''unknown'', function_name = ''unknown'', loc_line = 0, loc_column = 0\<rparr>"

text \<open>The arguments are the compiler's builtins at the call.\<close>

definition location_current :: "string \<Rightarrow> string \<Rightarrow> 32 word \<Rightarrow> 32 word \<Rightarrow> source_location" where
  "location_current file func line col =
     location_default\<lparr>file_name := file, function_name := func, loc_line := line, loc_column := col\<rparr>"

section \<open>Error codes\<close>

datatype error_code = Error_Code (error_value: "32 word")

record error_code_ext =
  ext_location :: source_location
  ext_reason :: string

definition ext_default :: error_code_ext where
  "ext_default = \<lparr>ext_location = location_default, ext_reason = []\<rparr>"

definition ext_of_location :: "source_location \<Rightarrow> error_code_ext" where
  "ext_of_location loc = \<lparr>ext_location = loc, ext_reason = []\<rparr>"

definition ext_of_reason :: "source_location \<Rightarrow> string \<Rightarrow> error_code_ext" where
  "ext_of_reason loc reason = \<lparr>ext_location = loc, ext_reason = reason\<rparr>"

type_synonym thread = nat
type_synonym exts = "thread \<Rightarrow> error_code_ext"

definition error_default :: error_code where
  "error_default = Error_Code 0"

definition error_of :: "32 word \<Rightarrow> error_code" where
  "error_of v = Error_Code v"

definition error_at :: "thread \<Rightarrow> 32 word \<Rightarrow> source_location \<Rightarrow> exts \<Rightarrow> error_code \<times> exts" where
  "error_at t v loc exts = (Error_Code v, exts(t := ext_of_location loc))"

definition error_because :: "thread \<Rightarrow> 32 word \<Rightarrow> string \<Rightarrow> exts \<Rightarrow> error_code \<times> exts" where
  "error_because t v reason exts = (Error_Code v, exts(t := ext_of_reason location_default reason))"

definition error_at_because ::
  "thread \<Rightarrow> 32 word \<Rightarrow> string \<Rightarrow> source_location \<Rightarrow> exts \<Rightarrow> error_code \<times> exts" where
  "error_at_because t v reason loc exts = (Error_Code v, exts(t := ext_of_reason loc reason))"

definition error_to_type :: "error_code \<Rightarrow> 32 word" where
  "error_to_type e = error_value e"

definition error_equal :: "error_code \<Rightarrow> error_code \<Rightarrow> bool" where
  "error_equal e f \<longleftrightarrow> error_value e = error_value f"

definition extended :: "thread \<Rightarrow> exts \<Rightarrow> error_code \<Rightarrow> error_code_ext" where
  "extended t exts e = exts t"

text \<open>Errors are made by any thread, with a location and a reason or without.\<close>

datatype error_event =
    Make "32 word"
  | Make_At thread "32 word" source_location
  | Make_Because thread "32 word" string
  | Make_At_Because thread "32 word" string source_location

fun make_error :: "error_event \<Rightarrow> exts \<Rightarrow> error_code \<times> exts" where
  "make_error (Make v) exts = (error_of v, exts)"
| "make_error (Make_At t v loc) exts = error_at t v loc exts"
| "make_error (Make_Because t v reason) exts = error_because t v reason exts"
| "make_error (Make_At_Because t v reason loc) exts = error_at_because t v reason loc exts"

fun make_errors :: "error_event list \<Rightarrow> exts \<Rightarrow> error_code list \<times> exts" where
  "make_errors [] exts = ([], exts)"
| "make_errors (ev # evs) exts =
     (let (e, exts') = make_error ev exts; (es, exts'') = make_errors evs exts'
      in (e # es, exts''))"

text \<open>What was recorded last in thread \<open>t\<close>: a reason without a location resets the location.\<close>

fun last_record :: "thread \<Rightarrow> error_code_ext \<Rightarrow> error_event list \<Rightarrow> error_code_ext" where
  "last_record t d [] = d"
| "last_record t d (Make v # evs) = last_record t d evs"
| "last_record t d (Make_At u v loc # evs) =
     last_record t (if t = u then \<lparr>ext_location = loc, ext_reason = []\<rparr> else d) evs"
| "last_record t d (Make_Because u v reason # evs) =
     last_record t (if t = u then \<lparr>ext_location = location_default, ext_reason = reason\<rparr> else d) evs"
| "last_record t d (Make_At_Because u v reason loc # evs) =
     last_record t (if t = u then \<lparr>ext_location = loc, ext_reason = reason\<rparr> else d) evs"

text \<open>
  The record of an error is the one made last by the thread that asks, whichever error is asked:
  location and reason belong to their error only until the thread makes another one, and are
  lost when the error goes to another thread.
\<close>

lemma extended_is_last_of_thread:
  "extended t (snd (make_errors evs exts)) e = last_record t (exts t) evs"
proof (induction evs arbitrary: exts)
  case (Cons ev evs)
  then show ?case
    by (cases ev) (auto simp: extended_def error_at_def error_because_def error_at_because_def
        ext_of_location_def ext_of_reason_def case_prod_beta)
qed (simp add: extended_def)

definition event_value :: "error_event \<Rightarrow> 32 word" where
  "event_value ev =
     (case ev of Make v \<Rightarrow> v | Make_At t v loc \<Rightarrow> v | Make_Because t v r \<Rightarrow> v | Make_At_Because t v r loc \<Rightarrow> v)"

lemma error_value_kept:
  "map error_to_type (fst (make_errors evs exts)) = map event_value evs"
proof (induction evs arbitrary: exts)
  case (Cons ev evs)
  then show ?case
    by (cases ev) (simp_all add: error_of_def error_at_def error_because_def error_at_because_def
        event_value_def error_to_type_def case_prod_beta)
qed simp

lemma error_location_overwritten:
  fixes exts :: exts
  assumes "error_at t v loc exts = (e, exts1)" and "error_at t w loc2 exts1 = (f, exts2)"
  shows "ext_location (extended t exts1 e) = loc" and "ext_location (extended t exts2 e) = loc2"
  using assms by (auto simp: error_at_def extended_def ext_of_location_def)

section \<open>\<open>exceptable<void>\<close>\<close>

text \<open>
  The state is the stored exception pointer; exceptions are numbers. \<open>throw exception_\<close>
  throws the pointer, which is another object than the exception it holds.
\<close>

datatype thrown = Thrown_Exception nat | Thrown_Exception_Ptr nat

type_synonym exceptable_void = "nat option"

definition exceptable_init :: exceptable_void where
  "exceptable_init = None"

definition exceptable_of :: "nat option \<Rightarrow> exceptable_void" where
  "exceptable_of ex = ex"

definition has_exception :: "exceptable_void \<Rightarrow> bool" where
  "has_exception x \<longleftrightarrow> x \<noteq> None"

definition throw_if_failed :: "exceptable_void \<Rightarrow> thrown + unit" where
  "throw_if_failed x = (case x of Some e \<Rightarrow> Inl (Thrown_Exception_Ptr e) | None \<Rightarrow> Inr ())"

definition exceptable_value :: "exceptable_void \<Rightarrow> thrown + unit" where
  "exceptable_value x = throw_if_failed x"

lemma exceptable_value_throws:
  "(\<exists>t. exceptable_value x = Inl t) \<longleftrightarrow> has_exception x"
  by (auto simp: exceptable_value_def throw_if_failed_def has_exception_def split: option.splits)

text \<open>A handler for the stored exception is never reached.\<close>

lemma exceptable_hides_its_exception: "exceptable_value x \<noteq> Inl (Thrown_Exception e)"
  by (simp add: exceptable_value_def throw_if_failed_def split: option.splits)

end
