(* ===== verification/Aligned_Alloc.thy ===== *)
theory Aligned_Alloc
  imports Ptl_Prelude
begin

text \<open>
  \<open>aligned_allocator.hpp\<close>, the allocator of the slots of the queue. \<open>posix_memalign\<close> is a
  parameter: for an alignment and a size it fails or gives the address of a block. Addresses and
  sizes are 64-bit words; \<open>None\<close> is \<open>nullptr\<close>.
\<close>

type_synonym memalign = "u64 \<Rightarrow> u64 \<Rightarrow> u64 option"

definition allocate_aligned_memory :: "memalign \<Rightarrow> u64 \<Rightarrow> u64 \<Rightarrow> u64 option res" where
  "allocate_aligned_memory posix_memalign align sz =
     (if \<not> align \<ge> 8 then Inl Assert_Failed
      else if sz = 0 then Inr None
      else Inr (posix_memalign align sz))"

text \<open>\<open>None\<close> is the exception \<open>std::bad_alloc\<close>.\<close>

definition allocate :: "memalign \<Rightarrow> u64 \<Rightarrow> u64 \<Rightarrow> u64 \<Rightarrow> u64 option res" where
  "allocate posix_memalign alignment size_of_T n =
     allocate_aligned_memory posix_memalign alignment (n * size_of_T)"

text \<open>
  A block of at least the size asked for, aligned as asked: what is documented of
  \<open>posix_memalign\<close>; \<open>extent p\<close> is the size of the block at \<open>p\<close>.
\<close>

definition serves :: "memalign \<Rightarrow> (u64 \<Rightarrow> nat) \<Rightarrow> bool" where
  "serves posix_memalign extent \<longleftrightarrow>
     (\<forall>align sz p. posix_memalign align sz = Some p \<longrightarrow>
        unat align dvd unat p \<and> unat sz \<le> extent p)"

text \<open>
  The block \<open>allocate\<close> returns is aligned and holds \<open>n\<close> objects, unless their size in bytes
  does not fit into 64 bits: the product then wraps around and the block is too small. With an
  alignment of a pointer or more the assertion holds.
\<close>

lemma allocate_block:
  assumes "serves posix_memalign extent" and "allocate posix_memalign alignment size_of_T n = Inr (Some p)"
  shows "unat alignment dvd unat p"
    and "unat n * unat size_of_T < 2 ^ 64 \<Longrightarrow> unat n * unat size_of_T \<le> extent p"
proof -
  have "posix_memalign alignment (n * size_of_T) = Some p"
    using assms(2) by (auto simp: allocate_def allocate_aligned_memory_def split: if_splits)
  with assms(1) have *: "unat alignment dvd unat p" "unat (n * size_of_T) \<le> extent p"
    by (auto simp: serves_def)
  show "unat alignment dvd unat p" by (rule *)
  show "unat n * unat size_of_T \<le> extent p" if "unat n * unat size_of_T < 2 ^ 64"
    using *(2) that by (simp add: unat_word_ariths)
qed

lemma allocate_total:
  "8 \<le> alignment \<Longrightarrow> allocate posix_memalign alignment size_of_T n \<noteq> Inl f"
  by (simp add: allocate_def allocate_aligned_memory_def)

text \<open>\<open>2^61 + 1\<close> objects of 8 bytes: the allocator asks for 8 bytes.\<close>

lemma allocate_wraps:
  "allocate posix_memalign 64 8 (2 ^ 61 + 1) = Inr (posix_memalign 64 8)"
proof -
  have "(2 ^ 61 + 1) * 8 = (8 :: u64)" by simp
  then show ?thesis by (simp only: allocate_def) (simp add: allocate_aligned_memory_def)
qed

text \<open>
  \<open>deallocate\<close> is \<open>free\<close>: the blocks of the heap are a set; freeing \<open>nullptr\<close> does nothing, freeing what
  is not a block is undefined.
\<close>

definition deallocate :: "u64 option \<Rightarrow> u64 \<Rightarrow> u64 set \<Rightarrow> u64 set res" where
  "deallocate p n heap =
     (case p of
        None \<Rightarrow> Inr heap
      | Some a \<Rightarrow> if a \<in> heap then Inr (heap - {a}) else Inl Undefined_Behaviour)"

text \<open>What was allocated can be deallocated, whatever was deallocated in between; a second time it cannot.\<close>

fun deallocate_all :: "u64 option list \<Rightarrow> u64 set \<Rightarrow> u64 set res" where
  "deallocate_all [] heap = Inr heap"
| "deallocate_all (p # ps) heap = res_bind (deallocate p 0 heap) (deallocate_all ps)"

lemma deallocate_blocks:
  assumes "distinct ps" and "\<forall>a. Some a \<in> set ps \<longrightarrow> a \<in> heap"
  shows "deallocate_all ps heap = Inr (heap - {a. Some a \<in> set ps})"
  using assms
proof (induction ps arbitrary: heap)
  case (Cons p ps)
  show ?case
  proof (cases p)
    case None
    then show ?thesis using Cons by (simp add: deallocate_def)
  next
    case (Some a)
    have "deallocate_all ps (heap - {a}) = Inr (heap - {a} - {a. Some a \<in> set ps})"
      using Cons Some by (intro Cons.IH) auto
    moreover have "heap - {a} - {a. Some a \<in> set ps} = heap - {a. Some a \<in> set (p # ps)}"
      using Some by auto
    ultimately show ?thesis using Cons.prems(2) Some by (simp add: deallocate_def)
  qed
qed simp

lemma deallocate_twice: "a \<in> heap \<Longrightarrow> deallocate_all [Some a, Some a] heap = Inl Undefined_Behaviour"
  by (simp add: deallocate_def)

end
