(* ===== verification/Scope_Guard.thy ===== *)
theory Scope_Guard
  imports Ptl_Prelude
begin

text \<open>
  \<open>scope_guard.hpp\<close> with \<open>catch_exception\<close> of \<open>exception.hpp\<close>: the class \<open>scope_guard_impl\<close>, the
  failsafe guard its constructors use when copying the callable may throw, \<open>dismiss\<close>, and blocks
  of code whose \<open>SCOPE_EXIT\<close> guards run when the block is left, normally or by an exception.
\<close>

section \<open>Guards\<close>

text \<open>
  A callable changes the state of the program and may throw (an exception is a number). What
  leaves a piece of code is its final state with a normal end, an exception, or
  \<open>std::terminate\<close>.
\<close>

type_synonym 's callable = "'s \<Rightarrow> 's \<times> nat option"

datatype 's outcome = Normal 's | Threw nat 's | Terminate 's

record 's guard =
  guard_function :: "'s callable"
  dismissed :: bool

definition dismiss :: "'s guard \<Rightarrow> 's guard" where
  "dismiss g = g\<lparr>dismissed := True\<rparr>"

definition catch_exception :: "'s callable \<Rightarrow> ('s \<Rightarrow> 's outcome) \<Rightarrow> 's \<Rightarrow> 's outcome" where
  "catch_exception f catcher s =
     (case f s of
        (s, None) \<Rightarrow> Normal s
      | (s, Some e) \<Rightarrow> catcher s)"

text \<open>
  The overload for one type of exceptions: \<open>matches\<close> says which exceptions \<open>catch (E e)\<close> catches, and
  the catcher gets the exception.
\<close>

definition catch_exception_of ::
  "(nat \<Rightarrow> bool) \<Rightarrow> 's callable \<Rightarrow> (nat \<Rightarrow> 's \<Rightarrow> 's outcome) \<Rightarrow> 's \<Rightarrow> 's outcome" where
  "catch_exception_of matches f catcher s =
     (case f s of
        (s, None) \<Rightarrow> Normal s
      | (s, Some e) \<Rightarrow> if matches e then catcher e s else Threw e s)"

lemma catch_exception_of_any: "catch_exception_of (\<lambda>_. True) f (\<lambda>_. catcher) = catch_exception f catcher"
  by (simp add: fun_eq_iff catch_exception_of_def catch_exception_def split: prod.split option.split)

text \<open>One type after the other is one catch of both, if the first catcher does not throw.\<close>

lemma catch_exception_of_nested:
  assumes "\<And>e s. \<exists>s'. c1 e s = Normal s'" and "\<not> (\<exists>e. m1 e \<and> m2 e)"
  shows "(case catch_exception_of m1 f c1 s of Threw e s' \<Rightarrow> (if m2 e then c2 e s' else Threw e s') | r \<Rightarrow> r) =
    catch_exception_of (\<lambda>e. m1 e \<or> m2 e) f (\<lambda>e. if m1 e then c1 e else c2 e) s"
proof -
  obtain s1 r where f: "f s = (s1, r)" by (cases "f s")
  show ?thesis
  proof (cases r)
    case (Some e)
    obtain s2 where "c1 e s1 = Normal s2" using assms(1) by blast
    then show ?thesis using f Some by (simp add: catch_exception_of_def)
  qed (simp add: f catch_exception_of_def)
qed

text \<open>
  \<open>invoke_noexcept\<close> is the parameter \<open>InvokeNoexcept\<close> of the class; the catcher warns and
  terminates.
\<close>

definition warn_and_terminate :: "'s \<Rightarrow> 's outcome" where
  "warn_and_terminate s = Terminate s"

definition execute :: "bool \<Rightarrow> 's callable \<Rightarrow> 's \<Rightarrow> 's outcome" where
  "execute invoke_noexcept f s =
     (if invoke_noexcept then catch_exception f warn_and_terminate s
      else (case f s of
              (s, None) \<Rightarrow> Normal s
            | (s, Some e) \<Rightarrow> Threw e s))"

definition guard_destroy :: "bool \<Rightarrow> 's guard \<Rightarrow> 's \<Rightarrow> 's outcome" where
  "guard_destroy invoke_noexcept g s =
     (if \<not> dismissed g then execute invoke_noexcept (guard_function g) s else Normal s)"

text \<open>
  The failsafe is an empty base object, whose destruction does nothing (\<open>None\<close>), when the
  callable is copied or moved without exceptions, and otherwise a guard on a reference to the
  callable.
\<close>

definition make_failsafe :: "bool \<Rightarrow> 's callable \<Rightarrow> 's guard option" where
  "make_failsafe nothrow f =
     (if nothrow then None else Some \<lparr>guard_function = f, dismissed = False\<rparr>)"

definition failsafe_destroy :: "bool \<Rightarrow> 's guard option \<Rightarrow> 's \<Rightarrow> 's outcome" where
  "failsafe_destroy invoke_noexcept failsafe s =
     (case failsafe of None \<Rightarrow> Normal s | Some g \<Rightarrow> guard_destroy invoke_noexcept g s)"

text \<open>
  \<open>copied\<close> is the exception that copying or moving the callable into the guard throws, if it
  throws; a constructor that is \<open>noexcept\<close> then terminates. A failsafe that throws while the
  exception propagates terminates, too.
\<close>

definition guard_construct ::
  "bool \<Rightarrow> bool \<Rightarrow> nat option \<Rightarrow> 's callable \<Rightarrow> 's \<Rightarrow> 's guard option \<times> 's outcome" where
  "guard_construct invoke_noexcept nothrow copied f s =
     (let failsafe = make_failsafe nothrow f
      in case copied of
           None \<Rightarrow>
             (Some \<lparr>guard_function = f, dismissed = False\<rparr>,
              failsafe_destroy invoke_noexcept (map_option dismiss failsafe) s)
         | Some e \<Rightarrow>
             (None,
              if nothrow then Terminate s
              else case failsafe_destroy invoke_noexcept failsafe s of
                     Normal s \<Rightarrow> Threw e s
                   | Threw e' s \<Rightarrow> Terminate s
                   | Terminate s \<Rightarrow> Terminate s))"

text \<open>The new guard and what is left of the other.\<close>

definition guard_move :: "'s guard \<Rightarrow> 's guard \<times> 's guard" where
  "guard_move other =
     (\<lparr>guard_function = guard_function other, dismissed = dismissed other\<rparr>, dismiss other)"

lemma moved_guard_runs_once:
  assumes "guard_move g = (new, old)"
  shows "guard_destroy ine old s = Normal s" and "guard_destroy ine new s = guard_destroy ine g s"
  using assms by (auto simp: guard_move_def guard_destroy_def dismiss_def)

lemma dismissed_guard_does_nothing: "guard_destroy ine (dismiss g) s = Normal s"
  by (simp add: guard_destroy_def dismiss_def)

section \<open>Blocks\<close>

text \<open>
  A statement acts on the state and may throw, or declares a guard with \<open>SCOPE_EXIT\<close>; the
  callable of a guard is the lambda, with what is known of copying it.
\<close>

datatype 's statement =
    Act "'s callable"
  | Scope_Exit bool "nat option" "'s callable"

text \<open>
  Leaving a block destroys its guards, the newest first; \<open>thrown\<close> is the exception that
  propagates, if any.
\<close>

fun unwind :: "bool \<Rightarrow> 's guard list \<Rightarrow> nat option \<Rightarrow> 's \<Rightarrow> 's outcome" where
  "unwind ine [] thrown s = (case thrown of None \<Rightarrow> Normal s | Some e \<Rightarrow> Threw e s)"
| "unwind ine (g # gs) thrown s =
     (case guard_destroy ine g s of
        Normal s \<Rightarrow> unwind ine gs thrown s
      | Threw e s \<Rightarrow> (if thrown = None then unwind ine gs (Some e) s else Terminate s)
      | Terminate s \<Rightarrow> Terminate s)"

fun run_block :: "bool \<Rightarrow> 's statement list \<Rightarrow> 's guard list \<Rightarrow> 's \<Rightarrow> 's outcome" where
  "run_block ine [] gs s = unwind ine gs None s"
| "run_block ine (Act f # rest) gs s =
     (case f s of
        (s, None) \<Rightarrow> run_block ine rest gs s
      | (s, Some e) \<Rightarrow> unwind ine gs (Some e) s)"
| "run_block ine (Scope_Exit nothrow copied f # rest) gs s =
     (case guard_construct ine nothrow copied f s of
        (Some g, Normal s) \<Rightarrow> run_block ine rest (g # gs) s
      | (_, Threw e s) \<Rightarrow> unwind ine gs (Some e) s
      | (_, Terminate s) \<Rightarrow> Terminate s
      | (None, Normal s) \<Rightarrow> unwind ine gs None s)"

text \<open>
  What a block means: a guard is a \<open>try ... finally\<close> around the rest of the block, and around
  nothing when the copy of its callable throws.
\<close>

definition finally_do :: "'s callable \<Rightarrow> 's outcome \<Rightarrow> 's outcome" where
  "finally_do f out =
     (case out of
        Normal s \<Rightarrow> (case f s of (s, None) \<Rightarrow> Normal s | (s, Some _) \<Rightarrow> Terminate s)
      | Threw e s \<Rightarrow> (case f s of (s, None) \<Rightarrow> Threw e s | (s, Some _) \<Rightarrow> Terminate s)
      | Terminate s \<Rightarrow> Terminate s)"

fun try_finally :: "'s statement list \<Rightarrow> 's \<Rightarrow> 's outcome" where
  "try_finally [] s = Normal s"
| "try_finally (Act f # rest) s =
     (case f s of
        (s, None) \<Rightarrow> try_finally rest s
      | (s, Some e) \<Rightarrow> Threw e s)"
| "try_finally (Scope_Exit nothrow copied f # rest) s =
     (case copied of
        None \<Rightarrow> finally_do f (try_finally rest s)
      | Some e \<Rightarrow> if nothrow then Terminate s else finally_do f (Threw e s))"

lemma unwind_guard:
  "unwind True (\<lparr>guard_function = f, dismissed = False\<rparr> # gs) thrown s =
     (case f s of (s, None) \<Rightarrow> unwind True gs thrown s | (s, Some _) \<Rightarrow> Terminate s)"
  by (simp add: guard_destroy_def execute_def catch_exception_def warn_and_terminate_def split: prod.split option.split)

text \<open>\<open>leave gs out\<close>: the outcome of the inner block passes through the guards \<open>gs\<close>.\<close>

fun leave :: "'s guard list \<Rightarrow> 's outcome \<Rightarrow> 's outcome" where
  "leave gs (Normal s) = unwind True gs None s"
| "leave gs (Threw e s) = unwind True gs (Some e) s"
| "leave gs (Terminate s) = Terminate s"

lemma leave_guard: "leave (\<lparr>guard_function = f, dismissed = False\<rparr> # gs) out = leave gs (finally_do f out)"
  by (cases out) (auto simp: finally_do_def unwind_guard simp del: unwind.simps split: prod.split option.split)

lemma leave_nothing: "leave [] out = out"
  by (cases out) simp_all

lemma run_block_leave: "run_block True ss gs s = leave gs (try_finally ss s)"
proof (induction ss arbitrary: gs s)
  case (Cons st ss)
  show ?case
  proof (cases st)
    case (Act f)
    then show ?thesis using Cons.IH by (cases "f s") (auto split: option.split)
  next
    case (Scope_Exit nothrow copied f)
    show ?thesis
    proof (cases copied)
      case None
      have "guard_construct True nothrow None f s = (Some \<lparr>guard_function = f, dismissed = False\<rparr>, Normal s)"
        by (simp add: guard_construct_def make_failsafe_def failsafe_destroy_def
            dismissed_guard_does_nothing Let_def)
      then show ?thesis using Scope_Exit None by (simp add: Cons.IH leave_guard)
    next
      case (Some e)
      then show ?thesis using Scope_Exit
        by (cases "f s")
          (auto simp: guard_construct_def make_failsafe_def failsafe_destroy_def guard_destroy_def
            execute_def catch_exception_def warn_and_terminate_def finally_do_def Let_def split: option.split)
    qed
  qed
qed simp

text \<open>
  C18: a block with \<open>SCOPE_EXIT\<close> guards behaves as nested \<open>try ... finally\<close>: every guard that was
  declared runs exactly once, the last declared first, whether the block ends normally or by an
  exception, which then propagates; a callable whose copy throws still runs once; a guard that
  throws terminates the program and none after it runs.
\<close>

theorem scope_exit_is_try_finally: "run_block True ss [] s = try_finally ss s"
  by (simp add: run_block_leave leave_nothing)

end
