(* ===== verification/Assertion.thy ===== *)
theory Assertion
  imports Ptl_Prelude
begin

text \<open>
  \<open>type_safe/assert.hpp\<close> and \<open>src/assert.cpp\<close>: assertions with levels and handlers. A handler is
  the client's class: its level, whether it allows exceptions, whether its \<open>handle\<close> is
  \<open>noexcept\<close> and what \<open>handle\<close> does (the exception it throws, if any). The expression of an
  assertion may change the state \<open>'s\<close> of the program and may throw.
\<close>

record source_location =
  file_name :: string
  line_number :: u32

record 'a handler =
  handler_level :: nat
  throwing_exception_is_allowed :: bool
  handle_noexcept :: bool
  handle :: "source_location \<Rightarrow> string \<Rightarrow> 'a \<Rightarrow> nat option"

text \<open>An exception that would leave a \<open>noexcept\<close> function terminates the program.\<close>

fun leave_noexcept :: "bool \<Rightarrow> unit res \<Rightarrow> unit res" where
  "leave_noexcept ne (Inl (Rethrown e)) = Inl (if ne then Terminated else Rethrown e)"
| "leave_noexcept ne r = r"

definition call_handle :: "'a handler \<Rightarrow> source_location \<Rightarrow> string \<Rightarrow> 'a \<Rightarrow> unit res" where
  "call_handle h loc text args =
     leave_noexcept (handle_noexcept h)
       (case handle h loc text args of None \<Rightarrow> Inr () | Some e \<Rightarrow> Inl (Rethrown e))"

text \<open>\<open>std::abort\<close> is \<open>Assert_Failed\<close>.\<close>

definition assertion_failed :: "'a handler \<Rightarrow> source_location \<Rightarrow> string \<Rightarrow> 'a \<Rightarrow> unit res" where
  "assertion_failed h loc text args =
     res_bind (call_handle h loc text args) (\<lambda>_. Inl Assert_Failed)"

definition check_is_noexcept :: "'a handler \<Rightarrow> bool" where
  "check_is_noexcept h \<longleftrightarrow> \<not> throwing_exception_is_allowed h \<or> handle_noexcept h"

text \<open>The lambda that \<open>ASSERT\<close> makes of the expression is \<open>noexcept\<close>.\<close>

type_synonym 's condition = "'s \<Rightarrow> 's \<times> (nat + bool)"

definition check_enabled ::
  "'a handler \<Rightarrow> 's condition \<Rightarrow> source_location \<Rightarrow> string \<Rightarrow> 'a \<Rightarrow> 's \<Rightarrow> 's \<times> unit res" where
  "check_enabled h expr loc text args s =
     (case expr s of
        (s, Inl e) \<Rightarrow> (s, Inl Terminated)
      | (s, Inr holds) \<Rightarrow>
          (s, if \<not> holds then leave_noexcept (check_is_noexcept h) (assertion_failed h loc text args)
              else Inr ()))"

text \<open>The overloads with a level, chosen at compile time, and those without.\<close>

definition check_assertion_level ::
  "nat \<Rightarrow> 'a handler \<Rightarrow> 's condition \<Rightarrow> source_location \<Rightarrow> string \<Rightarrow> 'a \<Rightarrow> 's \<Rightarrow> 's \<times> unit res" where
  "check_assertion_level level h expr loc text args s =
     (if level \<le> handler_level h then check_enabled h expr loc text args s else (s, Inr ()))"

definition check_assertion ::
  "'a handler \<Rightarrow> 's condition \<Rightarrow> source_location \<Rightarrow> string \<Rightarrow> 'a \<Rightarrow> 's \<Rightarrow> 's \<times> unit res" where
  "check_assertion h expr loc text args s =
     (if handler_level h \<noteq> 0 then check_enabled h expr loc text args s else (s, Inr ()))"

section \<open>The default handler\<close>

fun decimal :: "nat \<Rightarrow> string" where
  "decimal n = (if n < 10 then [char_of (48 + n)] else decimal (n div 10) @ [char_of (48 + n mod 10)])"

declare decimal.simps [simp del]

text \<open>What is printed to \<open>stderr\<close>; \<open>message\<close> may be \<open>nullptr\<close>.\<close>

definition default_handle :: "source_location \<Rightarrow> string \<Rightarrow> string option \<Rightarrow> string" where
  "default_handle loc expression message =
     ''[debug assert] '' @ file_name loc @ '':'' @ decimal (unat (line_number loc)) @ '': '' @
     (if expression = '''' then
        (case message of
           Some m \<Rightarrow> ''Unreachable code reached - '' @ m @ ''.''
         | None \<Rightarrow> ''Unreachable code reached.'')
      else
        (case message of
           Some m \<Rightarrow> ''Assertion '' @ [CHR 0x27] @ expression @ [CHR 0x27] @ '' failed - '' @ m @ ''.''
         | None \<Rightarrow> ''Assertion '' @ [CHR 0x27] @ expression @ [CHR 0x27] @ '' failed.'')) @
     [CHR 0x0A]"

lemma default_message:
  "default_handle \<lparr>file_name = ''f.cpp'', line_number = 120\<rparr> ''x'' None =
     ''[debug assert] f.cpp:120: Assertion '' @ [CHR 0x27] @ ''x'' @ [CHR 0x27] @ '' failed.'' @ [CHR 0x0A]"
  by (simp add: default_handle_def decimal.simps) code_simp

section \<open>What an assertion does\<close>

lemma assertion_failed_result:
  "leave_noexcept (check_is_noexcept h) (assertion_failed h loc text args) =
     Inl (case handle h loc text args of
       None \<Rightarrow> Assert_Failed
     | Some e \<Rightarrow> if throwing_exception_is_allowed h \<and> \<not> handle_noexcept h then Rethrown e else Terminated)"
  by (simp add: assertion_failed_def call_handle_def check_is_noexcept_def split: option.split)

text \<open>
  Control passes an assertion exactly when its level is above the handler's level or its
  expression holds; the expression is evaluated only when the assertion is enabled; and an
  exception of the handler reaches the caller exactly when the expression is false and the
  handler is declared to throw. In every other case the program ends.
\<close>

theorem assertion_outcomes:
  "fst (check_assertion_level level h expr loc text args s)
     = (if level \<le> handler_level h then fst (expr s) else s) \<and>
   (snd (check_assertion_level level h expr loc text args s) = Inr () \<longleftrightarrow>
     handler_level h < level \<or> snd (expr s) = Inr True) \<and>
   (snd (check_assertion_level level h expr loc text args s) = Inl (Rethrown e) \<longleftrightarrow>
     level \<le> handler_level h \<and> snd (expr s) = Inr False \<and> handle h loc text args = Some e \<and>
     throwing_exception_is_allowed h \<and> \<not> handle_noexcept h) \<and>
   check_assertion h expr loc text args = check_assertion_level 1 h expr loc text args"
  by (auto simp: check_assertion_level_def check_assertion_def check_enabled_def fun_eq_iff
      assertion_failed_result split: prod.splits sum.splits option.splits if_splits)

end
