(* ===== verification/Ip_Address.thy ===== *)
theory Ip_Address
  imports Ptl_Prelude
begin

text \<open>
  \<open>asio/ip_address.hpp\<close> and \<open>asio/ip_endpoint.hpp\<close>: addresses as arrays of bytes in network
  order, their integer forms, classification and comparison, and endpoints.
\<close>

section \<open>IPv4 addresses\<close>

datatype ipv4_address = Ipv4 (byte0: u8) (byte1: u8) (byte2: u8) (byte3: u8)

definition ipv4_any :: ipv4_address where
  "ipv4_any = Ipv4 0 0 0 0"

definition ipv4_of_integer :: "u32 \<Rightarrow> ipv4_address" where
  "ipv4_of_integer addr =
     Ipv4 (ucast (drop_bit 24 addr)) (ucast (drop_bit 16 addr)) (ucast (drop_bit 8 addr))
       (ucast (drop_bit 0 addr))"

definition ipv4_of_bytes :: "u8 list \<Rightarrow> ipv4_address" where
  "ipv4_of_bytes addr = Ipv4 (addr ! 0) (addr ! 1) (addr ! 2) (addr ! 3)"

definition to_integer :: "ipv4_address \<Rightarrow> u32" where
  "to_integer a =
     push_bit 24 (ucast (byte0 a)) OR push_bit 16 (ucast (byte1 a)) OR
     push_bit 8 (ucast (byte2 a)) OR push_bit 0 (ucast (byte3 a))"

definition ipv4_bytes :: "ipv4_address \<Rightarrow> u8 list" where
  "ipv4_bytes a = [byte0 a, byte1 a, byte2 a, byte3 a]"

definition ipv4_loopback :: ipv4_address where
  "ipv4_loopback = Ipv4 127 0 0 1"

definition is_loopback :: "ipv4_address \<Rightarrow> bool" where
  "is_loopback a \<longleftrightarrow> byte0 a = 127"

definition is_private_network :: "ipv4_address \<Rightarrow> bool" where
  "is_private_network a \<longleftrightarrow>
     byte0 a = 10 \<or> (byte0 a = 172 \<and> byte1 a AND 0xf0 = 16) \<or> (byte0 a = 192 \<and> byte1 a = 168)"

definition ipv4_equal :: "ipv4_address \<Rightarrow> ipv4_address \<Rightarrow> bool" where
  "ipv4_equal a b \<longleftrightarrow>
     byte0 a = byte0 b \<and> byte1 a = byte1 b \<and> byte2 a = byte2 b \<and> byte3 a = byte3 b"

definition ipv4_less :: "ipv4_address \<Rightarrow> ipv4_address \<Rightarrow> bool" where
  "ipv4_less a b \<longleftrightarrow> to_integer a < to_integer b"

definition ipv4_less_eq :: "ipv4_address \<Rightarrow> ipv4_address \<Rightarrow> bool" where
  "ipv4_less_eq a b \<longleftrightarrow> \<not> ipv4_less b a"

definition ipv4_not_equal :: "ipv4_address \<Rightarrow> ipv4_address \<Rightarrow> bool" where
  "ipv4_not_equal a b \<longleftrightarrow> \<not> ipv4_equal a b"

definition ipv4_greater :: "ipv4_address \<Rightarrow> ipv4_address \<Rightarrow> bool" where
  "ipv4_greater a b \<longleftrightarrow> ipv4_less b a"

definition ipv4_greater_eq :: "ipv4_address \<Rightarrow> ipv4_address \<Rightarrow> bool" where
  "ipv4_greater_eq a b \<longleftrightarrow> \<not> ipv4_less a b"

lemma ipv4_equal_iff: "ipv4_equal a b \<longleftrightarrow> a = b"
  by (cases a; cases b) (auto simp: ipv4_equal_def)

lemma bit_u8_high: "8 \<le> n \<Longrightarrow> bit (x :: u8) n = False"
  by (auto dest: bit_imp_le_length)

lemma of_integer_to_integer: "ipv4_of_integer (to_integer a) = a"
  by (cases a)
    (auto simp: ipv4_of_integer_def to_integer_def intro!: bit_word_eqI simp: bit_simps bit_u8_high)

text \<open>The byte of a word at position \<open>k\<close>, put back where it was.\<close>

lemma bit_byte_at:
  fixes w :: "'a::len word"
  shows "bit (push_bit k (ucast (ucast (drop_bit k w) :: u8)) :: 'a word) n \<longleftrightarrow>
     k \<le> n \<and> n < k + 8 \<and> n < LENGTH('a) \<and> bit w n"
  by (auto simp: bit_simps)

lemma to_integer_of_integer: "to_integer (ipv4_of_integer w) = w"
proof (rule bit_word_eqI)
  fix n
  assume "n < LENGTH(32)"
  then have "24 \<le> n \<and> n < 32 \<or> 16 \<le> n \<and> n < 24 \<or> 8 \<le> n \<and> n < 16 \<or> n < 8"
    by simp arith
  then show "bit (to_integer (ipv4_of_integer w)) n = bit w n"
    using bit_byte_at [of 24 w n] bit_byte_at [of 16 w n] bit_byte_at [of 8 w n]
      bit_byte_at [of 0 w n] \<open>n < LENGTH(32)\<close>
    unfolding to_integer_def ipv4_of_integer_def ipv4_address.sel bit_or_iff by simp blast
qed

lemma to_integer_inject: "to_integer a = to_integer b \<longleftrightarrow> a = b"
  by (metis of_integer_to_integer)

text \<open>The comparison operators are a total order, so addresses are a linear order.\<close>

instantiation ipv4_address :: linorder
begin

definition less_ipv4_address :: "ipv4_address \<Rightarrow> ipv4_address \<Rightarrow> bool" where
  "less_ipv4_address = ipv4_less"

definition less_eq_ipv4_address :: "ipv4_address \<Rightarrow> ipv4_address \<Rightarrow> bool" where
  "less_eq_ipv4_address = ipv4_less_eq"

instance
  by standard
    (auto simp: less_ipv4_address_def less_eq_ipv4_address_def ipv4_less_def ipv4_less_eq_def
      not_less to_integer_inject [symmetric])

end

lemma ipv4_comparisons:
  "ipv4_not_equal a b \<longleftrightarrow> a \<noteq> b" "ipv4_greater a b \<longleftrightarrow> b < a" "ipv4_greater_eq a b \<longleftrightarrow> b \<le> a"
  by (simp_all add: ipv4_not_equal_def ipv4_equal_iff ipv4_greater_def ipv4_greater_eq_def
      less_ipv4_address_def less_eq_ipv4_address_def ipv4_less_eq_def)

text \<open>As a number: the order is that of the byte sequence.\<close>

lemma unat_or_disjoint:
  fixes p q :: "'a::len word"
  assumes "p AND q = 0" and "unat p + unat q < 2 ^ LENGTH('a)"
  shows "unat (p OR q) = unat p + unat q"
  using assms by (simp add: disjunctive_add_eq_or [symmetric] unat_word_ariths)

lemma unat_u8_less: "unat (x :: u8) < 256"
  using unsigned_less [of x, where 'a = nat] by simp

lemma unat_shift_byte:
  assumes "k \<le> 24"
  shows "unat (push_bit k (ucast (x :: u8)) :: u32) = unat x * 2 ^ k"
proof -
  have "unat x * 2 ^ k < 2 ^ 8 * 2 ^ 24"
    using unat_u8_less [of x] power_increasing [OF assms, of "2 :: nat"]
    by (intro mult_less_le_imp_less) simp_all
  moreover have "unat (ucast x :: u32) = unat x"
    using unat_u8_less [of x] by (simp add: unsigned_ucast_eq take_bit_nat_eq_self)
  ultimately show ?thesis
    unfolding unsigned_push_bit_eq by (simp add: push_bit_eq_mult take_bit_nat_eq_self)
qed

lemma unat_to_integer:
  "unat (to_integer a) = unat (byte0 a) * 2 ^ 24 + (unat (byte1 a) * 2 ^ 16 + (unat (byte2 a) * 2 ^ 8 +
     unat (byte3 a)))"
proof -
  let ?p0 = "push_bit 24 (ucast (byte0 a)) :: u32" and ?p1 = "push_bit 16 (ucast (byte1 a)) :: u32"
    and ?p2 = "push_bit 8 (ucast (byte2 a)) :: u32" and ?p3 = "push_bit 0 (ucast (byte3 a)) :: u32"
  note b = unat_u8_less [of "byte0 a"] unat_u8_less [of "byte1 a"] unat_u8_less [of "byte2 a"]
    unat_u8_less [of "byte3 a"]
  note s = unat_shift_byte [of 24 "byte0 a"] unat_shift_byte [of 16 "byte1 a"]
    unat_shift_byte [of 8 "byte2 a"] unat_shift_byte [of 0 "byte3 a"]
  have "?p2 AND ?p3 = 0" "?p1 AND (?p2 OR ?p3) = 0" "?p0 AND (?p1 OR (?p2 OR ?p3)) = 0"
    by (auto intro!: bit_word_eqI simp: bit_simps bit_u8_high)
  moreover have "unat (?p2 OR ?p3) = unat (byte2 a) * 2 ^ 8 + unat (byte3 a)"
    using calculation(1) b s by (subst unat_or_disjoint) simp_all
  moreover have "unat (?p1 OR (?p2 OR ?p3)) =
      unat (byte1 a) * 2 ^ 16 + (unat (byte2 a) * 2 ^ 8 + unat (byte3 a))"
    using calculation(2,4) b s by (subst unat_or_disjoint) simp_all
  ultimately have "unat (?p0 OR (?p1 OR (?p2 OR ?p3))) = unat (byte0 a) * 2 ^ 24 +
      (unat (byte1 a) * 2 ^ 16 + (unat (byte2 a) * 2 ^ 8 + unat (byte3 a)))"
    using b s by (subst unat_or_disjoint) simp_all
  then show ?thesis by (simp add: to_integer_def or.assoc)
qed

lemma less_digits:
  fixes a b c d :: nat
  assumes "c < m" and "d < m"
  shows "a * m + c < b * m + d \<longleftrightarrow> a < b \<or> a = b \<and> c < d"
proof (cases a b rule: linorder_cases)
  case less
  then have "(a + 1) * m \<le> b * m" by (intro mult_right_mono) auto
  with less assms show ?thesis by simp
next
  case greater
  then have "(b + 1) * m \<le> a * m" by (intro mult_right_mono) auto
  with greater assms show ?thesis by simp
qed simp

lemma ipv4_less_bytes:
  "ipv4_less a b \<longleftrightarrow> byte0 a < byte0 b \<or> byte0 a = byte0 b \<and> (byte1 a < byte1 b \<or>
     byte1 a = byte1 b \<and> (byte2 a < byte2 b \<or> byte2 a = byte2 b \<and> byte3 a < byte3 b))"
proof -
  note u = unat_u8_less
  let ?n = "\<lambda>x :: u8. unat x"
  have 1: "?n x < 2 ^ 8" for x using u [of x] by simp
  have 3: "?n x * 2 ^ 8 + ?n y < 2 ^ 16" for x y using u [of x] u [of y] by simp
  have 2: "?n x * 2 ^ 16 + (?n y * 2 ^ 8 + ?n z) < 2 ^ 24" for x y z
    using u [of x] u [of y] u [of z] by simp
  have "ipv4_less a b \<longleftrightarrow> unat (to_integer a) < unat (to_integer b)"
    by (simp add: ipv4_less_def word_less_nat_alt)
  also have "\<dots> \<longleftrightarrow> ?n (byte0 a) < ?n (byte0 b) \<or> ?n (byte0 a) = ?n (byte0 b) \<and>
      (?n (byte1 a) < ?n (byte1 b) \<or> ?n (byte1 a) = ?n (byte1 b) \<and>
        (?n (byte2 a) < ?n (byte2 b) \<or> ?n (byte2 a) = ?n (byte2 b) \<and> ?n (byte3 a) < ?n (byte3 b)))"
    unfolding unat_to_integer less_digits [OF 2 2] less_digits [OF 3 3] less_digits [OF 1 1] ..
  finally show ?thesis by (simp add: word_less_nat_alt word_unat_eq_iff)
qed

section \<open>IPv6 addresses\<close>

text \<open>An array of 16 bytes.\<close>

type_synonym ipv6_address = "u8 list"

definition ipv6_any :: ipv6_address where
  "ipv6_any = replicate 16 0"

definition bytes64 :: "u64 \<Rightarrow> u8 list" where
  "bytes64 w = map (\<lambda>s. ucast (drop_bit s w)) [56, 48, 40, 32, 24, 16, 8, 0]"

definition ipv6_of_parts :: "u64 \<Rightarrow> u64 \<Rightarrow> ipv6_address" where
  "ipv6_of_parts subnet iface = bytes64 subnet @ bytes64 iface"

definition ipv6_of_words :: "u16 \<Rightarrow> u16 \<Rightarrow> u16 \<Rightarrow> u16 \<Rightarrow> u16 \<Rightarrow> u16 \<Rightarrow> u16 \<Rightarrow> u16 \<Rightarrow> ipv6_address" where
  "ipv6_of_words a0 a1 a2 a3 a4 a5 a6 a7 =
     concat (map (\<lambda>a. [ucast (drop_bit 8 a), ucast (drop_bit 0 a)]) [a0, a1, a2, a3, a4, a5, a6, a7])"

definition ipv6_of_array :: "u8 list \<Rightarrow> ipv6_address" where
  "ipv6_of_array addr = map (\<lambda>i. addr ! i) [0..<16]"

text \<open>The constructor from sixteen bytes ignores the last one and stores the number 15.\<close>

definition ipv6_of_16_bytes :: "u8 list \<Rightarrow> ipv6_address" where
  "ipv6_of_16_bytes a = map (\<lambda>i. a ! i) [0..<15] @ [15]"

text \<open>\<open>subnet\<close> and \<open>interface\<close> build 64 bits and return them as \<open>uint32_t\<close>.\<close>

definition join64 :: "u8 list \<Rightarrow> u64" where
  "join64 bs = fold (\<lambda>(s, b) w. w OR push_bit s (ucast b)) (zip [56, 48, 40, 32, 24, 16, 8, 0] bs) 0"

definition subnet :: "ipv6_address \<Rightarrow> u32" where
  "subnet a = ucast (join64 (take 8 a))"

definition interface_id :: "ipv6_address \<Rightarrow> u32" where
  "interface_id a = ucast (join64 (take 8 (drop 8 a)))"

definition ipv6_loopback :: ipv6_address where
  "ipv6_loopback = ipv6_of_words 0 0 0 0 0 0 0 1"

definition ipv6_unspecified :: ipv6_address where
  "ipv6_unspecified = ipv6_of_words 0 0 0 0 0 0 0 0"

text \<open>
  \<open>std::mismatch\<close> over all bytes but the last; the comparison is of the bytes where it stops,
  which is the last one when the others agree.
\<close>

fun mismatch :: "u8 list \<Rightarrow> u8 list \<Rightarrow> (u8 \<times> u8) option" where
  "mismatch [x] [y] = Some (x, y)"
| "mismatch (x # xs) (y # ys) = (if x = y then mismatch xs ys else Some (x, y))"
| "mismatch _ _ = None"

definition ipv6_less :: "ipv6_address \<Rightarrow> ipv6_address \<Rightarrow> bool" where
  "ipv6_less a b = (case mismatch a b of Some (l, r) \<Rightarrow> l < r | None \<Rightarrow> False)"

definition ipv6_equal :: "ipv6_address \<Rightarrow> ipv6_address \<Rightarrow> bool" where
  "ipv6_equal a b \<longleftrightarrow> list_all2 (=) a b"

definition ipv6_not_equal :: "ipv6_address \<Rightarrow> ipv6_address \<Rightarrow> bool" where
  "ipv6_not_equal a b \<longleftrightarrow> \<not> ipv6_equal a b"

definition ipv6_greater :: "ipv6_address \<Rightarrow> ipv6_address \<Rightarrow> bool" where
  "ipv6_greater a b \<longleftrightarrow> ipv6_less b a"

definition ipv6_less_eq :: "ipv6_address \<Rightarrow> ipv6_address \<Rightarrow> bool" where
  "ipv6_less_eq a b \<longleftrightarrow> \<not> ipv6_greater a b"

definition ipv6_greater_eq :: "ipv6_address \<Rightarrow> ipv6_address \<Rightarrow> bool" where
  "ipv6_greater_eq a b \<longleftrightarrow> \<not> ipv6_less a b"

section \<open>Addresses and endpoints of either kind\<close>

datatype ip_address = Address4 ipv4_address | Address6 ipv6_address

fun address_is_ipv4 :: "ip_address \<Rightarrow> bool" where
  "address_is_ipv4 (Address4 a) = True"
| "address_is_ipv4 (Address6 a) = False"

fun address_is_ipv6 :: "ip_address \<Rightarrow> bool" where
  "address_is_ipv6 (Address4 a) = False"
| "address_is_ipv6 (Address6 a) = True"

fun address_to_ipv4 :: "ip_address \<Rightarrow> ipv4_address res" where
  "address_to_ipv4 (Address4 a) = Inr a"
| "address_to_ipv4 (Address6 a) = Inl Assert_Failed"

fun address_to_ipv6 :: "ip_address \<Rightarrow> ipv6_address res" where
  "address_to_ipv6 (Address4 a) = Inl Assert_Failed"
| "address_to_ipv6 (Address6 a) = Inr a"

record ipv4_endpoint =
  address4 :: ipv4_address
  port4 :: u16

record ipv6_endpoint =
  address6 :: ipv6_address
  port6 :: u16

datatype ip_endpoint = Endpoint4 ipv4_endpoint | Endpoint6 ipv6_endpoint

definition endpoint_default :: ip_endpoint where
  "endpoint_default = Endpoint4 \<lparr>address4 = ipv4_any, port4 = 0\<rparr>"

fun is_ipv4 :: "ip_endpoint \<Rightarrow> bool" where
  "is_ipv4 (Endpoint4 ep) = True"
| "is_ipv4 (Endpoint6 ep) = False"

fun is_ipv6 :: "ip_endpoint \<Rightarrow> bool" where
  "is_ipv6 (Endpoint4 ep) = False"
| "is_ipv6 (Endpoint6 ep) = True"

fun to_ipv4 :: "ip_endpoint \<Rightarrow> ipv4_endpoint res" where
  "to_ipv4 (Endpoint4 ep) = Inr ep"
| "to_ipv4 (Endpoint6 ep) = Inl Assert_Failed"

fun to_ipv6 :: "ip_endpoint \<Rightarrow> ipv6_endpoint res" where
  "to_ipv6 (Endpoint4 ep) = Inl Assert_Failed"
| "to_ipv6 (Endpoint6 ep) = Inr ep"

section \<open>Properties\<close>

text \<open>
  An IPv4 address and its 32-bit number determine each other, in both directions; the
  comparison operators order addresses as numbers, which is the order of their bytes from the
  first to the last.
\<close>

theorem ipv4_integer_bijection:
  "ipv4_of_integer (to_integer a) = a \<and> to_integer (ipv4_of_integer w) = w \<and>
   ipv4_of_bytes (ipv4_bytes a) = a \<and>
   (a < b \<longleftrightarrow> byte0 a < byte0 b \<or> byte0 a = byte0 b \<and> (byte1 a < byte1 b \<or>
     byte1 a = byte1 b \<and> (byte2 a < byte2 b \<or> byte2 a = byte2 b \<and> byte3 a < byte3 b)))"
  by (simp add: of_integer_to_integer to_integer_of_integer ipv4_of_bytes_def ipv4_bytes_def
      less_ipv4_address_def ipv4_less_bytes)

text \<open>On sequences of one length the comparison is the lexicographic order.\<close>

lemma ipv6_less_Cons:
  "length xs = length ys \<Longrightarrow> xs \<noteq> [] \<Longrightarrow>
     ipv6_less (x # xs) (y # ys) \<longleftrightarrow> x < y \<or> x = y \<and> ipv6_less xs ys"
  by (cases xs; cases ys) (auto simp: ipv6_less_def)

lemma ipv6_less_lexordp:
  "length xs = length ys \<Longrightarrow> ipv6_less xs ys \<longleftrightarrow> ord_class.lexordp xs ys"
proof (induction xs ys rule: list_induct2)
  case (Cons x xs y ys)
  then show ?case
    by (cases "xs = []") (auto simp: ipv6_less_Cons, auto simp: ipv6_less_def)
qed (simp add: ipv6_less_def)

text \<open>
  On IPv6 addresses, where \<open>operator<\<close> compares at the first of the leading fifteen bytes
  that differs and otherwise at the last byte, the comparison is a strict total order that
  agrees with \<open>operator==\<close>.
\<close>

theorem ipv6_less_total_order:
  assumes "length a = 16" and "length b = 16" and "length c = 16"
  shows "\<not> ipv6_less a a \<and> (ipv6_less a b \<longrightarrow> ipv6_less b c \<longrightarrow> ipv6_less a c) \<and>
    (ipv6_equal a b \<longleftrightarrow> \<not> ipv6_less a b \<and> \<not> ipv6_less b a)"
proof -
  have l: "ipv6_less a a = ord_class.lexordp a a" "ipv6_less a b = ord_class.lexordp a b"
    "ipv6_less b c = ord_class.lexordp b c" "ipv6_less a c = ord_class.lexordp a c"
    "ipv6_less b a = ord_class.lexordp b a"
    using assms by (simp_all add: ipv6_less_lexordp)
  have e: "ipv6_equal a b \<longleftrightarrow> a = b" by (simp add: ipv6_equal_def list.rel_eq)
  show ?thesis
    unfolding l e using lexordp_irreflexive' [of a] lexordp_irreflexive' [of b]
      lexordp_linear [of a b] lexordp_trans [of a b c] by auto
qed

lemma ipv6_less_total_order_witness:
  "\<not> ipv6_less ipv6_loopback ipv6_loopback \<and> ipv6_less ipv6_unspecified ipv6_loopback"
proof -
  have "length ipv6_loopback = 16" by code_simp
  then have "\<not> ipv6_less ipv6_loopback ipv6_loopback"
    using ipv6_less_total_order [of ipv6_loopback ipv6_loopback ipv6_loopback] by blast
  moreover have "ipv6_less ipv6_unspecified ipv6_loopback" by code_simp
  ultimately show ?thesis by simp
qed

lemma join_bytes64: "join64 (bytes64 w) = w"
proof (rule bit_word_eqI)
  fix n
  assume n: "n < LENGTH(64)"
  let ?b = "\<lambda>k. push_bit k (ucast (ucast (drop_bit k w) :: u8)) :: u64"
  have j: "join64 (bytes64 w) = ?b 56 OR ?b 48 OR ?b 40 OR ?b 32 OR ?b 24 OR ?b 16 OR ?b 8 OR ?b 0"
    by (simp add: join64_def bytes64_def or.assoc)
  have "bit (join64 (bytes64 w)) n \<longleftrightarrow>
      (\<exists>k \<in> {56, 48, 40, 32, 24, 16, 8, 0}. k \<le> n \<and> n < k + 8 \<and> bit w n)"
    unfolding j bit_or_iff bit_byte_at using n by simp
  moreover have "\<exists>k \<in> {56, 48, 40, 32, 24, 16, 8, 0}. k \<le> n \<and> n < k + 8"
    using n by simp arith
  ultimately show "bit (join64 (bytes64 w)) n = bit w n" by blast
qed

text \<open>
  What three IPv6 members do to the bytes. The constructor from a subnet and an interface
  number stores all 128 bits, but \<open>subnet()\<close> and \<open>interface()\<close> return only the low half of
  each, and the constructor from sixteen bytes stores them only when the last is 15.
\<close>

theorem ipv6_members_lose_bits:
  "subnet (ipv6_of_parts s i) = ucast s \<and> interface_id (ipv6_of_parts s i) = ucast i \<and>
   join64 (take 8 (ipv6_of_parts s i)) = s \<and> join64 (take 8 (drop 8 (ipv6_of_parts s i))) = i \<and>
   (length a = 16 \<longrightarrow> (ipv6_of_16_bytes a = a \<longleftrightarrow> a ! 15 = 15))"
proof -
  have len: "length (bytes64 w) = 8" for w by (simp add: bytes64_def)
  have "ipv6_of_16_bytes a = a \<longleftrightarrow> a ! 15 = 15" if "length a = 16"
  proof -
    have "a = map (\<lambda>i. a ! i) [0..<15] @ [a ! 15]"
      using that by (intro nth_equalityI) (auto simp: nth_append less_Suc_eq numeral_eq_Suc)
    then show ?thesis unfolding ipv6_of_16_bytes_def by (metis append_same_eq append_eq_conv_conj last_snoc)
  qed
  then show ?thesis
    by (simp add: subnet_def interface_id_def ipv6_of_parts_def len join_bytes64)
qed

lemma ipv6_members_lose_bits_witness:
  "subnet (ipv6_of_parts 0x20010db800000000 1) = 0 \<and> ipv6_of_16_bytes ipv6_loopback \<noteq> ipv6_loopback"
proof -
  have "length ipv6_loopback = 16" "ipv6_loopback ! 15 = 1" by code_simp+
  then show ?thesis
    using ipv6_members_lose_bits [of "0x20010db800000000" 1 ipv6_loopback] by simp
qed

end
