(* ===== verification/Io_Service.thy ===== *)
theory Io_Service
  imports Ptl_Prelude
begin

text \<open>
  The event service of \<open>io_service/detail/io_service_impl.hpp\<close> and \<open>src/io_service.cpp\<close>: the
  state of one descriptor and its libev watcher, and the list of process watchers. The event
  loop itself (libev) is not modelled: its calls to the two callbacks are inputs, and what the
  code asks of it (init, set, start, stop of a watcher) is recorded in the watcher's fields.
  The wrappers of the socket calls return what the kernel returned, as an error code when it
  is negative.
\<close>

section \<open>Descriptors\<close>

datatype io_kind = Io_None | Io_Read | Io_Write

definition io_kind_int :: "io_kind \<Rightarrow> u32" where
  "io_kind_int k = (case k of Io_None \<Rightarrow> 0 | Io_Read \<Rightarrow> 1 | Io_Write \<Rightarrow> 2)"

text \<open>The event bits of libev.\<close>

definition EV_READ :: u32 where "EV_READ = 1"
definition EV_WRITE :: u32 where "EV_WRITE = 2"

text \<open>
  \<open>descriptor_service_data\<close> with its watcher: the events the watcher asks for and whether it
  has been started. An operation is identified by a number; \<open>None\<close> is \<open>nullptr\<close>.
\<close>

record descriptor_service_data =
  descriptor :: int
  ev_events :: u32
  ev_active :: bool
  registered_events :: u32
  current_io :: io_kind
  current_op :: "nat option"

definition register_descriptor :: "int \<Rightarrow> descriptor_service_data" where
  "register_descriptor fd =
     \<lparr>descriptor = fd, ev_events = EV_READ, ev_active = False, registered_events = EV_READ,
      current_io = Io_None, current_op = None\<rparr>"

definition deregister_descriptor :: "descriptor_service_data \<Rightarrow> descriptor_service_data" where
  "deregister_descriptor data = data\<lparr>ev_active := False\<rparr>"

text \<open>
  \<open>start_io\<close> calls \<open>ev_io_set\<close> also when the watcher is active, which libev does not allow: it then
  neither asks the kernel for the new events nor says what it does. \<open>ev_events\<close> is what the watcher
  was last told to watch; the events that reach the callback are inputs of every model.
\<close>

definition start_io ::
  "io_kind \<Rightarrow> nat \<Rightarrow> descriptor_service_data \<Rightarrow> descriptor_service_data" where
  "start_io kind op data =
     (let data = data\<lparr>current_io := kind, current_op := Some op\<rparr>;
          data = (if kind = Io_Write \<and> registered_events data AND EV_WRITE = 0
                  then data\<lparr>ev_events := EV_READ OR EV_WRITE,
                            registered_events := registered_events data OR EV_WRITE\<rparr>
                  else data)
      in data\<lparr>ev_active := True\<rparr>)"

definition stop_io :: "descriptor_service_data \<Rightarrow> descriptor_service_data" where
  "stop_io data = data\<lparr>ev_active := False, current_io := Io_None, current_op := None\<rparr>"

text \<open>
  The callback: \<open>None\<close> when it does nothing, otherwise the operation whose \<open>work\<close> it calls, or
  a call through \<open>nullptr\<close>.
\<close>

definition ev_notification :: "u32 \<Rightarrow> descriptor_service_data \<Rightarrow> nat res option" where
  "ev_notification events data =
     (if events AND io_kind_int (current_io data) = io_kind_int (current_io data)
      then Some (case current_op data of None \<Rightarrow> Inl Bad_Access | Some op \<Rightarrow> Inr op)
      else None)"

text \<open>What libev reports: an active watcher is called with a nonempty part of its events.\<close>

definition ev_reports :: "u32 \<Rightarrow> descriptor_service_data \<Rightarrow> bool" where
  "ev_reports events data \<longleftrightarrow>
     ev_active data \<and> events \<noteq> 0 \<and> events AND ev_events data = events"

definition watch_ok :: "descriptor_service_data \<Rightarrow> bool" where
  "watch_ok data \<longleftrightarrow>
     registered_events data = ev_events data \<and>
     (ev_events data = EV_READ \<or> ev_events data = (EV_READ OR EV_WRITE)) \<and>
     (ev_active data \<longrightarrow> current_io data \<noteq> Io_None \<and> current_op data \<noteq> None) \<and>
     (current_io data = Io_Write \<longrightarrow> ev_events data AND EV_WRITE \<noteq> 0)"

datatype descriptor_call = Start_Io io_kind nat | Stop_Io | Deregister

fun descriptor_step :: "descriptor_call \<Rightarrow> descriptor_service_data \<Rightarrow> descriptor_service_data" where
  "descriptor_step (Start_Io kind op) data = start_io kind op data"
| "descriptor_step Stop_Io data = stop_io data"
| "descriptor_step Deregister data = deregister_descriptor data"

lemma event_masks [simp]:
  "EV_READ AND EV_WRITE = 0" "(EV_READ OR EV_WRITE) AND EV_WRITE = EV_WRITE" "EV_WRITE \<noteq> 0"
  "EV_READ AND EV_READ = EV_READ" "(EV_READ OR EV_WRITE) AND EV_READ = EV_READ" "EV_READ \<noteq> 0"
  "EV_READ OR EV_WRITE OR EV_WRITE = EV_READ OR EV_WRITE" "EV_READ \<noteq> EV_READ OR EV_WRITE"
  by (simp_all add: EV_READ_def EV_WRITE_def)

lemma watch_ok_register: "watch_ok (register_descriptor fd)"
  by (simp add: watch_ok_def register_descriptor_def)

lemma watch_ok_start: "watch_ok data \<Longrightarrow> kind \<noteq> Io_None \<Longrightarrow> watch_ok (start_io kind op data)"
  by (cases kind) (auto simp: watch_ok_def start_io_def Let_def)

lemma watch_ok_step:
  assumes "watch_ok data" and "\<forall>op. c \<noteq> Start_Io Io_None op"
  shows "watch_ok (descriptor_step c data)"
  using assms watch_ok_start [OF assms(1)]
  by (cases c) (auto simp: watch_ok_def stop_io_def deregister_descriptor_def)

lemma watch_ok_fold:
  "watch_ok data \<Longrightarrow> \<forall>c \<in> set cs. \<forall>op. c \<noteq> Start_Io Io_None op \<Longrightarrow>
     watch_ok (fold descriptor_step cs data)"
  by (induction cs arbitrary: data) (simp_all add: watch_ok_step)

section \<open>Processes\<close>

record process_service_data =
  pid :: int
  rc :: int
  notification :: "nat option"

text \<open>The data of subprocesses by number, and \<open>process_watchers_\<close>.\<close>

record process_state =
  processes :: "nat \<Rightarrow> process_service_data"
  process_watchers :: "nat list"

definition register_process_notification :: "int \<Rightarrow> nat \<Rightarrow> process_state \<Rightarrow> process_state" where
  "register_process_notification p d s =
     s\<lparr>processes := (processes s)(d := (processes s d)\<lparr>pid := p\<rparr>)\<rparr>"

definition start_notification :: "nat \<Rightarrow> nat \<Rightarrow> process_state \<Rightarrow> process_state" where
  "start_notification d op s =
     s\<lparr>processes := (processes s)(d := (processes s d)\<lparr>notification := Some op\<rparr>),
       process_watchers := process_watchers s @ [d]\<rparr>"

definition stop_notification :: "nat \<Rightarrow> process_state \<Rightarrow> process_state" where
  "stop_notification d s = s\<lparr>process_watchers := filter (\<lambda>e. e \<noteq> d) (process_watchers s)\<rparr>"

definition deregister_process_notification :: "nat \<Rightarrow> process_state \<Rightarrow> process_state" where
  "deregister_process_notification d s = stop_notification d s"

text \<open>The loop over the watchers, which stops at the first one of the process that changed.\<close>

fun process_change :: "int \<Rightarrow> int \<Rightarrow> nat list \<Rightarrow> process_state
    \<Rightarrow> process_state \<times> nat res option" where
  "process_change rpid rstatus [] s = (s, None)"
| "process_change rpid rstatus (i # is) s =
     (if pid (processes s i) = rpid then
        (s\<lparr>processes := (processes s)(i := (processes s i)\<lparr>rc := rstatus\<rparr>)\<rparr>,
         Some (case notification (processes s i) of None \<Rightarrow> Inl Bad_Access | Some op \<Rightarrow> Inr op))
      else process_change rpid rstatus is s)"

definition ev_process_change :: "int \<Rightarrow> int \<Rightarrow> process_state \<Rightarrow> process_state \<times> nat res option" where
  "ev_process_change rpid rstatus s = process_change rpid rstatus (process_watchers s) s"

definition watchers_notify :: "process_state \<Rightarrow> bool" where
  "watchers_notify s \<longleftrightarrow> (\<forall>d \<in> set (process_watchers s). notification (processes s d) \<noteq> None)"

datatype process_call = Register int nat | Start nat nat | Stop nat

fun process_step :: "process_call \<Rightarrow> process_state \<Rightarrow> process_state" where
  "process_step (Register p d) s = register_process_notification p d s"
| "process_step (Start d op) s = start_notification d op s"
| "process_step (Stop d) s = deregister_process_notification d s"

lemma watchers_notify_step: "watchers_notify s \<Longrightarrow> watchers_notify (process_step c s)"
  by (cases c)
    (auto simp: watchers_notify_def register_process_notification_def start_notification_def
      stop_notification_def deregister_process_notification_def)

lemma watchers_notify_fold: "watchers_notify s \<Longrightarrow> watchers_notify (fold process_step cs s)"
  by (induction cs arbitrary: s) (simp_all add: watchers_notify_step)

lemma process_change_finds:
  "process_change rpid rstatus is s =
     (case find (\<lambda>i. pid (processes s i) = rpid) is of
        None \<Rightarrow> (s, None)
      | Some i \<Rightarrow>
          (s\<lparr>processes := (processes s)(i := (processes s i)\<lparr>rc := rstatus\<rparr>)\<rparr>,
           Some (case notification (processes s i) of None \<Rightarrow> Inl Bad_Access | Some op \<Rightarrow> Inr op)))"
  by (induction "is") auto

section \<open>System calls\<close>

text \<open>A call returns a nonnegative number, or fails with an error number.\<close>

datatype sys = Failed nat | Done nat

definition EAGAIN :: nat where "EAGAIN = 11"
definition EWOULDBLOCK :: nat where "EWOULDBLOCK = 11"
definition EINPROGRESS :: nat where "EINPROGRESS = 115"

text \<open>\<open>expected_void\<close>, \<open>expected_socket\<close> and \<open>expected_size_t\<close>: an error code or a value.\<close>

definition wrap_void :: "sys \<Rightarrow> nat + unit" where
  "wrap_void r = (case r of Failed e \<Rightarrow> Inl e | Done _ \<Rightarrow> Inr ())"

definition wrap_value :: "sys \<Rightarrow> nat + nat" where
  "wrap_value r = (case r of Failed e \<Rightarrow> Inl e | Done n \<Rightarrow> Inr n)"

text \<open>
  \<open>create_pair\<close> and \<open>create_socket\<close> throw a \<open>std::system_error\<close> on failure. Its code is the
  return value of the call, \<open>-1\<close>, not \<open>errno\<close>.
\<close>

definition create_socket :: "sys \<Rightarrow> int + nat" where
  "create_socket r = (case r of Failed e \<Rightarrow> Inl (- 1) | Done fd \<Rightarrow> Inr fd)"

section \<open>Properties\<close>

text \<open>
  On a descriptor whose callers start only reads and writes, an event the loop reports
  never calls through a null operation; and it calls an operation exactly when the events
  include the kind the last \<open>start_io\<close> asked for, which is then the operation called. In
  particular a descriptor that waits to write does not react to readability.
\<close>

theorem notification_reaches_started_operation:
  assumes "\<forall>c \<in> set cs. \<forall>op. c \<noteq> Start_Io Io_None op"
    and "data = fold descriptor_step cs (register_descriptor fd)" and "ev_reports events data"
  shows "ev_notification events data =
    (if events AND io_kind_int (current_io data) \<noteq> 0 then Some (Inr (the (current_op data))) else None) \<and>
    current_op data \<noteq> None"
proof -
  have ok: "watch_ok data"
    using watch_ok_fold [OF watch_ok_register assms(1)] assms(2) by simp
  then have a: "current_io data \<noteq> Io_None" "current_op data \<noteq> None"
    using assms(3) by (auto simp: watch_ok_def ev_reports_def)
  have "x AND 1 = 0 \<or> x AND 1 = 1" "x AND 2 = 0 \<or> x AND 2 = 2" for x :: u32
  proof -
    have "x AND 1 = (if bit x 0 then 1 else 0)"
      by (rule bit_word_eqI) (auto simp: bit_simps bit_1_iff intro!: gr0I)
    then show "x AND 1 = 0 \<or> x AND 1 = 1" by simp
    have "x AND 2 = (if bit x 1 then 2 else 0)"
      by (rule bit_word_eqI) (auto simp: bit_simps bit_2_iff)
    then show "x AND 2 = 0 \<or> x AND 2 = 2" by simp
  qed
  then show ?thesis
    using a by (cases "current_io data") (auto simp: ev_notification_def io_kind_int_def)
qed

lemma notification_reaches_started_operation_witness:
  "ev_notification EV_WRITE (start_io Io_Write 7 (register_descriptor 3)) = Some (Inr 7)"
proof -
  have "ev_reports EV_WRITE (start_io Io_Write 7 (register_descriptor 3))"
    by (simp add: ev_reports_def start_io_def register_descriptor_def EV_READ_def EV_WRITE_def)
  from notification_reaches_started_operation [of "[Start_Io Io_Write 7]" _ 3, OF _ _ this]
  show ?thesis
    by (simp add: start_io_def register_descriptor_def EV_READ_def EV_WRITE_def io_kind_int_def)
qed

text \<open>
  When a child changes state, at most one watcher is told: the first in the list with the
  child's process id. Its status is stored, its operation is called, which is never null, and
  no other process's data change.
\<close>

theorem process_change_notifies_first:
  assumes "s = fold process_step cs \<lparr>processes = ps, process_watchers = []\<rparr>"
  shows "(case find (\<lambda>d. pid (processes s d) = rpid) (process_watchers s) of
      None \<Rightarrow> ev_process_change rpid rstatus s = (s, None)
    | Some d \<Rightarrow> \<exists>op. notification (processes s d) = Some op \<and>
        ev_process_change rpid rstatus s =
          (s\<lparr>processes := (processes s)(d := (processes s d)\<lparr>rc := rstatus\<rparr>)\<rparr>, Some (Inr op)))"
proof -
  have "watchers_notify s"
    using watchers_notify_fold [of "\<lparr>processes = ps, process_watchers = []\<rparr>" cs] assms
    by (simp add: watchers_notify_def)
  then have n: "\<exists>op. notification (processes s d) = Some op" if "d \<in> set (process_watchers s)" for d
    using that by (auto simp: watchers_notify_def)
  show ?thesis
  proof (cases "find (\<lambda>d. pid (processes s d) = rpid) (process_watchers s)")
    case None
    then show ?thesis by (simp add: ev_process_change_def process_change_finds)
  next
    case (Some d)
    then have "d \<in> set (process_watchers s)" by (metis find_Some_iff nth_mem)
    with Some show ?thesis using n [of d] by (auto simp: ev_process_change_def process_change_finds)
  qed
qed

lemma process_change_notifies_first_witness:
  "snd (ev_process_change 42 1 (fold process_step [Register 42 0, Start 0 7]
     \<lparr>processes = (\<lambda>_. \<lparr>pid = 0, rc = 0, notification = None\<rparr>), process_watchers = []\<rparr>)) = Some (Inr 7)"
  using process_change_notifies_first [OF refl, where cs = "[Register 42 0, Start 0 7]"
      and ps = "\<lambda>_. \<lparr>pid = 0, rc = 0, notification = None\<rparr>" and rpid = 42 and rstatus = 1]
  by (simp add: register_process_notification_def start_notification_def)

end
