(* ===== verification/Event_Loop.thy ===== *)
theory Event_Loop
  imports Io_Service
begin

text \<open>
  The class \<open>io_service_impl\<close> around \<open>Io_Service\<close> (\<open>src/io_service.cpp\<close>): its construction, the
  loop of \<open>run\<close> and \<open>stop\<close>, and the wrappers of the system calls. libev and the kernel are
  parameters: what one iteration of the event loop calls back, and what a call returns.
\<close>

section \<open>Running the loop\<close>

datatype ev_loop = Default_Loop | New_Loop nat

record io_service_impl =
  running :: bool
  event_loop :: ev_loop
  process_monitor :: bool   \<comment> \<open>whether \<open>ev_child_start\<close> is in effect\<close>

text \<open>
  The static counter of services and what libev answers: the first service takes the default
  loop, the others a new one. \<open>Inl ()\<close> is \<open>std::bad_alloc\<close>.
\<close>

definition io_service_construct ::
  "(nat \<Rightarrow> ev_loop option) \<Rightarrow> nat \<Rightarrow> (unit + io_service_impl) \<times> nat" where
  "io_service_construct libev services =
     (case libev services of
        None \<Rightarrow> (Inl (), services + 1)
      | Some lp \<Rightarrow> (Inr \<lparr>running = True, event_loop = lp, process_monitor = False\<rparr>, services + 1))"

definition io_service_stop :: "io_service_impl \<Rightarrow> io_service_impl" where
  "io_service_stop s = s\<lparr>running := False, process_monitor := False\<rparr>"

text \<open>
  One \<open>ev_run(EVRUN_ONCE)\<close> makes a list of callbacks; a callback changes the client's state
  and may call \<open>stop\<close>. The iterations the loop would make are a list; \<open>None\<close> is a loop that has
  not ended when the list does.
\<close>

type_synonym 's callback = "'s \<Rightarrow> 's \<times> bool"

fun run_callbacks :: "'s callback list \<Rightarrow> 's \<Rightarrow> io_service_impl \<Rightarrow> 's \<times> io_service_impl" where
  "run_callbacks [] c s = (c, s)"
| "run_callbacks (f # fs) c s =
     (case f c of (c, stops) \<Rightarrow> run_callbacks fs c (if stops then io_service_stop s else s))"

fun run_loop :: "'s callback list list \<Rightarrow> 's \<Rightarrow> io_service_impl \<Rightarrow> ('s \<times> io_service_impl) option" where
  "run_loop [] c s = (if running s then None else Some (c, s))"
| "run_loop (once # rest) c s =
     (if running s then (case run_callbacks once c s of (c, s) \<Rightarrow> run_loop rest c s) else Some (c, s))"

definition io_service_run :: "'s callback list list \<Rightarrow> 's \<Rightarrow> io_service_impl \<Rightarrow> ('s \<times> io_service_impl) option" where
  "io_service_run iterations c s = run_loop iterations c (s\<lparr>process_monitor := True\<rparr>)"

text \<open>What the callbacks do to the client, and whether one of them stops the service.\<close>

definition client_after :: "'s callback list \<Rightarrow> 's \<Rightarrow> 's" where
  "client_after fs c = fold (\<lambda>f c. fst (f c)) fs c"

fun stops_in :: "'s callback list \<Rightarrow> 's \<Rightarrow> bool" where
  "stops_in [] c \<longleftrightarrow> False"
| "stops_in (f # fs) c \<longleftrightarrow> snd (f c) \<or> stops_in fs (fst (f c))"

lemma run_callbacks_result:
  "run_callbacks fs c s = (client_after fs c, if stops_in fs c then io_service_stop s else s)"
proof (induction fs arbitrary: c s)
  case (Cons f fs)
  have "io_service_stop (io_service_stop s) = io_service_stop s" by (simp add: io_service_stop_def)
  then show ?case by (cases "f c") (auto simp: Cons.IH client_after_def)
qed (simp add: client_after_def)

lemma run_until_stop:
  assumes "running s" and "\<forall>i<n. \<not> stops_in (its ! i) (client_after (concat (take i its)) c)"
    and "n < length its" and "stops_in (its ! n) (client_after (concat (take n its)) c)"
  shows "io_service_run its c s = Some (client_after (concat (take (Suc n) its)) c, io_service_stop s)"
proof -
  have step: "client_after (xs @ ys) c = client_after ys (client_after xs c)" for xs ys and c :: 'a
    by (simp add: client_after_def)
  have "run_loop its c s = Some (client_after (concat (take (Suc n) its)) c, io_service_stop s)"
    if "running s" for s
    using that assms(2-4)
  proof (induction n arbitrary: its c)
    case 0
    then show ?case
      by (cases its; cases "tl its")
        (auto simp: run_callbacks_result client_after_def io_service_stop_def)
  next
    case (Suc n)
    then obtain once rest where its: "its = once # rest" by (cases its) auto
    have "\<not> stops_in once c" using Suc.prems(2) its by (auto simp: client_after_def dest: spec [of _ 0])
    moreover have "\<not> stops_in (rest ! i) (client_after (concat (take i rest)) (client_after once c))"
      if "i < n" for i
      using spec [OF Suc.prems(2), of "Suc i"] that its by (simp add: step)
    ultimately show ?case
      using Suc.IH [of rest "client_after once c"] Suc.prems(1,3,4) its
      by (simp add: run_callbacks_result step)
  qed
  from this [of "s\<lparr>process_monitor := True\<rparr>"] show ?thesis
    using assms(1) by (simp add: io_service_run_def io_service_stop_def)
qed

text \<open>
  \<open>run\<close> returns exactly when some iteration stops the service, at the end of the first such
  iteration: the callbacks of all iterations up to it have run once, in order, those of later
  iterations have not; and the process monitor is off.
\<close>

theorem run_ends_with_stop:
  assumes "running s" and "\<forall>i<n. \<not> stops_in (its ! i) (client_after (concat (take i its)) c)"
    and "n < length its" and "stops_in (its ! n) (client_after (concat (take n its)) c)"
  shows "io_service_run its c s = Some (client_after (concat (take (Suc n) its)) c, io_service_stop s)"
  using assms by (rule run_until_stop)

lemma run_ends_with_stop_witness:
  "io_service_run [[\<lambda>c. (c + 1, False)], [\<lambda>c. (c + 2, True), \<lambda>c. (c + 4, False)], [\<lambda>c. (c + 8, False)]] (0 :: nat)
     \<lparr>running = True, event_loop = Default_Loop, process_monitor = False\<rparr> =
   Some (7, \<lparr>running = False, event_loop = Default_Loop, process_monitor = False\<rparr>)"
proof -
  let ?its = "[[\<lambda>c. (c + 1, False)], [\<lambda>c. (c + 2, True), \<lambda>c. (c + 4, False)], [\<lambda>c. (c + 8, False)]]
    :: nat callback list list"
  have "\<forall>i<1. \<not> stops_in (?its ! i) (client_after (concat (take i ?its)) 0)"
    by (simp add: client_after_def)
  from run_ends_with_stop [OF _ this, of "\<lparr>running = True, event_loop = Default_Loop, process_monitor = False\<rparr>"]
  show ?thesis by (simp add: client_after_def io_service_stop_def)
qed

text \<open>A service that was stopped does not run again: \<open>run\<close> returns without an iteration.\<close>

lemma stopped_service_does_not_run:
  "io_service_run its c (io_service_stop s) = Some (c, (io_service_stop s)\<lparr>process_monitor := True\<rparr>)"
  by (cases its) (simp_all add: io_service_run_def io_service_stop_def)

section \<open>The system calls\<close>

text \<open>
  What the kernel does: the result of a call, and for the calls that write an address, the
  bytes and the length they write. Lengths reach the kernel as \<open>socklen_t\<close>, 32 bits.
\<close>

record kernel =
  sys_bind :: "int \<Rightarrow> u8 list \<Rightarrow> u32 \<Rightarrow> sys"
  sys_connect :: "int \<Rightarrow> u8 list \<Rightarrow> u32 \<Rightarrow> sys"
  sys_listen :: "int \<Rightarrow> int \<Rightarrow> sys"
  sys_accept :: "int \<Rightarrow> u32 \<Rightarrow> sys \<times> u8 list \<times> u32"
  sys_socketpair :: "nat + int \<times> int"
  sys_send :: "int \<Rightarrow> u8 list \<Rightarrow> int \<Rightarrow> sys"
  sys_recv :: "int \<Rightarrow> u64 \<Rightarrow> int \<Rightarrow> sys \<times> u8 list"
  sys_read :: "int \<Rightarrow> u64 \<Rightarrow> sys \<times> u8 list"
  sys_write :: "int \<Rightarrow> u8 list \<Rightarrow> sys"
  sys_shutdown :: "int \<Rightarrow> int \<Rightarrow> sys"
  sys_close :: "int \<Rightarrow> sys"
  sys_getsockname :: "int \<Rightarrow> u32 \<Rightarrow> sys \<times> u8 list \<times> u32"
  sys_getpeername :: "int \<Rightarrow> u32 \<Rightarrow> sys \<times> u8 list \<times> u32"

text \<open>Failing, \<open>create_pair\<close> throws a \<open>std::system_error\<close> with the code \<open>-1\<close>.\<close>

definition create_pair :: "kernel \<Rightarrow> int + int \<times> int" where
  "create_pair k = (case sys_socketpair k of Inl e \<Rightarrow> Inl (- 1) | Inr fds \<Rightarrow> Inr fds)"

definition impl_bind :: "kernel \<Rightarrow> int \<Rightarrow> u8 list \<Rightarrow> u64 \<Rightarrow> nat + unit" where
  "impl_bind k fd address len = wrap_void (sys_bind k fd address (ucast len))"

definition impl_connect :: "kernel \<Rightarrow> int \<Rightarrow> u8 list \<Rightarrow> u64 \<Rightarrow> nat + unit" where
  "impl_connect k fd address len = wrap_void (sys_connect k fd address (ucast len))"

definition impl_listen :: "kernel \<Rightarrow> int \<Rightarrow> int \<Rightarrow> nat + unit" where
  "impl_listen k fd backlog = wrap_void (sys_listen k fd backlog)"

text \<open>The caller's length, read before the call, is written only when the call succeeds.\<close>

definition impl_accept :: "kernel \<Rightarrow> int \<Rightarrow> u64 \<Rightarrow> (nat + nat) \<times> u8 list \<times> u64" where
  "impl_accept k fd address_len =
     (case sys_accept k fd (ucast address_len) of
        (Failed e, address, len) \<Rightarrow> (Inl e, address, address_len)
      | (Done r, address, len) \<Rightarrow> (Inr r, address, ucast len))"

text \<open>\<open>send\<close> and \<open>recv\<close> return the \<open>ssize_t\<close> itself; the caller looks at \<open>errno\<close>.\<close>

definition impl_send :: "kernel \<Rightarrow> int \<Rightarrow> u8 list \<Rightarrow> int \<Rightarrow> sys" where
  "impl_send k fd buffer flags = sys_send k fd buffer flags"

definition impl_recv :: "kernel \<Rightarrow> int \<Rightarrow> u64 \<Rightarrow> int \<Rightarrow> sys \<times> u8 list" where
  "impl_recv k fd sz flags = sys_recv k fd sz flags"

definition impl_read :: "kernel \<Rightarrow> int \<Rightarrow> u64 \<Rightarrow> (nat + nat) \<times> u8 list" where
  "impl_read k fd sz = (case sys_read k fd sz of (r, bytes) \<Rightarrow> (wrap_value r, bytes))"

definition impl_write :: "kernel \<Rightarrow> int \<Rightarrow> u8 list \<Rightarrow> nat + nat" where
  "impl_write k fd buffer = wrap_value (sys_write k fd buffer)"

definition impl_shutdown :: "kernel \<Rightarrow> int \<Rightarrow> int \<Rightarrow> nat + unit" where
  "impl_shutdown k fd how = wrap_void (sys_shutdown k fd how)"

definition impl_close :: "kernel \<Rightarrow> int \<Rightarrow> nat + unit" where
  "impl_close k fd = wrap_void (sys_close k fd)"

definition impl_getsockname :: "kernel \<Rightarrow> int \<Rightarrow> u64 \<Rightarrow> (nat + unit) \<times> u8 list \<times> u64" where
  "impl_getsockname k fd address_len =
     (case sys_getsockname k fd (ucast address_len) of
        (Failed e, address, len) \<Rightarrow> (Inl e, address, address_len)
      | (Done r, address, len) \<Rightarrow> (Inr (), address, ucast len))"

definition impl_getpeername :: "kernel \<Rightarrow> int \<Rightarrow> u64 \<Rightarrow> (nat + unit) \<times> u8 list \<times> u64" where
  "impl_getpeername k fd address_len =
     (case sys_getpeername k fd (ucast address_len) of
        (Failed e, address, len) \<Rightarrow> (Inl e, address, address_len)
      | (Done r, address, len) \<Rightarrow> (Inr (), address, ucast len))"

text \<open>A length of \<open>2^32\<close> or more reaches the kernel truncated.\<close>

lemma long_address_truncated:
  "impl_bind k fd address (2 ^ 32 + 16) = impl_bind k fd address 16"
proof -
  have "(ucast (2 ^ 32 + 16 :: u64) :: u32) = ucast (16 :: u64)" by simp
  then show ?thesis by (simp only: impl_bind_def)
qed

end
