(* ===== verification/Io_Operations.thy ===== *)
theory Io_Operations
  imports Io_Service
begin

text \<open>
  The awaitable operations of \<open>asio/socket_*_operation.hpp\<close> and their base
  \<open>io_service/detail/io_operation.hpp\<close>. Each has a \<open>begin\<close> (\<open>await_ready\<close>) and a \<open>work\<close> (the
  notification); both make one system call. A \<open>recv\<close> or \<open>read\<close> call is a function of the length
  the operation passes, and the bytes it gives are stored at the address it passes; of the other
  calls the result is the input. What they do to the awaiting coroutine is a \<open>progress\<close>.

  Sizes are below \<open>2^31\<close>, so that the \<open>int\<close> the results are stored in holds them.
\<close>

datatype progress =
    Ready              \<comment> \<open>\<open>begin\<close> returned true: the coroutine goes on without suspending\<close>
  | Armed io_kind      \<comment> \<open>waits for the descriptor, through \<open>start_io\<close>\<close>
  | Parked             \<comment> \<open>waits, but nothing has been asked of the service\<close>
  | Resumed            \<comment> \<open>\<open>work\<close> resumed the coroutine\<close>

section \<open>Receiving\<close>

text \<open>
  \<open>buffer\<close> is the caller's memory from \<open>buffer_\<close> on; \<open>transferred\<close> is \<open>None\<close> until it is assigned
  (the constructor does not initialise it). A byte stored outside the memory makes the list longer.
\<close>

record recv_operation =
  buffer :: "u8 list"
  recv_size :: nat
  received :: nat
  recv_all :: bool
  recv_ec :: nat
  recv_transferred :: "nat option"

datatype recv_result = Recv_Failed nat | Recv_Bytes "u8 list"

type_synonym recv_call = "u64 \<Rightarrow> recv_result"

definition store_bytes :: "nat \<Rightarrow> u8 list \<Rightarrow> u8 list \<Rightarrow> u8 list" where
  "store_bytes at bs mem = take at mem @ bs @ drop (at + length bs) mem"

definition socket_recv_operation :: "u8 list \<Rightarrow> nat \<Rightarrow> bool \<Rightarrow> recv_operation" where
  "socket_recv_operation mem sz all =
     \<lparr>buffer = mem, recv_size = sz, received = 0, recv_all = all, recv_ec = 0,
      recv_transferred = None\<rparr>"

definition recv_begin :: "recv_call \<Rightarrow> recv_operation \<Rightarrow> recv_operation \<times> progress" where
  "recv_begin call op =
     (case call (of_nat (recv_size op)) of
        Recv_Failed e \<Rightarrow>
          if e = EAGAIN \<or> e = EWOULDBLOCK then (op, Armed Io_Read)
          else (op\<lparr>recv_ec := e\<rparr>, Ready)
      | Recv_Bytes bs \<Rightarrow>
          (let op = op\<lparr>buffer := store_bytes 0 bs (buffer op), received := length bs\<rparr>
           in if recv_all op \<and> received op < recv_size op then (op, Armed Io_Read)
              else (op, Ready)))"

text \<open>The space \<open>work\<close> passes: \<open>size_ - received_\<close> as a \<open>size_t\<close>.\<close>

definition recv_space :: "recv_operation \<Rightarrow> u64" where
  "recv_space op = of_nat (recv_size op) - of_nat (received op)"

definition recv_work :: "recv_call \<Rightarrow> recv_operation \<Rightarrow> recv_operation \<times> progress" where
  "recv_work call op =
     (case call (recv_space op) of
        Recv_Failed e \<Rightarrow> (op\<lparr>recv_ec := e\<rparr>, Resumed)
      | Recv_Bytes bs \<Rightarrow>
          (let op = op\<lparr>buffer := store_bytes (received op) bs (buffer op),
                       received := received op + length bs\<rparr>
           in if length bs > 0 \<and> recv_all op \<and> received op < recv_size op
              then (op, Armed Io_Read)
              else (op\<lparr>recv_transferred := Some (received op)\<rparr>, Resumed)))"

section \<open>Sending\<close>

record send_operation =
  send_size :: nat
  sent :: nat
  send_ec :: nat
  send_transferred :: "nat option"

definition socket_send_operation :: "nat \<Rightarrow> send_operation" where
  "socket_send_operation sz =
     \<lparr>send_size = sz, sent = 0, send_ec = 0, send_transferred = None\<rparr>"

definition send_begin :: "sys \<Rightarrow> send_operation \<Rightarrow> send_operation \<times> progress" where
  "send_begin r op =
     (case r of
        Failed e \<Rightarrow>
          if e = EAGAIN \<or> e = EWOULDBLOCK then (op, Armed Io_Write)
          else (op\<lparr>send_ec := e\<rparr>, Ready)
      | Done n \<Rightarrow> (op, Ready))"

definition send_work :: "sys \<Rightarrow> send_operation \<Rightarrow> send_operation \<times> progress" where
  "send_work r op =
     (case r of
        Failed e \<Rightarrow> (op\<lparr>send_ec := e\<rparr>, Resumed)
      | Done n \<Rightarrow>
          (op\<lparr>sent := send_size op, send_transferred := Some (send_size op)\<rparr>, Resumed))"

section \<open>Connecting, shutting down and accepting\<close>

text \<open>Of these operations only the error code is state; accepting also has the new descriptor.\<close>

definition connect_begin :: "nat + unit \<Rightarrow> nat \<Rightarrow> nat \<times> progress" where
  "connect_begin r ec =
     (case r of
        Inl e \<Rightarrow> if e = EINPROGRESS then (ec, Armed Io_Write) else (e, Ready)
      | Inr _ \<Rightarrow> (ec, Ready))"

definition connect_work :: "nat + unit \<Rightarrow> nat \<Rightarrow> nat \<times> progress" where
  "connect_work r ec = (case r of Inl e \<Rightarrow> (e, Resumed) | Inr _ \<Rightarrow> (ec, Resumed))"

definition shutdown_begin :: "nat + unit \<Rightarrow> nat \<Rightarrow> nat \<times> progress" where
  "shutdown_begin r ec =
     (case r of
        Inl e \<Rightarrow> if e = EINPROGRESS then (ec, Armed Io_Write) else (e, Ready)
      | Inr _ \<Rightarrow> (ec, Ready))"

definition shutdown_work :: "nat + unit \<Rightarrow> nat \<Rightarrow> nat \<times> progress" where
  "shutdown_work r ec = (case r of Inl e \<Rightarrow> (e, Resumed) | Inr _ \<Rightarrow> (ec, Resumed))"

record accept_operation =
  accepted :: nat
  accept_ec :: nat

definition socket_accept_operation :: accept_operation where
  "socket_accept_operation = \<lparr>accepted = 0, accept_ec = 0\<rparr>"

definition accept_begin :: "nat + nat \<Rightarrow> accept_operation \<Rightarrow> accept_operation \<times> progress" where
  "accept_begin r op =
     (case r of
        Inl e \<Rightarrow>
          if e = EINPROGRESS \<or> e = EAGAIN then (op, Armed Io_Read)
          else (op\<lparr>accept_ec := e\<rparr>, Ready)
      | Inr fd \<Rightarrow> (op\<lparr>accepted := fd\<rparr>, Ready))"

definition accept_work :: "nat + nat \<Rightarrow> accept_operation \<Rightarrow> accept_operation \<times> progress" where
  "accept_work r op =
     (case r of
        Inl e \<Rightarrow> (op\<lparr>accept_ec := e\<rparr>, Resumed)
      | Inr fd \<Rightarrow> (op\<lparr>accepted := fd\<rparr>, Resumed))"

section \<open>Subprocess operations\<close>

text \<open>
  \<open>process/process.hpp\<close>: reading, writing and waiting. \<open>subprocess::start_io\<close> has an empty
  body, so a read or write that would block parks. \<open>terminated_\<close> is never set, so waiting
  always asks for a notification.
\<close>

record pipe_operation =
  pipe_done :: "nat option"   \<comment> \<open>\<open>received_\<close> or \<open>written_\<close>\<close>
  pipe_ec :: nat

definition process_read_begin :: "nat + nat \<Rightarrow> pipe_operation \<Rightarrow> pipe_operation \<times> progress" where
  "process_read_begin r op =
     (case r of
        Inl e \<Rightarrow>
          if e = EAGAIN \<or> e = EWOULDBLOCK then (op, Parked)
          else (op\<lparr>pipe_ec := e\<rparr>, Ready)
      | Inr n \<Rightarrow> (op\<lparr>pipe_done := Some n\<rparr>, Ready))"

definition process_read_work :: "nat + nat \<Rightarrow> pipe_operation \<Rightarrow> pipe_operation \<times> progress" where
  "process_read_work r op =
     (case r of
        Inl e \<Rightarrow> (op\<lparr>pipe_ec := e\<rparr>, Resumed)
      | Inr n \<Rightarrow> (op\<lparr>pipe_done := Some n\<rparr>, Resumed))"

definition process_write_begin :: "nat + nat \<Rightarrow> pipe_operation \<Rightarrow> pipe_operation \<times> progress" where
  "process_write_begin r op =
     (case r of
        Inl e \<Rightarrow>
          if e = EAGAIN \<or> e = EWOULDBLOCK then (op, Parked)
          else (op\<lparr>pipe_ec := e\<rparr>, Ready)
      | Inr n \<Rightarrow> (op\<lparr>pipe_done := Some n\<rparr>, Ready))"

definition process_write_work :: "nat + nat \<Rightarrow> pipe_operation \<Rightarrow> pipe_operation \<times> progress" where
  "process_write_work r op =
     (case r of
        Inl e \<Rightarrow> (op\<lparr>pipe_ec := e\<rparr>, Resumed)
      | Inr n \<Rightarrow> (op\<lparr>pipe_done := Some n\<rparr>, Resumed))"

section \<open>Awaiting\<close>

text \<open>
  \<open>await_resume\<close>: the branch for an error code builds the error and drops it (there is no
  \<open>return\<close>), so the result is always the operation's value; \<open>Undefined_Behaviour\<close> is a value
  that was never assigned.
\<close>

definition await_resume :: "nat \<Rightarrow> 'v res \<Rightarrow> (nat + 'v) res" where
  "await_resume ec get_return = res_bind get_return (\<lambda>v. Inr (Inr v))"

definition xfer_get_return :: "nat option \<Rightarrow> nat res" where
  "xfer_get_return transferred =
     (case transferred of None \<Rightarrow> Inl Undefined_Behaviour | Some n \<Rightarrow> Inr n)"

text \<open>
  The life of an operation: \<open>begin\<close> on the first result, then one \<open>work\<close> for each notification
  as long as it is armed. The second component is the list of what happened.
\<close>

fun notified :: "('r \<Rightarrow> 'op \<Rightarrow> 'op \<times> progress) \<Rightarrow> 'r list \<Rightarrow> 'op \<Rightarrow> 'op \<times> progress list" where
  "notified work [] op = (op, [])"
| "notified work (r # rs) op =
     (case work r op of
        (op', Armed k) \<Rightarrow> (case notified work rs op' of (op'', ps) \<Rightarrow> (op'', Armed k # ps))
      | (op', p) \<Rightarrow> (op', [p]))"

definition await_operation ::
  "('r \<Rightarrow> 'op \<Rightarrow> 'op \<times> progress) \<Rightarrow> ('r \<Rightarrow> 'op \<Rightarrow> 'op \<times> progress) \<Rightarrow> 'r \<Rightarrow> 'r list \<Rightarrow> 'op
     \<Rightarrow> 'op \<times> progress list" where
  "await_operation start work r rs op =
     (case start r op of
        (op', Armed k) \<Rightarrow> (case notified work rs op' of (op'', ps) \<Rightarrow> (op'', Armed k # ps))
      | (op', p) \<Rightarrow> (op', [p]))"

section \<open>The contract of an operation\<close>

text \<open>
  An awaiting coroutine must be resumed exactly once: \<open>begin\<close> lets it go on or arms the
  operation, \<open>work\<close> arms it again or resumes it.
\<close>

locale awaitable_operation =
  fixes start :: "'r \<Rightarrow> 'op \<Rightarrow> 'op \<times> progress" and work :: "'r \<Rightarrow> 'op \<Rightarrow> 'op \<times> progress"
  assumes start_law: "snd (start r op) = Ready \<or> (\<exists>k. snd (start r op) = Armed k)"
    and work_law: "snd (work r op) = Resumed \<or> (\<exists>k. snd (work r op) = Armed k)"
begin

lemma notified_resumes_once:
  "length (filter (\<lambda>p. p = Resumed) (snd (notified work rs op))) \<le> 1 \<and>
   Ready \<notin> set (snd (notified work rs op)) \<and> Parked \<notin> set (snd (notified work rs op)) \<and>
   (Resumed \<in> set (snd (notified work rs op)) \<longleftrightarrow>
     snd (notified work rs op) \<noteq> [] \<and> last (snd (notified work rs op)) = Resumed)"
proof (induction rs arbitrary: op)
  case (Cons r rs)
  obtain op' p where w: "work r op = (op', p)" by (cases "work r op")
  obtain op'' ps where n: "notified work rs op' = (op'', ps)" by (cases "notified work rs op'")
  from work_law [of r op] w consider "p = Resumed" | k where "p = Armed k" by auto
  then show ?case using Cons.IH [of op'] w n by cases auto
qed simp

lemma not_stuck:
  "snd (notified work rs op) = [] \<and> rs = [] \<or>
   (\<exists>k. last (snd (notified work rs op)) = Armed k \<and> length (snd (notified work rs op)) = length rs) \<or>
   snd (notified work rs op) \<noteq> [] \<and> last (snd (notified work rs op)) = Resumed"
proof (induction rs arbitrary: op)
  case (Cons r rs)
  obtain op' p where w: "work r op = (op', p)" by (cases "work r op")
  obtain op'' ps where n: "notified work rs op' = (op'', ps)" by (cases "notified work rs op'")
  from work_law [of r op] w consider "p = Resumed" | k where "p = Armed k" by auto
  then show ?case using Cons.IH [of op'] w n by cases auto
qed simp

lemma awaited_once:
  "(let ps = snd (await_operation start work r rs op)
    in ps = [Ready] \<or>
       (\<exists>k. hd ps = Armed k) \<and> length (filter (\<lambda>p. p = Resumed) ps) \<le> 1 \<and> Ready \<notin> set ps \<and>
       (last ps = Resumed \<or> (\<exists>k. last ps = Armed k) \<and> length ps = length rs + 1))"
proof -
  obtain op' p where s: "start r op = (op', p)" by (cases "start r op")
  obtain op'' ps where n: "notified work rs op' = (op'', ps)" by (cases "notified work rs op'")
  from start_law [of r op] s consider "p = Ready" | k where "p = Armed k" by auto
  then show ?thesis
    using notified_resumes_once [of rs op'] not_stuck [of rs op'] s n
    by cases (auto simp: await_operation_def)
qed

end

interpretation recv: awaitable_operation recv_begin recv_work
  by unfold_locales
    (auto simp: recv_begin_def recv_work_def Let_def split: recv_result.split)

interpretation send: awaitable_operation send_begin send_work
  by unfold_locales (auto simp: send_begin_def send_work_def split: sys.split)

interpretation connect: awaitable_operation connect_begin connect_work
  by unfold_locales (auto simp: connect_begin_def connect_work_def split: sum.split)

interpretation shut: awaitable_operation shutdown_begin shutdown_work
  by unfold_locales (auto simp: shutdown_begin_def shutdown_work_def split: sum.split)

interpretation accept: awaitable_operation accept_begin accept_work
  by unfold_locales (auto simp: accept_begin_def accept_work_def split: sum.split)

section \<open>Properties\<close>

definition resumes_once :: "nat \<Rightarrow> progress list \<Rightarrow> bool" where
  "resumes_once notifications ps \<longleftrightarrow>
     ps = [Ready] \<or>
     (\<exists>k. hd ps = Armed k) \<and> length (filter (\<lambda>p. p = Resumed) ps) \<le> 1 \<and> Ready \<notin> set ps \<and>
     (last ps = Resumed \<or> (\<exists>k. last ps = Armed k) \<and> length ps = notifications + 1)"

text \<open>
  An awaiting coroutine is never resumed twice and never left behind. Whatever the system
  calls return, receiving, sending, connecting, shutting down and accepting either let the
  coroutine go on at once, or arm the operation and then resume it at most once, as the last
  thing they do; as long as they have not, the operation has been armed again by every
  notification it got.
\<close>

theorem operations_resume_once:
  "resumes_once (length rs) (snd (await_operation recv_begin recv_work r rs op1)) \<and>
   resumes_once (length ss) (snd (await_operation send_begin send_work s ss op2)) \<and>
   resumes_once (length cs) (snd (await_operation connect_begin connect_work c cs ec)) \<and>
   resumes_once (length cs) (snd (await_operation shutdown_begin shutdown_work c cs ec)) \<and>
   resumes_once (length as) (snd (await_operation accept_begin accept_work a as op3))"
  using recv.awaited_once [of r rs op1] send.awaited_once [of s ss op2]
    connect.awaited_once [of c cs ec] shut.awaited_once [of c cs ec] accept.awaited_once [of a as op3]
  by (simp add: resumes_once_def Let_def)

subsection \<open>What a receive collects\<close>

text \<open>
  What the kernel documents of \<open>recv\<close> and \<open>read\<close>: it gives no more bytes than it was asked for,
  and the number of an error is not 0.
\<close>

definition kernel_call :: "recv_call \<Rightarrow> bool" where
  "kernel_call call \<longleftrightarrow>
     (\<forall>n. case call n of Recv_Failed e \<Rightarrow> e \<noteq> 0 | Recv_Bytes bs \<Rightarrow> length bs \<le> unat n)"

fun bytes_of :: "recv_result \<Rightarrow> u8 list" where
  "bytes_of (Recv_Failed e) = []"
| "bytes_of (Recv_Bytes bs) = bs"

definition stream :: "recv_result list \<Rightarrow> u8 list" where
  "stream rs = concat (map bytes_of rs)"

text \<open>
  The results of calls that ask one after the other for the space that is left of \<open>n\<close> bytes: what
  a reader of the stream makes of the calls, without a buffer or an operation.
\<close>

fun granted :: "nat \<Rightarrow> recv_call list \<Rightarrow> recv_result list" where
  "granted n [] = []"
| "granted n (call # calls) =
     (let r = call (of_nat n) in r # granted (n - length (bytes_of r)) calls)"

lemma stream_simps [simp]: "stream [] = []" "stream (r # rs) = bytes_of r @ stream rs"
  by (simp_all add: stream_def)

lemma kernel_call_fits:
  assumes "kernel_call call" and "n < 2 ^ 31"
  shows "length (bytes_of (call (of_nat n))) \<le> n"
proof -
  have "unat (of_nat n :: u64) = n" using assms(2) by (simp add: unsigned_of_nat take_bit_nat_eq_self)
  then show ?thesis
    using assms(1) [unfolded kernel_call_def, rule_format, of "of_nat n"]
    by (cases "call (of_nat n)") auto
qed

lemma kernel_call_error: "kernel_call call \<Longrightarrow> call n = Recv_Failed e \<Longrightarrow> e \<noteq> 0"
  by (auto simp: kernel_call_def split: recv_result.splits dest: spec [of _ n])

text \<open>
  The bytes \<open>got\<close> are at the front of the memory \<open>mem\<close>. Storing the next ones behind them keeps
  this, when there is room.
\<close>

definition holds :: "u8 list \<Rightarrow> u8 list \<Rightarrow> u8 list" where
  "holds got mem = got @ drop (length got) mem"

lemma holds_length: "length got \<le> length mem \<Longrightarrow> length (holds got mem) = length mem"
  by (simp add: holds_def)

lemma store_bytes_holds:
  "store_bytes (length got) bs (holds got mem) = holds (got @ bs) mem" "store_bytes 0 bs mem = holds bs mem"
  by (simp_all add: store_bytes_def holds_def add.commute)

definition recv_inv :: "nat \<Rightarrow> u8 list \<Rightarrow> u8 list \<Rightarrow> recv_operation \<Rightarrow> bool" where
  "recv_inv sz mem got op \<longleftrightarrow>
     recv_size op = sz \<and> received op = length got \<and> length got \<le> sz \<and> buffer op = holds got mem \<and>
     recv_ec op = 0 \<and> recv_transferred op = None"

text \<open>What has been collected when the results \<open>rs\<close> have been given and the operation did \<open>ps\<close>.\<close>

definition collected ::
  "nat \<Rightarrow> bool \<Rightarrow> u8 list \<Rightarrow> u8 list \<Rightarrow> recv_result list \<Rightarrow> progress list \<Rightarrow> recv_operation \<Rightarrow> bool" where
  "collected sz all mem got rs ps op \<longleftrightarrow>
     length got \<le> sz \<and> received op = length got \<and> buffer op = holds got mem \<and>
     recv_transferred op =
       (if ps \<noteq> [] \<and> last ps = Resumed \<and> recv_ec op = 0 then Some (length got) else None) \<and>
     (ps \<noteq> [] \<and> last ps = Resumed \<and> recv_ec op = 0 \<and> all \<longrightarrow> length got = sz \<or> last rs = Recv_Bytes [])"

lemma recv_inv_space: "recv_inv sz mem got op \<Longrightarrow> recv_space op = of_nat (sz - length got)"
  by (simp add: recv_inv_def recv_space_def of_nat_diff)

lemma length_granted [simp]: "length (granted n calls) = length calls"
  by (induction calls arbitrary: n) (simp_all add: Let_def)

lemma collected_armed:
  assumes "collected sz all mem got (take (length ps) rs) ps op" and "length ps \<le> length rs"
  shows "collected sz all mem got (r # take (length ps) rs) (Armed k # ps) op"
proof -
  have "take (length ps) rs \<noteq> []" if "ps \<noteq> []" using that assms(2) by auto
  then show ?thesis using assms(1) by (auto simp: collected_def)
qed

lemma recv_notified:
  assumes "recv_inv sz mem got op" and "sz < 2 ^ 31" and "\<forall>c \<in> set calls. kernel_call c"
    and "notified recv_work calls op = (op', ps)"
  shows "collected sz (recv_all op) mem (got @ stream (take (length ps) (granted (sz - length got) calls)))
      (take (length ps) (granted (sz - length got) calls)) ps op' \<and> length ps \<le> length calls"
  using assms(1,3,4)
proof (induction calls arbitrary: op got ps)
  case Nil
  then show ?case by (simp add: recv_inv_def collected_def)
next
  case (Cons c calls)
  let ?n = "sz - length got"
  have n: "recv_space op = of_nat ?n" by (rule recv_inv_space [OF Cons.prems(1)])
  have c: "kernel_call c" using Cons.prems(2) by simp
  show ?case
  proof (cases "c (of_nat ?n)")
    case (Recv_Failed e)
    then have "op' = op\<lparr>recv_ec := e\<rparr>" "ps = [Resumed]" "e \<noteq> 0"
      using Cons.prems(3) kernel_call_error [OF c] by (auto simp: recv_work_def n)
    then show ?thesis using Cons.prems(1) Recv_Failed by (simp add: recv_inv_def collected_def)
  next
    case (Recv_Bytes bs)
    let ?op = "op\<lparr>buffer := store_bytes (received op) bs (buffer op), received := received op + length bs\<rparr>"
    have got: "length got \<le> sz" using Cons.prems(1) by (simp add: recv_inv_def)
    have "length bs \<le> ?n" using kernel_call_fits [OF c, of ?n] assms(2) Recv_Bytes by simp
    with got have "length got + length bs \<le> sz" by linarith
    then have inv: "recv_inv sz mem (got @ bs) ?op"
      using Cons.prems(1) by (simp add: recv_inv_def store_bytes_holds)
    have r: "received ?op = length (got @ bs)" "recv_size ?op = sz"
      using Cons.prems(1) by (simp_all add: recv_inv_def)
    show ?thesis
    proof (cases "length bs > 0 \<and> recv_all op \<and> length (got @ bs) < sz")
      case True
      then have w: "recv_work c op = (?op, Armed Io_Read)"
        using Recv_Bytes r by (simp add: recv_work_def Let_def n)
      then obtain ps' where t: "notified recv_work calls ?op = (op', ps')" "ps = Armed Io_Read # ps'"
        using Cons.prems(3) by (auto split: prod.splits)
      have "\<forall>c \<in> set calls. kernel_call c" using Cons.prems(2) by simp
      from Cons.IH [OF inv this t(1)] show ?thesis
        using t(2) Recv_Bytes by (simp add: Let_def collected_armed)
    next
      case False
      then have "op' = ?op\<lparr>recv_transferred := Some (received ?op)\<rparr>" "ps = [Resumed]"
        using Cons.prems(3) Recv_Bytes r by (auto simp: recv_work_def Let_def n)
      then show ?thesis
        using False inv Recv_Bytes by (auto simp: recv_inv_def collected_def)
    qed
  qed
qed

lemma recv_collected:
  assumes "\<forall>c \<in> set (call # calls). kernel_call c" and "sz < 2 ^ 31"
    and "await_operation recv_begin recv_work call calls (socket_recv_operation mem sz all) = (op, ps)"
  shows "collected sz all mem (stream (take (length ps) (granted sz (call # calls))))
      (take (length ps) (granted sz (call # calls))) ps op \<and> ps \<noteq> []"
proof -
  let ?op = "socket_recv_operation mem sz all"
  have c: "kernel_call call" and cs: "\<forall>c \<in> set calls. kernel_call c" using assms(1) by simp_all
  have fit: "length (bytes_of (call (of_nat sz))) \<le> sz" by (rule kernel_call_fits [OF c assms(2)])
  show ?thesis
  proof (cases "snd (recv_begin call ?op) = Ready")
    case True
    then show ?thesis
      using assms(3) fit kernel_call_error [OF c]
      by (cases "call (of_nat sz)")
        (auto simp: await_operation_def recv_begin_def socket_recv_operation_def collected_def
          store_bytes_holds holds_def Let_def split: if_splits)
  next
    case False
    then obtain op1 where b: "recv_begin call ?op = (op1, Armed Io_Read)"
      by (cases "call (of_nat sz)")
        (auto simp: recv_begin_def socket_recv_operation_def Let_def split: if_splits)
    then have inv: "recv_inv sz mem (bytes_of (call (of_nat sz))) op1" and all: "recv_all op1 = all"
      using fit
      by (cases "call (of_nat sz)";
          auto simp: recv_begin_def socket_recv_operation_def recv_inv_def store_bytes_holds holds_def Let_def
            split: if_splits)+
    obtain ps' where t: "notified recv_work calls op1 = (op, ps')" "ps = Armed Io_Read # ps'"
      using assms(3) b by (auto simp: await_operation_def split: prod.splits)
    from recv_notified [OF inv assms(2) cs t(1)] show ?thesis
      using t(2) all by (simp add: Let_def collected_armed)
  qed
qed

text \<open>
  C25: a receive of at most \<open>sz\<close> bytes into memory of at least that size, when the kernel gives no
  more than it is asked for. Every call asks for exactly the space that is left. Of the memory the
  first bytes are those of the stream, in order, without gaps or repetitions, as many as
  \<open>received_\<close> says and at most \<open>sz\<close>; the rest is as it was. A coroutine that is resumed without an
  error is told the number of the bytes, and when it asked for the whole buffer then the buffer is
  full or the last call gave no bytes; a coroutine that goes on without having been suspended, and
  one whose receive fails, is told a number that was never assigned.
\<close>

theorem recv_collects_stream:
  assumes "\<forall>c \<in> set (call # calls). kernel_call c" and "sz < 2 ^ 31" and "sz \<le> length mem"
    and "await_operation recv_begin recv_work call calls (socket_recv_operation mem sz all) = (op, ps)"
  shows "let rs = take (length ps) (granted sz (call # calls)); got = stream rs
    in length got \<le> sz \<and> received op = length got \<and>
      length (buffer op) = length mem \<and> buffer op = got @ drop (length got) mem \<and>
      recv_transferred op =
        (if last ps = Resumed \<and> recv_ec op = 0 then Some (length got) else None) \<and>
      (last ps = Resumed \<and> recv_ec op = 0 \<and> all \<longrightarrow> length got = sz \<or> last rs = Recv_Bytes [])"
  using recv_collected [OF assms(1,2,4)] assms(3) by (simp add: collected_def holds_def Let_def)

text \<open>The kernel has two bytes, and then three more, of which there is room for two.\<close>

definition gives :: "u8 list \<Rightarrow> recv_call" where
  "gives bs n = Recv_Bytes (take (unat n) bs)"

lemma gives_kernel_call: "kernel_call (gives bs)"
  by (simp add: kernel_call_def gives_def)

lemma recv_collects_stream_witness:
  "\<exists>op. await_operation recv_begin recv_work (gives [1, 2]) [gives [3, 4, 5]]
       (socket_recv_operation [0, 0, 0, 0, 7] 4 True) = (op, [Armed Io_Read, Resumed]) \<and>
     buffer op = [1, 2, 3, 4, 7] \<and> recv_transferred op = Some 4"
proof -
  let ?op = "socket_recv_operation [0, 0, 0, 0, 7] 4 True"
  let ?r = "await_operation recv_begin recv_work (gives [1, 2]) [gives [3, 4, 5]] ?op"
  have r: "snd ?r = [Armed Io_Read, Resumed]" "recv_ec (fst ?r) = 0"
    by (simp_all add: await_operation_def recv_begin_def recv_work_def socket_recv_operation_def
        gives_def recv_space_def)
  have k: "\<forall>c \<in> set (gives [1, 2] # [gives [3, 4, 5]]). kernel_call c" by (simp add: gives_kernel_call)
  have "?r = (fst ?r, [Armed Io_Read, Resumed])" using r(1) by (metis prod.collapse)
  from recv_collects_stream [OF k _ _ this] have
    "buffer (fst ?r) = [1, 2, 3, 4, 7] \<and> recv_transferred (fst ?r) = Some 4"
    using r(2) by (simp add: Let_def gives_def)
  with r show ?thesis by (metis prod.collapse)
qed

subsection \<open>What the awaiting coroutine is told\<close>

text \<open>
  The results the awaiting coroutine sees. A refused connection is reported as a success,
  because \<open>await_resume\<close> drops the error it builds; a receive that completes without
  suspending reports a size that was never assigned; and a send reports the whole size however
  little the kernel took.
\<close>

theorem awaited_results_misreport:
  "(e \<noteq> EINPROGRESS \<longrightarrow>
      connect_begin (Inl e) 0 = (e, Ready) \<and> await_resume e (Inr ()) = Inr (Inr ())) \<and>
   (length bs = sz \<longrightarrow>
      (\<exists>op. recv_begin (\<lambda>_. Recv_Bytes bs) (socket_recv_operation mem sz True) = (op, Ready) \<and>
        await_resume (recv_ec op) (xfer_get_return (recv_transferred op)) = Inl Undefined_Behaviour)) \<and>
   (\<exists>op. send_work (Done n) (socket_send_operation sz) = (op, Resumed) \<and>
      await_resume (send_ec op) (xfer_get_return (send_transferred op)) = Inr (Inr sz))"
  by (auto simp: connect_begin_def await_resume_def recv_begin_def socket_recv_operation_def Let_def
      xfer_get_return_def send_work_def socket_send_operation_def)

lemma awaited_results_misreport_witness:
  "await_resume (fst (connect_begin (Inl 111) 0)) (Inr ()) = (Inr (Inr ()) :: (nat + unit) res)"
  using awaited_results_misreport [of 111] by (simp add: EINPROGRESS_def)

text \<open>
  A subprocess read or write that would block suspends its coroutine for ever: the operation
  asks nothing of the service, so no notification follows and the coroutine is never resumed.
\<close>

theorem blocked_pipe_never_resumes:
  "await_operation process_read_begin process_read_work (Inl EAGAIN) rs op = (op, [Parked]) \<and>
   await_operation process_write_begin process_write_work (Inl EAGAIN) rs op = (op, [Parked])"
  by (simp add: await_operation_def process_read_begin_def process_write_begin_def)

end
