(* ===== verification/Io_Session.thy ===== *)
theory Io_Session
  imports Io_Operations
begin

text \<open>
  An operation and the event service together: a coroutine awaits one operation on a freshly
  registered descriptor, \<open>begin\<close> and \<open>work\<close> arm it through \<open>start_io\<close>, and the events libev
  reports on the descriptor reach \<open>work\<close> through \<open>ev_notification\<close>. An event comes with the system
  call that \<open>work\<close> would make.
\<close>

section \<open>A session\<close>

text \<open>
  \<open>history\<close> lists what the operation did. After it let its coroutine go on it no longer exists:
  the service still has its address, and the call of \<open>work\<close> through it is \<open>Bad_Access\<close>.
\<close>

record 'op session =
  data :: descriptor_service_data
  operation :: 'op
  history :: "progress list"

definition arm :: "nat \<Rightarrow> progress \<Rightarrow> descriptor_service_data \<Rightarrow> descriptor_service_data" where
  "arm n p d = (case p of Armed k \<Rightarrow> start_io k n d | _ \<Rightarrow> d)"

definition session_begin ::
  "('r \<Rightarrow> 'op \<Rightarrow> 'op \<times> progress) \<Rightarrow> nat \<Rightarrow> 'r \<Rightarrow> 'op \<Rightarrow> descriptor_service_data \<Rightarrow> 'op session" where
  "session_begin start n r op d =
     (case start r op of
        (op', p) \<Rightarrow> \<lparr>data = arm n p d, operation = op', history = [p]\<rparr>)"

definition session_event ::
  "('r \<Rightarrow> 'op \<Rightarrow> 'op \<times> progress) \<Rightarrow> nat \<Rightarrow> u32 \<times> 'r \<Rightarrow> 'op session \<Rightarrow> 'op session res" where
  "session_event work n ev s =
     (if ev_reports (fst ev) (data s) \<and> ev_notification (fst ev) (data s) = Some (Inr n)
      then (case last (history s) of
              Armed _ \<Rightarrow>
                (case work (snd ev) (operation s) of
                   (op', p) \<Rightarrow>
                     Inr (s\<lparr>data := arm n p (data s), operation := op', history := history s @ [p]\<rparr>))
            | _ \<Rightarrow> Inl Bad_Access)
      else Inr s)"

definition feed_events ::
  "('r \<Rightarrow> 'op \<Rightarrow> 'op \<times> progress) \<Rightarrow> nat \<Rightarrow> (u32 \<times> 'r) list \<Rightarrow> 'op session res \<Rightarrow> 'op session res" where
  "feed_events work n evs s = fold (\<lambda>ev s. res_bind s (session_event work n ev)) evs s"

definition run_session ::
  "('r \<Rightarrow> 'op \<Rightarrow> 'op \<times> progress) \<Rightarrow> ('r \<Rightarrow> 'op \<Rightarrow> 'op \<times> progress) \<Rightarrow> nat \<Rightarrow> int
     \<Rightarrow> 'r \<Rightarrow> (u32 \<times> 'r) list \<Rightarrow> 'op \<Rightarrow> 'op session res" where
  "run_session start work n fd r evs op =
     feed_events work n evs (Inr (session_begin start n r op (register_descriptor fd)))"

lemma feed_events_simps [simp]:
  "feed_events work n [] s = s"
  "feed_events work n (ev # evs) s = feed_events work n evs (res_bind s (session_event work n ev))"
  "feed_events work n (evs @ evs') s = feed_events work n evs' (feed_events work n evs s)"
  by (simp_all add: feed_events_def)

lemma feed_events_fault [simp]: "feed_events work n evs (Inl f) = Inl f"
  by (induction evs) simp_all

text \<open>
  The events libev reports on a descriptor whose watcher waits for \<open>kind\<close>, and those of them the
  operation reacts to.
\<close>

definition watched :: "io_kind \<Rightarrow> u32" where
  "watched kind = (if kind = Io_Write then EV_READ OR EV_WRITE else EV_READ)"

definition effective :: "io_kind \<Rightarrow> u32 \<Rightarrow> bool" where
  "effective kind events \<longleftrightarrow>
     events \<noteq> 0 \<and> events AND watched kind = events \<and> events AND io_kind_int kind = io_kind_int kind"

definition results_of :: "io_kind \<Rightarrow> (u32 \<times> 'r) list \<Rightarrow> 'r list" where
  "results_of kind evs = map snd (filter (\<lambda>ev. effective kind (fst ev)) evs)"

text \<open>
  An operation that did \<open>ps\<close> was armed and has consumed \<open>length ps - 1\<close> results. When there are
  more of them, \<open>work\<close> is called on the finished operation.
\<close>

definition called_late :: "'r list \<Rightarrow> progress list \<Rightarrow> bool" where
  "called_late rs ps \<longleftrightarrow> ps \<noteq> [Ready] \<and> length ps \<le> length rs"

definition armed_for :: "io_kind \<Rightarrow> nat \<Rightarrow> descriptor_service_data \<Rightarrow> bool" where
  "armed_for kind n d \<longleftrightarrow>
     ev_active d \<and> ev_events d = watched kind \<and> registered_events d = watched kind \<and>
     current_io d = kind \<and> current_op d = Some n"

lemma armed_first: "kind \<noteq> Io_None \<Longrightarrow> armed_for kind n (start_io kind n (register_descriptor fd))"
  by (cases kind) (simp_all add: armed_for_def start_io_def register_descriptor_def watched_def Let_def)

lemma armed_again: "armed_for kind n d \<Longrightarrow> kind \<noteq> Io_None \<Longrightarrow> armed_for kind n (start_io kind n d)"
  by (cases kind) (simp_all add: armed_for_def start_io_def watched_def Let_def)

lemma armed_reacts:
  "armed_for kind n d \<Longrightarrow>
     (ev_reports events d \<and> ev_notification events d = Some (Inr n)) = effective kind events"
  by (auto simp: armed_for_def ev_reports_def ev_notification_def effective_def)

lemma idle_reports_nothing: "\<not> ev_reports events (register_descriptor fd)"
  by (simp add: ev_reports_def register_descriptor_def)

section \<open>The contract of an operation of one kind\<close>

text \<open>The kind is that of the operation and does not change while it is awaited.\<close>

locale one_kind_operation = awaitable_operation start work
  for start :: "'r \<Rightarrow> 'op \<Rightarrow> 'op \<times> progress" and work :: "'r \<Rightarrow> 'op \<Rightarrow> 'op \<times> progress" +
  fixes kind :: "'op \<Rightarrow> io_kind"
  assumes kind_law: "kind op \<noteq> Io_None"
    and start_kind: "start r op = (op', Armed k) \<Longrightarrow> k = kind op \<and> kind op' = kind op"
    and work_kind: "work r op = (op', Armed k) \<Longrightarrow> k = kind op \<and> kind op' = kind op"
begin

lemma finished_is_called:
  assumes "armed_for kd n (data s)" and "\<forall>k. last (history s) \<noteq> Armed k"
  shows "feed_events work n evs (Inr s) = (if results_of kd evs = [] then Inr s else Inl Bad_Access)"
proof (induction evs)
  case (Cons ev evs)
  have "session_event work n ev s = (if effective kd (fst ev) then Inl Bad_Access else Inr s)"
    using armed_reacts [OF assms(1)] assms(2) by (auto simp: session_event_def split: progress.split)
  then show ?case using Cons.IH by (simp add: results_of_def)
qed (simp add: results_of_def)

lemma waiting_runs:
  assumes "armed_for kd n (data s)" and "last (history s) = Armed k" and "kind (operation s) = kd"
    and "notified work (results_of kd evs) (operation s) = (op', ps)"
  shows "if length ps < length (results_of kd evs) then feed_events work n evs (Inr s) = Inl Bad_Access
    else \<exists>s'. feed_events work n evs (Inr s) = Inr s' \<and> operation s' = op' \<and> history s' = history s @ ps"
  using assms
proof (induction evs arbitrary: s k ps)
  case Nil
  then show ?case by (simp add: results_of_def)
next
  case (Cons ev evs)
  show ?case
  proof (cases "effective kd (fst ev)")
    case False
    then have "session_event work n ev s = Inr s" "results_of kd (ev # evs) = results_of kd evs"
      using armed_reacts [OF Cons.prems(1)] by (auto simp: session_event_def results_of_def)
    then show ?thesis using Cons.IH [OF Cons.prems(1-3)] Cons.prems(4) by simp
  next
    case True
    then have rs: "results_of kd (ev # evs) = snd ev # results_of kd evs"
      by (simp add: results_of_def)
    obtain op1 p where w: "work (snd ev) (operation s) = (op1, p)"
      by (cases "work (snd ev) (operation s)")
    let ?s = "s\<lparr>data := arm n p (data s), operation := op1, history := history s @ [p]\<rparr>"
    have e: "session_event work n ev s = Inr ?s"
      using True armed_reacts [OF Cons.prems(1)] Cons.prems(2) w by (simp add: session_event_def)
    from work_law [of "snd ev" "operation s"] w consider "p = Resumed" | k' where "p = Armed k'" by auto
    then show ?thesis
    proof cases
      case 1
      have "armed_for kd n (data ?s)" using Cons.prems(1) 1 by (simp add: arm_def)
      from finished_is_called [OF this, of evs] show ?thesis
        using Cons.prems(4) e rs w 1 by auto
    next
      case 2
      then have k': "k' = kd" "kind op1 = kd"
        using work_kind [of "snd ev" "operation s" op1 k'] w Cons.prems(3) by simp_all
      then have "armed_for kd n (data ?s)"
        using armed_again [OF Cons.prems(1)] kind_law [of "operation s"] Cons.prems(3) 2
        by (simp add: arm_def)
      moreover obtain ps' where "notified work (results_of kd evs) op1 = (op', ps')" "ps = Armed k' # ps'"
        using Cons.prems(4) rs w 2 by (auto split: prod.splits)
      ultimately show ?thesis using Cons.IH [of ?s k' ps'] e rs 2 k' by (simp split: if_splits)
    qed
  qed
qed

lemma session_is_operation:
  "let rs = results_of (kind op) evs; (op', ps) = await_operation start work r rs op;
       s = run_session start work n fd r evs op
   in if called_late rs ps then s = Inl Bad_Access
      else \<exists>s'. s = Inr s' \<and> operation s' = op' \<and> history s' = ps"
proof -
  obtain op1 p where b: "start r op = (op1, p)" by (cases "start r op")
  let ?s = "\<lparr>data = arm n p (register_descriptor fd), operation = op1, history = [p]\<rparr>"
  have e: "session_begin start n r op (register_descriptor fd) = ?s" using b by (simp add: session_begin_def)
  from start_law [of r op] b consider "p = Ready" | k where "p = Armed k" by auto
  then show ?thesis
  proof cases
    case 1
    have "feed_events work n evs (Inr ?s) = Inr ?s"
      using 1 idle_reports_nothing [of _ fd] by (induction evs) (simp_all add: session_event_def arm_def)
    then show ?thesis using 1 b e by (simp add: run_session_def await_operation_def called_late_def)
  next
    case 2
    then have k: "k = kind op" "kind op1 = kind op" using start_kind [of r op op1 k] b by simp_all
    obtain op' ps where n: "notified work (results_of (kind op) evs) op1 = (op', ps)"
      by (cases "notified work (results_of (kind op) evs) op1")
    have "armed_for (kind op) n (data ?s)" using armed_first [OF kind_law] 2 k by (simp add: arm_def)
    from waiting_runs [OF this, of k evs op' ps] show ?thesis
      using 2 b e n k(2)
      by (auto simp: run_session_def await_operation_def called_late_def Let_def split: if_splits)
  qed
qed

end

interpretation recv_session: one_kind_operation recv_begin recv_work "\<lambda>_. Io_Read"
  by unfold_locales
    (auto simp: recv_begin_def recv_work_def Let_def split: recv_result.splits if_splits)

interpretation send_session: one_kind_operation send_begin send_work "\<lambda>_. Io_Write"
  by unfold_locales (auto simp: send_begin_def send_work_def split: sys.splits if_splits)

interpretation connect_session: one_kind_operation connect_begin connect_work "\<lambda>_. Io_Write"
  by unfold_locales (auto simp: connect_begin_def connect_work_def split: sum.splits if_splits)

interpretation shutdown_session: one_kind_operation shutdown_begin shutdown_work "\<lambda>_. Io_Write"
  by unfold_locales (auto simp: shutdown_begin_def shutdown_work_def split: sum.splits if_splits)

interpretation accept_session: one_kind_operation accept_begin accept_work "\<lambda>_. Io_Read"
  by unfold_locales (auto simp: accept_begin_def accept_work_def split: sum.splits if_splits)

section \<open>Properties\<close>

text \<open>
  What a session must do: behave like the operation driven by the results of the effective events
  alone, unless one more of them comes than the operation consumes. The watcher is never stopped,
  so that event calls \<open>work\<close> on an operation that has ended.
\<close>

definition session_follows ::
  "('r \<Rightarrow> 'op \<Rightarrow> 'op \<times> progress) \<Rightarrow> ('r \<Rightarrow> 'op \<Rightarrow> 'op \<times> progress) \<Rightarrow> io_kind \<Rightarrow> nat \<Rightarrow> int
     \<Rightarrow> 'r \<Rightarrow> (u32 \<times> 'r) list \<Rightarrow> 'op \<Rightarrow> bool" where
  "session_follows start work kind n fd r evs op \<longleftrightarrow>
     (let rs = results_of kind evs; (op', ps) = await_operation start work r rs op;
          s = run_session start work n fd r evs op
      in if called_late rs ps then s = Inl Bad_Access
         else \<exists>s'. s = Inr s' \<and> operation s' = op' \<and> history s' = ps)"

text \<open>
  Whatever events libev reports on the descriptor of an awaited operation, in whatever order,
  the operation sees exactly those of the kind it waits for, in order, and does with them what
  it does alone: no event is lost, none of the other kind wakes it, and the coroutine goes on as
  \<open>await_operation\<close> says. After that, the next event of the kind is a call on the finished
  operation.
\<close>

theorem events_drive_operation:
  "session_follows recv_begin recv_work Io_Read n fd r1 evs1 op1 \<and>
   session_follows accept_begin accept_work Io_Read n fd r2 evs2 op2 \<and>
   session_follows send_begin send_work Io_Write n fd r3 evs3 op3 \<and>
   session_follows connect_begin connect_work Io_Write n fd r4 evs4 op4 \<and>
   session_follows shutdown_begin shutdown_work Io_Write n fd r5 evs5 op5"
  unfolding session_follows_def
  by (intro conjI recv_session.session_is_operation accept_session.session_is_operation
      send_session.session_is_operation connect_session.session_is_operation
      shutdown_session.session_is_operation)

text \<open>A receive that is complete is called again by the next readable event.\<close>

lemma finished_operation_called_again:
  "run_session recv_begin recv_work 7 3 (\<lambda>_. Recv_Failed EAGAIN)
     [(EV_READ, \<lambda>_. Recv_Bytes [1]), (EV_READ, \<lambda>_. Recv_Bytes [2])] (socket_recv_operation [0] 1 True) =
   Inl Bad_Access"
  by (simp add: run_session_def session_begin_def session_event_def recv_begin_def recv_work_def
      socket_recv_operation_def arm_def start_io_def register_descriptor_def ev_reports_def
      ev_notification_def io_kind_int_def EV_READ_def EV_WRITE_def)

end
