(* ===== verification/Countdown.thy ===== *)
theory Countdown
  imports Ptl_Prelude
begin

text \<open>
  The interface \<open>wait_all_counter\<close> and \<open>async_scope\<close> share: a counter that starts one
  above the outstanding work, a stored coroutine handle, and two ways to count down. The
  coroutine that waits stores its handle and counts down once (\<open>arrive\<close>, which says
  whether it suspends); every piece of work counts down when it finishes and resumes the
  handle when it was the last one.
\<close>

datatype wake = No_Wake | Wake "nat option"

datatype stage = Fresh | Stored | Arrived

locale countdown =
  fixes remaining :: "'s \<Rightarrow> u64" and continuation :: "'s \<Rightarrow> nat option"
    and store :: "nat \<Rightarrow> 's \<Rightarrow> 's" and arrive :: "'s \<Rightarrow> bool \<times> 's" and finish :: "'s \<Rightarrow> wake \<times> 's"
  assumes remaining_store: "remaining (store h s) = remaining s"
    and continuation_store: "continuation (store h s) = Some h"
    and arrive_law: "arrive s = (b, s') \<Longrightarrow>
      remaining s' = remaining s - 1 \<and> continuation s' = continuation s \<and> (b \<longleftrightarrow> remaining s > 1)"
    and finish_law: "finish s = (w, s') \<Longrightarrow>
      remaining s' = remaining s - 1 \<and> continuation s' = continuation s \<and>
      w = (if remaining s = 1 then Wake (continuation s) else No_Wake)"
begin

text \<open>
  The counter holds the outstanding work and one more until the waiter has arrived; from the
  moment the waiter stored its handle, that handle is the one a finisher would resume.
\<close>

definition owes :: "nat \<Rightarrow> stage \<Rightarrow> nat \<Rightarrow> 's \<Rightarrow> bool" where
  "owes k st h s \<longleftrightarrow>
     unat (remaining s) = k + (if st = Arrived then 0 else 1) \<and> (st \<noteq> Fresh \<longrightarrow> continuation s = Some h)"

lemma owes_store: "owes k Fresh h' s \<Longrightarrow> owes k Stored h (store h s)"
  by (simp add: owes_def remaining_store continuation_store)

lemma unat_pred: "unat v = Suc m \<Longrightarrow> unat (v - 1) = m" for v :: u64
  by (cases "v = 0") (simp_all add: unat_minus_one)

lemma owes_arrive:
  assumes "owes k Stored h s" and "arrive s = (b, s')"
  shows "owes k Arrived h s' \<and> (b \<longleftrightarrow> k \<noteq> 0)"
proof -
  have u: "unat (remaining s) = Suc k" using assms(1) by (simp add: owes_def)
  have "remaining s > 1 \<longleftrightarrow> k \<noteq> 0" using u by (simp add: word_less_nat_alt)
  then show ?thesis
    using assms u arrive_law [OF assms(2)] by (simp add: owes_def unat_pred)
qed

lemma owes_finish:
  assumes "owes (Suc k) st h s" and "finish s = (w, s')"
  shows "owes k st h s' \<and> w = (if k = 0 \<and> st = Arrived then Wake (Some h) else No_Wake)"
proof -
  have u: "unat (remaining s) = Suc (k + (if st = Arrived then 0 else 1))"
    using assms(1) by (simp add: owes_def)
  have "remaining s = 1 \<longleftrightarrow> k = 0 \<and> st = Arrived"
    using u by (simp add: word_eq_iff_unsigned [where 'a = nat])
  then show ?thesis
    using assms u finish_law [OF assms(2)] by (auto simp: owes_def unat_pred)
qed

end

text \<open>\<open>async_scope\<close> also counts up: work may be added as long as something is outstanding.\<close>

locale growing_countdown = countdown remaining continuation store arrive finish
  for remaining :: "'s \<Rightarrow> u64" and continuation :: "'s \<Rightarrow> nat option"
    and store :: "nat \<Rightarrow> 's \<Rightarrow> 's" and arrive :: "'s \<Rightarrow> bool \<times> 's" and finish :: "'s \<Rightarrow> wake \<times> 's" +
  fixes add :: "'s \<Rightarrow> 's res"
  assumes add_law: "remaining s \<noteq> 0 \<Longrightarrow>
      \<exists>s'. add s = Inr s' \<and> remaining s' = remaining s + 1 \<and> continuation s' = continuation s"
    and add_refused: "remaining s = 0 \<Longrightarrow> add s = Inl Assert_Failed"
begin

lemma owes_add:
  assumes "owes k st h s" and "st \<noteq> Arrived \<or> k \<noteq> 0" and "k + 2 < 2 ^ 64"
  shows "\<exists>s'. add s = Inr s' \<and> owes (Suc k) st h s'"
proof -
  have u: "unat (remaining s) = k + (if st = Arrived then 0 else 1)"
    using assms(1) by (simp add: owes_def)
  then have "remaining s \<noteq> 0" using assms(2) by (auto split: if_splits)
  then obtain s' where s': "add s = Inr s'" "remaining s' = remaining s + 1"
      "continuation s' = continuation s"
    using add_law by blast
  have "unat (remaining s) + 1 < 2 ^ 64" using u assms(3) by (simp split: if_splits)
  then have "unat (remaining s + 1) = unat (remaining s) + 1"
    by (simp add: unat_word_ariths)
  then show ?thesis using s' u assms(1) by (auto simp: owes_def)
qed

lemma owes_add_refused: "owes 0 Arrived h s \<Longrightarrow> add s = Inl Assert_Failed"
  by (simp add: owes_def add_refused unat_eq_0)

end

end
