(* ===== verification/Wait_All.thy ===== *)
theory Wait_All
  imports Countdown
begin

text \<open>
  \<open>wait_all\<close>: the counter (\<open>detail/wait_all_counter.hpp\<close>), the promise and the task that
  run one awaitable each (\<open>detail/wait_all_task.hpp\<close>) and the awaitable that starts them all
  and suspends until the last has finished (\<open>detail/wait_all_awaiter.hpp\<close>). Tasks may finish
  on any thread and in any order, also before the next one is started.
\<close>

section \<open>The counter\<close>

record wait_all_counter =
  counter_count :: u64
  counter_coroutine :: "nat option"

definition wait_all_counter_init :: "nat \<Rightarrow> wait_all_counter" where
  "wait_all_counter_init initial =
     \<lparr>counter_count = word_of_nat initial + 1, counter_coroutine = None\<rparr>"

definition counter_is_ready :: "wait_all_counter \<Rightarrow> bool" where
  "counter_is_ready c \<longleftrightarrow> counter_coroutine c \<noteq> None"

text \<open>The two actions of \<open>begin_await\<close>: the plain store, then the atomic decrement.\<close>

definition begin_await_store :: "nat \<Rightarrow> wait_all_counter \<Rightarrow> wait_all_counter" where
  "begin_await_store coroutine c = c\<lparr>counter_coroutine := Some coroutine\<rparr>"

definition begin_await_arrive :: "wait_all_counter \<Rightarrow> bool \<times> wait_all_counter" where
  "begin_await_arrive c = (counter_count c > 1, c\<lparr>counter_count := counter_count c - 1\<rparr>)"

definition notify_complete :: "wait_all_counter \<Rightarrow> wake \<times> wait_all_counter" where
  "notify_complete c =
     (if counter_count c = 1 then Wake (counter_coroutine c) else No_Wake,
      c\<lparr>counter_count := counter_count c - 1\<rparr>)"

interpretation all_done: countdown counter_count counter_coroutine begin_await_store
    begin_await_arrive notify_complete
  by unfold_locales
    (auto simp: begin_await_store_def begin_await_arrive_def notify_complete_def)

section \<open>Promise and task\<close>

text \<open>
  \<open>result\<close> is the pointer \<open>yield_value\<close> stored, read as the value it points to: the awaited
  temporary lives in the frame the task is suspended in.
\<close>

record 'v wait_all_promise =
  promise_result :: "'v option"
  promise_exception :: "nat option"

definition promise_init :: "'v wait_all_promise" where
  "promise_init = \<lparr>promise_result = None, promise_exception = None\<rparr>"

definition yield_value :: "'v \<Rightarrow> 'v wait_all_promise \<Rightarrow> 'v wait_all_promise" where
  "yield_value v p = p\<lparr>promise_result := Some v\<rparr>"

definition unhandled_exception :: "nat \<Rightarrow> 'v wait_all_promise \<Rightarrow> 'v wait_all_promise" where
  "unhandled_exception e p = p\<lparr>promise_exception := Some e\<rparr>"

definition promise_rethrow :: "'v wait_all_promise \<Rightarrow> unit res" where
  "promise_rethrow p = (case promise_exception p of Some e \<Rightarrow> Inl (Rethrown e) | None \<Rightarrow> Inr ())"

definition wait_result :: "'v wait_all_promise \<Rightarrow> 'v res" where
  "wait_result p = res_bind (promise_rethrow p) (\<lambda>_.
     case promise_result p of Some v \<Rightarrow> Inr v | None \<Rightarrow> Inl Undefined_Behaviour)"

text \<open>What the awaited operation does: it gives a value or throws.\<close>

datatype 'v outcome = Returned 'v | Threw nat

fun task_body :: "'v outcome \<Rightarrow> 'v wait_all_promise \<Rightarrow> 'v wait_all_promise" where
  "task_body (Returned v) p = yield_value v p"
| "task_body (Threw e) p = unhandled_exception e p"

fun outcome_res :: "'v outcome \<Rightarrow> 'v res" where
  "outcome_res (Returned v) = Inr v"
| "outcome_res (Threw e) = Inl (Rethrown e)"

section \<open>The awaitable\<close>

datatype phase = Created | Active | Completed

text \<open>
  The waiter starts the tasks in order (\<open>Starting i\<close>: the next is \<open>i\<close>), stores its handle and
  arrives; \<open>continued\<close> lists the handles that went on, be it because \<open>await_suspend\<close> returned
  false or because a task resumed them. \<open>reports\<close> records what each task's body did.
\<close>

datatype waiter = Starting nat | Has_Stored | Has_Arrived

record 'v wait_all_state =
  counter :: wait_all_counter
  promises :: "'v wait_all_promise list"
  phases :: "phase list"
  waiter :: waiter
  continued :: "nat option list"
  reports :: "nat \<Rightarrow> 'v outcome option"

definition wait_all_init :: "nat \<Rightarrow> 'v wait_all_state" where
  "wait_all_init n =
     \<lparr>counter = wait_all_counter_init n, promises = replicate n promise_init,
      phases = replicate n Created, waiter = Starting 0, continued = [], reports = (\<lambda>_. None)\<rparr>"

definition start_next :: "nat \<Rightarrow> 'v wait_all_state \<Rightarrow> 'v wait_all_state" where
  "start_next i s = s\<lparr>waiter := Starting (Suc i), phases := (phases s)[i := Active]\<rparr>"

fun woken :: "wake \<Rightarrow> nat option list" where
  "woken No_Wake = []"
| "woken (Wake h) = [h]"

definition task_finishes :: "nat \<Rightarrow> 'v outcome \<Rightarrow> 'v wait_all_state \<Rightarrow> 'v wait_all_state" where
  "task_finishes i out s =
     (let (w, c) = notify_complete (counter s)
      in s\<lparr>promises := (promises s)[i := task_body out (promises s ! i)],
           phases := (phases s)[i := Completed], reports := (reports s)(i \<mapsto> out),
           counter := c, continued := continued s @ woken w\<rparr>)"

definition waiter_stores :: "nat \<Rightarrow> 'v wait_all_state \<Rightarrow> 'v wait_all_state" where
  "waiter_stores h s = s\<lparr>counter := begin_await_store h (counter s), waiter := Has_Stored\<rparr>"

definition waiter_arrives :: "'v wait_all_state \<Rightarrow> 'v wait_all_state" where
  "waiter_arrives s =
     (let (suspend, c) = begin_await_arrive (counter s)
      in s\<lparr>counter := c, waiter := Has_Arrived,
           continued := (if suspend then continued s else continued s @ [counter_coroutine c])\<rparr>)"

text \<open>
  One action of the waiter (with handle \<open>h\<close>) or of a task. \<open>await_suspend\<close> runs only after
  \<open>await_ready\<close> was false, which it is before the first handle is stored.
\<close>

inductive wait_all_step :: "nat \<Rightarrow> 'v wait_all_state \<Rightarrow> 'v wait_all_state \<Rightarrow> bool" for h where
  Start: "\<lbrakk>waiter s = Starting i; i < length (phases s)\<rbrakk> \<Longrightarrow> wait_all_step h s (start_next i s)"
| Finish: "\<lbrakk>i < length (phases s); phases s ! i = Active\<rbrakk> \<Longrightarrow> wait_all_step h s (task_finishes i out s)"
| Store: "waiter s = Starting (length (phases s)) \<Longrightarrow> wait_all_step h s (waiter_stores h s)"
| Arrive: "waiter s = Has_Stored \<Longrightarrow> wait_all_step h s (waiter_arrives s)"

inductive wait_all_reachable :: "nat \<Rightarrow> nat \<Rightarrow> 'v wait_all_state \<Rightarrow> bool" for n h where
  Initial: "wait_all_reachable n h (wait_all_init n)"
| Next: "wait_all_reachable n h s \<Longrightarrow> wait_all_step h s s' \<Longrightarrow> wait_all_reachable n h s'"

inductive_cases wait_all_stepE: "wait_all_step h s s'"

section \<open>The invariant\<close>

definition unfinished :: "'v wait_all_state \<Rightarrow> nat" where
  "unfinished s = length (filter (\<lambda>p. p \<noteq> Completed) (phases s))"

fun stage_of :: "waiter \<Rightarrow> stage" where
  "stage_of (Starting i) = Fresh"
| "stage_of Has_Stored = Stored"
| "stage_of Has_Arrived = Arrived"

definition started_ok :: "'v wait_all_state \<Rightarrow> bool" where
  "started_ok s \<longleftrightarrow> (\<forall>i < length (phases s). phases s ! i = Created \<longleftrightarrow>
     (\<exists>j \<le> i. waiter s = Starting j))"

definition promises_ok :: "'v wait_all_state \<Rightarrow> bool" where
  "promises_ok s \<longleftrightarrow> length (promises s) = length (phases s) \<and>
     (\<forall>i < length (phases s). phases s ! i \<noteq> Completed \<longrightarrow> promises s ! i = promise_init) \<and>
     (\<forall>i < length (phases s). phases s ! i = Completed \<longrightarrow>
        (\<exists>out. reports s i = Some out \<and> wait_result (promises s ! i) = outcome_res out))"

definition wait_all_inv :: "nat \<Rightarrow> nat \<Rightarrow> 'v wait_all_state \<Rightarrow> bool" where
  "wait_all_inv n h s \<longleftrightarrow>
     length (phases s) = n \<and> started_ok s \<and> promises_ok s \<and>
     all_done.owes (unfinished s) (stage_of (waiter s)) h (counter s) \<and>
     continued s = (if unfinished s = 0 \<and> waiter s = Has_Arrived then [Some h] else [])"

lemma filter_update_length:
  "i < length xs \<Longrightarrow> P (xs ! i) \<Longrightarrow> \<not> P x \<Longrightarrow>
     length (filter P xs) = Suc (length (filter P (xs[i := x])))"
  by (induction xs arbitrary: i) (auto split: nat.splits simp: less_Suc_eq_0_disj)

lemma filter_update_same:
  "i < length xs \<Longrightarrow> P (xs ! i) \<longleftrightarrow> P x \<Longrightarrow> length (filter P (xs[i := x])) = length (filter P xs)"
  by (induction xs arbitrary: i) (auto split: nat.splits simp: less_Suc_eq_0_disj)

lemma unfinished_start:
  assumes "i < length (phases s)" and "phases s ! i = Created"
  shows "unfinished (start_next i s) = unfinished s"
  using assms by (simp add: unfinished_def start_next_def filter_update_same)

lemma unfinished_finish:
  assumes "i < length (phases s)" and "phases s ! i = Active"
  shows "unfinished s = Suc (unfinished (task_finishes i out s))"
  using assms by (simp add: unfinished_def task_finishes_def case_prod_beta
      filter_update_length [where x = Completed])

lemma all_inv_start:
  assumes "wait_all_inv n h s" and "waiter s = Starting i" and "i < length (phases s)"
  shows "wait_all_inv n h (start_next i s)"
proof -
  have c: "phases s ! i = Created" using assms by (auto simp: wait_all_inv_def started_ok_def)
  have "started_ok (start_next i s)"
    using assms by (auto simp: wait_all_inv_def started_ok_def start_next_def nth_list_update)
  moreover have "promises_ok (start_next i s)"
    using assms c by (auto simp: wait_all_inv_def promises_ok_def start_next_def nth_list_update)
  ultimately show ?thesis
    using assms unfinished_start [OF assms(3) c] by (auto simp: wait_all_inv_def start_next_def)
qed

lemma task_body_result: "wait_result (task_body out promise_init) = outcome_res out"
  by (cases out)
    (simp_all add: wait_result_def promise_rethrow_def promise_init_def yield_value_def
      unhandled_exception_def)

lemma all_inv_finish:
  assumes "wait_all_inv n h s" and "i < length (phases s)" and "phases s ! i = Active"
  shows "wait_all_inv n h (task_finishes i out s)"
proof -
  obtain w c where nc: "notify_complete (counter s) = (w, c)" by fastforce
  let ?s = "task_finishes i out s"
  have u: "unfinished s = Suc (unfinished ?s)" by (rule unfinished_finish [OF assms(2,3)])
  then have "all_done.owes (Suc (unfinished ?s)) (stage_of (waiter s)) h (counter s)"
    using assms(1) by (simp add: wait_all_inv_def)
  from all_done.owes_finish [OF this nc]
  have owes: "all_done.owes (unfinished ?s) (stage_of (waiter s)) h c"
    and w: "w = (if unfinished ?s = 0 \<and> waiter s = Has_Arrived then Wake (Some h) else No_Wake)"
    by (auto split: if_splits) (cases "waiter s"; simp)+
  have f: "waiter ?s = waiter s" "counter ?s = c" "continued ?s = continued s @ woken w"
      "length (phases ?s) = length (phases s)"
    by (simp_all add: task_finishes_def nc)
  have "started_ok ?s"
    using assms by (auto simp: wait_all_inv_def started_ok_def task_finishes_def nc nth_list_update)
  moreover have "promises_ok ?s"
    using assms
    by (auto simp: wait_all_inv_def promises_ok_def task_finishes_def nc nth_list_update task_body_result)
  ultimately show ?thesis
    using assms(1) owes w u f by (simp add: wait_all_inv_def)
qed

lemma all_inv_store:
  assumes "wait_all_inv n h s" and "waiter s = Starting (length (phases s))"
  shows "wait_all_inv n h (waiter_stores h s)"
  using assms
  by (auto simp: wait_all_inv_def waiter_stores_def started_ok_def promises_ok_def unfinished_def
      intro: all_done.owes_store)

lemma all_inv_arrive:
  assumes "wait_all_inv n h s" and "waiter s = Has_Stored"
  shows "wait_all_inv n h (waiter_arrives s)"
proof -
  obtain b c where ac: "begin_await_arrive (counter s) = (b, c)" by fastforce
  have o: "all_done.owes (unfinished s) Stored h (counter s)"
    using assms by (simp add: wait_all_inv_def)
  note a = all_done.owes_arrive [OF o ac]
  have "counter_coroutine c = Some h" using a by (simp add: all_done.owes_def)
  then show ?thesis
    using assms a
    by (auto simp: wait_all_inv_def waiter_arrives_def ac started_ok_def promises_ok_def unfinished_def)
qed

lemma all_inv_init:
  assumes "n + 1 < 2 ^ 64"
  shows "wait_all_inv n h (wait_all_init n)"
proof -
  have "unat (word_of_nat n + 1 :: u64) = n + 1"
    using assms by (simp add: unat_word_ariths unat_of_nat)
  then show ?thesis
    by (simp add: wait_all_inv_def wait_all_init_def started_ok_def promises_ok_def unfinished_def
        all_done.owes_def wait_all_counter_init_def)
qed

lemma all_inv_reachable:
  assumes "wait_all_reachable n h s" and "n + 1 < 2 ^ 64"
  shows "wait_all_inv n h s"
  using assms
proof (induction rule: wait_all_reachable.induct)
  case (Next s s')
  from Next.hyps(2) Next.IH [OF Next.prems] show ?case
    by (cases rule: wait_all_step.cases) (auto intro: all_inv_start all_inv_finish all_inv_store all_inv_arrive)
qed (rule all_inv_init)

section \<open>Properties\<close>

text \<open>
  Awaiting \<open>wait_all\<close> goes on exactly once, and only when everything is done. In every
  reachable state of every interleaving of the waiter and the tasks, the waiter's own handle (and
  never an empty one) has gone on at most once; it has gone on exactly when the waiter has
  arrived and every task has completed; and then each task's \<open>result\<close> is what its body
  returned, or rethrows what it threw.
\<close>

theorem wait_all_continues_once:
  assumes "wait_all_reachable n h s" and "n + 1 < 2 ^ 64"
  shows "continued s =
      (if waiter s = Has_Arrived \<and> (\<forall>p \<in> set (phases s). p = Completed) then [Some h] else []) \<and>
    (continued s \<noteq> [] \<longrightarrow>
      (\<forall>i < n. \<exists>out. reports s i = Some out \<and> wait_result (promises s ! i) = outcome_res out))"
proof -
  have inv: "wait_all_inv n h s" by (rule all_inv_reachable [OF assms])
  have "unfinished s = 0 \<longleftrightarrow> (\<forall>p \<in> set (phases s). p = Completed)"
    by (auto simp: unfinished_def filter_empty_conv)
  then show ?thesis
    using inv unfolding wait_all_inv_def promises_ok_def by (metis nth_mem)
qed

definition one_early_one_late :: "nat wait_all_state" where
  "one_early_one_late =
     task_finishes 1 (Threw 9) (waiter_arrives (waiter_stores 5 (start_next 1
       (task_finishes 0 (Returned 7) (start_next 0 (wait_all_init 2))))))"

lemma one_early_one_late_reachable: "wait_all_reachable 2 5 one_early_one_late"
  unfolding one_early_one_late_def
  by (intro wait_all_reachable.Next [OF _ wait_all_step.Finish]
      wait_all_reachable.Next [OF _ wait_all_step.Arrive]
      wait_all_reachable.Next [OF _ wait_all_step.Store]
      wait_all_reachable.Next [OF _ wait_all_step.Start] wait_all_reachable.Initial)
    (simp_all add: start_next_def task_finishes_def waiter_stores_def waiter_arrives_def
      wait_all_init_def notify_complete_def begin_await_arrive_def case_prod_beta numeral_2_eq_2)

lemma wait_all_continues_once_witness:
  "continued one_early_one_late = [Some 5] \<and>
   wait_result (promises one_early_one_late ! 1) = Inl (Rethrown 9)"
proof -
  let ?s = one_early_one_late
  have s: "waiter ?s = Has_Arrived" "phases ?s = [Completed, Completed]"
      "reports ?s 1 = Some (Threw 9)"
    by (simp_all add: one_early_one_late_def start_next_def task_finishes_def waiter_stores_def
        waiter_arrives_def wait_all_init_def case_prod_beta numeral_2_eq_2)
  note t = wait_all_continues_once [OF one_early_one_late_reachable]
  have c: "continued ?s = [Some 5]" using t s by simp
  moreover have "wait_result (promises ?s ! 1) = outcome_res (Threw 9)"
  proof -
    have "\<exists>out. reports ?s 1 = Some out \<and> wait_result (promises ?s ! 1) = outcome_res out"
      using t c by simp
    then show ?thesis using s(3) by auto
  qed
  ultimately show ?thesis by simp
qed

text \<open>
  \<open>is_ready\<close> asks for the stored handle and not for the counter: it is true while a task still
  runs, and a second \<open>co_await\<close> of the awaitable would go on at once.
\<close>

lemma ready_while_running:
  "\<exists>s. wait_all_reachable 1 h s \<and> counter_is_ready (counter s) \<and> phases s = [Active]"
proof (intro exI conjI)
  let ?s = "waiter_stores h (start_next 0 (wait_all_init 1))"
  show "wait_all_reachable 1 h ?s"
    by (intro wait_all_reachable.Next [OF _ wait_all_step.Store]
        wait_all_reachable.Next [OF _ wait_all_step.Start] wait_all_reachable.Initial)
      (simp_all add: start_next_def wait_all_init_def)
qed (simp_all add: waiter_stores_def begin_await_store_def counter_is_ready_def start_next_def
      wait_all_init_def)

end
