(* ===== verification/Async_Scope.thy ===== *)
theory Async_Scope
  imports Countdown
begin

text \<open>
  \<open>async_scope.hpp\<close>: a scope that counts the coroutines spawned into it and one awaiter that
  joins them. Spawned work runs on any thread; it may spawn more work.
\<close>

section \<open>The scope\<close>

record async_scope =
  scope_count :: u64
  scope_continuation :: "nat option"

definition async_scope_init :: async_scope where
  "async_scope_init = \<lparr>scope_count = 1, scope_continuation = None\<rparr>"

definition async_scope_destroy :: "async_scope \<Rightarrow> unit res" where
  "async_scope_destroy c = (if scope_continuation c \<noteq> None then Inr () else Inl Assert_Failed)"

text \<open>
  The assertion and the increment of \<open>on_work_started\<close> are one step here: the caller itself
  keeps the count above zero between them, being the coroutine that has yet to join or a
  unit of work that has yet to finish.
\<close>

definition on_work_started :: "async_scope \<Rightarrow> async_scope res" where
  "on_work_started c =
     (if scope_count c \<noteq> 0 then Inr (c\<lparr>scope_count := scope_count c + 1\<rparr>) else Inl Assert_Failed)"

definition on_work_finished :: "async_scope \<Rightarrow> wake \<times> async_scope" where
  "on_work_finished c =
     (if scope_count c = 1 then Wake (scope_continuation c) else No_Wake,
      c\<lparr>scope_count := scope_count c - 1\<rparr>)"

definition join_ready :: "async_scope \<Rightarrow> bool" where
  "join_ready c \<longleftrightarrow> scope_count c = 0"

definition join_store :: "nat \<Rightarrow> async_scope \<Rightarrow> async_scope" where
  "join_store h c = c\<lparr>scope_continuation := Some h\<rparr>"

definition join_arrive :: "async_scope \<Rightarrow> bool \<times> async_scope" where
  "join_arrive c = (scope_count c > 1, c\<lparr>scope_count := scope_count c - 1\<rparr>)"

interpretation scope_done: growing_countdown scope_count scope_continuation join_store join_arrive
    on_work_finished on_work_started
  by unfold_locales
    (auto simp: join_store_def join_arrive_def on_work_finished_def on_work_started_def)

section \<open>The scope with its work\<close>

text \<open>
  \<open>work\<close> holds the spawned coroutines that have not finished, \<open>resumed\<close> the handles that
  went on after \<open>join\<close>, \<open>spawned\<close> counts every spawn. The awaited operation of a unit of work
  may throw: the scope exit runs during unwinding and \<open>unhandled_exception\<close> then terminates.
\<close>

record scope_state =
  scope :: async_scope
  work :: "nat list"
  join_stage :: stage
  resumed :: "nat option list"
  spawned :: nat
  scope_terminated :: bool

definition scope_state_init :: scope_state where
  "scope_state_init =
     \<lparr>scope = async_scope_init, work = [], join_stage = Fresh, resumed = [], spawned = 0,
      scope_terminated = False\<rparr>"

definition spawn :: "nat \<Rightarrow> scope_state \<Rightarrow> scope_state res" where
  "spawn w s = res_bind (on_work_started (scope s)) (\<lambda>c.
     Inr (s\<lparr>scope := c, work := w # work s, spawned := Suc (spawned s)\<rparr>))"

fun woken_handles :: "wake \<Rightarrow> nat option list" where
  "woken_handles No_Wake = []"
| "woken_handles (Wake h) = [h]"

definition work_ends :: "bool \<Rightarrow> nat \<Rightarrow> scope_state \<Rightarrow> scope_state" where
  "work_ends throws w s =
     (let (k, c) = on_work_finished (scope s)
      in s\<lparr>scope := c, work := remove1 w (work s), resumed := resumed s @ woken_handles k,
           scope_terminated := scope_terminated s \<or> throws\<rparr>)"

definition join_stores :: "nat \<Rightarrow> scope_state \<Rightarrow> scope_state" where
  "join_stores h s = s\<lparr>scope := join_store h (scope s), join_stage := Stored\<rparr>"

definition join_arrives :: "scope_state \<Rightarrow> scope_state" where
  "join_arrives s =
     (let (suspend, c) = join_arrive (scope s)
      in s\<lparr>scope := c, join_stage := Arrived,
           resumed := (if suspend then resumed s else resumed s @ [scope_continuation c])\<rparr>)"

text \<open>
  A spawn comes from the coroutine that will join, before it does, or from running work; the
  handle \<open>h\<close> joins once, after its \<open>await_ready\<close> was false.
\<close>

inductive scope_step :: "nat \<Rightarrow> scope_state \<Rightarrow> scope_state \<Rightarrow> bool" for h where
  Spawn: "\<lbrakk>\<not> scope_terminated s; join_stage s \<noteq> Arrived \<or> work s \<noteq> []; spawn w s = Inr s'\<rbrakk>
    \<Longrightarrow> scope_step h s s'"
| Ends: "\<lbrakk>\<not> scope_terminated s; w \<in> set (work s)\<rbrakk> \<Longrightarrow> scope_step h s (work_ends throws w s)"
| Join: "\<lbrakk>\<not> scope_terminated s; join_stage s = Fresh; \<not> join_ready (scope s)\<rbrakk>
    \<Longrightarrow> scope_step h s (join_stores h s)"
| Arrives: "\<lbrakk>\<not> scope_terminated s; join_stage s = Stored\<rbrakk> \<Longrightarrow> scope_step h s (join_arrives s)"

inductive scope_reachable :: "nat \<Rightarrow> scope_state \<Rightarrow> bool" for h where
  Init: "scope_reachable h scope_state_init"
| Further: "scope_reachable h s \<Longrightarrow> scope_step h s s' \<Longrightarrow> scope_reachable h s'"

definition scope_inv :: "nat \<Rightarrow> scope_state \<Rightarrow> bool" where
  "scope_inv h s \<longleftrightarrow>
     scope_done.owes (length (work s)) (join_stage s) h (scope s) \<and>
     length (work s) \<le> spawned s \<and>
     resumed s = (if work s = [] \<and> join_stage s = Arrived then [Some h] else [])"

lemma spawn_possible:
  assumes "scope_inv h s" and "join_stage s \<noteq> Arrived \<or> work s \<noteq> []" and "spawned s + 2 < 2 ^ 64"
  shows "\<exists>s'. spawn w s = Inr s' \<and> scope_inv h s'"
proof -
  have "scope_done.owes (length (work s)) (join_stage s) h (scope s)"
    and "length (work s) + 2 < 2 ^ 64"
    using assms by (simp_all add: scope_inv_def)
  from scope_done.owes_add [OF this(1) _ this(2)] assms(2)
  obtain c where c: "on_work_started (scope s) = Inr c"
      "scope_done.owes (Suc (length (work s))) (join_stage s) h c" by auto
  then show ?thesis using assms(1,2) by (auto simp: spawn_def scope_inv_def)
qed

lemma scope_inv_ends:
  assumes "scope_inv h s" and "w \<in> set (work s)"
  shows "scope_inv h (work_ends throws w s)"
proof -
  obtain k c where kc: "on_work_finished (scope s) = (k, c)" by fastforce
  have l: "length (work s) = Suc (length (remove1 w (work s)))"
    using assms(2) by (metis One_nat_def Suc_pred length_pos_if_in_set length_remove1)
  have "scope_done.owes (Suc (length (remove1 w (work s)))) (join_stage s) h (scope s)"
    using assms(1) l by (simp add: scope_inv_def)
  from scope_done.owes_finish [OF this kc] show ?thesis
    using assms l by (auto simp: scope_inv_def work_ends_def kc)
qed

lemma scope_inv_joins:
  "scope_inv h s \<Longrightarrow> join_stage s = Fresh \<Longrightarrow> scope_inv h (join_stores h s)"
  by (auto simp: scope_inv_def join_stores_def intro: scope_done.owes_store)

lemma scope_inv_arrives:
  assumes "scope_inv h s" and "join_stage s = Stored"
  shows "scope_inv h (join_arrives s)"
proof -
  obtain b c where bc: "join_arrive (scope s) = (b, c)" by fastforce
  have "scope_done.owes (length (work s)) Stored h (scope s)"
    using assms by (simp add: scope_inv_def)
  from scope_done.owes_arrive [OF this bc] show ?thesis
    using assms by (auto simp: scope_inv_def join_arrives_def bc scope_done.owes_def)
qed

lemma spawned_mono: "scope_step h s s' \<Longrightarrow> spawned s \<le> spawned s'"
  by (cases rule: scope_step.cases)
    (auto simp: spawn_def res_bind_Inr_iff work_ends_def join_stores_def join_arrives_def
      case_prod_beta)

lemma scope_inv_reachable:
  "scope_reachable h s \<Longrightarrow> spawned s + 1 < 2 ^ 64 \<Longrightarrow> scope_inv h s"
proof (induction rule: scope_reachable.induct)
  case Init
  show ?case
    by (simp add: scope_inv_def scope_state_init_def async_scope_init_def scope_done.owes_def)
next
  case (Further s s')
  have inv: "scope_inv h s" using Further spawned_mono [OF Further.hyps(2)] by simp
  from Further.hyps(2) show ?case
  proof (cases rule: scope_step.cases)
    case (Spawn w)
    then have "spawned s + 2 < 2 ^ 64"
      using Further.prems by (auto simp: spawn_def res_bind_Inr_iff)
    then show ?thesis using spawn_possible [OF inv Spawn(2), of w] Spawn(3) by simp
  qed (use inv scope_inv_ends scope_inv_joins scope_inv_arrives in auto)
qed

section \<open>Properties\<close>

text \<open>
  C21: joining a scope goes on exactly once, after the last unit of work. In every reachable state
  of every interleaving, the joining handle (never an empty one) has been resumed at most once,
  exactly when it has arrived and no work is left, work that running work spawned included; a
  spawn by the joining coroutine before it joins, or by running work, is always accepted; from
  then on, spawning trips the assertion and the destructor's assertion holds.
\<close>

theorem join_continues_once:
  assumes "scope_reachable h s" and "spawned s + 2 < 2 ^ 64"
  shows "resumed s = (if join_stage s = Arrived \<and> work s = [] then [Some h] else []) \<and>
    (join_stage s \<noteq> Arrived \<or> work s \<noteq> [] \<longleftrightarrow> (\<exists>s'. spawn w s = Inr s')) \<and>
    (resumed s \<noteq> [] \<longrightarrow> spawn w s = Inl Assert_Failed \<and> async_scope_destroy (scope s) = Inr ())"
proof -
  have inv: "scope_inv h s" using assms by (simp add: scope_inv_reachable)
  have late: "spawn w s = Inl Assert_Failed \<and> async_scope_destroy (scope s) = Inr ()"
    if "join_stage s = Arrived" "work s = []"
  proof -
    have o: "scope_done.owes 0 Arrived h (scope s)" using inv that by (simp add: scope_inv_def)
    then show ?thesis
      using scope_done.owes_add_refused [OF o]
      by (simp add: spawn_def async_scope_destroy_def scope_done.owes_def)
  qed
  show ?thesis
    using inv late spawn_possible [OF inv _ assms(2), of w] by (auto simp: scope_inv_def)
qed

definition spawning :: "nat \<Rightarrow> scope_state \<Rightarrow> scope_state" where
  "spawning w s = (case spawn w s of Inr s' \<Rightarrow> s' | Inl e \<Rightarrow> s)"

definition nested_spawn :: scope_state where
  "nested_spawn = work_ends False 2 (work_ends False 1
     (spawning 2 (join_arrives (join_stores 4 (spawning 1 scope_state_init)))))"

lemmas scope_ops = spawning_def spawn_def on_work_started_def on_work_finished_def join_arrives_def
  join_stores_def join_store_def join_arrive_def work_ends_def scope_state_init_def
  async_scope_init_def join_ready_def

lemma nested_spawn_reachable: "scope_reachable 4 nested_spawn"
proof -
  let ?a = "spawning 1 scope_state_init"
  let ?b = "join_arrives (join_stores 4 ?a)"
  let ?c = "spawning 2 ?b"
  have "scope_step 4 scope_state_init ?a"
    by (rule scope_step.Spawn [where w = 1]) (simp_all add: scope_ops)
  moreover have "scope_step 4 ?a (join_stores 4 ?a)" "scope_step 4 (join_stores 4 ?a) ?b"
    by (rule scope_step.Join; simp add: scope_ops) (rule scope_step.Arrives; simp add: scope_ops)
  moreover have "scope_step 4 ?b ?c"
    by (rule scope_step.Spawn [where w = 2]) (simp_all add: scope_ops)
  moreover have "scope_step 4 ?c (work_ends False 1 ?c)"
    and "scope_step 4 (work_ends False 1 ?c) nested_spawn"
    unfolding nested_spawn_def
    by (rule scope_step.Ends; simp add: scope_ops) (rule scope_step.Ends; simp add: scope_ops)
  ultimately show ?thesis by (meson scope_reachable.intros)
qed

lemma join_continues_once_witness:
  "resumed nested_spawn = [Some 4] \<and> async_scope_destroy (scope nested_spawn) = Inr ()"
proof -
  have s: "join_stage nested_spawn = Arrived" "work nested_spawn = []" "spawned nested_spawn = 2"
    by (simp_all add: nested_spawn_def scope_ops)
  then show ?thesis
    using join_continues_once [OF nested_spawn_reachable] by simp
qed

text \<open>A scope that nothing joined trips the assertion of its destructor.\<close>

lemma unjoined_scope_asserts: "async_scope_destroy (scope scope_state_init) = Inl Assert_Failed"
  by (simp add: async_scope_destroy_def scope_state_init_def async_scope_init_def)

end
