(* ===== verification/Executor.thy ===== *)
theory Executor
  imports Ptl_Prelude
begin

text \<open>
  \<open>execution/basic_executor.hpp\<close>: \<open>Executor::current\<close>, the thread-local pointer the
  constructor and the destructor set, and \<open>QueuedExecutor\<close>, a queue of callables that any
  number of threads drain in \<open>run\<close>. A critical section of the mutex is one step; \<open>notify_one\<close>
  comes after the lock has been released and is a step of its own; \<open>cv_.wait\<close> blocks while its
  predicate is false and may also wake spuriously.
\<close>

section \<open>The current executor of a thread\<close>

type_synonym current_executor = "nat \<Rightarrow> nat option"

definition executor_construct :: "nat \<Rightarrow> nat \<Rightarrow> current_executor \<Rightarrow> current_executor" where
  "executor_construct thread ex cur = cur(thread \<mapsto> ex)"

definition executor_destroy :: "nat \<Rightarrow> current_executor \<Rightarrow> current_executor" where
  "executor_destroy thread cur = cur(thread := None)"

text \<open>
  Only the constructing thread sees the executor as its current one, whichever thread calls
  \<open>run\<close>, and destroying a nested executor does not restore the outer one.
\<close>

lemma current_follows_construction:
  "t \<noteq> u \<Longrightarrow> executor_construct t ex cur u = cur u"
  "executor_destroy t (executor_construct t inner (executor_construct t outer cur)) t = None"
  by (simp_all add: executor_construct_def executor_destroy_def)

section \<open>The queued executor\<close>

datatype runner = Outside | Checking | Blocked | Executing nat | Returned

text \<open>
  \<open>notifies\<close> counts the calls of \<open>add\<close> and \<open>stop\<close> that have left the lock and not yet
  notified; \<open>added\<close> and \<open>taken\<close> record what was pushed and popped.
\<close>

record queued_executor =
  jobs :: "nat list"
  finished :: bool
  runners :: "nat \<Rightarrow> runner"
  notifies :: nat
  added :: "nat list"
  taken :: "nat list"

definition executor_init :: queued_executor where
  "executor_init = \<lparr>jobs = [], finished = False, runners = (\<lambda>_. Outside), notifies = 0,
     added = [], taken = []\<rparr>"

definition set_runner :: "nat \<Rightarrow> runner \<Rightarrow> queued_executor \<Rightarrow> queued_executor" where
  "set_runner t r s = s\<lparr>runners := (runners s)(t := r)\<rparr>"

definition add_locked :: "nat \<Rightarrow> queued_executor \<Rightarrow> queued_executor" where
  "add_locked fn s = s\<lparr>jobs := jobs s @ [fn], added := added s @ [fn], notifies := Suc (notifies s)\<rparr>"

definition stop_locked :: "queued_executor \<Rightarrow> queued_executor" where
  "stop_locked s = s\<lparr>finished := True, notifies := Suc (notifies s)\<rparr>"

text \<open>The notification that \<open>add\<close> and \<open>stop\<close> send; \<open>t\<close> is the waiter it reaches, if any waits.\<close>

definition notify_one :: "nat \<Rightarrow> queued_executor \<Rightarrow> queued_executor" where
  "notify_one t s =
     (if runners s t = Blocked then set_runner t Checking s else s)\<lparr>notifies := notifies s - 1\<rparr>"

text \<open>The locked part of the loop of \<open>run\<close>: the predicate, the return, or the next job.\<close>

definition run_locked :: "nat \<Rightarrow> queued_executor \<Rightarrow> queued_executor" where
  "run_locked t s =
     (if \<not> (finished s \<or> jobs s \<noteq> []) then set_runner t Blocked s
      else case jobs s of
        [] \<Rightarrow> set_runner t Returned s
      | fn # rest \<Rightarrow> set_runner t (Executing fn) (s\<lparr>jobs := rest, taken := taken s @ [fn]\<rparr>))"

inductive executor_step :: "queued_executor \<Rightarrow> queued_executor \<Rightarrow> bool" where
  Enter: "runners s t = Outside \<Longrightarrow> executor_step s (set_runner t Checking s)"
| Run: "runners s t = Checking \<Longrightarrow> executor_step s (run_locked t s)"
| Return_From_Job: "runners s t = Executing fn \<Longrightarrow> executor_step s (set_runner t Checking s)"
| Spurious: "runners s t = Blocked \<Longrightarrow> executor_step s (set_runner t Checking s)"
| Add: "executor_step s (add_locked fn s)"
| Stop: "executor_step s (stop_locked s)"
| Notify: "\<lbrakk>notifies s > 0; runners s t = Blocked \<or> (\<forall>u. runners s u \<noteq> Blocked)\<rbrakk>
    \<Longrightarrow> executor_step s (notify_one t s)"

inductive executor_reachable :: "queued_executor \<Rightarrow> bool" where
  Init: "executor_reachable executor_init"
| Step: "executor_reachable s \<Longrightarrow> executor_step s s' \<Longrightarrow> executor_reachable s'"

lemmas executor_ops = set_runner_def add_locked_def stop_locked_def notify_one_def run_locked_def

section \<open>Invariants\<close>

definition ready_runners :: "queued_executor \<Rightarrow> nat set" where
  "ready_runners s = {t. runners s t = Checking}"

definition executor_inv :: "queued_executor \<Rightarrow> bool" where
  "executor_inv s \<longleftrightarrow>
     taken s @ jobs s = added s \<and> finite {t. runners s t \<noteq> Outside} \<and>
     ((\<exists>t. runners s t = Blocked) \<longrightarrow> length (jobs s) \<le> card (ready_runners s) + notifies s)"

lemma finite_checking: "finite {t. runners s t \<noteq> Outside} \<Longrightarrow> finite (ready_runners s)"
  by (rule finite_subset [of _ "{t. runners s t \<noteq> Outside}"]) (auto simp: ready_runners_def)

lemma ready_set_runner:
  "ready_runners (set_runner t r s) = (if r = Checking then insert t (ready_runners s) else ready_runners s - {t})"
  by (auto simp: ready_runners_def set_runner_def)

lemma active_set_runner:
  "finite {t. runners s t \<noteq> Outside} \<Longrightarrow> finite {u. runners (set_runner t r s) u \<noteq> Outside}"
  by (rule finite_subset [of _ "insert t {t. runners s t \<noteq> Outside}"]) (auto simp: set_runner_def)

lemma executor_inv_wake:
  assumes "executor_inv s" and "runners s t \<noteq> Checking"
  shows "executor_inv (set_runner t Checking s)"
proof -
  have fin: "finite {t. runners s t \<noteq> Outside}" using assms(1) by (simp add: executor_inv_def)
  have "t \<notin> ready_runners s" using assms(2) by (simp add: ready_runners_def)
  then have "card (ready_runners (set_runner t Checking s)) = Suc (card (ready_runners s))"
    using finite_checking [OF fin] by (simp add: ready_set_runner)
  moreover have "(\<exists>u. runners (set_runner t Checking s) u = Blocked) \<Longrightarrow> \<exists>u. runners s u = Blocked"
    by (auto simp: set_runner_def split: if_splits)
  ultimately show ?thesis
    using assms(1) active_set_runner [OF fin, of t Checking]
    by (auto simp: executor_inv_def set_runner_def)
qed

lemma executor_inv_run:
  assumes "executor_inv s" and "runners s t = Checking"
  shows "executor_inv (run_locked t s)"
proof -
  have fin: "finite {t. runners s t \<noteq> Outside}" using assms(1) by (simp add: executor_inv_def)
  have "t \<in> ready_runners s" using assms(2) by (simp add: ready_runners_def)
  then have card: "card (ready_runners s) = Suc (card (ready_runners s - {t}))"
    using card_Suc_Diff1 [OF finite_checking [OF fin]] by simp
  have upd: "ready_runners (s\<lparr>jobs := x, taken := y\<rparr>) = ready_runners s" for x y
    by (simp add: ready_runners_def)
  show ?thesis
  proof (cases "jobs s")
    case Nil
    then show ?thesis
      using assms active_set_runner [OF fin]
      by (auto simp: executor_inv_def run_locked_def) (auto simp: set_runner_def)
  next
    case (Cons fn rest)
    let ?s = "s\<lparr>jobs := rest, taken := taken s @ [fn]\<rparr>"
    have "executor_inv (set_runner t (Executing fn) ?s)"
      using assms(1) Cons card upd fin active_set_runner [of ?s t "Executing fn"]
      by (auto simp: executor_inv_def ready_set_runner) (auto simp: set_runner_def split: if_splits)
    then show ?thesis using Cons by (simp add: run_locked_def)
  qed
qed

lemma executor_inv_notify:
  assumes "executor_inv s" and "notifies s > 0"
    and "runners s t = Blocked \<or> (\<forall>u. runners s u \<noteq> Blocked)"
  shows "executor_inv (notify_one t s)"
proof (cases "runners s t = Blocked")
  case True
  let ?s = "set_runner t Checking s"
  have fin: "finite {t. runners s t \<noteq> Outside}" using assms(1) by (simp add: executor_inv_def)
  have "t \<notin> ready_runners s" using True by (simp add: ready_runners_def)
  then have "card (ready_runners ?s) = Suc (card (ready_runners s))"
    using finite_checking [OF fin] by (simp add: ready_set_runner)
  moreover have "ready_runners (?s\<lparr>notifies := notifies s - 1\<rparr>) = ready_runners ?s" by (simp add: ready_runners_def)
  ultimately show ?thesis
    using True assms(1,2) active_set_runner [OF fin, of t Checking]
    by (auto simp: executor_inv_def notify_one_def) (auto simp: set_runner_def)
next
  case False
  then show ?thesis
    using assms by (auto simp: executor_inv_def notify_one_def ready_runners_def)
qed

lemma executor_inv_reachable: "executor_reachable s \<Longrightarrow> executor_inv s"
proof (induction rule: executor_reachable.induct)
  case Init
  show ?case by (simp add: executor_inv_def executor_init_def)
next
  case (Step s s')
  from Step.hyps(2) Step.IH show ?case
  proof (cases rule: executor_step.cases)
    case (Add fn)
    then show ?thesis using Step.IH by (auto simp: executor_inv_def add_locked_def ready_runners_def)
  next
    case Stop
    then show ?thesis using Step.IH by (auto simp: executor_inv_def stop_locked_def ready_runners_def)
  qed (use Step.IH in \<open>auto intro: executor_inv_wake executor_inv_run executor_inv_notify\<close>)
qed

lemma single_runner_inv:
  assumes "executor_reachable s" and "\<forall>u. u \<noteq> t \<longrightarrow> runners s u = Outside"
  shows "(runners s t = Blocked \<and> (finished s \<or> jobs s \<noteq> []) \<longrightarrow> notifies s > 0)"
  using assms
proof (induction rule: executor_reachable.induct)
  case Init
  show ?case by (simp add: executor_init_def)
next
  case (Step s s')
  have "\<forall>u. u \<noteq> t \<longrightarrow> runners s u = Outside"
    using Step.hyps(2) Step.prems
    by (cases rule: executor_step.cases)
      (auto simp: executor_ops split: if_splits list.splits)
  with Step.IH have ih: "runners s t = Blocked \<and> (finished s \<or> jobs s \<noteq> []) \<longrightarrow> notifies s > 0"
    and alone: "\<forall>u. u \<noteq> t \<longrightarrow> runners s u = Outside" by auto
  from Step.hyps(2) ih alone show ?case
    by (cases rule: executor_step.cases)
      (auto simp: executor_ops split: if_splits list.splits)
qed

section \<open>Properties\<close>

text \<open>
  C24: jobs are taken in the order they were added, each once, and none is stranded: whatever the
  interleaving of \<open>add\<close>, \<open>stop\<close> and any number of threads in \<open>run\<close>, once the notifications
  are out, a job that waits while some thread is blocked has another thread that is about to
  take a job. A lone runner is never blocked with work to do or after \<open>stop\<close>.
\<close>

theorem jobs_fifo_none_stranded:
  assumes "executor_reachable s"
  shows "taken s @ jobs s = added s \<and>
    (jobs s \<noteq> [] \<and> notifies s = 0 \<and> runners s t = Blocked \<longrightarrow> (\<exists>u. runners s u = Checking)) \<and>
    (runners s t = Blocked \<and> (\<forall>u. u \<noteq> t \<longrightarrow> runners s u = Outside) \<and> notifies s = 0 \<longrightarrow>
      jobs s = [] \<and> \<not> finished s)"
proof -
  have inv: "executor_inv s" by (rule executor_inv_reachable [OF assms])
  have "ready_runners s \<noteq> {}" if "jobs s \<noteq> []" "notifies s = 0" "runners s t = Blocked"
    using inv that by (auto simp: executor_inv_def)
  then show ?thesis
    using inv single_runner_inv [OF assms] by (auto simp: executor_inv_def ready_runners_def)
qed

text \<open>Two threads wait in \<open>run\<close>; after \<open>stop\<close> only one of them is told.\<close>

definition two_waiting :: queued_executor where
  "two_waiting = run_locked 1 (set_runner 1 Checking (run_locked 0 (set_runner 0 Checking executor_init)))"

lemma two_waiting_reachable: "executor_reachable two_waiting"
proof -
  let ?a = "set_runner 0 Checking executor_init"
  let ?b = "set_runner 1 Checking (run_locked 0 ?a)"
  have "executor_step executor_init ?a" and "executor_step ?a (run_locked 0 ?a)"
    by (rule executor_step.Enter, simp add: executor_init_def)
      (rule executor_step.Run, simp add: executor_init_def set_runner_def)
  moreover have "executor_step (run_locked 0 ?a) ?b" and "executor_step ?b two_waiting"
    unfolding two_waiting_def
    by (rule executor_step.Enter, simp add: executor_ops executor_init_def)
      (rule executor_step.Run, simp add: executor_ops executor_init_def)
  ultimately show ?thesis by (meson executor_reachable.intros)
qed

lemma jobs_fifo_none_stranded_witness:
  "jobs (add_locked 5 two_waiting) = [5] \<and>
   (\<exists>u. runners (notify_one 0 (add_locked 5 two_waiting)) u = Checking)"
proof -
  let ?s = "notify_one 0 (add_locked 5 two_waiting)"
  have "executor_reachable ?s"
    by (rule executor_reachable.Step [OF executor_reachable.Step [OF two_waiting_reachable]
        executor_step.Notify, OF executor_step.Add])
      (simp_all add: executor_ops executor_init_def two_waiting_def)
  from jobs_fifo_none_stranded [OF this, of 1]
  show ?thesis by (simp add: executor_ops executor_init_def two_waiting_def)
qed

text \<open>
  \<open>stop\<close> notifies one waiter only. There is a reachable state with \<open>finished_\<close> set, the
  queue empty and every notification sent in which one runner has returned and the other is
  still blocked in \<open>run\<close>, with nothing left that would wake it.
\<close>

theorem stop_leaves_runner_blocked:
  "\<exists>s. executor_reachable s \<and> finished s \<and> jobs s = [] \<and> notifies s = 0 \<and>
     runners s 0 = Returned \<and> runners s 1 = Blocked"
proof (intro exI conjI)
  let ?n = "notify_one 0 (stop_locked two_waiting)"
  let ?s = "run_locked 0 ?n"
  have "executor_step two_waiting (stop_locked two_waiting)" by (rule executor_step.Stop)
  moreover have "executor_step (stop_locked two_waiting) ?n"
    by (rule executor_step.Notify) (simp_all add: executor_ops executor_init_def two_waiting_def)
  moreover have "executor_step ?n ?s"
    by (rule executor_step.Run) (simp_all add: executor_ops executor_init_def two_waiting_def)
  ultimately show "executor_reachable ?s"
    using two_waiting_reachable by (meson executor_reachable.intros)
qed (simp_all add: executor_ops executor_init_def two_waiting_def)

end
