(* ===== verification/Sync_Event.thy ===== *)
theory Sync_Event
  imports Ptl_Prelude
begin

text \<open>
  \<open>sync/event.hpp\<close>: the manual reset event built on a futex. Every atomic access and every
  futex call is one step. \<open>FUTEX_WAIT\<close> puts the caller to sleep only if the word still holds
  the value it passed, and otherwise fails with \<open>EAGAIN\<close>; \<open>FUTEX_WAKE\<close> wakes every sleeper;
  a sleeper may also wake for no reason (\<open>EINTR\<close>).
\<close>

datatype wait_pc =
    Idle
  | Loading
  | About_To_Sleep u32     \<comment> \<open>with the value it loaded\<close>
  | Sleeping
  | Has_Returned

text \<open>
  \<open>wakes\<close> counts the calls of \<open>set\<close> between their store and their \<open>FUTEX_WAKE\<close>; \<open>sets\<close> and
  \<open>resets\<close> count all calls.
\<close>

record event_state =
  signal :: u32
  wait_pcs :: "nat \<Rightarrow> wait_pc"
  wakes :: nat
  sets :: nat
  resets :: nat

definition event_init :: event_state where
  "event_init = \<lparr>signal = 0, wait_pcs = (\<lambda>_. Idle), wakes = 0, sets = 0, resets = 0\<rparr>"

definition set_store :: "event_state \<Rightarrow> event_state" where
  "set_store s = s\<lparr>signal := 1, wakes := Suc (wakes s), sets := Suc (sets s)\<rparr>"

definition set_wake :: "event_state \<Rightarrow> event_state" where
  "set_wake s = s\<lparr>wakes := wakes s - 1,
     wait_pcs := (\<lambda>t. if wait_pcs s t = Sleeping then Loading else wait_pcs s t)\<rparr>"

definition event_reset :: "event_state \<Rightarrow> event_state" where
  "event_reset s = s\<lparr>signal := 0, resets := Suc (resets s)\<rparr>"

definition at_pc :: "nat \<Rightarrow> wait_pc \<Rightarrow> event_state \<Rightarrow> event_state" where
  "at_pc t p s = s\<lparr>wait_pcs := (wait_pcs s)(t := p)\<rparr>"

definition wait_load :: "nat \<Rightarrow> event_state \<Rightarrow> event_state" where
  "wait_load t s = at_pc t (if signal s = 0 then About_To_Sleep (signal s) else Has_Returned) s"

definition wait_futex :: "nat \<Rightarrow> u32 \<Rightarrow> event_state \<Rightarrow> event_state" where
  "wait_futex t old s = at_pc t (if signal s = old then Sleeping else Has_Returned) s"

text \<open>The steps of a waiter; the event itself is only read.\<close>

inductive wait_step :: "nat \<Rightarrow> event_state \<Rightarrow> event_state \<Rightarrow> bool" for t where
  Call: "wait_pcs s t = Idle \<Longrightarrow> wait_step t s (at_pc t Loading s)"
| Load: "wait_pcs s t = Loading \<Longrightarrow> wait_step t s (wait_load t s)"
| Futex: "wait_pcs s t = About_To_Sleep old \<Longrightarrow> wait_step t s (wait_futex t old s)"
| Interrupted: "wait_pcs s t = Sleeping \<Longrightarrow> wait_step t s (at_pc t Loading s)"

inductive event_step :: "event_state \<Rightarrow> event_state \<Rightarrow> bool" where
  Wait: "wait_step t s s' \<Longrightarrow> event_step s s'"
| Set: "event_step s (set_store s)"
| Wake: "wakes s > 0 \<Longrightarrow> event_step s (set_wake s)"
| Reset: "event_step s (event_reset s)"

inductive event_reachable :: "event_state \<Rightarrow> bool" where
  Init: "event_reachable event_init"
| Step: "event_reachable s \<Longrightarrow> event_step s s' \<Longrightarrow> event_reachable s'"

inductive_cases wait_stepE: "wait_step t s s'"
inductive_cases event_stepE: "event_step s s'"

lemmas event_ops = set_store_def set_wake_def event_reset_def at_pc_def wait_load_def wait_futex_def

section \<open>Invariant\<close>

fun pc_fine :: "wait_pc \<Rightarrow> bool" where
  "pc_fine (About_To_Sleep old) \<longleftrightarrow> old = 0"
| "pc_fine _ \<longleftrightarrow> True"

definition event_inv :: "event_state \<Rightarrow> bool" where
  "event_inv s \<longleftrightarrow>
     signal s \<in> {0, 1} \<and> wakes s \<le> sets s \<and>
     (signal s \<noteq> 0 \<longrightarrow> sets s > 0) \<and>
     (sets s > 0 \<and> resets s = 0 \<longrightarrow> signal s = 1) \<and>
     (\<forall>t. wait_pcs s t = Has_Returned \<longrightarrow> sets s > 0) \<and>
     (\<forall>t. pc_fine (wait_pcs s t)) \<and>
     (\<forall>t. wait_pcs s t = Sleeping \<and> signal s = 1 \<longrightarrow> wakes s > 0)"

lemma event_inv_at_pc:
  assumes "event_inv s"
    and "p = Has_Returned \<longrightarrow> sets s > 0" and "pc_fine p"
    and "p = Sleeping \<longrightarrow> signal s = 0"
  shows "event_inv (at_pc t p s)"
  using assms unfolding event_inv_def at_pc_def by (simp, metis zero_neq_one)

lemma event_inv_wait:
  assumes "event_inv s" and "wait_step t s s'"
  shows "event_inv s'"
  using assms(2)
proof (cases rule: wait_step.cases)
  case Call
  then show ?thesis using assms(1) by (simp add: event_inv_at_pc)
next
  case Load
  have "signal s \<noteq> 0 \<longrightarrow> sets s > 0" using assms(1) by (simp add: event_inv_def)
  then show ?thesis using assms(1) Load by (simp add: wait_load_def event_inv_at_pc)
next
  case (Futex old)
  have "pc_fine (wait_pcs s t)" "signal s \<noteq> 0 \<longrightarrow> sets s > 0"
    using assms(1) by (simp_all add: event_inv_def)
  then show ?thesis using assms(1) Futex by (simp add: wait_futex_def event_inv_at_pc)
next
  case Interrupted
  then show ?thesis using assms(1) by (simp add: event_inv_at_pc)
qed

lemma event_inv_step:
  assumes "event_inv s" and "event_step s s'"
  shows "event_inv s'"
  using assms(2)
proof (cases rule: event_step.cases)
  case (Wait t)
  then show ?thesis using assms(1) by (simp add: event_inv_wait)
next
  case Set
  then show ?thesis using assms(1) unfolding event_inv_def set_store_def by simp
next
  case Wake
  have "\<forall>t. wait_pcs (set_wake s) t \<noteq> Sleeping" by (simp add: set_wake_def)
  moreover have "\<forall>t. pc_fine (wait_pcs (set_wake s) t)" if "\<forall>t. pc_fine (wait_pcs s t)"
    using that by (simp add: set_wake_def)
  moreover have "wait_pcs (set_wake s) t = Has_Returned \<longleftrightarrow> wait_pcs s t = Has_Returned" for t
    by (simp add: set_wake_def)
  ultimately show ?thesis using assms(1) Wake
    unfolding event_inv_def by (simp add: set_wake_def) linarith
next
  case Reset
  then show ?thesis using assms(1) unfolding event_inv_def event_reset_def by simp
qed

lemma event_inv_reachable: "event_reachable s \<Longrightarrow> event_inv s"
proof (induction rule: event_reachable.induct)
  case Init
  show ?case by (simp add: event_inv_def event_init_def)
qed (rule event_inv_step)

section \<open>Properties\<close>

text \<open>
  No wake-up is lost. In every reachable state of any number of setters, resetters and
  waiters, a waiter sleeps on a set event only while a \<open>set\<close> is about to wake it; a waiter
  returns only after a \<open>set\<close>; and if the event was set and never reset, then after the wake no
  waiter sleeps and each one that looks at the event returns.
\<close>

theorem event_no_lost_wakeup:
  assumes "event_reachable s"
  shows "(wait_pcs s t = Sleeping \<and> signal s = 1 \<longrightarrow> wakes s > 0) \<and>
    (wait_pcs s t = Has_Returned \<longrightarrow> sets s > 0) \<and>
    (sets s > 0 \<and> resets s = 0 \<and> wakes s = 0 \<longrightarrow>
       wait_pcs s t \<noteq> Sleeping \<and>
       (wait_pcs s t = Loading \<and> wait_step t s s' \<longrightarrow> wait_pcs s' t = Has_Returned) \<and>
       (wait_pcs s t = About_To_Sleep old \<and> wait_step t s s' \<longrightarrow> wait_pcs s' t = Has_Returned))"
proof -
  have inv: "event_inv s" by (rule event_inv_reachable [OF assms])
  have "wait_pcs s' t = Has_Returned"
    if "signal s = 1" "wait_pcs s t = Loading \<or> (\<exists>old. wait_pcs s t = About_To_Sleep old)"
      "wait_step t s s'"
    using that(3)
  proof (cases rule: wait_step.cases)
    case (Futex old)
    have "pc_fine (wait_pcs s t)" using inv by (simp add: event_inv_def)
    then show ?thesis using Futex that(1) by (simp add: wait_futex_def at_pc_def)
  qed (use that in \<open>simp_all add: wait_load_def at_pc_def\<close>)
  moreover have "signal s \<in> {0, 1}" "sets s > 0 \<and> resets s = 0 \<longrightarrow> signal s = 1"
      "wait_pcs s t = Has_Returned \<longrightarrow> sets s > 0" "wait_pcs s t = Sleeping \<and> signal s = 1 \<longrightarrow> wakes s > 0"
    using inv unfolding event_inv_def by blast+
  ultimately show ?thesis by auto
qed

definition sleeping_waiter :: event_state where
  "sleeping_waiter = wait_futex 0 0 (wait_load 0 (at_pc 0 Loading event_init))"

lemma sleeping_waiter_reachable: "event_reachable sleeping_waiter"
proof -
  let ?a = "at_pc 0 Loading event_init"
  have "event_step event_init ?a" and "event_step ?a (wait_load 0 ?a)"
    by (rule event_step.Wait, rule wait_step.Call, simp add: event_init_def)
      (rule event_step.Wait, rule wait_step.Load, simp add: at_pc_def)
  moreover have "event_step (wait_load 0 ?a) sleeping_waiter"
    unfolding sleeping_waiter_def
    by (rule event_step.Wait, rule wait_step.Futex) (simp add: event_ops event_init_def)
  ultimately show ?thesis by (meson event_reachable.intros)
qed

lemma event_no_lost_wakeup_witness:
  "wait_pcs (set_store sleeping_waiter) 0 = Sleeping \<and> wakes (set_store sleeping_waiter) > 0"
proof -
  have "event_reachable (set_store sleeping_waiter)"
    by (rule event_reachable.Step [OF sleeping_waiter_reachable event_step.Set])
  from event_no_lost_wakeup [OF this, of 0] show ?thesis
    by (simp add: sleeping_waiter_def event_ops event_init_def)
qed

text \<open>
  A pulse can be missed and a wake can be late. From a state with a sleeping waiter and an
  event that was never set, \<open>set\<close> followed by \<open>reset\<close> can leave that waiter asleep with every
  wake delivered; and a waiter can return while the \<open>set\<close> that released it has yet to make its
  futex call on the event.
\<close>

theorem event_pulse_and_late_wake:
  "(\<exists>s'. event_reachable sleeping_waiter \<and> event_step\<^sup>*\<^sup>* (event_reset (set_store sleeping_waiter)) s' \<and>
      wait_pcs sleeping_waiter 0 = Sleeping \<and> sets s' = 1 \<and> wakes s' = 0 \<and> wait_pcs s' 0 = Sleeping) \<and>
   (\<exists>s. event_reachable s \<and> wait_pcs s 0 = Has_Returned \<and> wakes s = 1 \<and> sets s = 1)"
proof -
  let ?r = "event_reset (set_store sleeping_waiter)"
  let ?w = "set_wake ?r"
  let ?s' = "wait_futex 0 0 (wait_load 0 ?w)"
  have "event_step ?r ?w"
    by (rule event_step.Wake) (simp add: event_ops)
  moreover have "event_step ?w (wait_load 0 ?w)" and "event_step (wait_load 0 ?w) ?s'"
    by (rule event_step.Wait, rule wait_step.Load, simp add: sleeping_waiter_def event_ops event_init_def)
      (rule event_step.Wait, rule wait_step.Futex, simp add: sleeping_waiter_def event_ops event_init_def)
  ultimately have "event_step\<^sup>*\<^sup>* ?r ?s'"
    by (meson converse_rtranclp_into_rtranclp rtranclp.rtrancl_refl)
  moreover have "wait_pcs sleeping_waiter 0 = Sleeping" "sets ?s' = 1" "wakes ?s' = 0"
      "wait_pcs ?s' 0 = Sleeping"
    by (simp_all add: sleeping_waiter_def event_ops event_init_def)
  moreover
  let ?l = "wait_load 0 (at_pc 0 Loading (set_store event_init))"
  have "event_step event_init (set_store event_init)"
    and "event_step (set_store event_init) (at_pc 0 Loading (set_store event_init))"
    by (rule event_step.Set)
      (rule event_step.Wait, rule wait_step.Call, simp add: event_ops event_init_def)
  moreover have "event_step (at_pc 0 Loading (set_store event_init)) ?l"
    by (rule event_step.Wait, rule wait_step.Load) (simp add: event_ops)
  ultimately have late: "event_reachable ?l" by (meson event_reachable.intros)
  have pulse: "event_step\<^sup>*\<^sup>* ?r ?s'" by fact
  show ?thesis
  proof (intro conjI)
    show "\<exists>s'. event_reachable sleeping_waiter \<and> event_step\<^sup>*\<^sup>* ?r s' \<and>
        wait_pcs sleeping_waiter 0 = Sleeping \<and> sets s' = 1 \<and> wakes s' = 0 \<and> wait_pcs s' 0 = Sleeping"
      using pulse sleeping_waiter_reachable
      by (intro exI [of _ ?s']) (simp add: sleeping_waiter_def event_ops event_init_def)
    show "\<exists>s. event_reachable s \<and> wait_pcs s 0 = Has_Returned \<and> wakes s = 1 \<and> sets s = 1"
      using late by (intro exI [of _ ?l]) (simp add: event_ops event_init_def)
  qed
qed

end
