(* ===== verification/Sync_Wait.thy ===== *)
theory Sync_Wait
  imports Sync_Event
begin

text \<open>
  \<open>sync_wait.hpp\<close>: \<open>async_wait\<close>, which blocks a thread on a manual reset event until an awaitable
  has completed on whatever thread, and \<open>sync_wait\<close>, which only resumes the awaitable and then
  reads its result.
\<close>

section \<open>The promise\<close>

text \<open>
  \<open>result_\<close> is a raw pointer without an initialiser: \<open>None\<close> is the state in which reading it is
  undefined. \<open>delivered\<close> says that \<open>T\<close> is not \<open>void\<close>.
\<close>

record 'v wait_promise =
  result_pointer :: "'v option"
  exception_pointer :: "nat option"

definition wait_promise_init :: "'v wait_promise" where
  "wait_promise_init = \<lparr>result_pointer = None, exception_pointer = None\<rparr>"

definition wait_yield_value :: "'v \<Rightarrow> 'v wait_promise \<Rightarrow> 'v wait_promise" where
  "wait_yield_value v p = p\<lparr>result_pointer := Some v\<rparr>"

definition wait_unhandled_exception :: "nat \<Rightarrow> 'v wait_promise \<Rightarrow> 'v wait_promise" where
  "wait_unhandled_exception e p = p\<lparr>exception_pointer := Some e\<rparr>"

definition wait_promise_result :: "'v wait_promise \<Rightarrow> 'v res" where
  "wait_promise_result p =
     (case exception_pointer p of
        Some e \<Rightarrow> Inl (Rethrown e)
      | None \<Rightarrow> (case result_pointer p of Some v \<Rightarrow> Inr v | None \<Rightarrow> Inl Undefined_Behaviour))"

definition void_promise_result :: "'v wait_promise \<Rightarrow> unit res" where
  "void_promise_result p =
     (case exception_pointer p of Some e \<Rightarrow> Inl (Rethrown e) | None \<Rightarrow> Inr ())"

text \<open>What the awaited operation ends with, and the body of \<open>make_async_wait_task\<close> for it.\<close>

datatype 'v completion = Gives 'v | Throws nat

fun wait_task_body :: "'v completion \<Rightarrow> 'v wait_promise \<Rightarrow> 'v wait_promise" where
  "wait_task_body (Gives v) p = wait_yield_value v p"
| "wait_task_body (Throws e) p = wait_unhandled_exception e p"

fun completion_res :: "'v completion \<Rightarrow> 'v res" where
  "completion_res (Gives v) = Inr v"
| "completion_res (Throws e) = Inl (Rethrown e)"

lemma wait_task_body_result:
  "wait_promise_result (wait_task_body c wait_promise_init) = completion_res c"
  by (cases c) (simp_all add: wait_promise_result_def wait_promise_init_def wait_yield_value_def
      wait_unhandled_exception_def)

section \<open>\<open>async_wait\<close>\<close>

text \<open>
  The task is created suspended; the caller stores the event in its promise and resumes it
  (\<open>start\<close>). The task runs, on any thread, until its body ends; its final awaiter
  (\<open>completion_notifier\<close>) then sets the event. The caller is the only waiter, numbered 0.
\<close>

datatype task_phase = Not_Started | Running | Finished | Notified

record 'v async_wait =
  event :: event_state
  promise_event :: bool     \<comment> \<open>\<open>event_\<close> has been stored\<close>
  promise :: "'v wait_promise"
  task_phase :: task_phase
  ended_with :: "'v completion option"
  crashed :: bool

definition async_wait_init :: "'v async_wait" where
  "async_wait_init = \<lparr>event = event_init, promise_event = False, promise = wait_promise_init,
     task_phase = Not_Started, ended_with = None, crashed = False\<rparr>"

definition task_start :: "'v async_wait \<Rightarrow> 'v async_wait" where
  "task_start s = s\<lparr>promise_event := True, task_phase := Running\<rparr>"

definition task_ends :: "'v completion \<Rightarrow> 'v async_wait \<Rightarrow> 'v async_wait" where
  "task_ends c s =
     s\<lparr>promise := wait_task_body c (promise s), task_phase := Finished, ended_with := Some c\<rparr>"

definition notifier_suspends :: "'v async_wait \<Rightarrow> 'v async_wait" where
  "notifier_suspends s =
     (if promise_event s then s\<lparr>event := set_store (event s), task_phase := Notified\<rparr>
      else s\<lparr>crashed := True\<rparr>)"

inductive async_wait_step :: "'v async_wait \<Rightarrow> 'v async_wait \<Rightarrow> bool" where
  Start: "task_phase s = Not_Started \<Longrightarrow> async_wait_step s (task_start s)"
| Ends: "task_phase s = Running \<Longrightarrow> async_wait_step s (task_ends c s)"
| Notify: "task_phase s = Finished \<Longrightarrow> async_wait_step s (notifier_suspends s)"
| Notify_Wake: "wakes (event s) > 0 \<Longrightarrow> async_wait_step s (s\<lparr>event := set_wake (event s)\<rparr>)"
| Waits: "\<lbrakk>task_phase s \<noteq> Not_Started; wait_step 0 (event s) e\<rbrakk>
    \<Longrightarrow> async_wait_step s (s\<lparr>event := e\<rparr>)"

inductive async_wait_reachable :: "'v async_wait \<Rightarrow> bool" where
  Init: "async_wait_reachable async_wait_init"
| Step: "async_wait_reachable s \<Longrightarrow> async_wait_step s s' \<Longrightarrow> async_wait_reachable s'"

definition async_wait_inv :: "'v async_wait \<Rightarrow> bool" where
  "async_wait_inv s \<longleftrightarrow>
     \<not> crashed s \<and> (task_phase s \<noteq> Not_Started \<longrightarrow> promise_event s) \<and>
     event_reachable (event s) \<and> resets (event s) = 0 \<and>
     (sets (event s) > 0 \<longleftrightarrow> task_phase s = Notified) \<and>
     (case ended_with s of
        None \<Rightarrow> promise s = wait_promise_init \<and> task_phase s \<in> {Not_Started, Running}
      | Some c \<Rightarrow> promise s = wait_task_body c wait_promise_init \<and> task_phase s \<in> {Finished, Notified})"

lemma wait_step_counts: "wait_step t e e' \<Longrightarrow> sets e' = sets e \<and> resets e' = resets e"
  by (cases rule: wait_step.cases) (auto simp: event_ops)

lemma async_wait_inv_step:
  assumes "async_wait_inv s" and "async_wait_step s s'"
  shows "async_wait_inv s'"
  using assms(2)
proof (cases rule: async_wait_step.cases)
  case Notify
  have "event_reachable (set_store (event s))"
    using assms(1) by (auto simp: async_wait_inv_def intro: event_reachable.Step event_step.Set)
  then show ?thesis
    using assms(1) Notify
    by (auto simp: async_wait_inv_def notifier_suspends_def set_store_def split: option.splits)
next
  case Notify_Wake
  have "event_reachable (set_wake (event s))"
    using assms(1) Notify_Wake
    by (auto simp: async_wait_inv_def intro: event_reachable.Step event_step.Wake)
  then show ?thesis
    using assms(1) Notify_Wake by (auto simp: async_wait_inv_def set_wake_def split: option.splits)
next
  case (Waits e)
  have "event_reachable e"
    using assms(1) Waits by (auto simp: async_wait_inv_def intro: event_reachable.Step event_step.Wait)
  then show ?thesis
    using assms(1) Waits wait_step_counts [OF Waits(3)]
    by (auto simp: async_wait_inv_def split: option.splits)
qed (use assms(1) in \<open>auto simp: async_wait_inv_def task_start_def task_ends_def split: option.splits\<close>)

lemma async_wait_inv_reachable: "async_wait_reachable s \<Longrightarrow> async_wait_inv s"
proof (induction rule: async_wait_reachable.induct)
  case Init
  show ?case
    using event_reachable.Init by (simp add: async_wait_inv_def async_wait_init_def event_init_def)
qed (rule async_wait_inv_step)

section \<open>\<open>sync_wait\<close>\<close>

text \<open>
  \<open>task.start()\<close> resumes the body; \<open>Some c\<close> says that it ran to its end before \<open>start\<close>
  returned, \<open>None\<close> that the awaitable suspended it.
\<close>

definition sync_wait :: "'v completion option \<Rightarrow> 'v res" where
  "sync_wait finished =
     wait_promise_result
       (case finished of Some c \<Rightarrow> wait_task_body c wait_promise_init | None \<Rightarrow> wait_promise_init)"

definition sync_wait_void :: "unit completion option \<Rightarrow> unit res" where
  "sync_wait_void finished =
     void_promise_result
       (case finished of Some c \<Rightarrow> wait_task_body c wait_promise_init | None \<Rightarrow> wait_promise_init)"

section \<open>Properties\<close>

text \<open>
  C22: \<open>async_wait\<close> gives exactly what the awaitable gave. Whatever the interleaving of the caller
  and the task, the notifier never runs without an event; when \<open>wait\<close> has returned, the task
  has ended and \<open>result\<close> is its value or rethrows its exception; and once the task's wake is
  out the caller cannot be asleep, and whatever it does next in \<open>wait\<close> returns.
\<close>

theorem async_wait_gives_outcome:
  assumes "async_wait_reachable s"
  shows "\<not> crashed s \<and>
    (wait_pcs (event s) 0 = Has_Returned \<longrightarrow>
      (\<exists>c. ended_with s = Some c \<and> wait_promise_result (promise s) = completion_res c)) \<and>
    (task_phase s = Notified \<and> wakes (event s) = 0 \<longrightarrow> wait_pcs (event s) 0 \<noteq> Sleeping \<and>
      (wait_pcs (event s) 0 \<noteq> Idle \<and> wait_step 0 (event s) e \<longrightarrow> wait_pcs e 0 = Has_Returned))"
proof -
  have inv: "async_wait_inv s" by (rule async_wait_inv_reachable [OF assms])
  have ev: "event_inv (event s)"
    using inv by (simp add: async_wait_inv_def event_inv_reachable)
  have "wait_pcs e 0 = Has_Returned"
    if "signal (event s) = 1" "wait_pcs (event s) 0 \<noteq> Idle" "wait_pcs (event s) 0 \<noteq> Sleeping"
      "wait_step 0 (event s) e"
    using that(4)
  proof (cases rule: wait_step.cases)
    case (Futex old)
    have "pc_fine (wait_pcs (event s) 0)" using ev by (simp add: event_inv_def)
    then show ?thesis using Futex that(1) by (simp add: wait_futex_def at_pc_def)
  qed (use that in \<open>simp_all add: wait_load_def at_pc_def\<close>)
  moreover have "task_phase s = Notified \<Longrightarrow> signal (event s) = 1"
    and "wait_pcs (event s) 0 = Has_Returned \<Longrightarrow> task_phase s = Notified"
    and "signal (event s) = 1 \<Longrightarrow> wakes (event s) = 0 \<Longrightarrow> wait_pcs (event s) 0 \<noteq> Sleeping"
    using inv ev unfolding async_wait_inv_def event_inv_def by (metis gr_implies_not0)+
  moreover have "\<exists>c. ended_with s = Some c \<and> wait_promise_result (promise s) = completion_res c"
    if "task_phase s = Notified"
    using inv that by (auto simp: async_wait_inv_def wait_task_body_result split: option.splits)
  ultimately show ?thesis using inv by (auto simp: async_wait_inv_def)
qed

text \<open>The caller sleeps before the task ends, is woken and returns.\<close>

definition waited :: "nat async_wait" where
  "waited =
     (let asleep = (task_start async_wait_init)\<lparr>event := sleeping_waiter\<rparr>;
          woken = (notifier_suspends (task_ends (Throws 3) asleep));
          woken = woken\<lparr>event := set_wake (event woken)\<rparr>
      in woken\<lparr>event := wait_load 0 (event woken)\<rparr>)"

lemma waited_reachable: "async_wait_reachable waited"
proof -
  let ?i = "task_start (async_wait_init :: nat async_wait)"
  let ?z = "?i\<lparr>event := sleeping_waiter\<rparr>"
  let ?e = "task_ends (Throws 3) ?z"
  let ?n = "notifier_suspends ?e"
  let ?w = "?n\<lparr>event := set_wake (event ?n)\<rparr>"
  let ?a = "at_pc 0 Loading event_init"
  have i: "task_phase ?i = Running" "event ?i = event_init"
    by (simp_all add: task_start_def async_wait_init_def)
  have "async_wait_step async_wait_init ?i"
    by (rule async_wait_step.Start) (simp add: async_wait_init_def)
  moreover have "async_wait_step ?i (?i\<lparr>event := ?a\<rparr>)"
    by (rule async_wait_step.Waits) (simp_all add: i wait_step.Call event_init_def)
  moreover have "async_wait_step (?i\<lparr>event := ?a\<rparr>) (?i\<lparr>event := wait_load 0 ?a\<rparr>)"
    using async_wait_step.Waits [of "?i\<lparr>event := ?a\<rparr>" "wait_load 0 ?a"]
    by (simp add: i wait_step.Load at_pc_def)
  moreover have "wait_step 0 (wait_load 0 ?a) sleeping_waiter"
    unfolding sleeping_waiter_def
    by (rule wait_step.Futex) (simp add: wait_load_def at_pc_def event_init_def)
  then have "async_wait_step (?i\<lparr>event := wait_load 0 ?a\<rparr>) ?z"
    using async_wait_step.Waits [of "?i\<lparr>event := wait_load 0 ?a\<rparr>" sleeping_waiter] by (simp add: i)
  moreover have "async_wait_step ?z ?e"
    by (rule async_wait_step.Ends) (simp add: i)
  moreover have "async_wait_step ?e ?n"
    by (rule async_wait_step.Notify) (simp add: task_ends_def)
  moreover have "async_wait_step ?n ?w"
    by (rule async_wait_step.Notify_Wake)
      (simp add: notifier_suspends_def task_ends_def task_start_def set_store_def)
  moreover have "async_wait_step ?w (?w\<lparr>event := wait_load 0 (event ?w)\<rparr>)"
    by (rule async_wait_step.Waits, simp add: notifier_suspends_def task_ends_def task_start_def,
        rule wait_step.Load, simp add: notifier_suspends_def task_ends_def task_start_def
        sleeping_waiter_def event_ops event_init_def)
  moreover have "waited = ?w\<lparr>event := wait_load 0 (event ?w)\<rparr>"
    by (simp add: waited_def Let_def)
  ultimately show ?thesis
    using async_wait_reachable.intros by metis
qed

lemma async_wait_gives_outcome_witness:
  "wait_pcs (event waited) 0 = Has_Returned \<and> wait_promise_result (promise waited) = Inl (Rethrown 3)"
proof -
  have "wait_pcs (event waited) 0 = Has_Returned" "ended_with waited = Some (Throws 3)"
    by (simp_all add: waited_def notifier_suspends_def task_ends_def task_start_def
        sleeping_waiter_def event_ops event_init_def)
  then show ?thesis using async_wait_gives_outcome [OF waited_reachable] by auto
qed

text \<open>
  \<open>sync_wait\<close> does not wait. It gives the outcome of an awaitable that completes without
  suspending; for one that suspends, it reads a result pointer nobody has assigned, and for
  \<open>void\<close> it returns normally with the operation still running.
\<close>

theorem sync_wait_only_synchronous:
  "sync_wait (Some c) = completion_res c \<and> sync_wait_void (Some (Throws e)) = Inl (Rethrown e) \<and>
   sync_wait_void (Some (Gives ())) = Inr () \<and>
   sync_wait (None :: 'v completion option) = Inl Undefined_Behaviour \<and> sync_wait_void None = Inr ()"
  by (simp add: sync_wait_def sync_wait_void_def wait_task_body_result)
    (simp add: void_promise_result_def wait_promise_result_def wait_promise_init_def
      wait_yield_value_def wait_unhandled_exception_def)

end
