(* ===== verification/Coro_Task.thy ===== *)
theory Coro_Task
  imports Expected
begin

text \<open>
  \<open>task.hpp\<close> with \<open>detail/schedule_awaitable.hpp\<close>: the promise of a \<open>Task\<close>, the three ways to
  await (\<open>co_await task\<close>, \<open>co_await task.schedule_on(executor)\<close> and the scheduler awaitable that
  moves the coroutine itself) and the final awaiter that hands control back. The bodies of the
  coroutines are the client's: a body is the list of what it awaits and how it ends. The
  executors' queues and \<open>Executor::current\<close> are those of \<open>execution/basic_executor.hpp\<close>.
\<close>

section \<open>The promise\<close>

text \<open>
  The result is stored in an \<open>expected<T, std::exception_ptr, error_policy_throw>\<close>: a temporary
  is built from the value or the exception, move-assigned and destroyed.
\<close>

definition no_ledger :: ledger where
  "no_ledger = \<lparr>constructed = 0, destroyed = 0\<rparr>"

definition assign_temporary ::
  "('v, nat) elements \<Rightarrow> ('v, nat) expected \<Rightarrow> ('v, nat) expected \<Rightarrow> ledger \<Rightarrow> ('v, nat) expected res" where
  "assign_temporary el stored tmp l =
     res_bind (move_assign el stored tmp l) (\<lambda>(stored, tmp, l).
       res_bind (destructor tmp l) (\<lambda>_. Inr stored))"

definition task_return_value ::
  "('v, nat) elements \<Rightarrow> 'v \<Rightarrow> ('v, nat) expected \<Rightarrow> ('v, nat) expected res" where
  "task_return_value el v stored =
     res_bind (expected_value el v no_ledger) (\<lambda>(tmp, l). assign_temporary el stored tmp l)"

definition task_unhandled_exception ::
  "('v, nat) elements \<Rightarrow> nat \<Rightarrow> ('v, nat) expected \<Rightarrow> ('v, nat) expected res" where
  "task_unhandled_exception el e stored =
     (case expected_error_move el e no_ledger of (tmp, _, l) \<Rightarrow> assign_temporary el stored tmp l)"

definition task_result :: "('v, nat) expected \<Rightarrow> 'v res" where
  "task_result stored = value_lvalue Error_Policy_Throw Some stored"

text \<open>Values whose copies and moves leave everything as it is, like \<open>std::exception_ptr\<close>'s copies.\<close>

definition plain :: "('v, nat) elements" where
  "plain = \<lparr>copy_value = Inr, copy_error = Inr, move_value = (\<lambda>v. (v, v)), move_error = (\<lambda>e. (e, e))\<rparr>"

datatype 'v ending = Co_Return 'v | Raise nat

fun ending_res :: "'v ending \<Rightarrow> 'v res" where
  "ending_res (Co_Return v) = Inr v"
| "ending_res (Raise e) = Inl (Rethrown e)"

fun store_ending :: "'v ending \<Rightarrow> ('v, nat) expected \<Rightarrow> ('v, nat) expected res" where
  "store_ending (Co_Return v) stored = task_return_value plain v stored"
| "store_ending (Raise e) stored = task_unhandled_exception plain e stored"

lemma store_ending_fresh:
  "\<exists>stored. store_ending out expected_nothing = Inr stored \<and> task_result stored = ending_res out"
  by (cases out)
    (simp_all add: task_return_value_def task_unhandled_exception_def assign_temporary_def
      expected_value_def expected_error_move_def move_assign_def destroy_def move_from_def
      destructor_def expected_nothing_def plain_def task_result_def value_lvalue_def enforce_def
      destroy_value_def destroy_error_def)

text \<open>
  The promise of \<open>Task<void>\<close> stores only an exception: \<open>return_void\<close> does nothing, and an
  \<open>expected<void>\<close> that contains nothing is a success.
\<close>

definition void_task_unhandled_exception ::
  "(unit, nat) elements \<Rightarrow> nat \<Rightarrow> (unit, nat) expected \<Rightarrow> (unit, nat) expected res" where
  "void_task_unhandled_exception el e stored =
     (case void_error_move el e no_ledger of
        (tmp, _, l) \<Rightarrow>
          res_bind (void_move_assign el stored tmp l) (\<lambda>(stored, tmp, l).
            res_bind (void_destructor tmp l) (\<lambda>_. Inr stored)))"

definition void_task_result :: "(unit, nat) expected \<Rightarrow> unit res" where
  "void_task_result stored = void_value Error_Policy_Throw Some stored"

lemma void_task_results:
  "void_task_result expected_nothing = Inr ()"
  "res_bind (void_task_unhandled_exception plain e expected_nothing) void_task_result = Inl (Rethrown e)"
  by (simp_all add: void_task_unhandled_exception_def void_task_result_def void_value_def enforce_def
      void_error_move_def void_move_assign_def void_destroy_def void_move_from_def void_destructor_def
      destroy_error_def expected_nothing_def plain_def)

section \<open>Coroutines, threads and executors\<close>

datatype instr =
    Co_Await nat              \<comment> \<open>\<open>co_await task\<close>\<close>
  | Schedule_On nat nat       \<comment> \<open>\<open>co_await task.schedule_on(executor)\<close>\<close>
  | Switch_To nat             \<comment> \<open>\<open>co_await SchedulerAwaitable(executor)\<close>\<close>

datatype status = Suspended_Start | Active | Ended

text \<open>
  A frame: what is left of the body, the task whose result the next \<open>await_resume\<close> reads, and
  the promise. A frame that is not a task is a root (the coroutine of \<open>async_wait\<close>); nothing
  is resumed at its end.
\<close>

record 'v frame =
  body :: "instr list"
  ending :: "'v ending"
  awaiting :: "nat option"
  received :: "'v list"
  status :: status
  is_task :: bool
  continuation :: "nat option"
  executor :: "nat option"
  stored :: "('v, nat) expected"

text \<open>
  \<open>running\<close> gives the coroutine a thread executes, \<open>queues\<close> the jobs added to an executor (each
  resumes one coroutine), \<open>current\<close> is \<open>Executor::current\<close> of each thread. \<open>corrupt\<close> records
  undefined behaviour: resuming an empty handle or a coroutine that is not suspended.
\<close>

record 'v world =
  frames :: "nat \<Rightarrow> 'v frame"
  running :: "nat \<Rightarrow> nat option"
  queues :: "nat \<Rightarrow> nat list"
  current :: "nat \<Rightarrow> nat option"
  corrupt :: bool

definition on_frame :: "nat \<Rightarrow> ('v frame \<Rightarrow> 'v frame) \<Rightarrow> 'v world \<Rightarrow> 'v world" where
  "on_frame h f w = w\<lparr>frames := (frames w)(h := f (frames w h))\<rparr>"

definition run_on :: "nat \<Rightarrow> nat option \<Rightarrow> 'v world \<Rightarrow> 'v world" where
  "run_on t h w = w\<lparr>running := (running w)(t := h)\<rparr>"

definition executor_add :: "nat \<Rightarrow> nat \<Rightarrow> 'v world \<Rightarrow> 'v world" where
  "executor_add ex h w = w\<lparr>queues := (queues w)(ex := queues w ex @ [h])\<rparr>"

definition set_continuation :: "nat \<Rightarrow> nat option \<Rightarrow> 'v frame \<Rightarrow> 'v frame" where
  "set_continuation h cur f = f\<lparr>continuation := Some h, executor := cur\<rparr>"

definition await_ready :: "nat \<Rightarrow> 'v world \<Rightarrow> bool" where
  "await_ready c w \<longleftrightarrow> status (frames w c) = Ended"

text \<open>\<open>await_suspend\<close> of \<open>co_await task\<close>: symmetric transfer to the awaited task.\<close>

definition await_suspend :: "nat \<Rightarrow> nat \<Rightarrow> nat \<Rightarrow> 'v world \<Rightarrow> 'v world" where
  "await_suspend t h c w =
     (let w = on_frame c (set_continuation h (current w t)) w
      in if status (frames w c) = Suspended_Start
         then run_on t (Some c) (on_frame c (\<lambda>f. f\<lparr>status := Active\<rparr>) w)
         else w\<lparr>corrupt := True\<rparr>)"

definition schedule_on_suspend :: "nat \<Rightarrow> nat \<Rightarrow> nat \<Rightarrow> nat \<Rightarrow> 'v world \<Rightarrow> 'v world" where
  "schedule_on_suspend t h c ex w =
     run_on t None (executor_add ex c (on_frame c (set_continuation h (current w t)) w))"

text \<open>\<open>final_awaitable::await_suspend\<close>.\<close>

definition final_suspend :: "nat \<Rightarrow> nat \<Rightarrow> 'v world \<Rightarrow> 'v world" where
  "final_suspend t h w =
     (let p = frames w h
      in if \<not> is_task p then run_on t None w
         else case continuation p of
           None \<Rightarrow> w\<lparr>corrupt := True\<rparr>
         | Some k \<Rightarrow>
             (case executor p of
                None \<Rightarrow> run_on t (Some k) w
              | Some ex \<Rightarrow>
                  if current w t = Some ex then run_on t (Some k) w
                  else run_on t None (executor_add ex k w)))"

definition end_coroutine :: "nat \<Rightarrow> nat \<Rightarrow> 'v ending \<Rightarrow> 'v world \<Rightarrow> 'v world" where
  "end_coroutine t h out w =
     (case store_ending out (stored (frames w h)) of
        Inl e \<Rightarrow> w\<lparr>corrupt := True\<rparr>
      | Inr x \<Rightarrow> final_suspend t h (on_frame h (\<lambda>f. f\<lparr>stored := x, awaiting := None, status := Ended\<rparr>) w))"

text \<open>\<open>SchedulerAwaitable\<close>: the coroutine moves itself to the executor, unless it is there already.\<close>

definition scheduler_ready :: "nat \<Rightarrow> nat \<Rightarrow> 'v world \<Rightarrow> bool" where
  "scheduler_ready t ex w \<longleftrightarrow> current w t = Some ex"

definition scheduler_suspend :: "nat \<Rightarrow> nat \<Rightarrow> nat \<Rightarrow> 'v world \<Rightarrow> 'v world" where
  "scheduler_suspend t h ex w = run_on t None (executor_add ex h w)"

declare scheduler_ready_def [simp] scheduler_suspend_def [simp]

text \<open>One step of the coroutine \<open>h\<close> that thread \<open>t\<close> executes.\<close>

definition coroutine_step :: "nat \<Rightarrow> nat \<Rightarrow> 'v world \<Rightarrow> 'v world" where
  "coroutine_step t h w =
     (case awaiting (frames w h) of
        Some c \<Rightarrow>
          (case task_result (stored (frames w c)) of
             Inr v \<Rightarrow> on_frame h (\<lambda>f. f\<lparr>awaiting := None, received := received f @ [v]\<rparr>) w
           | Inl (Rethrown e) \<Rightarrow> end_coroutine t h (Raise e) w
           | Inl _ \<Rightarrow> w\<lparr>corrupt := True\<rparr>)
      | None \<Rightarrow>
          (case body (frames w h) of
             [] \<Rightarrow> end_coroutine t h (ending (frames w h)) w
           | Co_Await c # rest \<Rightarrow>
               let w = on_frame h (\<lambda>f. f\<lparr>body := rest, awaiting := Some c\<rparr>) w
               in if await_ready c w then w else await_suspend t h c w
           | Schedule_On c ex # rest \<Rightarrow>
               schedule_on_suspend t h c ex (on_frame h (\<lambda>f. f\<lparr>body := rest, awaiting := Some c\<rparr>) w)
           | Switch_To ex # rest \<Rightarrow>
               let w = on_frame h (\<lambda>f. f\<lparr>body := rest\<rparr>) w
               in if scheduler_ready t ex w then w else scheduler_suspend t h ex w))"

text \<open>A thread takes the next job of an executor it drains and resumes the coroutine.\<close>

definition take_job :: "nat \<Rightarrow> nat \<Rightarrow> nat \<Rightarrow> 'v world \<Rightarrow> 'v world" where
  "take_job t ex h w =
     (let w = run_on t (Some h) (w\<lparr>queues := (queues w)(ex := tl (queues w ex))\<rparr>)
      in if status (frames w h) = Ended then w\<lparr>corrupt := True\<rparr>
         else on_frame h (\<lambda>f. f\<lparr>status := Active\<rparr>) w)"

inductive coro_step :: "(nat \<Rightarrow> nat \<Rightarrow> bool) \<Rightarrow> 'v world \<Rightarrow> 'v world \<Rightarrow> bool" for drains where
  Run: "running w t = Some h \<Longrightarrow> coro_step drains w (coroutine_step t h w)"
| Take: "\<lbrakk>running w t = None; drains t ex; queues w ex = h # rest\<rbrakk> \<Longrightarrow> coro_step drains w (take_job t ex h w)"

text \<open>
  The program: coroutine 0 is the root, started by thread 0; every other one is a task that
  waits to be awaited.
\<close>

definition coro_init :: "(nat \<Rightarrow> instr list \<times> 'v ending) \<Rightarrow> (nat \<Rightarrow> nat option) \<Rightarrow> 'v world" where
  "coro_init prog cur =
     \<lparr>frames = (\<lambda>h. \<lparr>body = fst (prog h), ending = snd (prog h), awaiting = None, received = [],
        status = (if h = 0 then Active else Suspended_Start), is_task = (h \<noteq> 0),
        continuation = None, executor = None, stored = expected_nothing\<rparr>),
      running = [0 \<mapsto> 0], queues = (\<lambda>_. []), current = cur, corrupt = False\<rparr>"

inductive coro_reachable ::
  "(nat \<Rightarrow> instr list \<times> 'v ending) \<Rightarrow> (nat \<Rightarrow> nat option) \<Rightarrow> (nat \<Rightarrow> nat \<Rightarrow> bool) \<Rightarrow> 'v world \<Rightarrow> bool"
  for prog cur drains where
  Init: "coro_reachable prog cur drains (coro_init prog cur)"
| Step: "coro_reachable prog cur drains w \<Longrightarrow> coro_step drains w w' \<Longrightarrow> coro_reachable prog cur drains w'"

section \<open>Where every coroutine is\<close>

fun target :: "instr \<Rightarrow> nat option" where
  "target (Co_Await c) = Some c"
| "target (Schedule_On c ex) = Some c"
| "target (Switch_To ex) = None"

definition targets :: "instr list \<Rightarrow> nat list" where
  "targets is = List.map_filter target is"

lemma targets_simps [simp]:
  "targets [] = []" "targets (Co_Await c # is) = c # targets is"
  "targets (Schedule_On c ex # is) = c # targets is" "targets (Switch_To ex # is) = targets is"
  by (simp_all add: targets_def)

text \<open>
  A task is awaited once, as \<open>co_await std::move(task)\<close> does, by a coroutine that was created
  before it; there are finitely many.
\<close>

definition well_nested :: "(nat \<Rightarrow> instr list \<times> 'v ending) \<Rightarrow> nat \<Rightarrow> bool" where
  "well_nested prog n \<longleftrightarrow> 0 < n \<and>
     (\<forall>h. distinct (targets (fst (prog h))) \<and> (\<forall>c \<in> set (targets (fst (prog h))). h < c \<and> c < n)) \<and>
     (\<forall>g h. g \<noteq> h \<longrightarrow> set (targets (fst (prog g))) \<inter> set (targets (fst (prog h))) = {})"

text \<open>
  A coroutine that has been handed on is in one place: on a thread, in an executor's queue, or
  the continuation of a task that has not ended.
\<close>

datatype place = On_Thread nat | In_Queue nat | Behind nat

definition placed :: "(nat \<Rightarrow> place option) \<Rightarrow> 'v world \<Rightarrow> bool" where
  "placed pl w \<longleftrightarrow>
     (\<forall>h t. running w t = Some h \<longleftrightarrow> pl h = Some (On_Thread t)) \<and>
     (\<forall>h ex. h \<in> set (queues w ex) \<longleftrightarrow> pl h = Some (In_Queue ex)) \<and>
     (\<forall>ex. distinct (queues w ex)) \<and>
     (\<forall>h c. continuation (frames w c) = Some h \<and> status (frames w c) \<noteq> Ended \<longleftrightarrow> pl h = Some (Behind c))"

definition lively :: "nat \<Rightarrow> (nat \<Rightarrow> place option) \<Rightarrow> 'v world \<Rightarrow> bool" where
  "lively n pl w \<longleftrightarrow>
     (\<forall>h. status (frames w h) = Active \<longrightarrow> pl h \<noteq> None \<and> h < n) \<and>
     (\<forall>h. status (frames w h) = Ended \<longrightarrow> pl h = None) \<and>
     (\<forall>h. status (frames w h) = Suspended_Start \<longrightarrow> pl h = None \<or> (\<exists>ex. pl h = Some (In_Queue ex))) \<and>
     (\<forall>c. is_task (frames w c) \<longleftrightarrow> c \<noteq> 0) \<and>
     (\<forall>c. c \<noteq> 0 \<and> pl c \<noteq> None \<longrightarrow> continuation (frames w c) \<noteq> None) \<and>
     (\<forall>c h. continuation (frames w c) = Some h \<longrightarrow>
        h < c \<and> c < n \<and> (status (frames w c) = Ended \<or> pl c \<noteq> None)) \<and>
     status (frames w 0) \<noteq> Suspended_Start \<and> \<not> corrupt w"

definition untouched :: "nat \<Rightarrow> (nat \<Rightarrow> place option) \<Rightarrow> 'v world \<Rightarrow> bool" where
  "untouched n pl w \<longleftrightarrow>
     (\<forall>g. distinct (targets (body (frames w g)))) \<and>
     (\<forall>g c. c \<in> set (targets (body (frames w g))) \<longrightarrow>
        status (frames w c) = Suspended_Start \<and> continuation (frames w c) = None \<and> pl c = None \<and>
        g < c \<and> c < n) \<and>
     (\<forall>g h c. c \<in> set (targets (body (frames w g))) \<and> c \<in> set (targets (body (frames w h))) \<longrightarrow> g = h)"

definition results_in :: "'v world \<Rightarrow> bool" where
  "results_in w \<longleftrightarrow>
     (\<forall>h c. awaiting (frames w h) = Some c \<longrightarrow> continuation (frames w c) = Some h) \<and>
     (\<forall>c. if status (frames w c) = Ended then \<exists>out. task_result (stored (frames w c)) = ending_res out
          else stored (frames w c) = expected_nothing)"

text \<open>
  A coroutine that awaited on an executor, and whose task has ended, is queued on that executor
  or already on a thread that executes for it.
\<close>

definition at_home :: "(nat \<Rightarrow> place option) \<Rightarrow> 'v world \<Rightarrow> bool" where
  "at_home pl w \<longleftrightarrow>
     (\<forall>h c ex. awaiting (frames w h) = Some c \<and> executor (frames w c) = Some ex \<and>
        status (frames w c) = Ended \<longrightarrow>
          pl h = Some (In_Queue ex) \<or> (\<exists>t. pl h = Some (On_Thread t) \<and> current w t = Some ex))"

definition coro_inv :: "nat \<Rightarrow> (nat \<Rightarrow> nat option) \<Rightarrow> (nat \<Rightarrow> nat \<Rightarrow> bool) \<Rightarrow> (nat \<Rightarrow> place option)
    \<Rightarrow> 'v world \<Rightarrow> bool" where
  "coro_inv n cur drains pl w \<longleftrightarrow>
     placed pl w \<and> lively n pl w \<and> untouched n pl w \<and> results_in w \<and> current w = cur \<and>
     ((\<forall>t ex. drains t ex \<longrightarrow> cur t = Some ex) \<longrightarrow> at_home pl w)"

lemmas world_ops = on_frame_def run_on_def executor_add_def set_continuation_def

lemma coro_inv_init:
  assumes "well_nested prog n"
  shows "coro_inv n cur drains [0 \<mapsto> On_Thread 0] (coro_init prog cur)"
  using assms
proof -
  have "g = h" if "c \<in> set (targets (fst (prog g)))" "c \<in> set (targets (fst (prog h)))" for c g h
    using assms that unfolding well_nested_def by blast
  then show ?thesis
    using assms
    by (auto simp: coro_inv_def placed_def lively_def untouched_def results_in_def at_home_def
        coro_init_def well_nested_def)
qed

text \<open>The elementary moves.\<close>

lemma placed_off_thread:
  assumes "placed pl w" and "running w t = Some h"
  shows "placed (pl(h := None)) (run_on t None w)"
  using assms unfolding placed_def run_on_def
  by (intro conjI allI) (auto, metis option.inject place.inject(1))

lemma placed_on_thread:
  assumes "placed pl w" and "running w t = None" and "pl h = None"
  shows "placed (pl(h \<mapsto> On_Thread t)) (run_on t (Some h) w)"
  using assms unfolding placed_def run_on_def
  by (intro conjI allI) (auto, metis option.distinct(1))

lemma placed_enqueue:
  assumes "placed pl w" and "pl h = None"
  shows "placed (pl(h \<mapsto> In_Queue ex)) (executor_add ex h w)"
  using assms unfolding placed_def executor_add_def
  by (intro conjI allI) auto

lemma placed_dequeue:
  assumes "placed pl w" and "queues w ex = h # rest"
  shows "placed (pl(h := None)) (w\<lparr>queues := (queues w)(ex := rest)\<rparr>)"
proof -
  have "h \<notin> set rest" "distinct rest" "pl h = Some (In_Queue ex)"
    and q: "\<And>x. x \<noteq> h \<Longrightarrow> x \<in> set rest \<longleftrightarrow> pl x = Some (In_Queue ex)"
    using assms unfolding placed_def by (metis distinct.simps(2) set_ConsD list.set_intros)+
  then show ?thesis
    using assms(1) unfolding placed_def
    by (intro conjI allI) (auto simp: q)
qed

lemma placed_suspend:
  assumes "placed pl w" and "pl h = None" and "continuation (frames w c) = None"
    and "status (frames w c) \<noteq> Ended"
  shows "placed (pl(h \<mapsto> Behind c)) (on_frame c (set_continuation h x) w)"
  using assms unfolding placed_def on_frame_def set_continuation_def
  by (intro conjI allI) (auto split: if_splits, metis option.distinct(1))

lemma placed_frame:
  assumes "placed pl w" and "\<And>x. continuation (f x) = continuation x"
    and "status (f (frames w h)) = Ended \<longleftrightarrow> status (frames w h) = Ended"
  shows "placed pl (on_frame h f w)"
  using assms unfolding placed_def on_frame_def
  by (intro conjI allI) auto

lemma placed_end:
  assumes "placed pl w" and "\<And>x. continuation (f x) = continuation x"
    and "\<And>x. status (f x) = Ended" and "status (frames w h) \<noteq> Ended"
  shows "placed (case continuation (frames w h) of None \<Rightarrow> pl | Some k \<Rightarrow> pl(k := None)) (on_frame h f w)"
proof (cases "continuation (frames w h)")
  case None
  then have "pl k \<noteq> Some (Behind h)" for k using assms(1) unfolding placed_def by (metis option.distinct(1))
  then show ?thesis using assms None unfolding placed_def on_frame_def by (intro conjI allI) auto
next
  case (Some k)
  then have "pl k = Some (Behind h)" using assms(1,4) unfolding placed_def by blast
  moreover have "status (frames w c) = Ended" if "c \<noteq> h" "continuation (frames w c) = Some k" for c
    using assms(1) that calculation unfolding placed_def by (metis option.inject place.inject(3))
  ultimately show ?thesis
    using assms Some unfolding placed_def on_frame_def
    by (intro conjI allI) (auto, metis option.inject place.inject(3))
qed

lemma lively_facts:
  assumes "lively n pl w"
  shows "continuation (frames w 0) = None" and "pl h \<noteq> None \<Longrightarrow> h < n"
    and "pl h = Some (On_Thread t) \<Longrightarrow> status (frames w h) = Active"
    and "pl h = Some (Behind c) \<Longrightarrow> status (frames w h) = Active"
proof -
  show root: "continuation (frames w 0) = None"
    using assms unfolding lively_def by (metis not_less0 option.exhaust)
  show "pl h = Some (On_Thread t) \<Longrightarrow> status (frames w h) = Active"
    and "pl h = Some (Behind c) \<Longrightarrow> status (frames w h) = Active"
    using assms unfolding lively_def by (metis option.distinct(1) option.inject place.distinct status.exhaust)+
  assume "pl h \<noteq> None"
  show "h < n"
  proof (cases "h = 0")
    case True
    then show ?thesis using assms \<open>pl h \<noteq> None\<close> unfolding lively_def by (metis status.exhaust)
  next
    case False
    then show ?thesis using assms \<open>pl h \<noteq> None\<close> unfolding lively_def by (metis option.exhaust)
  qed
qed

lemma untouched_mono:
  assumes "untouched n pl w"
    and "\<And>g. set (targets (body (frames w' g))) \<subseteq> set (targets (body (frames w g)))"
    and "\<And>g. distinct (targets (body (frames w' g)))"
    and "\<And>g c. c \<in> set (targets (body (frames w' g))) \<Longrightarrow>
      status (frames w' c) = status (frames w c) \<and>
      continuation (frames w' c) = continuation (frames w c) \<and> pl' c = pl c"
  shows "untouched n pl' w'"
  using assms unfolding untouched_def by (metis subsetD)

lemma untouched_facts:
  assumes "untouched n pl w" and "c \<in> set (targets (body (frames w g)))"
  shows "status (frames w c) = Suspended_Start" "continuation (frames w c) = None" "pl c = None"
    "g < c" "c < n"
  using assms unfolding untouched_def by blast+

lemma untouched_same:
  assumes "untouched n pl w" and b: "\<And>g. body (frames w' g) = body (frames w g)"
    and "\<And>c. pl c = None \<Longrightarrow> status (frames w c) = Suspended_Start \<Longrightarrow>
      continuation (frames w c) = None \<Longrightarrow>
      status (frames w' c) = Suspended_Start \<and> continuation (frames w' c) = None \<and> pl' c = None"
  shows "untouched n pl' w'"
  using assms(1,3) unfolding untouched_def b by simp

lemma at_home_step:
  assumes "at_home pl w" and "current w' = current w"
    and "\<And>h c ex. awaiting (frames w' h) = Some c \<Longrightarrow> executor (frames w' c) = Some ex \<Longrightarrow>
      status (frames w' c) = Ended \<Longrightarrow>
      awaiting (frames w h) = Some c \<and> executor (frames w c) = Some ex \<and>
        status (frames w c) = Ended \<and> pl' h = pl h \<or>
      pl' h = Some (In_Queue ex) \<or> (\<exists>t. pl' h = Some (On_Thread t) \<and> current w t = Some ex)"
  shows "at_home pl' w'"
  using assms unfolding at_home_def by metis

text \<open>Taking a job.\<close>

lemma coro_inv_take:
  assumes inv: "coro_inv n cur drains pl w" and "running w t = None" and "drains t ex"
    and q: "queues w ex = h # rest"
  shows "coro_inv n cur drains (pl(h \<mapsto> On_Thread t)) (take_job t ex h w)"
proof -
  have p: "placed pl w" and l: "lively n pl w" and u: "untouched n pl w" and r: "results_in w"
    using inv by (simp_all add: coro_inv_def)
  have h: "pl h = Some (In_Queue ex)"
    using p q by (metis list.set_intros(1) placed_def)
  have s: "status (frames w h) \<noteq> Ended" using l h by (auto simp: lively_def)
  let ?w = "take_job t ex h w"
  have w: "?w = on_frame h (\<lambda>f. f\<lparr>status := Active\<rparr>)
      (run_on t (Some h) (w\<lparr>queues := (queues w)(ex := rest)\<rparr>))"
    using s q by (simp add: take_job_def Let_def world_ops)
  have "placed ((pl(h := None))(h \<mapsto> On_Thread t)) ?w"
    unfolding w
    by (intro placed_frame placed_on_thread placed_dequeue p q)
      (use s assms(2) in \<open>simp_all add: run_on_def\<close>)
  then have "placed (pl(h \<mapsto> On_Thread t)) ?w" by simp
  moreover have "lively n (pl(h \<mapsto> On_Thread t)) ?w"
    using l h s lively_facts(1) [OF l] lively_facts(2) [OF l, of h]
    unfolding w lively_def world_ops by auto
  moreover have "untouched n (pl(h \<mapsto> On_Thread t)) ?w"
    using h by (intro untouched_same [OF u]) (auto simp: w world_ops)
  moreover have "results_in ?w" using r s unfolding w results_in_def world_ops by auto
  moreover have "at_home (pl(h \<mapsto> On_Thread t)) ?w" if "at_home pl w" "cur t = Some ex"
  proof -
    have "exa = ex" if "awaiting (frames w h) = Some c" "executor (frames w c) = Some exa"
        "status (frames w c) = Ended" for c exa
      using \<open>at_home pl w\<close> that h unfolding at_home_def by force
    moreover have "current w = cur" using inv by (simp add: coro_inv_def)
    ultimately show ?thesis
      using that s by (intro at_home_step [OF that(1)]) (auto simp: w world_ops split: if_splits)
  qed
  ultimately show ?thesis
    using inv assms(3) by (simp add: coro_inv_def w world_ops)
qed

lemma running_facts:
  assumes "coro_inv n cur drains pl w" and "running w t = Some h"
  shows "pl h = Some (On_Thread t)" "status (frames w h) = Active" "stored (frames w h) = expected_nothing"
    "h < n"
proof -
  show h: "pl h = Some (On_Thread t)" using assms by (simp add: coro_inv_def placed_def)
  have l: "lively n pl w" using assms(1) by (simp add: coro_inv_def)
  show s: "status (frames w h) = Active" by (rule lively_facts(3) [OF l h])
  show "stored (frames w h) = expected_nothing"
    using assms(1) s unfolding coro_inv_def results_in_def by (metis status.distinct(5))
  show "h < n" using lively_facts(2) [OF l, of h] h by simp
qed

text \<open>Receiving the result of an awaited task.\<close>

lemma awaited_has_ended:
  assumes inv: "coro_inv n cur drains pl w" and "running w t = Some h" and "awaiting (frames w h) = Some c"
  shows "status (frames w c) = Ended" "\<exists>out. task_result (stored (frames w c)) = ending_res out"
proof -
  have "continuation (frames w c) = Some h"
    using inv assms(3) by (simp add: coro_inv_def results_in_def)
  moreover have "pl h \<noteq> Some (Behind c)" using running_facts(1) [OF assms(1,2)] by simp
  ultimately show "status (frames w c) = Ended"
    using inv unfolding coro_inv_def placed_def by blast
  then show "\<exists>out. task_result (stored (frames w c)) = ending_res out"
    using inv unfolding coro_inv_def results_in_def by metis
qed

lemma coro_inv_receive:
  assumes inv: "coro_inv n cur drains pl w"
  shows "coro_inv n cur drains pl (on_frame h (\<lambda>f. f\<lparr>awaiting := None, received := xs\<rparr>) w)"
proof -
  let ?w = "on_frame h (\<lambda>f. f\<lparr>awaiting := None, received := xs\<rparr>) w"
  have p: "placed pl w" and l: "lively n pl w" and u: "untouched n pl w" and r: "results_in w"
    using inv by (simp_all add: coro_inv_def)
  have "placed pl ?w" by (rule placed_frame [OF p]) simp_all
  moreover have "lively n pl ?w"
    using l lively_facts(1) [OF l] unfolding lively_def on_frame_def by auto
  moreover have "untouched n pl ?w" by (rule untouched_same [OF u]) (auto simp: on_frame_def)
  moreover have "results_in ?w" using r unfolding results_in_def on_frame_def by simp
  moreover have "at_home pl ?w" if "at_home pl w"
    by (rule at_home_step [OF that]) (auto simp: on_frame_def split: if_splits)
  ultimately show ?thesis using inv by (simp add: coro_inv_def on_frame_def)
qed

text \<open>The end of a coroutine.\<close>

definition ended_frame :: "('v, nat) expected \<Rightarrow> 'v frame \<Rightarrow> 'v frame" where
  "ended_frame x f = f\<lparr>stored := x, awaiting := None, status := Ended\<rparr>"

lemma ended_frame_sel [simp]:
  "continuation (ended_frame x f) = continuation f" "status (ended_frame x f) = Ended"
  "executor (ended_frame x f) = executor f" "awaiting (ended_frame x f) = None"
  "stored (ended_frame x f) = x" "body (ended_frame x f) = body f" "is_task (ended_frame x f) = is_task f"
  by (simp_all add: ended_frame_def)

lemma end_results:
  assumes "results_in w" and "task_result x = ending_res out"
  shows "results_in (on_frame h (ended_frame x) w)"
  using assms unfolding results_in_def on_frame_def by auto

lemma coro_inv_end_root:
  assumes inv: "coro_inv n cur drains pl w" and run: "running w t = Some 0"
    and x: "task_result x = ending_res out"
  shows "coro_inv n cur drains (pl(0 := None)) (run_on t None (on_frame 0 (ended_frame x) w))"
proof -
  let ?w = "run_on t None (on_frame 0 (ended_frame x) w)"
  have p: "placed pl w" and l: "lively n pl w" and u: "untouched n pl w" and r: "results_in w"
    using inv by (simp_all add: coro_inv_def)
  note h = running_facts [OF inv run]
  have c: "continuation (frames w 0) = None" by (rule lively_facts(1) [OF l])
  have "placed pl (on_frame 0 (ended_frame x) w)"
    using placed_end [OF p, of "ended_frame x" 0] h c by simp
  then have "placed (pl(0 := None)) ?w"
    by (rule placed_off_thread) (simp add: on_frame_def run)
  moreover have "lively n (pl(0 := None)) ?w"
    using l c unfolding lively_def world_ops by auto
  moreover have "untouched n (pl(0 := None)) ?w"
    using h by (intro untouched_same [OF u]) (auto simp: world_ops intro!: gr0I)
  moreover have "results_in ?w"
    using end_results [OF r x, of 0] by (simp add: results_in_def run_on_def)
  moreover have "at_home (pl(0 := None)) ?w" if "at_home pl w"
    using c r by (intro at_home_step [OF that]) (auto simp: world_ops results_in_def split: if_splits)
  ultimately show ?thesis using inv by (simp add: coro_inv_def world_ops)
qed

lemma coro_inv_end_task:
  assumes inv: "coro_inv n cur drains pl w" and run: "running w t = Some h"
    and k: "continuation (frames w h) = Some k"
    and x: "task_result x = ending_res out"
    and w': "place = On_Thread t \<and> w' = run_on t (Some k) (on_frame h (ended_frame x) w) \<and>
        (executor (frames w h) = None \<or> executor (frames w h) = current w t) \<or>
      (\<exists>ex. executor (frames w h) = Some ex \<and> place = In_Queue ex \<and>
        w' = run_on t None (executor_add ex k (on_frame h (ended_frame x) w)))"
  shows "coro_inv n cur drains (pl(h := None, k \<mapsto> place)) w'"
proof -
  let ?pl = "pl(h := None, k \<mapsto> place)"
  let ?e = "on_frame h (ended_frame x) w"
  have p: "placed pl w" and l: "lively n pl w" and u: "untouched n pl w" and r: "results_in w"
    using inv by (simp_all add: coro_inv_def)
  note h = running_facts [OF inv run]
  have kh: "k < h" using l k by (simp add: lively_def)
  have pk: "pl k = Some (Behind h)" using p k h(2) unfolding placed_def by (metis status.distinct(5))
  have sk: "status (frames w k) = Active" by (rule lively_facts(4) [OF l pk])
  have fr: "frames w' = frames ?e" "current w' = current w" "corrupt w' = corrupt w"
    using w' by (auto simp: world_ops)
  have "placed (pl(k := None)) ?e"
    using placed_end [OF p, of "ended_frame x" h] h k by simp
  then have "placed (pl(k := None, h := None)) (run_on t None ?e)"
    by (rule placed_off_thread) (simp add: on_frame_def run)
  then have base: "placed (pl(h := None, k := None)) (run_on t None ?e)"
    using kh by (simp add: fun_upd_twist)
  have "placed ((pl(h := None, k := None))(k \<mapsto> place)) w'"
    using w'
  proof
    assume a: "place = On_Thread t \<and> w' = run_on t (Some k) ?e \<and>
        (executor (frames w h) = None \<or> executor (frames w h) = current w t)"
    then have "w' = run_on t (Some k) (run_on t None ?e)" by (simp add: run_on_def)
    then show ?thesis using placed_on_thread [OF base, of t k] a by (simp add: run_on_def)
  next
    assume "\<exists>ex. executor (frames w h) = Some ex \<and> place = In_Queue ex \<and>
        w' = run_on t None (executor_add ex k ?e)"
    then obtain ex where a: "place = In_Queue ex" "w' = run_on t None (executor_add ex k ?e)" by blast
    then have "w' = executor_add ex k (run_on t None ?e)" by (simp add: run_on_def executor_add_def)
    then show ?thesis using placed_enqueue [OF base, of k ex] a by simp
  qed
  then have "placed ?pl w'" by simp
  moreover have "lively n ?pl w'"
    using l h kh pk sk unfolding lively_def fr on_frame_def by auto
  moreover have "untouched n ?pl w'"
    using h pk by (intro untouched_same [OF u]) (auto simp: fr on_frame_def)
  moreover have "results_in w'" using end_results [OF r x, of h] by (simp add: results_in_def fr)
  moreover have "at_home ?pl w'" if "at_home pl w"
  proof (rule at_home_step [OF that fr(2)])
    fix g c ex
    assume a: "awaiting (frames w' g) = Some c" "executor (frames w' c) = Some ex" "status (frames w' c) = Ended"
    then have g: "g \<noteq> h" "awaiting (frames w g) = Some c" "executor (frames w c) = Some ex"
      by (auto simp: fr on_frame_def split: if_splits)
    show "awaiting (frames w g) = Some c \<and> executor (frames w c) = Some ex \<and>
        status (frames w c) = Ended \<and> ?pl g = pl g \<or>
      ?pl g = Some (In_Queue ex) \<or> (\<exists>t. ?pl g = Some (On_Thread t) \<and> current w t = Some ex)"
    proof (cases "c = h")
      case True
      then have "g = k" using r g(2) k by (simp add: results_in_def)
      then show ?thesis using w' g(3) True by auto
    next
      case False
      then have s: "status (frames w c) = Ended" using a(3) by (simp add: fr on_frame_def)
      then have "g \<noteq> k" using that g pk unfolding at_home_def by fastforce
      then show ?thesis using g s by simp
    qed
  qed
  ultimately show ?thesis using inv fr by (simp add: coro_inv_def)
qed

lemma coro_inv_end:
  assumes inv: "coro_inv n cur drains pl w" and run: "running w t = Some h"
  shows "\<exists>pl. coro_inv n cur drains pl (end_coroutine t h out w)"
proof -
  note h = running_facts [OF inv run]
  obtain x where x: "store_ending out expected_nothing = Inr x" "task_result x = ending_res out"
    using store_ending_fresh by blast
  have l: "lively n pl w" using inv by (simp add: coro_inv_def)
  have e: "end_coroutine t h out w = final_suspend t h (on_frame h (ended_frame x) w)"
    by (simp add: end_coroutine_def h x ended_frame_def [abs_def])
  show ?thesis
  proof (cases "h = 0")
    case True
    have "end_coroutine t h out w = run_on t None (on_frame 0 (ended_frame x) w)"
    proof -
      have "\<not> is_task (frames w 0)" using l by (simp add: lively_def)
      then show ?thesis using e True by (simp add: final_suspend_def on_frame_def)
    qed
    then show ?thesis using coro_inv_end_root [OF inv _ x(2), of t] run True by auto
  next
    case False
    then obtain k where k: "continuation (frames w h) = Some k"
      using l h(1) unfolding lively_def by fastforce
    have task: "is_task (frames w h)" using l False by (simp add: lively_def)
    let ?e = "on_frame h (ended_frame x) w"
    have f: "final_suspend t h ?e =
        (case executor (frames w h) of
           None \<Rightarrow> run_on t (Some k) ?e
         | Some ex \<Rightarrow> if current w t = Some ex then run_on t (Some k) ?e
                       else run_on t None (executor_add ex k ?e))"
      using task k by (simp add: final_suspend_def on_frame_def split: option.split)
    show ?thesis
    proof (cases "executor (frames w h) = None \<or> executor (frames w h) = current w t")
      case True
      then have "end_coroutine t h out w = run_on t (Some k) ?e"
        by (auto simp: e f split: option.split)
      then show ?thesis
        using coro_inv_end_task [OF inv run k x(2), of "On_Thread t"] True by auto
    next
      case False
      then obtain ex where ex: "executor (frames w h) = Some ex" "current w t \<noteq> Some ex" by auto
      then have "end_coroutine t h out w = run_on t None (executor_add ex k ?e)" by (simp add: e f)
      then show ?thesis
        using coro_inv_end_task [OF inv run k x(2), of "In_Queue ex"] ex by auto
    qed
  qed
qed

text \<open>Awaiting.\<close>

lemma untouched_pop:
  assumes u: "untouched n pl w" and b: "targets (body (frames w h)) = c # rest"
    and "\<And>g. targets (body (frames w' g)) = (if g = h then rest else targets (body (frames w g)))"
    and "\<And>d. d \<noteq> c \<Longrightarrow> pl d = None \<Longrightarrow> status (frames w d) = Suspended_Start \<Longrightarrow>
      status (frames w' d) = Suspended_Start \<and>
      continuation (frames w' d) = continuation (frames w d) \<and> pl' d = None"
  shows "untouched n pl' w'"
proof -
  have sub: "set (targets (body (frames w' g))) \<subseteq> set (targets (body (frames w g)))" for g
    using b by (auto simp: assms(3))
  have c: "c \<notin> set (targets (body (frames w' g)))" for g
    using u b unfolding untouched_def assms(3) by (metis distinct.simps(2) list.set_intros(1))
  have d: "distinct (targets (body (frames w g)))" for g using u unfolding untouched_def by blast
  have "distinct (targets (body (frames w' g)))" for g
    using d [of g] d [of h] b by (auto simp: assms(3))
  then show ?thesis
    using untouched_facts [OF u] assms(4) c sub by (intro untouched_mono [OF u]) (metis subsetD)+
qed

definition begin_await :: "nat \<Rightarrow> instr list \<Rightarrow> nat \<Rightarrow> 'v world \<Rightarrow> 'v world" where
  "begin_await h rest c w = on_frame h (\<lambda>f. f\<lparr>body := rest, awaiting := Some c\<rparr>) w"

lemma placed_await:
  assumes inv: "coro_inv n cur drains pl w" and run: "running w t = Some h"
    and c: "c \<in> set (targets (body (frames w h)))"
  shows "placed (pl(h \<mapsto> Behind c))
    (on_frame c (set_continuation h (current w t)) (begin_await h rest c (run_on t None w)))"
proof -
  have p: "placed pl w" and u: "untouched n pl w" using inv by (simp_all add: coro_inv_def)
  note cf = untouched_facts [OF u c]
  have "placed (pl(h := None)) (begin_await h rest c (run_on t None w))"
    unfolding begin_await_def
    by (rule placed_frame [OF placed_off_thread [OF p run]]) simp_all
  then have "placed ((pl(h := None))(h \<mapsto> Behind c))
      (on_frame c (set_continuation h (current w t)) (begin_await h rest c (run_on t None w)))"
    by (rule placed_suspend) (use cf in \<open>simp_all add: begin_await_def on_frame_def run_on_def\<close>)
  then show ?thesis by simp
qed

lemma coro_inv_await:
  assumes inv: "coro_inv n cur drains pl w" and run: "running w t = Some h"
    and b: "targets (body (frames w h)) = c # targets rest"
    and w1: "w1 = on_frame c (set_continuation h (current w t)) (begin_await h rest c w)"
    and w': "w' = run_on t (Some c) (on_frame c (\<lambda>f. f\<lparr>status := Active\<rparr>) w1) \<and> place = On_Thread t \<or>
      (\<exists>ex. w' = run_on t None (executor_add ex c w1) \<and> place = In_Queue ex)"
    and a: "awaiting (frames w h) = None"
  shows "coro_inv n cur drains (pl(h \<mapsto> Behind c, c \<mapsto> place)) w'"
proof -
  let ?pl = "pl(h \<mapsto> Behind c, c \<mapsto> place)"
  have p: "placed pl w" and l: "lively n pl w" and u: "untouched n pl w" and r: "results_in w"
    using inv by (simp_all add: coro_inv_def)
  note h = running_facts [OF inv run]
  have c: "c \<in> set (targets (body (frames w h)))" using b by simp
  note cf = untouched_facts [OF u c]
  have hc: "h \<noteq> c" using cf(4) by simp
  have base: "placed (pl(h \<mapsto> Behind c)) (run_on t None w1)"
  proof -
    have "run_on t None w1 =
        on_frame c (set_continuation h (current w t)) (begin_await h rest c (run_on t None w))"
      by (simp add: w1 begin_await_def world_ops)
    then show ?thesis using placed_await [OF inv run c, of rest] by simp
  qed
  have pc: "(pl(h \<mapsto> Behind c)) c = None" using cf(3) hc by simp
  have "placed ((pl(h \<mapsto> Behind c))(c \<mapsto> place)) w'"
    using w'
  proof
    assume a: "w' = run_on t (Some c) (on_frame c (\<lambda>f. f\<lparr>status := Active\<rparr>) w1) \<and> place = On_Thread t"
    have "placed ((pl(h \<mapsto> Behind c))(c \<mapsto> On_Thread t)) (run_on t (Some c) (run_on t None w1))"
      by (rule placed_on_thread [OF base _ pc]) (simp add: run_on_def)
    then have "placed ((pl(h \<mapsto> Behind c))(c \<mapsto> On_Thread t))
        (on_frame c (\<lambda>f. f\<lparr>status := Active\<rparr>) (run_on t (Some c) (run_on t None w1)))"
      by (rule placed_frame)
        (use cf hc in \<open>simp_all add: w1 begin_await_def world_ops\<close>)
    moreover have "w' = on_frame c (\<lambda>f. f\<lparr>status := Active\<rparr>) (run_on t (Some c) (run_on t None w1))"
      using a by (simp add: world_ops)
    ultimately show ?thesis using a by simp
  next
    assume "\<exists>ex. w' = run_on t None (executor_add ex c w1) \<and> place = In_Queue ex"
    then obtain ex where a: "w' = executor_add ex c (run_on t None w1)" "place = In_Queue ex"
      by (auto simp: run_on_def executor_add_def)
    show ?thesis using placed_enqueue [OF base pc, of ex] by (simp only: a)
  qed
  then have "placed ?pl w'" .
  moreover
  have fr: "frames w' g =
      (if g = h then (frames w h)\<lparr>body := rest, awaiting := Some c\<rparr>
       else if g = c then (frames w c)\<lparr>continuation := Some h, executor := current w t,
         status := (if place = On_Thread t then Active else Suspended_Start)\<rparr>
       else frames w g)" for g
    using w' hc cf(1) by (auto simp: w1 begin_await_def world_ops)
  have other: "current w' = current w" "corrupt w' = corrupt w"
    using w' by (auto simp: w1 begin_await_def world_ops)
  have pq: "place = On_Thread t \<or> (\<exists>ex. place = In_Queue ex)" using w' by blast
  have "lively n ?pl w'"
    using l h cf hc pq lively_facts(1) [OF l]
    unfolding lively_def fr other by (auto simp: fr)
  moreover have "untouched n ?pl w'"
  proof (rule untouched_pop [OF u b])
    show "targets (body (frames w' g)) = (if g = h then targets rest else targets (body (frames w g)))" for g
      by (simp add: fr)
    show "status (frames w' d) = Suspended_Start \<and>
        continuation (frames w' d) = continuation (frames w d) \<and> ?pl d = None"
      if "d \<noteq> c" "pl d = None" "status (frames w d) = Suspended_Start" for d
      using that h by (auto simp: fr)
  qed
  moreover have "results_in w'"
    using r h cf hc unfolding results_in_def fr by (auto simp: fr)
  moreover have "at_home ?pl w'" if "at_home pl w"
  proof (rule at_home_step [OF that other(1)])
    fix g d ex
    assume x: "awaiting (frames w' g) = Some d" "executor (frames w' d) = Some ex" "status (frames w' d) = Ended"
    have "d \<noteq> c" using x(3) hc by (auto simp: fr split: if_splits)
    moreover have "d \<noteq> h" using x(3) h(2) by (auto simp: fr)
    ultimately have d: "d \<noteq> c" "status (frames w d) = Ended" "executor (frames w d) = Some ex"
      using x(2,3) by (simp_all add: fr)
    then have g: "g \<noteq> h" "awaiting (frames w g) = Some d"
      using x(1) hc r cf(2) unfolding results_in_def by (auto simp: fr split: if_splits)
    moreover have "g \<noteq> c"
      using that g d cf(3) unfolding at_home_def by fastforce
    ultimately show "awaiting (frames w g) = Some d \<and> executor (frames w d) = Some ex \<and>
        status (frames w d) = Ended \<and> ?pl g = pl g \<or>
      ?pl g = Some (In_Queue ex) \<or> (\<exists>t. ?pl g = Some (On_Thread t) \<and> current w t = Some ex)"
      using d by simp
  qed
  ultimately show ?thesis using inv other by (simp add: coro_inv_def)
qed

text \<open>Moving to another executor.\<close>

lemma coro_inv_body:
  assumes inv: "coro_inv n cur drains pl w" and b: "targets (body (frames w h)) = targets rest"
  shows "coro_inv n cur drains pl (on_frame h (\<lambda>f. f\<lparr>body := rest\<rparr>) w)"
proof -
  let ?w = "on_frame h (\<lambda>f. f\<lparr>body := rest\<rparr>) w"
  have p: "placed pl w" and l: "lively n pl w" and u: "untouched n pl w" and r: "results_in w"
    using inv by (simp_all add: coro_inv_def)
  have "placed pl ?w" by (rule placed_frame [OF p]) simp_all
  moreover have "lively n pl ?w"
    using l lively_facts(1) [OF l] unfolding lively_def on_frame_def by auto
  moreover have fr: "targets (body (frames ?w g)) = targets (body (frames w g))"
      "status (frames ?w g) = status (frames w g)" "continuation (frames ?w g) = continuation (frames w g)"
      "awaiting (frames ?w g) = awaiting (frames w g)" "executor (frames ?w g) = executor (frames w g)"
      "stored (frames ?w g) = stored (frames w g)" for g
    using b by (simp_all add: on_frame_def)
  have "untouched n pl ?w" using u unfolding untouched_def fr .
  moreover have "results_in ?w" using r unfolding results_in_def fr .
  moreover have "at_home pl ?w" if "at_home pl w"
    using that unfolding at_home_def fr by (simp add: on_frame_def)
  ultimately show ?thesis using inv by (simp add: coro_inv_def on_frame_def)
qed

lemma coro_inv_switch:
  assumes inv: "coro_inv n cur drains pl w" and run: "running w t = Some h"
    and a: "awaiting (frames w h) = None"
  shows "coro_inv n cur drains (pl(h \<mapsto> In_Queue ex)) (run_on t None (executor_add ex h w))"
proof -
  let ?w = "run_on t None (executor_add ex h w)"
  have p: "placed pl w" and l: "lively n pl w" and u: "untouched n pl w" and r: "results_in w"
    using inv by (simp_all add: coro_inv_def)
  note h = running_facts [OF inv run]
  have "?w = executor_add ex h (run_on t None w)" by (simp add: run_on_def executor_add_def)
  then have "placed (pl(h \<mapsto> In_Queue ex)) ?w"
    using placed_enqueue [OF placed_off_thread [OF p run], of h ex] by simp
  moreover have "lively n (pl(h \<mapsto> In_Queue ex)) ?w"
    using l h unfolding lively_def by (auto simp: world_ops)
  moreover have "untouched n (pl(h \<mapsto> In_Queue ex)) ?w"
    using h by (intro untouched_same [OF u]) (auto simp: world_ops)
  moreover have "results_in ?w" using r by (simp add: results_in_def world_ops)
  moreover have "at_home (pl(h \<mapsto> In_Queue ex)) ?w" if "at_home pl w"
    using a by (intro at_home_step [OF that]) (auto simp: world_ops)
  ultimately show ?thesis using inv by (simp add: coro_inv_def world_ops)
qed

end
