(* ===== verification/Coro_Properties.thy ===== *)
theory Coro_Properties
  imports Coro_Task
begin

text \<open>
  What the coroutines of \<open>Coro_Task\<close> guarantee: the invariant of every step, the values the
  tasks deliver compared with a direct evaluation of the program, and the fact that no
  coroutine is left behind.
\<close>

section \<open>Every step keeps the invariant\<close>

lemma coro_inv_run:
  assumes inv: "coro_inv n cur drains pl w" and run: "running w t = Some h"
  shows "\<exists>pl. coro_inv n cur drains pl (coroutine_step t h w)"
proof (cases "awaiting (frames w h)")
  case (Some c)
  obtain out where out: "task_result (stored (frames w c)) = ending_res out"
    using awaited_has_ended(2) [OF inv run Some] by blast
  show ?thesis
  proof (cases out)
    case (Co_Return v)
    then show ?thesis
      using Some out coro_inv_receive [OF inv] by (auto simp: coroutine_step_def on_frame_def)
  next
    case (Raise e)
    then show ?thesis using Some out coro_inv_end [OF inv run] by (simp add: coroutine_step_def)
  qed
next
  case None
  have u: "untouched n pl w" using inv by (simp add: coro_inv_def)
  show ?thesis
  proof (cases "body (frames w h)")
    case Nil
    then show ?thesis using None coro_inv_end [OF inv run] by (simp add: coroutine_step_def)
  next
    case (Cons i rest)
    show ?thesis
    proof (cases i)
      case (Co_Await c)
      have cf: "c \<in> set (targets (body (frames w h)))" using Cons Co_Await by simp
      note f = untouched_facts [OF u cf]
      let ?w1 = "on_frame c (set_continuation h (current w t)) (begin_await h rest c w)"
      have "coroutine_step t h w = run_on t (Some c) (on_frame c (\<lambda>f. f\<lparr>status := Active\<rparr>) ?w1)"
        using None Cons Co_Await f
        by (simp add: coroutine_step_def await_ready_def await_suspend_def begin_await_def Let_def
            world_ops)
      then show ?thesis
        using coro_inv_await [OF inv run _ refl _ None, of c rest _ "On_Thread t"] Cons Co_Await
        by auto
    next
      case (Schedule_On c ex)
      let ?w1 = "on_frame c (set_continuation h (current w t)) (begin_await h rest c w)"
      have "coroutine_step t h w = run_on t None (executor_add ex c ?w1)"
        using None Cons Schedule_On
        by (simp add: coroutine_step_def schedule_on_suspend_def begin_await_def world_ops)
      then show ?thesis
        using coro_inv_await [OF inv run _ refl _ None, of c rest _ "In_Queue ex"] Cons Schedule_On
        by auto
    next
      case (Switch_To ex)
      let ?w1 = "on_frame h (\<lambda>f. f\<lparr>body := rest\<rparr>) w"
      have i1: "coro_inv n cur drains pl ?w1"
        by (rule coro_inv_body [OF inv]) (simp add: Cons Switch_To)
      have "running ?w1 t = Some h" "awaiting (frames ?w1 h) = None"
        using run None by (simp_all add: on_frame_def)
      then show ?thesis
        using i1 coro_inv_switch [OF i1] None Cons Switch_To by (auto simp: coroutine_step_def Let_def)
    qed
  qed
qed

lemma coro_inv_step:
  assumes "coro_inv n cur drains pl w" and "coro_step drains w w'"
  shows "\<exists>pl. coro_inv n cur drains pl w'"
  using assms(2)
proof (cases rule: coro_step.cases)
  case (Run t h)
  then show ?thesis using coro_inv_run [OF assms(1)] by simp
next
  case (Take t ex h rest)
  then show ?thesis using coro_inv_take [OF assms(1)] by blast
qed

lemma coro_inv_reachable:
  assumes "coro_reachable prog cur drains w" and "well_nested prog n"
  shows "\<exists>pl. coro_inv n cur drains pl w"
  using assms(1)
proof (induction rule: coro_reachable.induct)
  case Init
  then show ?case using coro_inv_init [OF assms(2)] by blast
next
  case (Step w w')
  then show ?case using coro_inv_step by blast
qed

section \<open>The values\<close>

text \<open>
  The reference: a coroutine evaluates the tasks it awaits in their order, the first one that
  raises ends it with that exception, and otherwise it ends as its own body says. Executors,
  threads and scheduling do not occur. The number bounds the depth of awaiting.
\<close>

fun first_raise :: "'v ending list \<Rightarrow> 'v ending \<Rightarrow> 'v ending" where
  "first_raise [] out = out"
| "first_raise (Raise e # outs) out = Raise e"
| "first_raise (Co_Return v # outs) out = first_raise outs out"

fun direct :: "(nat \<Rightarrow> instr list \<times> 'v ending) \<Rightarrow> nat \<Rightarrow> nat \<Rightarrow> 'v ending" where
  "direct prog 0 h = snd (prog h)"
| "direct prog (Suc k) h = first_raise (map (direct prog k) (targets (fst (prog h)))) (snd (prog h))"

lemma direct_enough:
  assumes "well_nested prog n" and "n \<le> h + k" and "k \<le> m"
  shows "direct prog m h = direct prog k h"
  using assms(2,3)
proof (induction m arbitrary: k h)
  case (Suc m)
  have t: "h < c \<and> c < n" if "c \<in> set (targets (fst (prog h)))" for c
    using assms(1) that by (simp add: well_nested_def)
  show ?case
  proof (cases k)
    case 0
    then have "c \<notin> set (targets (fst (prog h)))" for c using t [of c] Suc.prems(1) by auto
    then have "targets (fst (prog h)) = []" by (metis list.exhaust list.set_intros(1))
    then show ?thesis using 0 by simp
  next
    case (Suc k')
    have "direct prog m c = direct prog k' c" if "c \<in> set (targets (fst (prog h)))" for c
      using t [OF that] Suc.prems Suc by (intro Suc.IH) auto
    then show ?thesis using Suc by (simp cong: map_cong)
  qed
qed simp

lemma direct_unfold:
  assumes "well_nested prog n"
  shows "direct prog n h = first_raise (map (direct prog n) (targets (fst (prog h)))) (snd (prog h))"
  using direct_enough [OF assms, of h n "Suc n"] by simp

definition owed :: "'v frame \<Rightarrow> nat list" where
  "owed f = (case awaiting f of None \<Rightarrow> [] | Some c \<Rightarrow> [c]) @ targets (body f)"

definition on_course :: "(nat \<Rightarrow> 'v ending) \<Rightarrow> nat \<Rightarrow> 'v frame \<Rightarrow> bool" where
  "on_course E h f \<longleftrightarrow>
     (if status f = Ended then task_result (stored f) = ending_res (E h)
      else first_raise (map E (owed f)) (ending f) = E h)"

lemma on_course_frame:
  assumes "\<forall>g. on_course E g (frames w g)" and "on_course E h (f (frames w h))"
  shows "\<forall>g. on_course E g (frames (on_frame h f w) g)"
  using assms by (simp add: on_frame_def)

lemma on_course_same [simp]:
  "on_course E h (f\<lparr>continuation := k, executor := x\<rparr>) = on_course E h f"
  by (simp add: on_course_def owed_def)

lemma on_course_active:
  "status f \<noteq> Ended \<Longrightarrow> on_course E h (f\<lparr>status := Active\<rparr>) = on_course E h f"
  by (simp add: on_course_def owed_def)

lemma frames_run_add [simp]:
  "frames (run_on t x w) = frames w" "frames (executor_add ex h w) = frames w"
  by (simp_all add: run_on_def executor_add_def)

lemma frames_final_suspend [simp]: "frames (final_suspend t h w) = frames w"
  by (simp add: final_suspend_def Let_def split: option.split)

lemma end_on_course:
  assumes "\<forall>g. on_course E g (frames w g)" and "stored (frames w h) = expected_nothing" and "E h = out"
  shows "\<forall>g. on_course E g (frames (end_coroutine t h out w) g)"
proof -
  obtain x where "store_ending out expected_nothing = Inr x" "task_result x = ending_res out"
    using store_ending_fresh by blast
  then show ?thesis using assms by (simp add: end_coroutine_def on_frame_def on_course_def)
qed

lemma run_on_course:
  assumes inv: "coro_inv n cur drains pl w" and run: "running w t = Some h"
    and all: "\<forall>g. on_course E g (frames w g)"
  shows "\<forall>g. on_course E g (frames (coroutine_step t h w) g)"
proof -
  note h = running_facts [OF inv run]
  have E: "first_raise (map E (owed (frames w h))) (ending (frames w h)) = E h"
    using spec [OF all, of h] h(2) by (simp add: on_course_def)
  show ?thesis
  proof (cases "awaiting (frames w h)")
    case (Some c)
    have c: "task_result (stored (frames w c)) = ending_res (E c)"
      using spec [OF all, of c] awaited_has_ended(1) [OF inv run Some] by (simp add: on_course_def)
    show ?thesis
    proof (cases "E c")
      case (Co_Return v)
      then have "on_course E h ((frames w h)\<lparr>awaiting := None, received := xs\<rparr>)" for xs
        using E Some h(2) by (simp add: on_course_def owed_def)
      then show ?thesis
        using Some c Co_Return all by (simp add: coroutine_step_def on_frame_def)
    next
      case (Raise e)
      then have "E h = Raise e" using E Some by (simp add: owed_def)
      then show ?thesis
        using end_on_course [OF all h(3)] Some c Raise by (simp add: coroutine_step_def)
    qed
  next
    case None
    show ?thesis
    proof (cases "body (frames w h)")
      case Nil
      then have "E h = ending (frames w h)" using E None by (simp add: owed_def)
      then show ?thesis
        using end_on_course [OF all h(3)] None Nil by (simp add: coroutine_step_def)
    next
      case (Cons i rest)
      have u: "untouched n pl w" using inv by (simp add: coro_inv_def)
      have aw: "on_course E h ((frames w h)\<lparr>body := rest, awaiting := Some c\<rparr>)"
        if "targets [i] = [c]" for c
        using E None Cons that h(2) by (cases i) (auto simp: on_course_def owed_def)
      show ?thesis
      proof (cases i)
        case (Co_Await c)
        then have "c \<in> set (targets (body (frames w h)))" using Cons by simp
        note f = untouched_facts [OF u this]
        have "on_course E c ((frames w c)\<lparr>continuation := x, executor := y, status := Active\<rparr>)" for x y
          using spec [OF all, of c] f(1) by (simp add: on_course_def owed_def)
        then show ?thesis
          using None Cons Co_Await f aw [of c] all
          by (auto simp: coroutine_step_def await_ready_def await_suspend_def on_frame_def
              set_continuation_def Let_def)
      next
        case (Schedule_On c ex)
        then have "c \<in> set (targets (body (frames w h)))" using Cons by simp
        note f = untouched_facts [OF u this]
        show ?thesis
          using None Cons Schedule_On f aw [of c] all
          by (auto simp: coroutine_step_def schedule_on_suspend_def on_frame_def set_continuation_def)
      next
        case (Switch_To ex)
        have "on_course E h ((frames w h)\<lparr>body := rest\<rparr>)"
          using E None Cons Switch_To h(2) by (simp add: on_course_def owed_def)
        then show ?thesis
          using None Cons Switch_To all by (simp add: coroutine_step_def on_frame_def Let_def)
      qed
    qed
  qed
qed

lemma take_on_course:
  assumes "\<forall>g. on_course E g (frames w g)"
  shows "\<forall>g. on_course E g (frames (take_job t ex h w) g)"
  using assms on_course_active [of "frames w h" E h]
  by (simp add: take_job_def Let_def on_frame_def run_on_def)

lemma on_course_reachable:
  assumes "coro_reachable prog cur drains w" and wn: "well_nested prog n"
  shows "on_course (direct prog n) h (frames w h)"
proof -
  have "\<forall>h. on_course (direct prog n) h (frames w h)"
    using assms(1)
  proof (induction rule: coro_reachable.induct)
    case Init
    show ?case
      by (simp add: coro_init_def on_course_def owed_def direct_unfold [OF wn, symmetric])
  next
    case (Step w w')
    obtain pl where inv: "coro_inv n cur drains pl w"
      using coro_inv_reachable [OF Step.hyps(1) wn] by blast
    from Step.hyps(2) show ?case
    proof (cases rule: coro_step.cases)
      case (Run t h)
      then show ?thesis using run_on_course [OF inv _ Step.IH] by simp
    next
      case (Take t ex h rest)
      then show ?thesis using take_on_course [OF Step.IH] by simp
    qed
  qed
  then show ?thesis by simp
qed

section \<open>Properties\<close>

text \<open>
  C3: every coroutine runs in one place at a time. In every reachable state of a well-nested
  program, under every interleaving of any number of threads and executors: no empty handle and
  no finished or running coroutine is ever resumed; a coroutine that executes does so on one
  thread, is active, waits in no queue and is nobody's continuation any more; no queue holds a
  coroutine twice and no two queues hold the same one.
\<close>

theorem coroutine_in_one_place:
  assumes "coro_reachable prog cur drains w" and "well_nested prog n"
  shows "\<not> corrupt w \<and>
    (running w t = Some h \<longrightarrow>
       status (frames w h) = Active \<and> (running w u = Some h \<longrightarrow> u = t) \<and> h \<notin> set (queues w ex) \<and>
       (continuation (frames w c) = Some h \<longrightarrow> status (frames w c) = Ended)) \<and>
    distinct (queues w ex) \<and>
    (h \<in> set (queues w ex) \<and> h \<in> set (queues w ex') \<longrightarrow> ex = ex' \<and> status (frames w h) \<noteq> Ended)"
proof -
  obtain pl where inv: "coro_inv n cur drains pl w" using coro_inv_reachable [OF assms] by blast
  then have p: "placed pl w" and l: "lively n pl w" by (simp_all add: coro_inv_def)
  have q: "ex = ex' \<and> status (frames w h) \<noteq> Ended" if "h \<in> set (queues w ex)" "h \<in> set (queues w ex')"
    using p l that unfolding placed_def lively_def by (metis option.distinct(1) option.inject place.inject(2))
  have r: "status (frames w h) = Active \<and> (running w u = Some h \<longrightarrow> u = t) \<and> h \<notin> set (queues w ex) \<and>
      (continuation (frames w c) = Some h \<longrightarrow> status (frames w c) = Ended)" if "running w t = Some h"
  proof -
    note f = running_facts [OF inv that]
    show ?thesis
      using f(1,2) p unfolding placed_def by (metis option.inject place.distinct place.inject(1))
  qed
  have "\<not> corrupt w" "distinct (queues w ex)" using p l by (simp_all add: placed_def lively_def)
  then show ?thesis using q r by blast
qed

text \<open>
  A coroutine goes on where it awaited. If the threads that drain an executor are those
  whose \<open>Executor::current\<close> it is, then a coroutine that is about to read an awaited result
  reads it of a task that has ended, and executes for the executor that was current when it
  suspended, wherever the task itself ran.
\<close>

theorem await_returns_home:
  assumes "coro_reachable prog cur drains w" and "well_nested prog n"
    and "\<forall>t ex. drains t ex \<longrightarrow> cur t = Some ex"
    and "running w t = Some h" and "awaiting (frames w h) = Some c"
  shows "status (frames w c) = Ended \<and>
    (executor (frames w c) \<noteq> None \<longrightarrow> executor (frames w c) = cur t)"
proof -
  obtain pl where inv: "coro_inv n cur drains pl w" using coro_inv_reachable [OF assms(1,2)] by blast
  have e: "status (frames w c) = Ended" by (rule awaited_has_ended(1) [OF inv assms(4,5)])
  have "at_home pl w" "current w = cur" using inv assms(3) by (simp_all add: coro_inv_def)
  then have "executor (frames w c) = Some ex \<Longrightarrow> cur t = Some ex" for ex
    using assms(5) e running_facts(1) [OF inv assms(4)] unfolding at_home_def by fastforce
  then show ?thesis using e by (cases "executor (frames w c)") auto
qed

text \<open>
  C9: the tasks deliver what a direct evaluation gives. In every reachable state, the result
  stored for a coroutine that has ended is the value it returned, or the exception of the first
  task it awaited that raised, computed without any executor or thread; reading it never fails
  in another way.
\<close>

theorem task_results_as_direct:
  assumes "coro_reachable prog cur drains w" and "well_nested prog n"
    and "status (frames w h) = Ended"
  shows "task_result (stored (frames w h)) = ending_res (direct prog n h)"
  using on_course_reachable [OF assms(1,2), of h] assms(3) by (simp add: on_course_def)

lemma idle_all_ended:
  assumes "coro_reachable prog cur drains w" and "well_nested prog n"
    and "\<forall>t. running w t = None" and "\<forall>ex. queues w ex = []"
  shows "status (frames w 0) = Ended \<and> status (frames w h) \<noteq> Active"
proof -
  obtain pl where inv: "coro_inv n cur drains pl w" using coro_inv_reachable [OF assms(1,2)] by blast
  then have p: "placed pl w" and l: "lively n pl w" by (simp_all add: coro_inv_def)
  have behind: "\<exists>c. pl g = Some (Behind c)" if "pl g \<noteq> None" for g
  proof -
    from that obtain x where "pl g = Some x" by blast
    then show ?thesis using p assms(3,4) unfolding placed_def by (cases x) auto
  qed
  have none: "status (frames w g) \<noteq> Active" for g
  proof (induction "n - g" arbitrary: g rule: less_induct)
    case less
    show ?case
    proof
      assume "status (frames w g) = Active"
      then have "pl g \<noteq> None" "g < n" using l by (auto simp: lively_def)
      then obtain c where "pl g = Some (Behind c)" using behind by blast
      then have c: "continuation (frames w c) = Some g" "status (frames w c) \<noteq> Ended"
        using p unfolding placed_def by blast+
      then have "g < c" "pl c \<noteq> None" using l by (auto simp: lively_def)
      then obtain d where "pl c = Some (Behind d)" using behind by blast
      then have "status (frames w c) = Active" by (rule lively_facts(4) [OF l])
      moreover have "n - c < n - g" using \<open>g < c\<close> \<open>g < n\<close> by simp
      ultimately show False using less by blast
    qed
  qed
  moreover have "status (frames w 0) \<noteq> Suspended_Start" using l by (simp add: lively_def)
  ultimately show ?thesis by (metis status.exhaust)
qed

text \<open>
  No coroutine is left behind. In a reachable state in which every thread is idle and every
  queue is empty, the root has ended, and so has every coroutine that was started.
\<close>

theorem no_coroutine_lost:
  assumes "coro_reachable prog cur drains w" and "well_nested prog n"
    and "\<forall>t. running w t = None" and "\<forall>ex. queues w ex = []"
  shows "status (frames w 0) = Ended \<and> status (frames w h) \<noteq> Active"
  by (rule idle_all_ended [OF assms])

section \<open>An example\<close>

text \<open>
  Thread 0 executes for executor 0 and thread 1 for executor 1. The root awaits task 1, which
  runs task 2 on executor 1; that one raises.
\<close>

fun two_executors :: "nat \<Rightarrow> instr list \<times> nat ending" where
  "two_executors h =
     (if h = 0 then ([Co_Await 1], Co_Return 10)
      else if h = 1 then ([Schedule_On 2 1], Co_Return 11)
      else if h = 2 then ([Switch_To 1], Raise 5) else ([], Co_Return 0))"

definition own_executor :: "nat \<Rightarrow> nat option" where
  "own_executor t = (if t < 2 then Some t else None)"

abbreviation drains_own :: "nat \<Rightarrow> nat \<Rightarrow> bool" where
  "drains_own t ex \<equiv> own_executor t = Some ex"

lemma two_executors_nested: "well_nested two_executors 3"
  by (auto simp: well_nested_def split: if_splits)

fun schedule :: "(nat \<times> nat option) list \<Rightarrow> 'v world \<Rightarrow> 'v world" where
  "schedule [] w = w"
| "schedule ((t, None) # s) w = schedule s (coroutine_step t (the (running w t)) w)"
| "schedule ((t, Some ex) # s) w = schedule s (take_job t ex (hd (queues w ex)) w)"

fun schedulable :: "(nat \<times> nat option) list \<Rightarrow> 'v world \<Rightarrow> bool" where
  "schedulable [] w = True"
| "schedulable ((t, None) # s) w =
     (running w t \<noteq> None \<and> schedulable s (coroutine_step t (the (running w t)) w))"
| "schedulable ((t, Some ex) # s) w =
     (running w t = None \<and> own_executor t = Some ex \<and> queues w ex \<noteq> [] \<and>
      schedulable s (take_job t ex (hd (queues w ex)) w))"

lemma schedule_reachable:
  "coro_reachable prog cur drains_own w \<Longrightarrow> schedulable s w \<Longrightarrow>
     coro_reachable prog cur drains_own (schedule s w)"
proof (induction s w rule: schedule.induct)
  case (2 t s w)
  then obtain h where "running w t = Some h" by auto
  then show ?case using 2 coro_reachable.Step [OF 2(2) coro_step.Run] by simp
next
  case (3 t ex s w)
  obtain h rest where "queues w ex = h # rest" using 3(3) by (cases "queues w ex") auto
  then show ?case using 3 coro_reachable.Step [OF 3(2) coro_step.Take] by simp
qed simp

definition to_the_return :: "(nat \<times> nat option) list" where
  "to_the_return = [(0, None), (0, None), (1, Some 1), (1, None), (1, None), (0, Some 0)]"

definition to_the_end :: "(nat \<times> nat option) list" where
  "to_the_end = to_the_return @ [(0, None), (0, None)]"

definition example_init :: "nat world" where
  "example_init = coro_init two_executors own_executor"

lemmas example_simps = to_the_end_def to_the_return_def example_init_def coro_init_def own_executor_def
  coroutine_step_def take_job_def await_ready_def await_suspend_def schedule_on_suspend_def
  end_coroutine_def final_suspend_def set_continuation_def on_frame_def run_on_def executor_add_def
  Let_def task_return_value_def task_unhandled_exception_def assign_temporary_def expected_value_def
  expected_error_move_def move_assign_def destroy_def move_from_def destructor_def
  expected_nothing_def plain_def task_result_def value_lvalue_def enforce_def destroy_value_def
  destroy_error_def

lemma example_schedulable: "schedulable to_the_end example_init" "schedulable to_the_return example_init"
  by (simp_all add: example_simps)

lemma example_reachable:
  "coro_reachable two_executors own_executor drains_own (schedule to_the_end example_init)"
  "coro_reachable two_executors own_executor drains_own (schedule to_the_return example_init)"
  using schedule_reachable [OF _ example_schedulable(1)] schedule_reachable [OF _ example_schedulable(2)]
    coro_reachable.Init [of two_executors own_executor drains_own]
  unfolding example_init_def by blast+

lemma returned_state:
  "running (schedule to_the_return example_init) 0 = Some 1"
  "awaiting (frames (schedule to_the_return example_init) 1) = Some 2"
  "executor (frames (schedule to_the_return example_init) 2) = Some 0"
  by (simp_all add: example_simps)

lemma final_state:
  "running (schedule to_the_end example_init) t = None"
  "queues (schedule to_the_end example_init) ex = []"
  "status (frames (schedule to_the_end example_init) 1) = Ended"
  by (simp_all add: example_simps)

lemma coroutine_in_one_place_witness:
  "\<not> corrupt (schedule to_the_return example_init) \<and>
   status (frames (schedule to_the_return example_init) 1) = Active"
  using coroutine_in_one_place [OF example_reachable(2) two_executors_nested, of 0 1]
    returned_state(1) by simp

lemma await_returns_home_witness:
  "executor (frames (schedule to_the_return example_init) 2) = own_executor 0"
  using await_returns_home [OF example_reachable(2) two_executors_nested _ returned_state(1,2)]
    returned_state(3) by simp

lemma task_results_as_direct_witness:
  "task_result (stored (frames (schedule to_the_end example_init) 1)) = Inl (Rethrown 5)"
  using task_results_as_direct [OF example_reachable(1) two_executors_nested final_state(3)]
  by (simp add: numeral_3_eq_3)

lemma no_coroutine_lost_witness:
  "status (frames (schedule to_the_end example_init) 0) = Ended"
  using no_coroutine_lost [OF example_reachable(1) two_executors_nested] final_state(1,2) by simp

text \<open>
  Without the hypothesis on the draining threads the return is not guaranteed: an executor that
  was constructed on one thread and is run by another is not \<open>current\<close> there, and a coroutine
  that awaits from such a thread has no executor to go back to.
\<close>

lemma unknown_executor_runs_inline:
  assumes "is_task (frames w h)" and "executor (frames w h) = None" and "continuation (frames w h) = Some k"
  shows "running (final_suspend t h w) t = Some k"
  using assms by (simp add: final_suspend_def run_on_def)

end
