(* ===== verification/Unique_Owner.thy ===== *)
theory Unique_Owner
  imports Ptl_Prelude "HOL-Library.Multiset"
begin

text \<open>
  The contract of the library's move-only owners (\<open>Task\<close>, the wait tasks, \<open>socket_internal\<close>):
  an object holds some resources; a move constructor and a move assignment hand them on, an
  assignment releases what the target held, and the destructor releases what is left.
\<close>

datatype 'o owner_command =
    Create nat 'o               \<comment> \<open>a new object from a freshly obtained resource\<close>
  | Move_Construct nat nat      \<comment> \<open>\<open>T x(std::move(y))\<close>\<close>
  | Move_Assign nat nat         \<comment> \<open>\<open>x = std::move(y)\<close>\<close>
  | Destruct nat

fun owner_permitted :: "'o owner_command \<Rightarrow> (nat \<Rightarrow> 'o option) \<Rightarrow> bool" where
  "owner_permitted (Create x ob) vars \<longleftrightarrow> vars x = None"
| "owner_permitted (Move_Construct x y) vars \<longleftrightarrow> vars x = None \<and> vars y \<noteq> None"
| "owner_permitted (Move_Assign x y) vars \<longleftrightarrow> vars x \<noteq> None \<and> vars y \<noteq> None"
| "owner_permitted (Destruct x) vars \<longleftrightarrow> vars x \<noteq> None"

fun created_by :: "('o \<Rightarrow> 'r list) \<Rightarrow> 'o owner_command \<Rightarrow> 'r list" where
  "created_by held (Create x ob) = held ob"
| "created_by held _ = []"

text \<open>
  The effect of a command on the variables and on the list of released resources.
  \<open>assign self\<close> is the assignment of an object to itself.
\<close>

fun owner_exec ::
  "('o \<Rightarrow> 'o \<times> 'o) \<Rightarrow> ('o \<Rightarrow> 'o \<Rightarrow> 'o \<times> 'o \<times> 'r list) \<Rightarrow> ('o \<Rightarrow> 'o \<times> 'r list) \<Rightarrow> ('o \<Rightarrow> 'r list)
     \<Rightarrow> 'o owner_command \<Rightarrow> (nat \<Rightarrow> 'o option) \<times> 'r list \<Rightarrow> (nat \<Rightarrow> 'o option) \<times> 'r list" where
  "owner_exec mk asg self des (Create x ob) (vars, rel) = (vars(x \<mapsto> ob), rel)"
| "owner_exec mk asg self des (Move_Construct x y) (vars, rel) =
     (case mk (the (vars y)) of (new, old) \<Rightarrow> (vars(x \<mapsto> new, y \<mapsto> old), rel))"
| "owner_exec mk asg self des (Move_Assign x y) (vars, rel) =
     (if x = y then (case self (the (vars x)) of (this, out) \<Rightarrow> (vars(x \<mapsto> this), rel @ out))
      else case asg (the (vars x)) (the (vars y)) of
        (this, other, out) \<Rightarrow> (vars(x \<mapsto> this, y \<mapsto> other), rel @ out))"
| "owner_exec mk asg self des (Destruct x) (vars, rel) = (vars(x := None), rel @ des (the (vars x)))"

fun owner_run ::
  "('o \<Rightarrow> 'o \<times> 'o) \<Rightarrow> ('o \<Rightarrow> 'o \<Rightarrow> 'o \<times> 'o \<times> 'r list) \<Rightarrow> ('o \<Rightarrow> 'o \<times> 'r list) \<Rightarrow> ('o \<Rightarrow> 'r list)
     \<Rightarrow> 'o owner_command list \<Rightarrow> (nat \<Rightarrow> 'o option) \<times> 'r list
     \<Rightarrow> ((nat \<Rightarrow> 'o option) \<times> 'r list) option" where
  "owner_run mk asg self des [] st = Some st"
| "owner_run mk asg self des (c # cs) st =
     (if owner_permitted c (fst st) then owner_run mk asg self des cs (owner_exec mk asg self des c st)
      else None)"

text \<open>What the variables \<open>xs\<close> hold.\<close>

definition holdings :: "('o \<Rightarrow> 'r list) \<Rightarrow> nat set \<Rightarrow> (nat \<Rightarrow> 'o option) \<Rightarrow> 'r multiset" where
  "holdings held xs vars = (\<Sum>x\<in>xs. case vars x of None \<Rightarrow> {#} | Some ob \<Rightarrow> mset (held ob))"

fun variables :: "'o owner_command \<Rightarrow> nat set" where
  "variables (Create x ob) = {x}"
| "variables (Move_Construct x y) = {x, y}"
| "variables (Move_Assign x y) = {x, y}"
| "variables (Destruct x) = {x}"

lemma holdings_update:
  assumes "finite xs" and "x \<in> xs"
  shows "holdings held xs (vars(x := v)) + (case vars x of None \<Rightarrow> {#} | Some ob \<Rightarrow> mset (held ob)) =
    holdings held xs vars + (case v of None \<Rightarrow> {#} | Some ob \<Rightarrow> mset (held ob))"
proof -
  let ?f = "\<lambda>vars x. case vars x of None \<Rightarrow> {#} | Some ob \<Rightarrow> mset (held ob)"
  have rest: "(\<Sum>y\<in>xs - {x}. ?f (vars(x := v)) y) = (\<Sum>y\<in>xs - {x}. ?f vars y)"
    by (rule sum.cong) auto
  have "holdings held xs (vars(x := v)) = ?f (vars(x := v)) x + (\<Sum>y\<in>xs - {x}. ?f vars y)"
    unfolding holdings_def using sum.remove [OF assms] rest by metis
  moreover have "holdings held xs vars = ?f vars x + (\<Sum>y\<in>xs - {x}. ?f vars y)"
    unfolding holdings_def using sum.remove [OF assms] by metis
  ultimately show ?thesis by (simp add: ac_simps)
qed

locale unique_owner =
  fixes held :: "'o \<Rightarrow> 'r list"
    and mk :: "'o \<Rightarrow> 'o \<times> 'o" and asg :: "'o \<Rightarrow> 'o \<Rightarrow> 'o \<times> 'o \<times> 'r list"
    and self :: "'o \<Rightarrow> 'o \<times> 'r list" and des :: "'o \<Rightarrow> 'r list"
  assumes mk_law: "mk y = (new, old) \<Longrightarrow> held new = held y \<and> held old = []"
    and asg_law: "asg x y = (this, other, out) \<Longrightarrow> held this = held y \<and> held other = [] \<and> mset out = mset (held x)"
    and self_law: "self x = (this, out) \<Longrightarrow> held this = held x \<and> out = []"
    and des_law: "mset (des x) = mset (held x)"
begin

lemma move_conserves:
  assumes xs: "finite xs" "x \<in> xs" "y \<in> xs" and "vars x = None" and "vars y = Some b"
    and m: "mk b = (new, old)"
  shows "holdings held xs (vars(x \<mapsto> new, y \<mapsto> old)) = holdings held xs vars"
proof -
  have "x \<noteq> y" using assms(4,5) by auto
  have "holdings held xs (vars(x \<mapsto> new)) = holdings held xs vars + mset (held b)"
    using holdings_update [OF xs(1,2), of held vars "Some new"] assms(4) mk_law [OF m] by simp
  moreover have "holdings held xs (vars(x \<mapsto> new, y \<mapsto> old)) + mset (held b) = holdings held xs (vars(x \<mapsto> new))"
    using holdings_update [OF xs(1,3), of held "vars(x \<mapsto> new)" "Some old"] assms(5) mk_law [OF m] \<open>x \<noteq> y\<close>
    by simp
  ultimately show ?thesis by simp
qed

lemma assign_conserves:
  assumes xs: "finite xs" "x \<in> xs" "y \<in> xs" "x \<noteq> y" and "vars x = Some a" and "vars y = Some b"
    and m: "asg a b = (this, other, out)"
  shows "holdings held xs (vars(x \<mapsto> this, y \<mapsto> other)) + mset out = holdings held xs vars"
proof -
  note l = asg_law [OF m]
  have 1: "holdings held xs (vars(x \<mapsto> this)) + mset (held a) = holdings held xs vars + mset (held b)"
    using holdings_update [OF xs(1,2), of held vars "Some this"] assms(5) l by simp
  have "holdings held xs (vars(x \<mapsto> this, y \<mapsto> other)) + mset (held b) = holdings held xs (vars(x \<mapsto> this))"
    using holdings_update [OF xs(1,3), of held "vars(x \<mapsto> this)" "Some other"] assms(6) l xs(4) by simp
  with 1 have "holdings held xs (vars(x \<mapsto> this, y \<mapsto> other)) + mset (held a) + mset (held b) =
      holdings held xs vars + mset (held b)"
    by (metis add.commute add.left_commute)
  then show ?thesis using l by simp
qed

lemma exec_conserves:
  assumes "finite xs" and "variables c \<subseteq> xs" and "owner_permitted c vars"
    and "owner_exec mk asg self des c (vars, rel) = (vars', rel')"
  shows "holdings held xs vars' + mset rel' = holdings held xs vars + mset rel + mset (created_by held c)"
proof (cases c)
  case (Create x ob)
  have "holdings held xs (vars(x \<mapsto> ob)) = holdings held xs vars + mset (held ob)"
    using holdings_update [OF assms(1), of x held vars "Some ob"] assms(2,3) Create by simp
  moreover have "vars' = vars(x \<mapsto> ob)" "rel' = rel" using assms(4) Create by auto
  ultimately show ?thesis using Create by (simp add: ac_simps)
next
  case (Move_Construct x y)
  then obtain b new old where v: "vars x = None" "vars y = Some b" and m: "mk b = (new, old)"
    using assms(3) by (cases "mk (the (vars y))") auto
  have "vars' = vars(x \<mapsto> new, y \<mapsto> old)" "rel' = rel" using assms(4) Move_Construct v m by auto
  then show ?thesis
    using move_conserves [OF assms(1) _ _ v m] assms(2) Move_Construct by simp
next
  case (Move_Assign x y)
  then obtain a b where v: "vars x = Some a" "vars y = Some b" using assms(3) by auto
  show ?thesis
  proof (cases "x = y")
    case True
    obtain this out where m: "self a = (this, out)" by (cases "self a")
    have "holdings held xs (vars(x \<mapsto> this)) = holdings held xs vars"
      using holdings_update [OF assms(1), of x held vars "Some this"] assms(2) Move_Assign v self_law [OF m]
      by simp
    moreover have "vars' = vars(x \<mapsto> this)" "rel' = rel"
      using assms(4) Move_Assign True v m self_law [OF m] by auto
    ultimately show ?thesis using Move_Assign by simp
  next
    case False
    obtain this other out where m: "asg a b = (this, other, out)" by (cases "asg a b")
    have "vars' = vars(x \<mapsto> this, y \<mapsto> other)" "rel' = rel @ out"
      using assms(4) Move_Assign False v m by auto
    then show ?thesis
      using assign_conserves [OF assms(1) _ _ False v m] assms(2) Move_Assign
      by (simp add: add.assoc add.left_commute)
  qed
next
  case (Destruct x)
  then obtain a where v: "vars x = Some a" using assms(3) by auto
  have "holdings held xs (vars(x := None)) + mset (held a) = holdings held xs vars"
    using holdings_update [OF assms(1), of x held vars None] assms(2) Destruct v by simp
  moreover have "vars' = vars(x := None)" "rel' = rel @ des a" using assms(4) Destruct v by auto
  ultimately show ?thesis using Destruct des_law by (simp add: add.assoc add.left_commute)
qed

lemma run_conserves:
  assumes "finite xs" and "\<forall>c \<in> set cs. variables c \<subseteq> xs"
    and "owner_run mk asg self des cs (vars, rel) = Some (vars', rel')"
  shows "holdings held xs vars' + mset rel' =
    holdings held xs vars + mset rel + mset (concat (map (created_by held) cs))"
  using assms(2,3)
proof (induction cs arbitrary: vars rel)
  case (Cons c cs)
  obtain vars1 rel1 where e: "owner_exec mk asg self des c (vars, rel) = (vars1, rel1)"
    by (cases "owner_exec mk asg self des c (vars, rel)")
  with Cons.prems have "owner_permitted c vars" "owner_run mk asg self des cs (vars1, rel1) = Some (vars', rel')"
    by (auto split: if_splits)
  moreover have "holdings held xs vars1 + mset rel1 =
      holdings held xs vars + mset rel + mset (created_by held c)"
    using exec_conserves [OF assms(1) _ calculation(1) e] Cons.prems(1) by simp
  moreover have "\<forall>c \<in> set cs. variables c \<subseteq> xs" using Cons.prems(1) by simp
  ultimately show ?case using Cons.IH by (simp add: add.assoc)
qed simp

text \<open>When every object is gone, every resource has been released as often as it was obtained.\<close>

lemma released_exactly:
  assumes "owner_run mk asg self des cs (\<lambda>_. None, []) = Some (vars', rel')"
    and "\<forall>x. vars' x = None"
  shows "mset rel' = mset (concat (map (created_by held) cs))"
proof -
  let ?xs = "\<Union>(variables ` set cs)"
  have fin: "finite (variables c)" for c :: "'o owner_command" by (cases c) auto
  have "finite ?xs" using fin by auto
  from run_conserves [OF this _ assms(1)]
  show ?thesis using assms(2) by (auto simp: holdings_def)
qed

text \<open>Nothing is released while some object holds it, if every resource was obtained once.\<close>

lemma held_not_released:
  assumes "owner_run mk asg self des cs (\<lambda>_. None, []) = Some (vars', rel')"
    and "distinct (concat (map (created_by held) cs))" and "vars' x = Some ob" and "r \<in> set (held ob)"
  shows "r \<notin> set rel'" and "vars' y = Some ob' \<Longrightarrow> y \<noteq> x \<Longrightarrow> r \<notin> set (held ob')"
proof -
  have fin: "finite (variables c)" for c :: "'o owner_command" by (cases c) auto
  obtain xs where xs: "finite xs" "x \<in> xs" "y \<in> xs" "\<forall>c \<in> set cs. variables c \<subseteq> xs"
    using fin by (intro that [of "insert y (insert x (\<Union>(variables ` set cs)))"]) auto
  have "holdings held xs (\<lambda>_. None) = {#}" by (simp add: holdings_def)
  then have eq: "holdings held xs vars' + mset rel' = mset (concat (map (created_by held) cs))"
    using run_conserves [OF xs(1,4) assms(1)] by simp
  let ?f = "\<lambda>x. case vars' x of None \<Rightarrow> {#} | Some ob \<Rightarrow> mset (held ob)"
  have c1: "count (holdings held xs vars' + mset rel') r \<le> 1"
    unfolding eq using assms(2) by (simp add: distinct_count_atmost_1)
  have hx: "count (?f x) r \<ge> 1" using assms(3,4) by (simp add: count_greater_eq_one_iff)
  have s: "holdings held xs vars' = ?f x + sum ?f (xs - {x})"
    unfolding holdings_def using sum.remove [OF xs(1,2), of ?f] by simp
  have c2: "count (?f x) r + count (sum ?f (xs - {x})) r + count (mset rel') r \<le> 1"
    using c1 unfolding s by simp
  show "r \<notin> set rel'"
  proof
    assume "r \<in> set rel'"
    then have "count (mset rel') r \<ge> 1" by (simp add: count_greater_eq_one_iff)
    then show False using c2 hx by linarith
  qed
  assume y: "vars' y = Some ob'" "y \<noteq> x"
  show "r \<notin> set (held ob')"
  proof
    assume "r \<in> set (held ob')"
    then have "count (?f y) r \<ge> 1" using y(1) by (simp add: count_greater_eq_one_iff)
    moreover have "sum ?f (xs - {x}) = ?f y + sum ?f (xs - {x} - {y})"
      using xs(1,3) y(2) by (intro sum.remove) auto
    ultimately have "count (sum ?f (xs - {x})) r \<ge> 1"
      by (metis (no_types, lifting) count_union le_add1 order_trans)
    then show False using c2 hx by linarith
  qed
qed

end

end
