(* ===== verification/Task_Handles.thy ===== *)
theory Task_Handles
  imports Unique_Owner Coro_Task
begin

text \<open>
  Who destroys a coroutine: the handle classes \<open>Task\<close> (\<open>task.hpp\<close>), \<open>wait_all_task\<close>
  (\<open>detail/wait_all_task.hpp\<close>), \<open>async_wait_task\<close> and \<open>sync_wait_task\<close> (\<open>sync_wait.hpp\<close>), which own
  the frame of a coroutine, and \<open>IntTask\<close> (\<open>simple_task.hpp\<close>), which does not manage to. A handle
  is the number of a frame, or \<open>None\<close> for \<open>nullptr\<close>; destroying a handle destroys the frames
  in the list it returns.
\<close>

section \<open>Owners without assignment\<close>

text \<open>
  The wait tasks can be moved and destroyed but not assigned. The contract of such a class gives
  that of \<open>unique_owner\<close> when an assignment is read as destroying the target and moving the
  source; programs of these classes contain none.
\<close>

fun is_assignment :: "'o owner_command \<Rightarrow> bool" where
  "is_assignment (Move_Assign x y) \<longleftrightarrow> True"
| "is_assignment _ \<longleftrightarrow> False"

definition no_self_assign :: "'o \<Rightarrow> 'o \<times> 'r list" where
  "no_self_assign x = (x, [])"

definition destroy_and_move :: "('o \<Rightarrow> 'o \<times> 'o) \<Rightarrow> ('o \<Rightarrow> 'r list) \<Rightarrow> 'o \<Rightarrow> 'o \<Rightarrow> 'o \<times> 'o \<times> 'r list" where
  "destroy_and_move mk des x y = (fst (mk y), snd (mk y), des x)"

locale movable_owner =
  fixes held :: "'o \<Rightarrow> 'r list" and mk :: "'o \<Rightarrow> 'o \<times> 'o" and des :: "'o \<Rightarrow> 'r list"
  assumes move_law: "mk y = (new, old) \<Longrightarrow> held new = held y \<and> held old = []"
    and destroy_law: "mset (des x) = mset (held x)"
begin

lemma move_parts: "held (fst (mk y)) = held y" "held (snd (mk y)) = []"
  using move_law [of y "fst (mk y)" "snd (mk y)"] by simp_all

end

sublocale movable_owner \<subseteq> assignable: unique_owner held mk "destroy_and_move mk des" no_self_assign des
  by unfold_locales
    (auto simp: destroy_and_move_def no_self_assign_def destroy_law move_law move_parts)

section \<open>\<open>Task\<close>\<close>

type_synonym task_handle = "nat option"

definition frame_of :: "task_handle \<Rightarrow> nat list" where
  "frame_of t = (case t of None \<Rightarrow> [] | Some h \<Rightarrow> [h])"

definition task_default :: task_handle where
  "task_default = None"

definition task_from :: "nat \<Rightarrow> task_handle" where
  "task_from coroutine = Some coroutine"

definition task_move :: "task_handle \<Rightarrow> task_handle \<times> task_handle" where
  "task_move t = (t, None)"

definition task_destroy :: "task_handle \<Rightarrow> nat list" where
  "task_destroy t = (case t of None \<Rightarrow> [] | Some h \<Rightarrow> [h])"

text \<open>The assignment, whose test for self-assignment is \<open>task_self_assign\<close>.\<close>

definition task_assign :: "task_handle \<Rightarrow> task_handle \<Rightarrow> task_handle \<times> task_handle \<times> nat list" where
  "task_assign this other =
     (let destroyed = (case this of None \<Rightarrow> [] | Some h \<Rightarrow> [h])
      in (other, None, destroyed))"

definition task_self_assign :: "task_handle \<Rightarrow> task_handle \<times> nat list" where
  "task_self_assign this = (this, [])"

interpretation tasks: unique_owner frame_of task_move task_assign task_self_assign task_destroy
  by unfold_locales
    (auto simp: frame_of_def task_move_def task_assign_def task_self_assign_def task_destroy_def)

subsection \<open>Awaiting through a handle\<close>

definition task_is_ready :: "(nat \<Rightarrow> bool) \<Rightarrow> task_handle \<Rightarrow> bool" where
  "task_is_ready done t \<longleftrightarrow> t = None \<or> done (the t)"

definition awaitable_ready :: "(nat \<Rightarrow> bool) \<Rightarrow> task_handle \<Rightarrow> bool" where
  "awaitable_ready done coroutine \<longleftrightarrow> coroutine = None \<or> done (the coroutine)"

text \<open>\<open>co_await task\<close> on an lvalue: the result stays in the promise.\<close>

definition awaitable_resume ::
  "(nat \<Rightarrow> ('v, nat) expected) \<Rightarrow> task_handle \<Rightarrow> 'v res" where
  "awaitable_resume promise coroutine =
     (case coroutine of None \<Rightarrow> Inl Bad_Access | Some h \<Rightarrow> task_result (promise h))"

text \<open>
  \<open>co_await std::move(task)\<close> moves the value out of the promise: \<open>result() &&\<close> takes
  \<open>std::move(value_.value())\<close>, which leaves the promise with a moved-from value.
\<close>

definition awaitable_resume_moved ::
  "('v, nat) elements \<Rightarrow> (nat \<Rightarrow> ('v, nat) expected) \<Rightarrow> task_handle
     \<Rightarrow> ('v \<times> (nat \<Rightarrow> ('v, nat) expected)) res" where
  "awaitable_resume_moved el promise coroutine =
     (case coroutine of
        None \<Rightarrow> Inl Bad_Access
      | Some h \<Rightarrow>
          res_bind (task_result (promise h)) (\<lambda>v.
            let (result, rest) = move_value el v
            in Inr (result, promise(h := (promise h)\<lparr>members := Live_Value rest\<rparr>))))"

text \<open>
  An empty or moved-from task counts as ready, and its result is then read through a null
  handle.
\<close>

lemma moved_from_task_crashes:
  assumes "task_move t = (new, old)"
  shows "awaitable_ready done old" and "awaitable_resume promise old = Inl Bad_Access"
  using assms by (auto simp: task_move_def awaitable_ready_def awaitable_resume_def)

section \<open>The wait tasks\<close>

definition wait_all_task_move :: "task_handle \<Rightarrow> task_handle \<times> task_handle" where
  "wait_all_task_move other = (other, None)"

definition wait_all_task_destroy :: "task_handle \<Rightarrow> nat list" where
  "wait_all_task_destroy t = (case t of None \<Rightarrow> [] | Some h \<Rightarrow> [h])"

definition async_wait_task_move :: "task_handle \<Rightarrow> task_handle \<times> task_handle" where
  "async_wait_task_move other = (other, None)"

definition async_wait_task_destroy :: "task_handle \<Rightarrow> nat list" where
  "async_wait_task_destroy t = (case t of None \<Rightarrow> [] | Some h \<Rightarrow> [h])"

definition sync_wait_task_move :: "task_handle \<Rightarrow> task_handle \<times> task_handle" where
  "sync_wait_task_move other = (other, None)"

definition sync_wait_task_destroy :: "task_handle \<Rightarrow> nat list" where
  "sync_wait_task_destroy t = (case t of None \<Rightarrow> [] | Some h \<Rightarrow> [h])"

interpretation wait_all_tasks: movable_owner frame_of wait_all_task_move wait_all_task_destroy
  by unfold_locales (auto simp: frame_of_def wait_all_task_move_def wait_all_task_destroy_def)

interpretation async_wait_tasks: movable_owner frame_of async_wait_task_move async_wait_task_destroy
  by unfold_locales (auto simp: frame_of_def async_wait_task_move_def async_wait_task_destroy_def)

interpretation sync_wait_tasks: movable_owner frame_of sync_wait_task_move sync_wait_task_destroy
  by unfold_locales (auto simp: frame_of_def sync_wait_task_move_def sync_wait_task_destroy_def)

section \<open>\<open>IntTask\<close>\<close>

text \<open>
  The class declares a destructor and neither a copy nor a move constructor: copies and moves
  are the implicit copy, which leaves both objects with the frame.
\<close>

definition int_task_copy :: "task_handle \<Rightarrow> task_handle \<times> task_handle" where
  "int_task_copy other = (other, other)"

definition int_task_assign :: "task_handle \<Rightarrow> task_handle \<Rightarrow> task_handle \<times> task_handle \<times> nat list" where
  "int_task_assign this other = (other, other, [])"

definition int_task_destroy :: "task_handle \<Rightarrow> nat list" where
  "int_task_destroy t = (case t of None \<Rightarrow> [] | Some h \<Rightarrow> [h])"

text \<open>The promise: \<open>result_\<close> is not initialised.\<close>

record int_promise =
  int_result :: "int option"
  int_continuation :: "nat option"

definition int_return_value :: "int \<Rightarrow> int_promise \<Rightarrow> int_promise" where
  "int_return_value v p = p\<lparr>int_result := Some v\<rparr>"

definition int_unhandled_exception :: "nat \<Rightarrow> int_promise \<Rightarrow> int_promise" where
  "int_unhandled_exception e p = p"

text \<open>What \<open>await_suspend\<close> and the final awaiter resume.\<close>

definition int_await_suspend :: "nat \<Rightarrow> nat \<Rightarrow> int_promise \<Rightarrow> nat \<times> int_promise" where
  "int_await_suspend caller self p = (self, p\<lparr>int_continuation := Some caller\<rparr>)"

definition int_final_suspend :: "int_promise \<Rightarrow> nat res" where
  "int_final_suspend p =
     (case int_continuation p of None \<Rightarrow> Inl Undefined_Behaviour | Some h \<Rightarrow> Inr h)"

definition int_await_resume :: "int_promise \<Rightarrow> int res" where
  "int_await_resume p =
     (case int_result p of None \<Rightarrow> Inl Undefined_Behaviour | Some v \<Rightarrow> Inr v)"

text \<open>The body of the coroutine ends with a value or an exception.\<close>

definition int_task_outcome :: "nat + int \<Rightarrow> nat \<Rightarrow> nat \<Rightarrow> nat res \<times> int res" where
  "int_task_outcome ended caller self =
     (let (running, p) = int_await_suspend caller self \<lparr>int_result = None, int_continuation = None\<rparr>;
          p = (case ended of Inl e \<Rightarrow> int_unhandled_exception e p | Inr v \<Rightarrow> int_return_value v p)
      in (int_final_suspend p, int_await_resume p))"

section \<open>Properties\<close>

text \<open>
  C12: every coroutine frame is destroyed exactly once. In any program over \<open>Task\<close> objects
  (construction from a coroutine, moves, assignments, self-assignments, destruction) after
  which all objects are gone, the frames destroyed are the frames the objects were created
  from, and while an object holds a frame it has not been destroyed and no other object holds
  it.
\<close>

theorem task_frames_destroyed_once:
  assumes "owner_run task_move task_assign task_self_assign task_destroy cs (\<lambda>_. None, []) = Some (objs, freed)"
    and "distinct (concat (map (created_by frame_of) cs))"
  shows "((\<forall>x. objs x = None) \<longrightarrow> mset freed = mset (concat (map (created_by frame_of) cs))) \<and>
    (\<forall>x h. objs x = Some (Some h) \<longrightarrow> h \<notin> set freed \<and> (\<forall>y. y \<noteq> x \<longrightarrow> objs y \<noteq> Some (Some h)))"
proof (intro conjI allI impI)
  show "mset freed = mset (concat (map (created_by frame_of) cs))" if "\<forall>x. objs x = None"
    using tasks.released_exactly [OF assms(1) that] .
  fix x h y assume x: "objs x = Some (Some h)"
  show "h \<notin> set freed"
    using tasks.held_not_released(1) [OF assms x] by (simp add: frame_of_def)
  show "objs y \<noteq> Some (Some h)" if "y \<noteq> x"
    using tasks.held_not_released(2) [OF assms x, of h y "Some h"] that by (auto simp: frame_of_def)
qed

definition sample_tasks :: "task_handle owner_command list" where
  "sample_tasks =
     [Create 0 (task_from 5), Create 1 (task_from 6), Move_Assign 0 1, Move_Assign 0 0,
      Move_Construct 2 0, Destruct 1, Destruct 0]"

lemma task_frames_destroyed_once_witness:
  "\<exists>objs freed. owner_run task_move task_assign task_self_assign task_destroy sample_tasks (\<lambda>_. None, [])
     = Some (objs, freed) \<and> objs 2 = Some (Some 6) \<and> 6 \<notin> set freed \<and> 5 \<in> set freed"
proof -
  have d: "distinct (concat (map (created_by frame_of) sample_tasks))"
    by (simp add: frame_of_def task_from_def sample_tasks_def)
  have r: "owner_run task_move task_assign task_self_assign task_destroy sample_tasks (\<lambda>_. None, [])
      = Some ([2 \<mapsto> Some 6], [5])"
    by (simp add: task_move_def task_assign_def task_self_assign_def task_destroy_def task_from_def
        sample_tasks_def fun_eq_iff)
  from task_frames_destroyed_once [OF r d] r show ?thesis by auto
qed

text \<open>The three wait tasks, which cannot be assigned, destroy each frame once, too.\<close>

abbreviation run_without_assignment ::
  "('o \<Rightarrow> 'o \<times> 'o) \<Rightarrow> ('o \<Rightarrow> 'r list) \<Rightarrow> 'o owner_command list \<Rightarrow> ((nat \<Rightarrow> 'o option) \<times> 'r list) option" where
  "run_without_assignment mk des cs \<equiv>
     if list_all (\<lambda>c. \<not> is_assignment c) cs
     then owner_run mk (destroy_and_move mk des) no_self_assign des cs (\<lambda>_. None, []) else None"

lemma wait_task_frames_destroyed_once:
  "run_without_assignment wait_all_task_move wait_all_task_destroy cs = Some (\<lambda>_. None, freed) \<Longrightarrow>
     mset freed = mset (concat (map (created_by frame_of) cs))"
  "run_without_assignment async_wait_task_move async_wait_task_destroy cs = Some (\<lambda>_. None, freed) \<Longrightarrow>
     mset freed = mset (concat (map (created_by frame_of) cs))"
  "run_without_assignment sync_wait_task_move sync_wait_task_destroy cs = Some (\<lambda>_. None, freed) \<Longrightarrow>
     mset freed = mset (concat (map (created_by frame_of) cs))"
  using wait_all_tasks.assignable.released_exactly [of cs "\<lambda>_. None" freed]
    async_wait_tasks.assignable.released_exactly [of cs "\<lambda>_. None" freed]
    sync_wait_tasks.assignable.released_exactly [of cs "\<lambda>_. None" freed]
  by (simp_all split: if_splits)

text \<open>
  An \<open>IntTask\<close> that is moved is destroyed twice, and one whose coroutine throws resumes the
  awaiting coroutine with a result that was never assigned; one that returns a value delivers
  it.
\<close>

theorem int_task_defects:
  "owner_run int_task_copy int_task_assign no_self_assign int_task_destroy
     [Create 0 (Some h), Move_Construct 1 0, Destruct 0, Destruct 1] (\<lambda>_. None, []) = Some (\<lambda>_. None, [h, h]) \<and>
   int_task_outcome (Inl e) caller self = (Inr caller, Inl Undefined_Behaviour) \<and>
   int_task_outcome (Inr v) caller self = (Inr caller, Inr v)"
  by (simp add: int_task_copy_def int_task_destroy_def fun_eq_iff int_task_outcome_def
      int_await_suspend_def int_unhandled_exception_def int_return_value_def int_final_suspend_def
      int_await_resume_def)

end
