(* ===== verification/Socket.thy ===== *)
theory Socket
  imports Ip_Address Io_Service Unique_Owner
begin

text \<open>
  \<open>src/socket.cpp\<close> and the class \<open>socket_internal\<close> of \<open>asio/socket.hpp\<close>: the socket addresses
  as the bytes that the system calls read and write, and the ownership of the descriptor and of
  its registration. The system calls are parameters: what a call writes into the address buffer
  and what it returns.
\<close>

section \<open>Socket addresses in memory\<close>

text \<open>
  A \<open>sockaddr_storage\<close> of 128 bytes. The host is little endian: the family is stored low byte
  first, and \<open>htons\<close>, \<open>ntohs\<close> and \<open>ntohl\<close> reverse the bytes of a number.
\<close>

definition AF_INET :: u16 where "AF_INET = 2"
definition AF_INET6 :: u16 where "AF_INET6 = 10"

definition write_bytes :: "nat \<Rightarrow> u8 list \<Rightarrow> u8 list \<Rightarrow> u8 list" where
  "write_bytes at bs m = take at m @ bs @ drop (at + length bs) m"

definition read_bytes :: "nat \<Rightarrow> nat \<Rightarrow> u8 list \<Rightarrow> u8 list" where
  "read_bytes at n m = take n (drop at m)"

definition bytes_of_u16 :: "u16 \<Rightarrow> u8 list" where
  "bytes_of_u16 w = [ucast w, ucast (drop_bit 8 w)]"

definition u16_of_bytes :: "u8 list \<Rightarrow> u16" where
  "u16_of_bytes bs = ucast (bs ! 0) OR push_bit 8 (ucast (bs ! 1))"

definition u32_of_bytes :: "u8 list \<Rightarrow> u32" where
  "u32_of_bytes bs =
     ucast (bs ! 0) OR push_bit 8 (ucast (bs ! 1)) OR push_bit 16 (ucast (bs ! 2)) OR
     push_bit 24 (ucast (bs ! 3))"

definition htons :: "u16 \<Rightarrow> u16" where
  "htons w = push_bit 8 w OR drop_bit 8 w"

definition ntohl :: "u32 \<Rightarrow> u32" where
  "ntohl w =
     push_bit 24 (w AND 0xff) OR push_bit 8 (w AND 0xff00) OR drop_bit 8 (w AND 0xff0000) OR
     drop_bit 24 w"

text \<open>
  The buffers \<open>bind\<close> and \<open>connect\<close> fill, on top of whatever \<open>storage\<close> held. In \<open>sockaddr_in\<close> the
  port is at offset 2 and the address at 4; in \<open>sockaddr_in6\<close> the address is at 8. Only four
  bytes of an IPv6 address are copied.
\<close>

definition fill_ipv4 :: "ipv4_endpoint \<Rightarrow> u8 list \<Rightarrow> u8 list" where
  "fill_ipv4 ep storage =
     write_bytes 2 (bytes_of_u16 (htons (port4 ep)))
       (write_bytes 4 (take 4 (ipv4_bytes (address4 ep)))
         (write_bytes 0 (bytes_of_u16 AF_INET) storage))"

definition fill_ipv6 :: "ipv6_endpoint \<Rightarrow> u8 list \<Rightarrow> u8 list" where
  "fill_ipv6 ep storage =
     write_bytes 2 (bytes_of_u16 (htons (port6 ep)))
       (write_bytes 8 (take 4 (address6 ep))
         (write_bytes 0 (bytes_of_u16 AF_INET6) storage))"

definition sizeof_sockaddr_in :: nat where "sizeof_sockaddr_in = 16"

text \<open>What the code reads back.\<close>

definition read_ipv4 :: "u8 list \<Rightarrow> ip_endpoint" where
  "read_ipv4 m = Endpoint4
     \<lparr>address4 = ipv4_of_integer (ntohl (u32_of_bytes (read_bytes 4 4 m))),
      port4 = htons (u16_of_bytes (read_bytes 2 2 m))\<rparr>"

definition read_ipv4_accept :: "u8 list \<Rightarrow> ip_endpoint" where
  "read_ipv4_accept m = Endpoint4
     \<lparr>address4 = ipv4_of_integer (u32_of_bytes (read_bytes 4 4 m)),
      port4 = htons (u16_of_bytes (read_bytes 2 2 m))\<rparr>"

definition read_ipv6 :: "u8 list \<Rightarrow> ip_endpoint" where
  "read_ipv6 m = Endpoint6
     \<lparr>address6 = ipv6_of_array (read_bytes 8 16 m), port6 = htons (u16_of_bytes (read_bytes 2 2 m))\<rparr>"

section \<open>Sockets\<close>

text \<open>
  Descriptor 0 and an empty \<open>data_\<close> (here \<open>None\<close>; otherwise the number of a registration) mean
  that the object owns nothing. \<open>sock_service\<close> is the number of the service that \<open>service_\<close>
  refers to.
\<close>

record socket_internal =
  sock_service :: nat
  sock_descriptor :: int
  sock_data :: "nat option"
  local_endpoint :: ip_endpoint
  remote_endpoint :: ip_endpoint

definition socket_internal_init :: "nat \<Rightarrow> int \<Rightarrow> nat \<Rightarrow> socket_internal" where
  "socket_internal_init svc d reg =
     \<lparr>sock_service = svc, sock_descriptor = d, sock_data = Some reg, local_endpoint = endpoint_default,
      remote_endpoint = endpoint_default\<rparr>"

text \<open>\<open>call\<close> is the system call: it gets the descriptor and the bytes of the address.\<close>

definition socket_bind ::
  "(int \<Rightarrow> u8 list \<Rightarrow> sys) \<Rightarrow> u8 list \<Rightarrow> ip_endpoint \<Rightarrow> socket_internal
     \<Rightarrow> socket_internal \<times> (nat + unit)" where
  "socket_bind call storage ep s =
     (let s = s\<lparr>local_endpoint := ep\<rparr>;
          addr = (case local_endpoint s of
                    Endpoint4 ep4 \<Rightarrow> fill_ipv4 ep4 storage
                  | Endpoint6 ep6 \<Rightarrow> fill_ipv6 ep6 storage)
      in (s, wrap_void (call (sock_descriptor s) (take sizeof_sockaddr_in addr))))"

definition socket_connect ::
  "(int \<Rightarrow> u8 list \<Rightarrow> sys) \<Rightarrow> u8 list \<Rightarrow> ip_endpoint \<Rightarrow> socket_internal \<Rightarrow> nat + unit" where
  "socket_connect call storage ep s =
     (let addr = (case ep of Endpoint4 ep4 \<Rightarrow> fill_ipv4 ep4 storage | Endpoint6 ep6 \<Rightarrow> fill_ipv6 ep6 storage)
      in wrap_void (call (sock_descriptor s) (take sizeof_sockaddr_in addr)))"

text \<open>A call that writes an address gives its result and the storage as it leaves it.\<close>

definition socket_get_local ::
  "(int \<Rightarrow> sys \<times> u8 list) \<Rightarrow> socket_internal \<Rightarrow> socket_internal \<times> (nat + unit)" where
  "socket_get_local call s =
     (case call (sock_descriptor s) of
        (r, m) \<Rightarrow>
          (case wrap_void r of
             Inl e \<Rightarrow> (s, Inl e)
           | Inr _ \<Rightarrow>
               (s\<lparr>local_endpoint := (if is_ipv4 (local_endpoint s) then read_ipv4 m else read_ipv6 m)\<rparr>,
                Inr ())))"

definition socket_get_remote ::
  "(int \<Rightarrow> sys \<times> u8 list) \<Rightarrow> socket_internal \<Rightarrow> socket_internal \<times> (nat + unit)" where
  "socket_get_remote call s =
     (case call (sock_descriptor s) of
        (r, m) \<Rightarrow>
          (case wrap_void r of
             Inl e \<Rightarrow> (s, Inl e)
           | Inr _ \<Rightarrow>
               (s\<lparr>remote_endpoint := (if is_ipv4 (local_endpoint s) then read_ipv4 m else read_ipv6 m)\<rparr>,
                Inr ())))"

definition socket_listen ::
  "(int \<Rightarrow> sys) \<Rightarrow> (int \<Rightarrow> sys \<times> u8 list) \<Rightarrow> socket_internal \<Rightarrow> socket_internal \<times> (nat + unit)" where
  "socket_listen listen getsockname s =
     (case wrap_void (listen (sock_descriptor s)) of
        Inl e \<Rightarrow> (s, Inl e)
      | Inr _ \<Rightarrow> socket_get_local getsockname s)"

definition socket_accept ::
  "(int \<Rightarrow> sys \<times> u8 list) \<Rightarrow> socket_internal \<Rightarrow> socket_internal \<times> (nat + nat)" where
  "socket_accept call s =
     (case call (sock_descriptor s) of
        (r, m) \<Rightarrow>
          (case wrap_value r of
             Inl e \<Rightarrow> (s, Inl e)
           | Inr fd \<Rightarrow>
               (s\<lparr>remote_endpoint :=
                    (if is_ipv4 (local_endpoint s) then read_ipv4_accept m else read_ipv6 m)\<rparr>,
                Inr fd)))"

definition socket_shutdown :: "(int \<Rightarrow> int \<Rightarrow> sys) \<Rightarrow> int \<Rightarrow> socket_internal \<Rightarrow> nat + unit" where
  "socket_shutdown call how s = wrap_void (call (sock_descriptor s) how)"

subsection \<open>Ownership\<close>

datatype resource = Registration nat | Descriptor int

text \<open>
  The move constructor refers to the service of the other object and takes its descriptor and
  registration; it leaves the new object's endpoints default-constructed. \<open>swap\<close> exchanges
  descriptor and registration, but not the services.
\<close>

definition socket_move :: "socket_internal \<Rightarrow> socket_internal \<times> socket_internal" where
  "socket_move ob =
     (\<lparr>sock_service = sock_service ob, sock_descriptor = sock_descriptor ob, sock_data = sock_data ob,
       local_endpoint = endpoint_default, remote_endpoint = endpoint_default\<rparr>,
      ob\<lparr>sock_descriptor := 0, sock_data := None\<rparr>)"

definition socket_swap :: "socket_internal \<Rightarrow> socket_internal \<Rightarrow> socket_internal \<times> socket_internal" where
  "socket_swap left right =
     (left\<lparr>sock_descriptor := sock_descriptor right, sock_data := sock_data right\<rparr>,
      right\<lparr>sock_descriptor := sock_descriptor left, sock_data := sock_data left\<rparr>)"

text \<open>The destructor deregisters, then closes; what it releases, in this order.\<close>

definition socket_destroy :: "socket_internal \<Rightarrow> resource list" where
  "socket_destroy s =
     (case sock_data s of None \<Rightarrow> [] | Some reg \<Rightarrow> [Registration reg]) @
     (if sock_descriptor s \<noteq> 0 then [Descriptor (sock_descriptor s)] else [])"

definition socket_assign ::
  "socket_internal \<Rightarrow> socket_internal \<Rightarrow> socket_internal \<times> socket_internal \<times> resource list" where
  "socket_assign this ob =
     (let (tmp, ob) = socket_move ob; (this, tmp) = socket_swap this tmp
      in (this, ob, socket_destroy tmp))"

definition socket_self_assign :: "socket_internal \<Rightarrow> socket_internal \<times> resource list" where
  "socket_self_assign this =
     (let (tmp, this) = socket_move this; (this, tmp) = socket_swap this tmp
      in (this, socket_destroy tmp))"

text \<open>
  What an object owns, apart from what its destructor does: the registration that \<open>data_\<close> points
  to and the descriptor, where it has them.
\<close>

definition socket_holds :: "socket_internal \<Rightarrow> resource list" where
  "socket_holds s =
     (case sock_data s of Some reg \<Rightarrow> [Registration reg] | None \<Rightarrow> []) @
     (if sock_descriptor s = 0 then [] else [Descriptor (sock_descriptor s)])"

text \<open>
  The destructor deregisters with the service its object refers to. Between sockets of one service
  that is the service of the registration; after an assignment between sockets of two services it
  is the other one. The properties are about sockets of one service.
\<close>

definition deregistered_with :: "socket_internal \<Rightarrow> (nat \<times> nat) option" where
  "deregistered_with s = map_option (\<lambda>reg. (sock_service s, reg)) (sock_data s)"

lemma assigned_across_services:
  assumes "sock_data ob = Some reg" and "sock_data this = Some reg'"
  shows "deregistered_with ob = Some (sock_service ob, reg)"
    and "deregistered_with (fst (socket_assign this ob)) = Some (sock_service this, reg)"
  using assms by (simp_all add: deregistered_with_def socket_assign_def socket_move_def socket_swap_def Let_def)

interpretation sockets: unique_owner socket_holds socket_move socket_assign socket_self_assign socket_destroy
  by unfold_locales
    (auto simp: socket_holds_def socket_move_def socket_assign_def socket_self_assign_def socket_swap_def
      socket_destroy_def Let_def split: option.splits)

definition socket_program ::
  "socket_internal owner_command list \<Rightarrow> ((nat \<Rightarrow> socket_internal option) \<times> resource list) option" where
  "socket_program cs =
     owner_run socket_move socket_assign socket_self_assign socket_destroy cs (\<lambda>_. None, [])"

section \<open>Bytes\<close>

lemma read_write_same:
  "at + length bs \<le> length m \<Longrightarrow> n = length bs \<Longrightarrow> read_bytes at n (write_bytes at bs m) = bs"
  by (simp add: read_bytes_def write_bytes_def)

lemma length_write_bytes [simp]: "at + length bs \<le> length m \<Longrightarrow> length (write_bytes at bs m) = length m"
  by (simp add: write_bytes_def)

lemma read_write_before:
  "at + n \<le> to \<Longrightarrow> to \<le> length m \<Longrightarrow> read_bytes at n (write_bytes to bs m) = read_bytes at n m"
  by (auto simp: read_bytes_def write_bytes_def drop_take min_def)

lemma read_write_after:
  assumes "to + length bs \<le> at" and "to + length bs \<le> length m"
  shows "read_bytes at n (write_bytes to bs m) = read_bytes at n m"
  using assms by (simp add: read_bytes_def write_bytes_def)

lemma length_bytes_of_u16 [simp]: "length (bytes_of_u16 w) = 2"
  by (simp add: bytes_of_u16_def)

lemma bit_byte_high: "8 \<le> n \<Longrightarrow> \<not> bit (x :: u8) n"
  by (auto dest: bit_imp_le_length)

lemma u16_bytes_roundtrip: "u16_of_bytes (bytes_of_u16 w) = w"
  by (rule bit_word_eqI)
    (auto simp: u16_of_bytes_def bytes_of_u16_def bit_simps not_less)

lemma htons_htons [simp]: "htons (htons w) = w"
  by (rule bit_word_eqI) (auto simp: htons_def bit_simps not_less dest: bit_imp_le_length)

lemma network_order_port: "bytes_of_u16 (htons p) = [ucast (drop_bit 8 p), ucast p]"
  by (auto simp: bytes_of_u16_def htons_def intro!: bit_word_eqI simp: bit_simps dest: bit_imp_le_length)

lemmas address_fields = read_write_same read_write_before read_write_after

lemma fill_ipv4_fields:
  assumes "length storage = 128"
  shows "read_bytes 0 2 (fill_ipv4 ep storage) = bytes_of_u16 AF_INET"
    and "read_bytes 2 2 (fill_ipv4 ep storage) = bytes_of_u16 (htons (port4 ep))"
    and "read_bytes 4 4 (fill_ipv4 ep storage) = ipv4_bytes (address4 ep)"
    and "length (fill_ipv4 ep storage) = 128"
  using assms by (simp_all add: fill_ipv4_def address_fields ipv4_bytes_def)

lemma fill_ipv6_fields:
  assumes "length storage = 128" and "length (address6 ep) = 16"
  shows "read_bytes 2 2 (fill_ipv6 ep storage) = bytes_of_u16 (htons (port6 ep))"
    and "read_bytes 8 4 (fill_ipv6 ep storage) = take 4 (address6 ep)"
    and "read_bytes 12 n (fill_ipv6 ep storage) = read_bytes 12 n storage"
    and "length (fill_ipv6 ep storage) = 128"
  using assms by (simp_all add: fill_ipv6_def address_fields)

lemma read_bytes_take: "at + n \<le> k \<Longrightarrow> read_bytes at n (take k m @ rest) = read_bytes at n m"
  if "k \<le> length m"
  using that by (auto simp: read_bytes_def drop_take min_def)

lemma byte_eqI:
  fixes x y :: u8
  assumes "bit x 0 = bit y 0" "bit x 1 = bit y 1" "bit x 2 = bit y 2" "bit x 3 = bit y 3"
    "bit x 4 = bit y 4" "bit x 5 = bit y 5" "bit x 6 = bit y 6" "bit x 7 = bit y 7"
  shows "x = y"
proof (rule bit_word_eqI)
  fix n
  assume "n < LENGTH(8)"
  then have "n \<in> {0, 1, 2, 3, 4, 5, 6, 7}" by auto
  then show "bit x n = bit y n" using assms by auto
qed

lemma ipv4_network_number: "ipv4_of_integer (ntohl (u32_of_bytes (ipv4_bytes a))) = a"
proof (cases a)
  case (Ipv4 a b c d)
  have "ucast (drop_bit 24 (ntohl (u32_of_bytes [a, b, c, d]))) = a"
    "ucast (drop_bit 16 (ntohl (u32_of_bytes [a, b, c, d]))) = b"
    "ucast (drop_bit 8 (ntohl (u32_of_bytes [a, b, c, d]))) = c"
    "ucast (ntohl (u32_of_bytes [a, b, c, d])) = d"
    by (rule byte_eqI, auto simp: ntohl_def u32_of_bytes_def bit_simps bit_byte_high)+
  then show ?thesis using Ipv4 by (simp add: ipv4_of_integer_def ipv4_bytes_def)
qed

lemma accept_number_reversed:
  "ipv4_of_integer (u32_of_bytes (ipv4_bytes (Ipv4 a b c d))) = Ipv4 d c b a"
proof -
  have "ucast (drop_bit 24 (u32_of_bytes [a, b, c, d])) = d"
    "ucast (drop_bit 16 (u32_of_bytes [a, b, c, d])) = c"
    "ucast (drop_bit 8 (u32_of_bytes [a, b, c, d])) = b"
    "ucast (u32_of_bytes [a, b, c, d]) = a"
    by (rule byte_eqI, auto simp: u32_of_bytes_def bit_simps bit_byte_high)+
  then show ?thesis by (simp add: ipv4_of_integer_def ipv4_bytes_def)
qed

text \<open>The bytes of an IPv4 endpoint as the kernel gets and gives them.\<close>

definition ipv4_message :: "ipv4_endpoint \<Rightarrow> u8 list \<Rightarrow> u8 list" where
  "ipv4_message ep storage = take sizeof_sockaddr_in (fill_ipv4 ep storage)"

lemma ipv4_message_fields:
  assumes "length storage = 128"
  shows "length (ipv4_message ep storage) = 16"
    and "read_bytes 0 2 (ipv4_message ep storage @ rest) = [2, 0]"
    and "read_bytes 2 2 (ipv4_message ep storage @ rest) = bytes_of_u16 (htons (port4 ep))"
    and "read_bytes 4 4 (ipv4_message ep storage @ rest) = ipv4_bytes (address4 ep)"
  using fill_ipv4_fields [OF assms, of ep]
  by (simp_all add: ipv4_message_def sizeof_sockaddr_in_def read_bytes_take bytes_of_u16_def AF_INET_def)

lemma read_ipv4_message:
  assumes "length storage = 128"
  shows "read_ipv4 (ipv4_message ep storage @ rest) = Endpoint4 ep"
  using ipv4_message_fields [OF assms]
  by (simp add: read_ipv4_def ipv4_network_number u16_bytes_roundtrip)

section \<open>Properties\<close>

fun reversed_address :: "ipv4_address \<Rightarrow> ipv4_address" where
  "reversed_address (Ipv4 a b c d) = Ipv4 d c b a"

lemma read_ipv4_accept_message:
  assumes "length storage = 128"
  shows "read_ipv4_accept (ipv4_message ep storage @ rest) =
    Endpoint4 (ep\<lparr>address4 := reversed_address (address4 ep)\<rparr>)"
  using ipv4_message_fields [OF assms] accept_number_reversed
  by (cases "address4 ep") (simp add: read_ipv4_accept_def u16_bytes_roundtrip)

text \<open>
  C30: IPv4 endpoints at the system-call boundary. \<open>bind\<close> and \<open>connect\<close> hand the kernel the same
  sixteen bytes, whatever the buffer held before: the family, the port high byte first and the
  address bytes in order. If the kernel gives such bytes back, then after \<open>listen\<close> and
  \<open>get_local\<close> the local endpoint is the one that was bound, and \<open>get_remote\<close> reads the endpoint
  as it is; \<open>accept\<close>, which does not convert from network order, records the peer's port
  and the four bytes of its address in reverse.
\<close>

theorem ipv4_endpoint_roundtrip:
  assumes "length storage = 128"
    and "bind (sock_descriptor s) (ipv4_message ep storage) = Done n"
    and "connect (sock_descriptor s) (ipv4_message ep storage) = Done c"
    and "listen (sock_descriptor s) = Done k"
    and "getname (sock_descriptor s) = (Done m, ipv4_message ep storage @ rest)"
    and "accept (sock_descriptor s) = (Done fd, ipv4_message peer storage @ rest)"
  shows "\<exists>s1 s2 s3 s4.
    socket_bind bind storage (Endpoint4 ep) s = (s1, Inr ()) \<and>
    socket_listen listen getname s1 = (s2, Inr ()) \<and> local_endpoint s2 = Endpoint4 ep \<and>
    socket_get_remote getname s2 = (s3, Inr ()) \<and> remote_endpoint s3 = Endpoint4 ep \<and>
    socket_accept accept s2 = (s4, Inr fd) \<and>
    remote_endpoint s4 = Endpoint4 (peer\<lparr>address4 := reversed_address (address4 peer)\<rparr>) \<and>
    socket_connect connect storage (Endpoint4 ep) s = Inr () \<and>
    take 4 (ipv4_message ep storage) = [2, 0, ucast (drop_bit 8 (port4 ep)), ucast (port4 ep)] \<and>
    take 4 (drop 4 (ipv4_message ep storage)) = ipv4_bytes (address4 ep) \<and>
    length (ipv4_message ep storage) = 16"
proof -
  let ?s1 = "s\<lparr>local_endpoint := Endpoint4 ep\<rparr>"
  have b: "socket_bind bind storage (Endpoint4 ep) s = (?s1, Inr ())"
    using assms(2) by (simp add: socket_bind_def Let_def ipv4_message_def wrap_void_def)
  have c: "socket_connect connect storage (Endpoint4 ep) s = Inr ()"
    using assms(3) by (simp add: socket_connect_def Let_def ipv4_message_def wrap_void_def)
  have l: "socket_listen listen getname ?s1 = (?s1, Inr ())"
    using assms(4,5) read_ipv4_message [OF assms(1), of ep rest]
    by (simp add: socket_listen_def socket_get_local_def wrap_void_def)
  have r: "socket_get_remote getname ?s1 = (?s1\<lparr>remote_endpoint := Endpoint4 ep\<rparr>, Inr ())"
    using assms(5) read_ipv4_message [OF assms(1), of ep rest]
    by (simp add: socket_get_remote_def wrap_void_def)
  have a: "socket_accept accept ?s1 =
      (?s1\<lparr>remote_endpoint := Endpoint4 (peer\<lparr>address4 := reversed_address (address4 peer)\<rparr>)\<rparr>, Inr fd)"
    using assms(6) read_ipv4_accept_message [OF assms(1), of peer rest]
    by (simp add: socket_accept_def wrap_value_def)
  have "take 4 x = read_bytes 0 2 x @ read_bytes 2 2 x" for x :: "u8 list"
    using take_add [of 2 2 x] by (simp add: read_bytes_def)
  then have "take 4 (ipv4_message ep storage) = [2, 0] @ bytes_of_u16 (htons (port4 ep))"
    using ipv4_message_fields(2,3) [OF assms(1), of ep "[]"] by simp
  moreover have "take 4 (drop 4 (ipv4_message ep storage)) = ipv4_bytes (address4 ep)"
    using ipv4_message_fields(4) [OF assms(1), of ep "[]"] by (simp add: read_bytes_def)
  ultimately show ?thesis
    using b c l r a ipv4_message_fields(1) [OF assms(1)] by (simp add: network_order_port)
qed

definition loopback_80 :: ipv4_endpoint where
  "loopback_80 = \<lparr>address4 = ipv4_loopback, port4 = 80\<rparr>"

lemma ipv4_endpoint_roundtrip_witness:
  "take 4 (ipv4_message loopback_80 (replicate 128 7)) = [2, 0, 0, 80]"
  using ipv4_endpoint_roundtrip [of "replicate 128 7" "\<lambda>_ _. Done 0" "socket_internal_init 0 3 0" loopback_80
      0 "\<lambda>_ _. Done 0" 0 "\<lambda>_. Done 0" 0 "\<lambda>_. (Done 0, ipv4_message loopback_80 (replicate 128 7))" 0 "[]"
      "\<lambda>_. (Done 4, ipv4_message loopback_80 (replicate 128 7))" 4 loopback_80]
  by (auto simp: loopback_80_def)

text \<open>
  Where the socket code loses addresses. The remote address that \<open>accept\<close> records for an IPv4
  peer has its bytes in reverse; what \<open>bind\<close> passes for an IPv6 endpoint is cut off at sixteen
  bytes, of which four are the start of the address and the four after them are whatever the
  buffer held; and a socket that has been moved has forgotten which endpoint it was bound to.
\<close>

theorem socket_address_defects:
  assumes "length storage = 128" and "length (address6 ep6) = 16"
    and "call (sock_descriptor s) = (Done fd, ipv4_message \<lparr>address4 = Ipv4 a b c d, port4 = p\<rparr> storage @ rest)"
    and "is_ipv4 (local_endpoint s)"
  shows "(\<exists>s'. socket_accept call s = (s', Inr fd) \<and>
      remote_endpoint s' = Endpoint4 \<lparr>address4 = Ipv4 d c b a, port4 = p\<rparr>) \<and>
    (\<exists>msg s'. socket_bind (\<lambda>_ m. if m = msg then Done 0 else Failed 22) storage (Endpoint6 ep6) s = (s', Inr ()) \<and>
      length msg = 16 \<and> take 8 (drop 8 msg) = take 4 (address6 ep6) @ take 4 (drop 12 storage)) \<and>
    local_endpoint (fst (socket_move s)) = endpoint_default"
proof -
  let ?m = "ipv4_message \<lparr>address4 = Ipv4 a b c d, port4 = p\<rparr> storage @ rest"
  have "read_ipv4_accept ?m = Endpoint4 \<lparr>address4 = Ipv4 d c b a, port4 = p\<rparr>"
    by (simp add: read_ipv4_accept_message [OF assms(1)])
  then have acc: "\<exists>s'. socket_accept call s = (s', Inr fd) \<and>
      remote_endpoint s' = Endpoint4 \<lparr>address4 = Ipv4 d c b a, port4 = p\<rparr>"
    using assms(3,4) by (simp add: socket_accept_def wrap_value_def)
  let ?f = "fill_ipv6 ep6 storage"
  note f = fill_ipv6_fields [OF assms(1,2)]
  have "take 8 (drop 8 x) = read_bytes 8 4 x @ read_bytes 12 4 x" for x :: "u8 list"
    using take_add [of 4 4 "drop 8 x"] by (simp add: read_bytes_def)
  then have "take 8 (drop 8 (take 16 ?f)) = take 4 (address6 ep6) @ take 4 (drop 12 storage)"
    using f read_bytes_take [of 16 ?f 8 4 "[]"] read_bytes_take [of 16 ?f 12 4 "[]"]
    by (simp add: read_bytes_def)
  moreover have "length (take 16 ?f) = 16" using f by simp
  moreover have "socket_bind (\<lambda>_ m. if m = take 16 ?f then Done 0 else Failed 22) storage (Endpoint6 ep6) s =
      (s\<lparr>local_endpoint := Endpoint6 ep6\<rparr>, Inr ())"
    by (simp add: socket_bind_def Let_def wrap_void_def sizeof_sockaddr_in_def)
  ultimately show ?thesis using acc by (auto simp: socket_move_def)
qed

lemma socket_address_defects_witness:
  "\<exists>s'. socket_accept (\<lambda>_. (Done 5, ipv4_message \<lparr>address4 = Ipv4 10 0 0 7, port4 = 80\<rparr> (replicate 128 0)))
     (socket_internal_init 0 3 0) = (s', Inr 5) \<and>
     remote_endpoint s' = Endpoint4 \<lparr>address4 = Ipv4 7 0 0 10, port4 = 80\<rparr>"
  using socket_address_defects [of "replicate 128 0" "\<lparr>address6 = ipv6_loopback, port6 = 80\<rparr>"
      "\<lambda>_. (Done 5, ipv4_message \<lparr>address4 = Ipv4 10 0 0 7, port4 = 80\<rparr> (replicate 128 0))"
      "socket_internal_init 0 3 0" 5 10 0 0 7 80 "[]"]
  by (simp add: socket_internal_init_def endpoint_default_def ipv6_loopback_def ipv6_of_words_def)

text \<open>
  C29: the sockets of one service release what they own exactly once. Take any sequence of
  constructions from fresh descriptors (0 stands for none) and registrations, moves, assignments (to
  itself too) and destructions. What an object still owns has not been released and no other object
  owns it; and when all objects are gone, every registration has been deregistered and every
  descriptor closed exactly once.
\<close>

theorem sockets_close_once:
  assumes "socket_program cs = Some (vars, rel)"
    and "distinct (concat (map (created_by socket_holds) cs))"
  shows "(vars x = Some ob \<and> r \<in> set (socket_holds ob) \<longrightarrow>
      r \<notin> set rel \<and> (\<forall>y ob'. vars y = Some ob' \<and> y \<noteq> x \<longrightarrow> r \<notin> set (socket_holds ob'))) \<and>
    ((\<forall>x. vars x = None) \<longrightarrow> distinct rel \<and> set rel = set (concat (map (created_by socket_holds) cs)))"
proof -
  note p = assms(1) [unfolded socket_program_def]
  have "mset rel = mset (concat (map (created_by socket_holds) cs))" if "\<forall>x. vars x = None"
    by (rule sockets.released_exactly [OF p that])
  then have "distinct rel \<and> set rel = set (concat (map (created_by socket_holds) cs))"
    if "\<forall>x. vars x = None"
    using that assms(2) by (metis mset_eq_imp_distinct_iff mset_eq_setD)
  then show ?thesis using sockets.held_not_released [OF p assms(2)] by blast
qed

definition socket_moves :: "socket_internal owner_command list" where
  "socket_moves =
     [Create 0 (socket_internal_init 0 3 0), Create 1 (socket_internal_init 0 4 1), Move_Construct 2 0,
      Move_Assign 1 2, Move_Assign 1 1, Destruct 0, Destruct 2, Destruct 1]"

lemma sockets_close_once_witness:
  "\<exists>vars rel. socket_program socket_moves = Some (vars, rel) \<and> distinct rel \<and>
     set rel = {Registration 0, Registration 1, Descriptor 3, Descriptor 4}"
proof -
  obtain vars rel where p: "socket_program socket_moves = Some (vars, rel)" and v: "\<forall>x. vars x = None"
    by (simp add: socket_program_def socket_moves_def socket_move_def socket_assign_def
        socket_self_assign_def socket_swap_def Let_def)
  have c: "concat (map (created_by socket_holds) socket_moves) =
      [Registration 0, Descriptor 3, Registration 1, Descriptor 4]"
    by (simp add: socket_moves_def socket_holds_def socket_internal_init_def)
  have "distinct rel \<and> set rel = set (concat (map (created_by socket_holds) socket_moves))"
    using sockets_close_once [OF p] v c by simp
  then show ?thesis using p c by auto
qed

end
