(* ===== verification/Process.thy ===== *)
theory Process
  imports Io_Operations
begin

text \<open>
  The class \<open>subprocess\<close> of \<open>process/process.hpp\<close>: \<open>launch\<close> with its two pipes, the fork and the
  descriptors of parent and child, the destructor, and waiting for the process. Descriptor
  tables map a number to what is open under it; what the system calls return is a parameter.
\<close>

section \<open>Descriptor tables\<close>

datatype open_file = Read_End nat | Write_End nat | Other_File nat

type_synonym fd_table = "nat \<Rightarrow> open_file option"

definition close_fd :: "nat \<Rightarrow> fd_table \<Rightarrow> fd_table" where
  "close_fd fd table = table(fd := None)"

text \<open>\<open>pipe\<close> number \<open>k\<close>: an error number, or the read end and the write end.\<close>

definition open_pipe :: "nat \<Rightarrow> nat \<times> nat \<Rightarrow> fd_table \<Rightarrow> fd_table" where
  "open_pipe k fds table = table(fst fds \<mapsto> Read_End k, snd fds \<mapsto> Write_End k)"

definition EINTR :: nat where "EINTR = 4"

text \<open>
  \<open>while (dup2(from, to) == -1 && errno == EINTR)\<close>: the list holds what the successive calls
  return; \<open>None\<close> means that the list ended while the loop was still retrying.
\<close>

fun dup2_loop :: "nat \<Rightarrow> nat \<Rightarrow> sys list \<Rightarrow> fd_table \<Rightarrow> fd_table option" where
  "dup2_loop src dst [] table = None"
| "dup2_loop src dst (Done n # rs) table = Some (table(dst := table src))"
| "dup2_loop src dst (Failed e # rs) table =
     (if e = EINTR then dup2_loop src dst rs table else Some table)"

section \<open>\<open>subprocess\<close>\<close>

text \<open>Descriptor 0 stands for no pipe.\<close>

record subprocess =
  read_pipe :: nat
  write_pipe :: nat
  terminated :: bool

definition subprocess_init :: subprocess where
  "subprocess_init = \<lparr>read_pipe = 0, write_pipe = 0, terminated = False\<rparr>"

text \<open>
  What the child has open when it calls \<open>execv\<close>; \<open>None\<close> if a \<open>dup2\<close> loop has not ended. Its
  table starts as a copy of the parent's.
\<close>

definition child_table ::
  "nat \<times> nat \<Rightarrow> nat \<times> nat \<Rightarrow> sys list \<Rightarrow> sys list \<Rightarrow> sys list \<Rightarrow> fd_table \<Rightarrow> fd_table option" where
  "child_table stdin_fds stdout_fds d0 d1 d2 table =
     Option.bind (dup2_loop (snd stdin_fds) 0 d0 table) (\<lambda>table.
     Option.bind (dup2_loop (snd stdout_fds) 1 d1 table) (\<lambda>table.
     Option.bind (dup2_loop (snd stdout_fds) 2 d2 table) (\<lambda>table.
     Some (close_fd (snd stdout_fds) (close_fd (fst stdout_fds)
            (close_fd (snd stdin_fds) (close_fd (fst stdin_fds) table)))))))"

text \<open>
  \<open>launch\<close> in the parent: the results of the two \<open>pipe\<close> calls and of \<open>fork\<close> are parameters, and so is
  \<open>room\<close>, whether the vector of the arguments gets its memory. The components of the result are
  the object, the parent's table, the table at the fork (if it came to that) and the way the call
  ends: with an error, with \<open>std::bad_alloc\<close>, or with a child of some process id.
\<close>

datatype launch_end = Returned_Error nat | Bad_Alloc | Launched_Child nat

definition launch ::
  "nat + nat \<times> nat \<Rightarrow> nat + nat \<times> nat \<Rightarrow> bool \<Rightarrow> nat + nat \<Rightarrow> subprocess \<Rightarrow> fd_table
     \<Rightarrow> subprocess \<times> fd_table \<times> fd_table option \<times> launch_end" where
  "launch pipe1 pipe2 room fork p table =
     (case pipe1 of
        Inl e \<Rightarrow> (p, table, None, Returned_Error e)
      | Inr stdin_fds \<Rightarrow>
          let table = open_pipe 0 stdin_fds table
          in case pipe2 of
               Inl e \<Rightarrow>
                 (p, close_fd (snd stdin_fds) (close_fd (fst stdin_fds) table), None, Returned_Error e)
             | Inr stdout_fds \<Rightarrow>
                 let table = open_pipe 1 stdout_fds table
                 in if \<not> room then (p, table, None, Bad_Alloc)
                    else case fork of
                      Inl e \<Rightarrow>
                        (p, close_fd (snd stdout_fds) (close_fd (fst stdout_fds)
                              (close_fd (snd stdin_fds) (close_fd (fst stdin_fds) table))), None,
                         Returned_Error e)
                    | Inr child_id \<Rightarrow>
                        (p\<lparr>read_pipe := fst stdout_fds, write_pipe := fst stdin_fds\<rparr>,
                         close_fd (snd stdout_fds) (close_fd (snd stdin_fds) table),
                         Some table, Launched_Child child_id))"

definition subprocess_destroy :: "subprocess \<Rightarrow> fd_table \<Rightarrow> fd_table" where
  "subprocess_destroy p table =
     (let table = (if read_pipe p \<noteq> 0 then close_fd (read_pipe p) table else table)
      in if write_pipe p \<noteq> 0 then close_fd (write_pipe p) table else table)"

text \<open>\<open>process_terminate_operation\<close>: \<open>d\<close> is the number of the object's \<open>ps_data_\<close>.\<close>

definition terminate_begin :: "subprocess \<Rightarrow> nat \<Rightarrow> nat \<Rightarrow> process_state \<Rightarrow> process_state \<times> bool" where
  "terminate_begin p d op s = (if \<not> terminated p then (start_notification d op s, False) else (s, True))"

definition terminate_return :: "nat \<Rightarrow> process_state \<Rightarrow> int" where
  "terminate_return d s = rc (processes s d)"

section \<open>Properties\<close>

text \<open>The numbers \<open>pipe\<close> returns are unused, distinct and none of the three standard ones.\<close>

fun fresh_fds :: "nat + nat \<times> nat \<Rightarrow> nat + nat \<times> nat \<Rightarrow> fd_table \<Rightarrow> bool" where
  "fresh_fds (Inr (a, b)) (Inr (c, d)) table \<longleftrightarrow>
     distinct [a, b, c, d] \<and> (\<forall>fd \<in> {a, b, c, d}. 2 < fd \<and> table fd = None)"
| "fresh_fds (Inr (a, b)) (Inl e) table \<longleftrightarrow> a \<noteq> b \<and> (\<forall>fd \<in> {a, b}. 2 < fd \<and> table fd = None)"
| "fresh_fds (Inl e) _ table \<longleftrightarrow> True"

lemmas launch_simps = launch_def open_pipe_def close_fd_def Let_def

lemma launch_success:
  assumes "launch (Inr (a, b)) (Inr (c, d)) True (Inr child_id) p table = (p', table', at_fork, r)"
    and "distinct [a, b, c, d]"
  shows "p' = p\<lparr>read_pipe := c, write_pipe := a\<rparr>"
    and "table' = table(a \<mapsto> Read_End 0, b := None, c \<mapsto> Read_End 1, d := None)"
    and "at_fork = Some (table(a \<mapsto> Read_End 0, b \<mapsto> Write_End 0, c \<mapsto> Read_End 1, d \<mapsto> Write_End 1))"
    and "r = Launched_Child child_id"
proof -
  have eq: "table' = table(a \<mapsto> Read_End 0, b \<mapsto> Write_End 0, c \<mapsto> Read_End 1, d \<mapsto> Write_End 1,
      b := None, d := None)"
    using assms(1) by (simp add: launch_simps)
  show "table' = table(a \<mapsto> Read_End 0, b := None, c \<mapsto> Read_End 1, d := None)"
    unfolding eq by (rule ext) (use assms(2) in auto)
qed (use assms(1) in \<open>simp_all add: launch_simps\<close>)

text \<open>Closing what was opened under unused numbers gives the table back.\<close>

lemma close_opened:
  "distinct [a, b] \<Longrightarrow> \<forall>fd \<in> {a, b}. table fd = None \<Longrightarrow> table(a \<mapsto> x, b \<mapsto> y, a := None, b := None) = table"
  "distinct [a, b, c, d] \<Longrightarrow> \<forall>fd \<in> {a, b, c, d}. table fd = None \<Longrightarrow>
     table(a \<mapsto> x, b \<mapsto> y, c \<mapsto> z, d \<mapsto> u, a := None, b := None, c := None, d := None) = table"
  by (rule ext; auto)+

lemma launch_fails:
  "launch (Inl e) pipe2 room fork p table = (p, table, None, Returned_Error e)"
  "a \<noteq> b \<Longrightarrow> table a = None \<Longrightarrow> table b = None \<Longrightarrow>
     launch (Inr (a, b)) (Inl e) room fork p table = (p, table, None, Returned_Error e)"
  "distinct [a, b, c, d] \<Longrightarrow> \<forall>fd \<in> {a, b, c, d}. table fd = None \<Longrightarrow>
     launch (Inr (a, b)) (Inr (c, d)) True (Inl e) p table = (p, table, None, Returned_Error e)"
  "launch (Inr (a, b)) (Inr (c, d)) False fork p table =
     (p, table(a \<mapsto> Read_End 0, b \<mapsto> Write_End 0, c \<mapsto> Read_End 1, d \<mapsto> Write_End 1), None, Bad_Alloc)"
proof -
  show "launch (Inl e) pipe2 room fork p table = (p, table, None, Returned_Error e)"
    by (simp add: launch_def)
  show "launch (Inr (a, b)) (Inr (c, d)) False fork p table =
      (p, table(a \<mapsto> Read_End 0, b \<mapsto> Write_End 0, c \<mapsto> Read_End 1, d \<mapsto> Write_End 1), None, Bad_Alloc)"
    by (simp add: launch_simps)
  show "a \<noteq> b \<Longrightarrow> table a = None \<Longrightarrow> table b = None \<Longrightarrow>
      launch (Inr (a, b)) (Inl e) room fork p table = (p, table, None, Returned_Error e)"
    using close_opened(1) [of a b table] by (simp add: launch_simps)
  assume n: "distinct [a, b, c, d]" "\<forall>fd \<in> {a, b, c, d}. table fd = None"
  show "launch (Inr (a, b)) (Inr (c, d)) True (Inl e) p table = (p, table, None, Returned_Error e)"
    unfolding launch_simps sum.case fst_conv snd_conv if_False not_True_eq_False close_opened(2) [OF n]
    by (rule refl)
qed

text \<open>
  C31: the descriptors that \<open>launch\<close> leaves, whatever the object held before. If it returns an error,
  from whichever of the three system calls, then that call failed, and the parent's descriptors
  and the object are as before. If the arguments get no memory, the exception leaves the four ends of
  the two pipes open and no object knows them. If it succeeds, the parent has exactly two
  descriptors more, the ones the object now remembers, and the destructor closes these two and no
  other: what the object held from an earlier \<open>launch\<close> stays open for ever, and an object
  launched once leaks nothing.
\<close>

theorem launch_descriptors_accounted:
  assumes "launch pipe1 pipe2 room fork p table = (p', table', at_fork, r)"
    and "fresh_fds pipe1 pipe2 table"
  shows "case r of
      Returned_Error e \<Rightarrow> table' = table \<and> p' = p \<and> at_fork = None \<and>
        (pipe1 = Inl e \<or> pipe2 = Inl e \<or> fork = Inl e)
    | Bad_Alloc \<Rightarrow> \<not> room \<and> p' = p \<and> at_fork = None \<and>
        (\<exists>a b c d. pipe1 = Inr (a, b) \<and> pipe2 = Inr (c, d) \<and> {fd. table' fd \<noteq> table fd} = {a, b, c, d})
    | Launched_Child child_id \<Rightarrow> fork = Inr child_id \<and>
        {fd. table' fd \<noteq> table fd} = {read_pipe p', write_pipe p'} \<and> read_pipe p' \<noteq> write_pipe p' \<and>
        subprocess_destroy p' table' = table \<and>
        (\<forall>fd \<in> {read_pipe p, write_pipe p}. table fd \<noteq> None \<longrightarrow> subprocess_destroy p' table' fd \<noteq> None)"
proof (cases pipe1)
  case (Inl e)
  then show ?thesis using assms(1) by (auto simp: launch_fails(1))
next
  case (Inr ab)
  obtain a b where ab: "ab = (a, b)" by (cases ab)
  show ?thesis
  proof (cases pipe2)
    case (Inl e)
    then show ?thesis using assms Inr ab by (auto simp: launch_fails(2))
  next
    case cd: (Inr cd)
    obtain c d where "cd = (c, d)" by (cases cd)
    with cd have p2: "pipe2 = Inr (c, d)" by simp
    have fr: "distinct [a, b, c, d]" "\<forall>fd \<in> {a, b, c, d}. 2 < fd \<and> table fd = None"
      using assms(2) Inr ab p2 by simp_all
    consider "\<not> room" | e where room "fork = Inl e" | child_id where room "fork = Inr child_id"
      by (cases fork) auto
    then show ?thesis
    proof cases
      case 1
      then have eq: "table' = table(a \<mapsto> Read_End 0, b \<mapsto> Write_End 0, c \<mapsto> Read_End 1, d \<mapsto> Write_End 1)"
        "r = Bad_Alloc" "p' = p" "at_fork = None"
        using assms(1) Inr ab p2 by (auto simp: launch_fails(4))
      from this(1) have "{fd. table' fd \<noteq> table fd} = {a, b, c, d}" using fr by auto
      then show ?thesis using 1 eq(2-4) Inr ab p2 by simp
    next
      case 2
      then have "launch pipe1 pipe2 room fork p table = (p, table, None, Returned_Error e)"
        using launch_fails(3) [OF fr(1)] fr(2) Inr ab p2 by simp
      then show ?thesis using assms(1) 2 by auto
    next
      case 3
      then have l: "launch (Inr (a, b)) (Inr (c, d)) True (Inr child_id) p table = (p', table', at_fork, r)"
        using assms(1) Inr ab p2 by simp
      note eq = launch_success [OF l fr(1)]
      have "{fd. table' fd \<noteq> table fd} = {c, a}" using fr by (auto simp: eq)
      moreover have "subprocess_destroy p' table' = table"
        unfolding eq by (rule ext) (use fr in \<open>auto simp: subprocess_destroy_def close_fd_def Let_def\<close>)
      ultimately show ?thesis using eq 3 fr by simp
    qed
  qed
qed

definition shell_table :: fd_table where
  "shell_table = [0 \<mapsto> Other_File 0, 1 \<mapsto> Other_File 1, 2 \<mapsto> Other_File 2]"

lemma launch_descriptors_accounted_witness:
  "\<exists>p t f. launch (Inr (3, 4)) (Inr (5, 6)) True (Inr 77) subprocess_init shell_table =
      (p, t, f, Launched_Child 77) \<and> subprocess_destroy p t = shell_table"
proof -
  obtain p t f where l: "launch (Inr (3, 4)) (Inr (5, 6)) True (Inr 77) subprocess_init shell_table =
      (p, t, f, Launched_Child 77)"
    by (simp add: launch_def Let_def)
  moreover have "subprocess_destroy p t = shell_table"
    using launch_descriptors_accounted [OF l] by (simp add: shell_table_def)
  ultimately show ?thesis by blast
qed

text \<open>The pipes of a first launch stay open when the object is launched again and destroyed.\<close>

lemma second_launch_leaks:
  "case launch (Inr (3, 4)) (Inr (5, 6)) True (Inr 77) subprocess_init shell_table of (p, t, _) \<Rightarrow>
     (case launch (Inr (4, 6)) (Inr (7, 8)) True (Inr 78) p t of (p, t, _) \<Rightarrow>
        subprocess_destroy p t 3 = Some (Read_End 0) \<and> subprocess_destroy p t 5 = Some (Read_End 1))"
  by (simp add: launch_simps subprocess_destroy_def subprocess_init_def)

definition child_view :: "nat \<Rightarrow> nat \<Rightarrow> nat \<Rightarrow> nat \<Rightarrow> fd_table \<Rightarrow> fd_table" where
  "child_view a b c d table =
     (\<lambda>fd. if fd = 0 then Some (Write_End 0) else if fd = 1 \<or> fd = 2 then Some (Write_End 1)
           else if fd \<in> {a, b, c, d} then None else table fd)"

lemma dup2_value:
  "table src = Some x \<Longrightarrow> dup2_loop src dst [Done n] table = Some (table(dst \<mapsto> x))"
  "table src = Some x \<Longrightarrow> dup2_loop src dst [Failed EINTR, Done n] table = Some (table(dst \<mapsto> x))"
  by simp_all

lemma child_table_view:
  assumes "distinct [a, b, c, d]" and "\<forall>fd \<in> {a, b, c, d}. 2 < fd"
  shows "child_table (a, b) (c, d) [Failed EINTR, Done 0] [Done 1] [Done 2]
      (table(a \<mapsto> Read_End 0, b \<mapsto> Write_End 0, c \<mapsto> Read_End 1, d \<mapsto> Write_End 1)) =
    Some (child_view a b c d table)"
proof -
  let ?t = "table(a \<mapsto> Read_End 0, b \<mapsto> Write_End 0, c \<mapsto> Read_End 1, d \<mapsto> Write_End 1)"
  let ?u = "?t(0 \<mapsto> Write_End 0)" and ?w = "?t(0 \<mapsto> Write_End 0, 1 \<mapsto> Write_End 1)"
  have n: "b \<noteq> 0" "d \<noteq> 0" "d \<noteq> 1" using assms(2) by auto
  have v: "?t b = Some (Write_End 0)" "?u d = Some (Write_End 1)" "?w d = Some (Write_End 1)"
    using assms(1) n by simp_all
  have "child_table (a, b) (c, d) [Failed EINTR, Done 0] [Done 1] [Done 2] ?t =
      Some (?w(2 \<mapsto> Write_End 1, a := None, b := None, c := None, d := None))"
    by (simp only: child_table_def fst_conv snd_conv dup2_value(2) [of ?t b, OF v(1)]
        dup2_value(1) [of ?u d, OF v(2)]
        dup2_value(1) [of ?w d, OF v(3)] Option.bind.simps close_fd_def)
  moreover have "(?w(2 \<mapsto> Write_End 1, a := None, b := None, c := None, d := None)) fd =
      child_view a b c d table fd" for fd
  proof (cases "fd \<in> {a, b, c, d}")
    case True
    then have "2 < fd" using assms(2) by blast
    then show ?thesis using True by (auto simp: child_view_def)
  next
    case False
    then show ?thesis by (simp add: child_view_def)
  qed
  ultimately show ?thesis by (simp add: fun_eq_iff)
qed

text \<open>
  The child gets the wrong end of its input pipe. Whenever \<open>launch\<close> succeeds and the child's
  \<open>dup2\<close> calls do, the child's standard input is the \<open>write\<close> end of the first pipe, its output and
  error are the write end of the second, and it has no other end of either; the parent reads
  the second pipe as it should, but what it writes to is the \<open>read\<close> end of the first, so nobody
  can read what anybody writes there.
\<close>

theorem launch_swaps_stdin:
  assumes "launch pipe1 pipe2 room fork p table = (p', table', Some at_fork, Launched_Child child_id)"
    and "fresh_fds pipe1 pipe2 table"
    and "\<forall>fd k. table fd \<noteq> Some (Read_End k) \<and> table fd \<noteq> Some (Write_End k)"
    and "pipe1 = Inr stdin_fds" and "pipe2 = Inr stdout_fds"
  shows "\<exists>child. child_table stdin_fds stdout_fds [Failed EINTR, Done 0] [Done 1] [Done 2] at_fork = Some child \<and>
    child 0 = Some (Write_End 0) \<and> child 1 = Some (Write_End 1) \<and> child 2 = Some (Write_End 1) \<and>
    (\<forall>fd k. child fd = Some (Read_End k) \<longrightarrow> False) \<and>
    (\<forall>fd k. child fd = Some (Write_End k) \<longrightarrow> fd \<le> 2) \<and>
    table' (read_pipe p') = Some (Read_End 1) \<and> table' (write_pipe p') = Some (Read_End 0) \<and>
    (\<forall>fd. table' fd \<noteq> Some (Write_End 0))"
proof -
  obtain a b c d where p: "stdin_fds = (a, b)" "stdout_fds = (c, d)"
    by (cases stdin_fds; cases stdout_fds) auto
  have fr: "distinct [a, b, c, d]" "\<forall>fd \<in> {a, b, c, d}. 2 < fd \<and> table fd = None"
    using assms(2,4,5) p by simp_all
  have room by (rule ccontr) (use assms(1,4,5) in \<open>simp add: launch_simps\<close>)
  moreover obtain k where "fork = Inr k"
    using assms(1,4,5) calculation by (cases fork) (auto simp: launch_simps)
  ultimately have l: "launch (Inr (a, b)) (Inr (c, d)) True (Inr k) p table =
      (p', table', Some at_fork, Launched_Child child_id)"
    using assms(1,4,5) p by simp
  note eq = launch_success(1,2) [OF l fr(1)] launch_success(3) [OF l fr(1), simplified]
  have "child_table stdin_fds stdout_fds [Failed EINTR, Done 0] [Done 1] [Done 2] at_fork =
      Some (child_view a b c d table)"
    using child_table_view [OF fr(1)] fr(2) by (simp add: eq p)
  moreover have "\<forall>fd k. child_view a b c d table fd = Some (Read_End k) \<longrightarrow> False"
    and "\<forall>fd k. child_view a b c d table fd = Some (Write_End k) \<longrightarrow> fd \<le> 2"
    using assms(3) by (simp_all add: child_view_def)
  moreover have "\<forall>fd. table' fd \<noteq> Some (Write_End 0)" using assms(3) by (simp add: eq)
  moreover have "table' (read_pipe p') = Some (Read_End 1)" "table' (write_pipe p') = Some (Read_End 0)"
    using fr(1) by (simp_all add: eq)
  ultimately show ?thesis
    by (intro exI [of _ "child_view a b c d table"]) (simp add: child_view_def)
qed

lemma launch_swaps_stdin_witness:
  "\<exists>p t f. launch (Inr (3, 4)) (Inr (5, 6)) True (Inr 77) subprocess_init shell_table = (p, t, Some f, Launched_Child 77) \<and>
     t (write_pipe p) = Some (Read_End 0)"
proof -
  obtain p t f where l: "launch (Inr (3, 4)) (Inr (5, 6)) True (Inr 77) subprocess_init shell_table = (p, t, Some f, Launched_Child 77)"
    by (simp add: launch_def Let_def)
  have "\<forall>fd k. shell_table fd \<noteq> Some (Read_End k) \<and> shell_table fd \<noteq> Some (Write_End k)"
    and "fresh_fds (Inr (3, 4)) (Inr (5, 6)) shell_table"
    by (auto simp: shell_table_def)
  then have "t (write_pipe p) = Some (Read_End 0)"
    using launch_swaps_stdin [OF l _ _ refl refl] by auto
  with l show ?thesis by blast
qed

text \<open>
  A process that ends before anybody waits for it is never reported. If it changes state
  while its data is not among the watchers, the change calls no operation and stores no result;
  waiting afterwards asks for a notification, as \<open>terminated_\<close> is never set, and goes on only if
  the loop reports another change of the same process.
\<close>

theorem early_exit_is_missed:
  assumes "\<forall>i \<in> set (process_watchers s). pid (processes s i) \<noteq> pid (processes s d)"
    and "\<not> terminated p"
    and "ev_process_change (pid (processes s d)) status s = (s1, r)"
    and "terminate_begin p d op s1 = (s2, ready)"
    and "\<forall>(other, st) \<in> set changes. other \<noteq> pid (processes s d)"
  shows "r = None \<and> \<not> ready \<and>
    (\<forall>s3. s3 = fold (\<lambda>(other, st) s. fst (ev_process_change other st s)) changes s2 \<longrightarrow>
       terminate_return d s3 = terminate_return d s)"
proof -
  have none: "find (\<lambda>i. pid (processes s i) = pid (processes s d)) (process_watchers s) = None"
    using assms(1) by (simp add: find_None_iff)
  then have s1: "s1 = s" "r = None"
    using assms(3) by (simp_all add: ev_process_change_def process_change_finds)
  have s2: "s2 = start_notification d op s" "\<not> ready"
    using assms(2,4) s1 by (simp_all add: terminate_begin_def)
  have step: "rc (processes (fst (ev_process_change other st x)) d) = rc (processes x d) \<and>
      pid (processes (fst (ev_process_change other st x)) d) = pid (processes x d)"
    if "other \<noteq> pid (processes x d)" for other st x
    using that by (auto simp: ev_process_change_def process_change_finds find_Some_iff split: option.split)
  have "rc (processes (fold (\<lambda>(other, st) s. fst (ev_process_change other st s)) cs x) d) = rc (processes x d)"
    if "\<forall>(other, st) \<in> set cs. other \<noteq> pid (processes x d)" for cs x
    using that
  proof (induction cs arbitrary: x)
    case (Cons c cs)
    then show ?case using step by (cases c) auto
  qed simp
  moreover have "pid (processes s2 d) = pid (processes s d)" "rc (processes s2 d) = rc (processes s d)"
    by (simp_all add: s2 start_notification_def)
  ultimately show ?thesis
    using assms(5) s1(2) s2(2) by (auto simp: terminate_return_def)
qed

lemma early_exit_is_missed_witness:
  "\<exists>s. snd (ev_process_change 77 256 s) = None \<and> pid (processes s 0) = 77"
proof -
  let ?s = "\<lparr>processes = (\<lambda>_. \<lparr>pid = 77, rc = 0, notification = None\<rparr>), process_watchers = []\<rparr>"
  have "snd (ev_process_change 77 256 ?s) = None"
    using early_exit_is_missed [of ?s 0 subprocess_init 256 "fst (ev_process_change 77 256 ?s)"
        "snd (ev_process_change 77 256 ?s)" 5 _ _ "[]", OF _ _ _ prod.collapse [symmetric]]
    by (simp add: subprocess_init_def)
  then show ?thesis by (intro exI [of _ ?s]) simp
qed

end
