(* ===== verification/Await_Traits.thy ===== *)
theory Await_Traits
  imports Ptl_Prelude
begin

text \<open>
  The overload resolution behind \<open>co_await\<close>: \<open>detail/is_awaiter.hpp\<close>, \<open>awaitable_traits.hpp\<close> and
  the constraint of \<open>wait_all.hpp\<close>. The C++ types are a type parameter; what a program declares
  for them is a record: the type a member call has on an expression of the type, \<open>None\<close> where
  there is no such member. The traits are functions to a type or to \<open>None\<close>, a substitution failure.
  Beside them stands the rule of the language for \<open>co_await\<close>, as the specification, and the lemmas
  say where the two agree and where they do not.
\<close>

section \<open>Declarations\<close>

text \<open>
  \<open>await_suspend_type D P T\<close> is the type of \<open>await_suspend\<close> called with a \<open>coroutine_handle<P>\<close>;
  \<open>erased_promise\<close> is the argument of \<open>coroutine_handle<>\<close>. \<open>preferred_co_await\<close> is the operator that
  overload resolution picks where both exist, \<open>None\<close> if it is ambiguous.
\<close>

record 't decls =
  await_ready_type :: "'t \<Rightarrow> 't option"
  await_suspend_type :: "'t \<Rightarrow> 't \<Rightarrow> 't option"
  erased_promise :: 't
  await_resume_type :: "'t \<Rightarrow> 't option"
  member_co_await :: "'t \<Rightarrow> 't option"
  free_co_await :: "'t \<Rightarrow> 't option"
  preferred_co_await :: "'t \<Rightarrow> 't option"
  bool_constructible :: "'t \<Rightarrow> bool"
  is_void :: "'t \<Rightarrow> bool"
  is_bool :: "'t \<Rightarrow> bool"
  handle_promise :: "'t \<Rightarrow> 't option"   \<comment> \<open>\<open>P\<close> for \<open>coroutine_handle<P>\<close>\<close>

section \<open>The traits\<close>

definition is_coroutine_handle :: "'t decls \<Rightarrow> 't \<Rightarrow> bool" where
  "is_coroutine_handle D T \<longleftrightarrow> handle_promise D T \<noteq> None"

definition is_valid_await_suspend_return_type :: "'t decls \<Rightarrow> 't \<Rightarrow> bool" where
  "is_valid_await_suspend_return_type D T \<longleftrightarrow>
     is_void D T \<or> is_bool D T \<or> is_coroutine_handle D T"

text \<open>The partial specialisation needs all three members; it is a \<open>disjunction\<close> of two checks.\<close>

definition is_awaiter :: "'t decls \<Rightarrow> 't \<Rightarrow> bool" where
  "is_awaiter D T =
     (case (await_ready_type D T, await_suspend_type D (erased_promise D) T, await_resume_type D T) of
        (Some ready, Some suspend, Some resume) \<Rightarrow>
          bool_constructible D ready \<or> is_valid_await_suspend_return_type D suspend
      | _ \<Rightarrow> False)"

text \<open>
  The three overloads of \<open>get_awaiter_impl\<close>. The argument \<open>123\<close> is an \<open>int\<close>: the second overload needs
  a conversion to \<open>long\<close>, the third a user-defined one to \<open>std::any\<close>.
\<close>

definition get_awaiter_impl_int :: "'t decls \<Rightarrow> 't \<Rightarrow> 't option" where
  "get_awaiter_impl_int D T = member_co_await D T"

definition get_awaiter_impl_long :: "'t decls \<Rightarrow> 't \<Rightarrow> 't option" where
  "get_awaiter_impl_long D T = free_co_await D T"

definition get_awaiter_impl_any :: "'t decls \<Rightarrow> 't \<Rightarrow> 't option" where
  "get_awaiter_impl_any D T = (if is_awaiter D T then Some T else None)"

definition get_awaiter :: "'t decls \<Rightarrow> 't \<Rightarrow> 't option" where
  "get_awaiter D T =
     (case get_awaiter_impl_int D T of
        Some A \<Rightarrow> Some A
      | None \<Rightarrow> (case get_awaiter_impl_long D T of Some A \<Rightarrow> Some A | None \<Rightarrow> get_awaiter_impl_any D T))"

definition is_awaitable :: "'t decls \<Rightarrow> 't \<Rightarrow> bool" where
  "is_awaitable D T \<longleftrightarrow> get_awaiter D T \<noteq> None"

text \<open>
  \<open>awaitable_traits<T>\<close>: the primary template is empty; the specialisation is selected when
  \<open>get_awaiter\<close> exists, and its second member is an error, not a substitution failure, when the
  awaiter has no \<open>await_resume\<close>.
\<close>

datatype 't traits = No_Members | Hard_Error | Traits (awaiter_t: 't) (await_result_t: 't)

definition awaitable_traits :: "'t decls \<Rightarrow> 't \<Rightarrow> 't traits" where
  "awaitable_traits D T =
     (case get_awaiter D T of
        None \<Rightarrow> No_Members
      | Some A \<Rightarrow> (case await_resume_type D A of None \<Rightarrow> Hard_Error | Some R \<Rightarrow> Traits A R))"

text \<open>
  \<open>wait_all\<close>: a call that satisfies the constraint makes one task per awaitable, with the result
  type the traits name; void results take the second overload of \<open>make_wait_all_task\<close>.
\<close>

datatype 't wait_task_type = Yields 't | Yields_Nothing

definition make_wait_all_task :: "'t decls \<Rightarrow> 't \<Rightarrow> 't wait_task_type option" where
  "make_wait_all_task D T =
     (case awaitable_traits D T of
        Traits A R \<Rightarrow> Some (if is_void D R then Yields_Nothing else Yields R)
      | _ \<Rightarrow> None)"

definition wait_all_accepts :: "'t decls \<Rightarrow> 't list \<Rightarrow> bool" where
  "wait_all_accepts D Ts \<longleftrightarrow> (\<forall>T \<in> set Ts. is_awaitable D T)"

definition wait_all_types :: "'t decls \<Rightarrow> 't list \<Rightarrow> 't wait_task_type option list option" where
  "wait_all_types D Ts =
     (if wait_all_accepts D Ts then Some (map (make_wait_all_task D) Ts) else None)"

section \<open>The rule of the language\<close>

text \<open>
  In a coroutine of promise type \<open>P\<close>, an operand with one viable \<open>operator co_await\<close>, member or not,
  is replaced by its result, and one with both by what overload resolution picks; without one the
  operand is the awaiter. The awaiter needs \<open>await_ready\<close> of a type contextually convertible to
  \<open>bool\<close>, \<open>await_suspend\<close> on the \<open>coroutine_handle<P>\<close> of type \<open>void\<close>, \<open>bool\<close> or a coroutine handle,
  and \<open>await_resume\<close>, whose type is the type of the expression.
\<close>

definition co_await_awaiter :: "'t decls \<Rightarrow> 't \<Rightarrow> 't option" where
  "co_await_awaiter D T =
     (case (member_co_await D T, free_co_await D T) of
        (Some A, None) \<Rightarrow> Some A
      | (None, Some A) \<Rightarrow> Some A
      | (None, None) \<Rightarrow> Some T
      | (Some _, Some _) \<Rightarrow> preferred_co_await D T)"

definition awaiter_ok :: "'t decls \<Rightarrow> 't \<Rightarrow> 't \<Rightarrow> bool" where
  "awaiter_ok D P A =
     (case (await_ready_type D A, await_suspend_type D P A, await_resume_type D A) of
        (Some ready, Some suspend, Some resume) \<Rightarrow>
          bool_constructible D ready \<and> is_valid_await_suspend_return_type D suspend
      | _ \<Rightarrow> False)"

definition co_await_type :: "'t decls \<Rightarrow> 't \<Rightarrow> 't \<Rightarrow> ('t \<times> 't) option" where
  "co_await_type D P T =
     (case co_await_awaiter D T of
        None \<Rightarrow> None
      | Some A \<Rightarrow>
          if awaiter_ok D P A then map_option (\<lambda>R. (A, R)) (await_resume_type D A) else None)"

section \<open>The traits against the rule\<close>

lemmas trait_defs = get_awaiter_def get_awaiter_impl_int_def get_awaiter_impl_long_def
  get_awaiter_impl_any_def

text \<open>
  The traits do not know the promise: an operand that is its own awaiter is found when its
  \<open>await_suspend\<close> takes the handle of no particular coroutine. And they always take the member.
\<close>

definition traits_follow :: "'t decls \<Rightarrow> 't \<Rightarrow> bool" where
  "traits_follow D T \<longleftrightarrow>
     (member_co_await D T \<noteq> None \<and> free_co_await D T \<noteq> None \<longrightarrow>
        preferred_co_await D T = member_co_await D T) \<and>
     (member_co_await D T = None \<and> free_co_await D T = None \<longrightarrow>
        await_suspend_type D (erased_promise D) T \<noteq> None)"

lemma co_await_get_awaiter:
  "co_await_awaiter D T = Some A \<Longrightarrow> awaiter_ok D P A \<Longrightarrow> traits_follow D T \<Longrightarrow> get_awaiter D T = Some A"
  by (auto simp: co_await_awaiter_def trait_defs traits_follow_def awaiter_ok_def is_awaiter_def
      split: option.splits)

lemma co_await_typeD:
  assumes "co_await_type D P T = Some (A, R)"
  shows "co_await_awaiter D T = Some A" "awaiter_ok D P A" "await_resume_type D A = Some R"
  using assms by (auto simp: co_await_type_def split: option.splits if_splits)

text \<open>Where they follow, the traits name the types of the expression, and \<open>wait_all\<close> uses them.\<close>

lemma traits_name_types:
  assumes "co_await_type D P T = Some (A, R)" and "traits_follow D T"
  shows "is_awaitable D T" and "awaitable_traits D T = Traits A R"
    and "make_wait_all_task D T = Some (if is_void D R then Yields_Nothing else Yields R)"
  using co_await_get_awaiter [OF co_await_typeD(1,2) [OF assms(1)] assms(2)] co_await_typeD(3) [OF assms(1)]
  by (simp_all add: is_awaitable_def awaitable_traits_def make_wait_all_task_def)

lemma wait_all_of_awaitables:
  assumes "\<forall>T \<in> set Ts. co_await_type D P T = Some (aw T, res T) \<and> traits_follow D T"
  shows "wait_all_types D Ts =
    Some (map (\<lambda>T. Some (if is_void D (res T) then Yields_Nothing else Yields (res T))) Ts)"
  using assms traits_name_types
  by (fastforce simp: wait_all_types_def wait_all_accepts_def)

text \<open>
  What the traits accept beyond the rule: an operand of both operators that is ambiguous, and
  awaiters that fail one of the two conditions on themselves, or any of them when an operator
  returns them.
\<close>

lemma is_awaitable_iff:
  "is_awaitable D T \<longleftrightarrow>
     member_co_await D T \<noteq> None \<or> free_co_await D T \<noteq> None \<or> is_awaiter D T"
  by (auto simp: is_awaitable_def trait_defs split: option.splits)

lemma accepted_but_ill_formed:
  "co_await_type D P T = None \<longleftrightarrow>
    (member_co_await D T \<noteq> None \<and> free_co_await D T \<noteq> None \<and> preferred_co_await D T = None) \<or>
    (\<exists>A. co_await_awaiter D T = Some A \<and> \<not> awaiter_ok D P A)"
  by (auto simp: co_await_type_def co_await_awaiter_def awaiter_ok_def split: option.splits)

section \<open>The library's own awaitables\<close>

text \<open>
  The declarations of the tasks and awaiters of the library, for a value type of one kind:
  \<open>Task<int>\<close> through its member operator, its awaiter, the scheduler awaitable, the manual
  reset event (which cannot be awaited), a type whose \<open>await_suspend\<close> gives an \<open>int\<close>, and one whose
  \<open>await_suspend\<close> takes the handle of a coroutine of type \<open>Int_T\<close> only.
\<close>

datatype lib_type =
  Void_T | Bool_T | Int_T | Handle_T | Task_Int | Task_Void | Task_Awaiter lib_type | Scheduler_Awaitable
  | Manual_Event | Int_Suspender | Typed_Awaiter

fun lib_ready :: "lib_type \<Rightarrow> lib_type option" where
  "lib_ready (Task_Awaiter R) = Some Bool_T"
| "lib_ready Scheduler_Awaitable = Some Bool_T"
| "lib_ready Int_Suspender = Some Bool_T"
| "lib_ready Typed_Awaiter = Some Bool_T"
| "lib_ready _ = None"

fun lib_suspend :: "lib_type \<Rightarrow> lib_type \<Rightarrow> lib_type option" where
  "lib_suspend P (Task_Awaiter R) = Some Handle_T"
| "lib_suspend P Scheduler_Awaitable = Some Void_T"
| "lib_suspend P Int_Suspender = Some Int_T"
| "lib_suspend P Typed_Awaiter = (if P = Int_T then Some Void_T else None)"
| "lib_suspend P _ = None"

fun lib_resume :: "lib_type \<Rightarrow> lib_type option" where
  "lib_resume (Task_Awaiter R) = Some R"
| "lib_resume Scheduler_Awaitable = Some Void_T"
| "lib_resume Int_Suspender = Some Void_T"
| "lib_resume Typed_Awaiter = Some Void_T"
| "lib_resume _ = None"

fun lib_co_await :: "lib_type \<Rightarrow> lib_type option" where
  "lib_co_await Task_Int = Some (Task_Awaiter Int_T)"
| "lib_co_await Task_Void = Some (Task_Awaiter Void_T)"
| "lib_co_await _ = None"

definition lib_decls :: "lib_type decls" where
  "lib_decls =
     \<lparr>await_ready_type = lib_ready, await_suspend_type = lib_suspend, erased_promise = Void_T,
      await_resume_type = lib_resume, member_co_await = lib_co_await, free_co_await = (\<lambda>_. None),
      preferred_co_await = (\<lambda>_. None),
      bool_constructible = (\<lambda>T. T = Bool_T \<or> T = Int_T), is_void = (\<lambda>T. T = Void_T),
      is_bool = (\<lambda>T. T = Bool_T), handle_promise = (\<lambda>T. if T = Handle_T then Some Void_T else None)\<rparr>"

lemmas lib_simps = co_await_type_def co_await_awaiter_def awaiter_ok_def lib_decls_def traits_follow_def
  is_valid_await_suspend_return_type_def is_coroutine_handle_def

lemma library_awaitables:
  "wait_all_types lib_decls [Task_Int, Task_Void, Scheduler_Awaitable] =
     Some [Some (Yields Int_T), Some Yields_Nothing, Some Yields_Nothing]"
proof -
  let ?aw = "\<lambda>T. case T of Task_Int \<Rightarrow> Task_Awaiter Int_T | Task_Void \<Rightarrow> Task_Awaiter Void_T | _ \<Rightarrow> T"
  let ?res = "\<lambda>T. case T of Task_Int \<Rightarrow> Int_T | _ \<Rightarrow> Void_T"
  have "\<forall>T \<in> set [Task_Int, Task_Void, Scheduler_Awaitable].
      co_await_type lib_decls Void_T T = Some (?aw T, ?res T) \<and> traits_follow lib_decls T"
    by (simp add: lib_simps)
  from wait_all_of_awaitables [OF this] show ?thesis by (simp add: lib_decls_def)
qed

lemma event_is_not_awaitable: "\<not> is_awaitable lib_decls Manual_Event"
  by (simp add: is_awaitable_iff is_awaiter_def lib_decls_def)

text \<open>
  The disjunction accepts an awaiter whose \<open>await_suspend\<close> returns an \<open>int\<close>: the traits promise a
  result that \<open>co_await\<close> refuses to compute. An awaiter for coroutines of one promise type is refused
  where \<open>co_await\<close> accepts it.
\<close>

lemma disjunction_accepts_too_much:
  "is_awaiter lib_decls Int_Suspender" "awaitable_traits lib_decls Int_Suspender = Traits Int_Suspender Void_T"
  "co_await_type lib_decls P Int_Suspender = None"
  by (simp_all add: is_awaiter_def awaitable_traits_def trait_defs lib_simps)

lemma typed_awaiter_is_refused:
  "co_await_type lib_decls Int_T Typed_Awaiter = Some (Typed_Awaiter, Void_T)"
  "\<not> is_awaitable lib_decls Typed_Awaiter"
  by (simp_all add: is_awaitable_iff is_awaiter_def lib_simps)

end
