(* ===== verification/Wait_Frames.thy ===== *)
theory Wait_Frames
  imports Wait_All
begin

text \<open>
  \<open>wait_all\<close> on the heap: the coroutine frames behind the handles of \<open>wait_all_task\<close>
  (\<open>detail/wait_all_task.hpp\<close>), each with a promise that points to the counter of the awaitable
  (\<open>detail/wait_all_awaiter.hpp\<close>). Handles may be null, pointers may dangle and a frame can be resumed
  only where it is suspended; the faults of this level are excluded, and the level is shown to
  simulate the one of \<open>Wait_All\<close>, which has a list of promises and one counter.
\<close>

section \<open>Frames\<close>

record 'v wait_frame =
  frame_promise :: "'v wait_all_promise"
  frame_counter :: "nat option"     \<comment> \<open>\<open>counter_\<close>, uninitialised until \<open>start\<close>\<close>
  frame_phase :: phase

type_synonym 'v frames = "nat \<Rightarrow> 'v wait_frame option"

text \<open>
  A call of \<open>make_wait_all_task\<close> makes a frame, suspended at once by \<open>initial_suspend\<close>; its
  handle is the return object.
\<close>

definition initial_suspend :: "'v wait_frame" where
  "initial_suspend = \<lparr>frame_promise = promise_init, frame_counter = None, frame_phase = Created\<rparr>"

definition get_return_object :: "nat \<Rightarrow> nat option" where
  "get_return_object a = Some a"

definition make_task :: "nat \<Rightarrow> 'v frames \<Rightarrow> nat option \<times> 'v frames" where
  "make_task a fs = (get_return_object a, fs(a \<mapsto> initial_suspend))"

text \<open>\<open>coroutine_handle::resume\<close> of a frame that is not suspended is undefined.\<close>

definition frame_resume :: "'v wait_frame \<Rightarrow> 'v wait_frame res" where
  "frame_resume f =
     (if frame_phase f = Created then Inr (f\<lparr>frame_phase := Active\<rparr>) else Inl Undefined_Behaviour)"

definition promise_start :: "nat \<Rightarrow> 'v wait_frame \<Rightarrow> 'v wait_frame res" where
  "promise_start c f = frame_resume (f\<lparr>frame_counter := Some c\<rparr>)"

definition with_frame :: "nat option \<Rightarrow> 'v frames \<Rightarrow> ('v wait_frame \<Rightarrow> 'w res) \<Rightarrow> 'w res" where
  "with_frame t fs k =
     (case t of
        None \<Rightarrow> Inl Bad_Access
      | Some a \<Rightarrow> (case fs a of None \<Rightarrow> Inl Bad_Access | Some f \<Rightarrow> k f))"

definition frame_start :: "nat \<Rightarrow> nat option \<Rightarrow> 'v frames \<Rightarrow> 'v frames res" where
  "frame_start c t fs =
     with_frame t fs (\<lambda>f. res_bind (promise_start c f) (\<lambda>f'. Inr (fs(the t \<mapsto> f'))))"

definition frame_result :: "nat option \<Rightarrow> 'v frames \<Rightarrow> 'v res" where
  "frame_result t fs = with_frame t fs (\<lambda>f. wait_result (frame_promise f))"

text \<open>A \<open>void\<close> task returns nothing and only rethrows; the other overload of \<open>return_void\<close> asserts.\<close>

definition frame_result_void :: "nat option \<Rightarrow> unit frames \<Rightarrow> unit res" where
  "frame_result_void t fs = with_frame t fs (\<lambda>f. promise_rethrow (frame_promise f))"

definition return_void_valued :: "unit res" where
  "return_void_valued = Inl Assert_Failed"

text \<open>
  The end of the body, by \<open>co_yield\<close> or through \<open>unhandled_exception\<close>, and the final awaiter: it
  counts down the counter its promise points to.
\<close>

definition notifier_ready :: bool where
  "notifier_ready = False"

definition notifier_suspend ::
  "'v wait_frame \<Rightarrow> (nat \<Rightarrow> wait_all_counter option) \<Rightarrow> (wake \<times> (nat \<Rightarrow> wait_all_counter option)) res" where
  "notifier_suspend f cs =
     (case frame_counter f of
        None \<Rightarrow> Inl Undefined_Behaviour
      | Some c \<Rightarrow>
          (case cs c of
             None \<Rightarrow> Inl Bad_Access
           | Some ctr \<Rightarrow> (case notify_complete ctr of (w, ctr') \<Rightarrow> Inr (w, cs(c \<mapsto> ctr')))))"

section \<open>The awaitable\<close>

text \<open>\<open>went_on\<close> lists the handles that were resumed or let go on, as \<open>continued\<close> does above.\<close>

record 'v machine =
  frames :: "'v frames"
  counters :: "nat \<Rightarrow> wait_all_counter option"
  tasks :: "nat option list"
  counter_at :: nat
  position :: waiter
  went_on :: "nat option list"

definition make_tasks :: "nat list \<Rightarrow> 'v frames \<Rightarrow> nat option list \<times> 'v frames" where
  "make_tasks as fs =
     (map (\<lambda>a. fst (make_task a fs)) as, fold (\<lambda>a fs. snd (make_task a fs)) as fs)"

definition awaitable_construct :: "nat list \<Rightarrow> nat \<Rightarrow> 'v machine" where
  "awaitable_construct as c =
     (case make_tasks as (\<lambda>_. None) of
        (ts, fs) \<Rightarrow>
          \<lparr>frames = fs, counters = [c \<mapsto> wait_all_counter_init (length as)], tasks = ts,
           counter_at = c, position = Starting 0, went_on = []\<rparr>)"

definition machine_start :: "nat \<Rightarrow> 'v machine \<Rightarrow> 'v machine res" where
  "machine_start i m =
     res_bind (frame_start (counter_at m) (tasks m ! i) (frames m))
       (\<lambda>fs. Inr (m\<lparr>frames := fs, position := Starting (Suc i)\<rparr>))"

definition machine_finish :: "nat \<Rightarrow> 'v outcome \<Rightarrow> 'v machine \<Rightarrow> 'v machine res" where
  "machine_finish a out m =
     with_frame (Some a) (frames m) (\<lambda>f.
       let f' = f\<lparr>frame_promise := task_body out (frame_promise f), frame_phase := Completed\<rparr>
       in res_bind (notifier_suspend f' (counters m)) (\<lambda>(w, cs).
            Inr (m\<lparr>frames := (frames m)(a \<mapsto> f'), counters := cs, went_on := went_on m @ woken w\<rparr>)))"

definition with_counter :: "'v machine \<Rightarrow> (wait_all_counter \<Rightarrow> 'w res) \<Rightarrow> 'w res" where
  "with_counter m k = (case counters m (counter_at m) of None \<Rightarrow> Inl Bad_Access | Some ctr \<Rightarrow> k ctr)"

definition machine_store :: "nat \<Rightarrow> 'v machine \<Rightarrow> 'v machine res" where
  "machine_store h m =
     with_counter m (\<lambda>ctr. Inr (m\<lparr>counters := (counters m)(counter_at m \<mapsto> begin_await_store h ctr),
       position := Has_Stored\<rparr>))"

definition machine_arrive :: "'v machine \<Rightarrow> 'v machine res" where
  "machine_arrive m =
     with_counter m (\<lambda>ctr.
       case begin_await_arrive ctr of (suspend, ctr') \<Rightarrow>
         Inr (m\<lparr>counters := (counters m)(counter_at m \<mapsto> ctr'), position := Has_Arrived,
           went_on := (if suspend then went_on m else went_on m @ [counter_coroutine ctr'])\<rparr>))"

text \<open>
  One action of the machine with its result. A task ends after it has been resumed, on any
  thread, and \<open>await_ready\<close> of the awaitable is false before the first handle is stored.
\<close>

inductive machine_step :: "nat \<Rightarrow> 'v machine \<Rightarrow> 'v machine res \<Rightarrow> bool" for h where
  Start: "\<lbrakk>position m = Starting i; i < length (tasks m)\<rbrakk> \<Longrightarrow> machine_step h m (machine_start i m)"
| Finish: "\<lbrakk>frames m a = Some f; frame_phase f = Active\<rbrakk> \<Longrightarrow> machine_step h m (machine_finish a out m)"
| Store: "position m = Starting (length (tasks m)) \<Longrightarrow> machine_step h m (machine_store h m)"
| Arrive: "position m = Has_Stored \<Longrightarrow> machine_step h m (machine_arrive m)"

inductive machine_reachable :: "nat list \<Rightarrow> nat \<Rightarrow> nat \<Rightarrow> 'v machine res \<Rightarrow> bool" for as c h where
  Construct: "machine_reachable as c h (Inr (awaitable_construct as c))"
| Step: "machine_reachable as c h (Inr m) \<Longrightarrow> machine_step h m r \<Longrightarrow> machine_reachable as c h r"

section \<open>The simulation\<close>

definition frame_at :: "'v frames \<Rightarrow> nat \<Rightarrow> 'v wait_frame" where
  "frame_at fs a = the (fs a)"

lemma frame_at_upd [simp]: "frame_at (fs(a \<mapsto> f)) b = (if b = a then f else frame_at fs b)"
  by (simp add: frame_at_def)

definition simulates :: "nat list \<Rightarrow> nat \<Rightarrow> 'v machine \<Rightarrow> 'v wait_all_state \<Rightarrow> bool" where
  "simulates as c m s \<longleftrightarrow>
     tasks m = map Some as \<and> counter_at m = c \<and> dom (frames m) = set as \<and>
     counters m = [c \<mapsto> counter s] \<and> position m = waiter s \<and> went_on m = continued s \<and>
     promises s = map (\<lambda>a. frame_promise (frame_at (frames m) a)) as \<and>
     phases s = map (\<lambda>a. frame_phase (frame_at (frames m) a)) as \<and>
     (\<forall>a \<in> set as. frame_phase (frame_at (frames m) a) \<noteq> Created \<longrightarrow> frame_counter (frame_at (frames m) a) = Some c)"

lemma make_frames:
  "fold (\<lambda>a fs. snd (make_task a fs)) as fs =
     (\<lambda>a. if a \<in> set as then Some initial_suspend else fs a)"
  by (induction as arbitrary: fs) (auto simp: make_task_def fun_eq_iff)

lemma make_tasks_frames:
  "make_tasks as fs = (map Some as, \<lambda>a. if a \<in> set as then Some initial_suspend else fs a)"
  by (simp only: make_tasks_def make_frames) (simp add: make_task_def get_return_object_def)

lemma simulates_init: "simulates as c (awaitable_construct as c) (wait_all_init (length as))"
  by (auto simp: simulates_def awaitable_construct_def make_tasks_frames frame_at_def wait_all_init_def
      initial_suspend_def dom_def list_eq_iff_nth_eq split: if_splits)

lemma map_one_changed:
  assumes "distinct as" "i < length as"
  shows "map (\<lambda>a. F (if a = as ! i then x else g a)) as = (map (\<lambda>a. F (g a)) as)[i := F x]"
  using assms by (auto simp: list_eq_iff_nth_eq nth_list_update nth_eq_iff_index_eq)

text \<open>Starting a task whose frame is still suspended at its beginning cannot fail.\<close>

lemma simulates_start:
  assumes sim: "simulates as c m s" and as: "distinct as"
    and i: "position m = Starting i" "i < length (tasks m)"
    and created: "phases s ! i = Created"
  shows "\<exists>m'. machine_start i m = Inr m' \<and> simulates as c m' (start_next i s)"
proof -
  have len: "i < length as" using sim i(2) by (simp add: simulates_def)
  then obtain f where f: "frames m (as ! i) = Some f"
    using sim by (metis domD nth_mem simulates_def)
  let ?f = "f\<lparr>frame_counter := Some c, frame_phase := Active\<rparr>"
  let ?m = "m\<lparr>frames := (frames m)(as ! i \<mapsto> ?f), position := Starting (Suc i)\<rparr>"
  have f_at: "frame_at (frames m) (as ! i) = f" using f by (simp add: frame_at_def)
  have "frame_phase f = Created"
    using sim created len f_at by (auto simp: simulates_def)
  then have run: "machine_start i m = Inr ?m"
    using sim len f
    by (auto simp: machine_start_def frame_start_def with_frame_def promise_start_def
        frame_resume_def simulates_def)
  have "map (\<lambda>a. frame_promise (frame_at (frames ?m) a)) as = map (\<lambda>a. frame_promise (frame_at (frames m) a)) as"
    using f_at by auto
  moreover have "map (\<lambda>a. frame_phase (frame_at (frames ?m) a)) as =
      (map (\<lambda>a. frame_phase (frame_at (frames m) a)) as)[i := Active]"
    using map_one_changed [OF as len, of frame_phase ?f] by simp
  moreover have "dom (frames ?m) = set as"
    using sim len by (auto simp: simulates_def)
  ultimately have "simulates as c ?m (start_next i s)"
    using sim by (auto simp: simulates_def start_next_def)
  with run show ?thesis by blast
qed

lemma simulates_finish:
  assumes sim: "simulates as c m s" and as: "distinct as"
    and f: "frames m a = Some f" and active: "frame_phase f = Active"
  shows "\<exists>m' i. machine_finish a out m = Inr m' \<and> i < length (phases s) \<and> phases s ! i = Active \<and>
    as ! i = a \<and> simulates as c m' (task_finishes i out s)"
proof -
  have "a \<in> set as" using sim f by (auto simp: simulates_def)
  then obtain i where i: "i < length as" "as ! i = a" by (metis in_set_conv_nth)
  have f_at: "frame_at (frames m) a = f" using f by (simp add: frame_at_def)
  have ph: "i < length (phases s)" "phases s ! i = Active"
    using sim i active f_at by (auto simp: simulates_def)
  have c: "frame_counter f = Some c"
    using sim \<open>a \<in> set as\<close> f_at active by (auto simp: simulates_def)
  obtain w ctr where n: "notify_complete (counter s) = (w, ctr)" by fastforce
  let ?f = "f\<lparr>frame_promise := task_body out (frame_promise f), frame_phase := Completed\<rparr>"
  let ?m = "m\<lparr>frames := (frames m)(a \<mapsto> ?f), counters := (counters m)(c \<mapsto> ctr),
      went_on := went_on m @ woken w\<rparr>"
  have run: "machine_finish a out m = Inr ?m"
    using sim f c n
    by (simp add: machine_finish_def with_frame_def notifier_suspend_def simulates_def)
  have "map (\<lambda>a. frame_promise (frame_at (frames ?m) a)) as =
      (map (\<lambda>a. frame_promise (frame_at (frames m) a)) as)[i := task_body out (frame_promise f)]"
    and "map (\<lambda>a. frame_phase (frame_at (frames ?m) a)) as =
      (map (\<lambda>a. frame_phase (frame_at (frames m) a)) as)[i := Completed]"
    using map_one_changed [OF as i(1), of frame_promise ?f] map_one_changed [OF as i(1), of frame_phase ?f]
    by (simp_all add: i(2))
  moreover have "promises s ! i = frame_promise f" using sim i f_at by (simp add: simulates_def)
  moreover have "dom (frames ?m) = set as"
    using sim \<open>a \<in> set as\<close> by (auto simp: simulates_def)
  ultimately have "simulates as c ?m (task_finishes i out s)"
    using sim c by (auto simp: simulates_def task_finishes_def n)
  with run ph i(2) show ?thesis by blast
qed

lemma simulates_store:
  assumes "simulates as c m s"
  shows "\<exists>m'. machine_store h m = Inr m' \<and> simulates as c m' (waiter_stores h s)"
  using assms
  by (auto simp: simulates_def machine_store_def with_counter_def waiter_stores_def frame_at_def)

lemma simulates_arrive:
  assumes "simulates as c m s"
  shows "\<exists>m'. machine_arrive m = Inr m' \<and> simulates as c m' (waiter_arrives s)"
  using assms
  by (auto simp: simulates_def machine_arrive_def with_counter_def waiter_arrives_def frame_at_def
      split: prod.splits)

lemma machine_simulated:
  assumes "machine_reachable as c h r" and "distinct as" and "length as + 1 < 2 ^ 64"
  shows "\<exists>m s. r = Inr m \<and> wait_all_reachable (length as) h s \<and> simulates as c m s"
  using assms(1)
proof (induction rule: machine_reachable.induct)
  case Construct
  show ?case using simulates_init wait_all_reachable.Initial by blast
next
  case (Step m r)
  then obtain s where s: "wait_all_reachable (length as) h s" "simulates as c m s" by blast
  have inv: "wait_all_inv (length as) h s" by (rule all_inv_reachable [OF s(1) assms(3)])
  have pos: "position m = waiter s" "length (tasks m) = length (phases s)"
    using s(2) by (simp_all add: simulates_def)
  from Step.hyps(2) show ?case
  proof (cases rule: machine_step.cases)
    case (Start i)
    then have "phases s ! i = Created" "i < length (phases s)"
      using inv pos by (auto simp: wait_all_inv_def started_ok_def)
    with Start show ?thesis
      using simulates_start [OF s(2) assms(2)] s(1) pos wait_all_step.Start wait_all_reachable.Next by metis
  next
    case (Finish a f out)
    with simulates_finish [OF s(2) assms(2) Finish(2,3), of out] show ?thesis
      using s(1) wait_all_step.Finish wait_all_reachable.Next by metis
  next
    case Store
    then show ?thesis
      using simulates_store [OF s(2), of h] s(1) pos wait_all_step.Store wait_all_reachable.Next by metis
  next
    case Arrive
    then show ?thesis
      using simulates_arrive [OF s(2)] s(1) pos wait_all_step.Arrive wait_all_reachable.Next by metis
  qed
qed

section \<open>Properties\<close>

lemma machine_outcomes:
  assumes "machine_reachable as c h r" and "distinct as" and "length as + 1 < 2 ^ 64"
  shows "\<exists>m s. r = Inr m \<and> wait_all_reachable (length as) h s \<and> simulates as c m s \<and>
    went_on m = (if position m = Has_Arrived \<and> (\<forall>a \<in> set as. frame_phase (frame_at (frames m) a) = Completed)
                 then [Some h] else []) \<and>
    (went_on m \<noteq> [] \<longrightarrow> (\<forall>i < length as. \<exists>out. reports s i = Some out \<and>
       frame_result (tasks m ! i) (frames m) = outcome_res out))"
proof -
  obtain m s where ms: "r = Inr m" "wait_all_reachable (length as) h s" "simulates as c m s"
    using machine_simulated [OF assms] by blast
  have inv: "wait_all_inv (length as) h s" by (rule all_inv_reachable [OF ms(2) assms(3)])
  have all: "unfinished s = 0 \<longleftrightarrow> (\<forall>a \<in> set as. frame_phase (frame_at (frames m) a) = Completed)"
    using ms(3) by (auto simp: unfinished_def filter_empty_conv simulates_def)
  have on: "went_on m = (if unfinished s = 0 \<and> position m = Has_Arrived then [Some h] else [])"
    using ms(3) inv by (simp add: wait_all_inv_def simulates_def)
  have result: "\<exists>out. reports s i = Some out \<and> frame_result (tasks m ! i) (frames m) = outcome_res out"
    if "unfinished s = 0" "i < length as" for i
  proof -
    note i = that
    obtain f where "frames m (as ! i) = Some f" using ms(3) i(2) by (metis domD nth_mem simulates_def)
    then have "frame_result (tasks m ! i) (frames m) = wait_result (promises s ! i)"
      using ms(3) i(2) by (simp add: simulates_def frame_result_def with_frame_def frame_at_def)
    moreover have "i < length (phases s)" "phases s ! i = Completed"
      using i inv by (auto simp: unfinished_def filter_empty_conv wait_all_inv_def)
    ultimately show ?thesis using inv by (simp add: wait_all_inv_def promises_ok_def)
  qed
  show ?thesis
  proof (intro exI conjI)
    show "went_on m \<noteq> [] \<longrightarrow> (\<forall>i < length as. \<exists>out. reports s i = Some out \<and>
        frame_result (tasks m ! i) (frames m) = outcome_res out)"
      using on result by (simp split: if_splits)
  qed (use ms on all in auto)
qed

text \<open>
  C11: on the heap \<open>wait_all\<close> never faults and does what the abstract counter says. Whatever the
  interleaving of the awaiting coroutine and the tasks, no handle or pointer that is followed is
  null or dangling and no frame is resumed twice; the coroutine goes on at most once, and when
  it has, every task is complete and its \<open>result\<close> is the value or the exception its body
  ended with.
\<close>

theorem wait_all_frames_refine:
  assumes "machine_reachable as c h r" and "distinct as" and "length as + 1 < 2 ^ 64"
  shows "\<exists>m s. r = Inr m \<and> wait_all_reachable (length as) h s \<and> simulates as c m s \<and>
    went_on m = (if position m = Has_Arrived \<and> (\<forall>a \<in> set as. frame_phase (frame_at (frames m) a) = Completed)
                 then [Some h] else []) \<and>
    (went_on m \<noteq> [] \<longrightarrow> (\<forall>i < length as. \<exists>out. reports s i = Some out \<and>
       frame_result (tasks m ! i) (frames m) = outcome_res out))"
  by (rule machine_outcomes [OF assms])

text \<open>A schedule as a list of actions; an action that is not enabled is passed over.\<close>

datatype 'v action = Starts | Ends nat "'v outcome" | Stores | Arrives

fun act :: "nat \<Rightarrow> 'v action \<Rightarrow> 'v machine \<Rightarrow> 'v machine res" where
  "act h Starts m =
     (case position m of
        Starting i \<Rightarrow> if i < length (tasks m) then machine_start i m else Inr m
      | _ \<Rightarrow> Inr m)"
| "act h (Ends a out) m =
     (case frames m a of
        Some f \<Rightarrow> if frame_phase f = Active then machine_finish a out m else Inr m
      | None \<Rightarrow> Inr m)"
| "act h Stores m = (if position m = Starting (length (tasks m)) then machine_store h m else Inr m)"
| "act h Arrives m = (if position m = Has_Stored then machine_arrive m else Inr m)"

definition run_actions :: "nat list \<Rightarrow> nat \<Rightarrow> nat \<Rightarrow> 'v action list \<Rightarrow> 'v machine res" where
  "run_actions as c h acts = foldl (\<lambda>r x. res_bind r (act h x)) (Inr (awaitable_construct as c)) acts"

lemma act_reachable:
  assumes "machine_reachable as c h (Inr m)"
  shows "machine_reachable as c h (act h x m)"
  using assms
  by (cases x) (auto intro: machine_reachable.Step machine_step.intros split: waiter.split option.split)

lemma run_actions_reachable: "machine_reachable as c h (run_actions as c h acts)"
proof (induction acts rule: rev_induct)
  case Nil
  show ?case by (simp add: run_actions_def machine_reachable.Construct)
next
  case (snoc x acts)
  then show ?case
    by (cases "run_actions as c h acts") (auto simp: run_actions_def intro: act_reachable)
qed

text \<open>Two tasks at 10 and 11: the first ends before the second starts, the second throws last.\<close>

definition two_tasks :: "nat machine res" where
  "two_tasks = run_actions [10, 11] 40 5
     [Starts, Ends 10 (Returned 7), Starts, Stores, Arrives, Ends 11 (Threw 9)]"

lemma two_tasks_run:
  "case two_tasks of
     Inr m \<Rightarrow> position m = Has_Arrived \<and> frame_phase (frame_at (frames m) 10) = Completed \<and>
       frame_phase (frame_at (frames m) 11) = Completed
   | Inl e \<Rightarrow> False"
  by code_simp

lemma wait_all_frames_refine_witness:
  "case two_tasks of Inr m \<Rightarrow> went_on m = [Some 5] | Inl e \<Rightarrow> False"
proof -
  have "machine_reachable [10, 11] 40 5 two_tasks"
    unfolding two_tasks_def by (rule run_actions_reachable)
  from wait_all_frames_refine [OF this] obtain m where m: "two_tasks = Inr m"
      "went_on m = (if position m = Has_Arrived \<and>
         (\<forall>a \<in> set [10, 11]. frame_phase (frame_at (frames m) a) = Completed) then [Some 5] else [])"
    by auto
  then show ?thesis using two_tasks_run unfolding m(1) by simp
qed

section \<open>The expression \<open>co_await\<close>\<close>

text \<open>
  The awaiter of the awaitable: ready when a handle has been stored, and its result is the tuple
  of tasks, by reference. For a temporary it is a reference the caller may move from; a tuple
  initialised from it takes the handles and leaves null ones (\<open>tasks_taken\<close>).
\<close>

definition awaiter_ready :: "'v machine \<Rightarrow> bool res" where
  "awaiter_ready m = with_counter m (\<lambda>ctr. Inr (counter_is_ready ctr))"

definition awaiter_resume :: "'v machine \<Rightarrow> nat option list" where
  "awaiter_resume m = tasks m"

definition awaiter_resume_moved :: "'v machine \<Rightarrow> nat option list" where
  "awaiter_resume_moved m = tasks m"

definition tasks_taken :: "'v machine \<Rightarrow> nat option list \<times> 'v machine" where
  "tasks_taken m = (awaiter_resume_moved m, m\<lparr>tasks := map (\<lambda>_. None) (tasks m)\<rparr>)"

lemma results_after_take:
  assumes "tasks_taken m = (ts, m')"
  shows "ts = awaiter_resume m" and "frames m' = frames m" and "\<forall>t \<in> set (tasks m'). t = None"
  using assms by (auto simp: tasks_taken_def awaiter_resume_def awaiter_resume_moved_def)

text \<open>The awaitable of no tasks at all.\<close>

definition no_tasks_ready :: bool where
  "no_tasks_ready = True"

definition no_tasks_resume :: "nat option list" where
  "no_tasks_resume = []"

text \<open>
  Awaiting the awaitable again after the coroutine went on does not start the tasks again: it is
  ready, and gives the same tasks with the same results.
\<close>

lemma await_again:
  assumes "machine_reachable as c h (Inr m)" and "distinct as" and "length as + 1 < 2 ^ 64"
    and "went_on m \<noteq> []"
  shows "awaiter_ready m = Inr True" and "awaiter_resume m = map Some as"
    and "\<forall>t \<in> set (awaiter_resume m). \<exists>out. frame_result t (frames m) = outcome_res out"
proof -
  obtain s where s: "wait_all_reachable (length as) h s" "simulates as c m s"
    and on: "went_on m = (if position m = Has_Arrived \<and> (\<forall>a \<in> set as. frame_phase (frame_at (frames m) a) = Completed)
                 then [Some h] else [])"
    and out: "\<forall>i < length as. \<exists>out. reports s i = Some out \<and> frame_result (tasks m ! i) (frames m) = outcome_res out"
    using machine_outcomes [OF assms(1-3)] assms(4) by auto
  have "wait_all_inv (length as) h s" by (rule all_inv_reachable [OF s(1) assms(3)])
  moreover have "waiter s = Has_Arrived" using on assms(4) s(2) by (auto simp: simulates_def split: if_splits)
  ultimately have "counter_coroutine (counter s) = Some h"
    by (simp add: wait_all_inv_def all_done.owes_def)
  then show "awaiter_ready m = Inr True"
    using s(2) by (simp add: awaiter_ready_def with_counter_def counter_is_ready_def simulates_def)
  show r: "awaiter_resume m = map Some as" using s(2) by (simp add: awaiter_resume_def simulates_def)
  show "\<forall>t \<in> set (awaiter_resume m). \<exists>out. frame_result t (frames m) = outcome_res out"
  proof
    fix t assume "t \<in> set (awaiter_resume m)"
    then obtain i where "i < length as" "t = tasks m ! i"
      using s(2) by (auto simp: awaiter_resume_def simulates_def in_set_conv_nth)
    then show "\<exists>out. frame_result t (frames m) = outcome_res out" using out by blast
  qed
qed

end
