(* ===== verification/Wait_Task_Frames.thy ===== *)
theory Wait_Task_Frames
  imports Sync_Wait
begin

text \<open>
  The coroutine frames behind \<open>sync_wait\<close> and \<open>async_wait\<close> (\<open>sync_wait.hpp\<close>): how the two tasks are
  made, started, read and destroyed through their handles. \<open>Sync_Wait\<close> has what the caller and the
  task do to each other; here a handle can be null or its frame destroyed, and a frame can be
  resumed only where it is suspended.
\<close>

datatype place = At_Start | In_Body | At_End

text \<open>\<open>event_\<close> is a member of the asynchronous promise only; it is uninitialised until \<open>start\<close>.\<close>

record 'v task_frame =
  task_promise :: "'v wait_promise"
  task_event :: "nat option"
  task_place :: place

type_synonym 'v task_frames = "nat \<Rightarrow> 'v task_frame option"

text \<open>\<open>get_return_object\<close> and \<open>initial_suspend\<close>, which is \<open>suspend_always\<close> for both promises.\<close>

definition frame_handle :: "nat \<Rightarrow> nat option" where
  "frame_handle a = Some a"

definition frame_init :: "'v task_frame" where
  "frame_init = \<lparr>task_promise = wait_promise_init, task_event = None, task_place = At_Start\<rparr>"

definition make_wait_task :: "nat \<Rightarrow> 'v task_frames \<Rightarrow> nat option \<times> 'v task_frames" where
  "make_wait_task a fs = (frame_handle a, fs(a \<mapsto> frame_init))"

definition at_frame :: "nat option \<Rightarrow> 'v task_frames \<Rightarrow> (nat \<Rightarrow> 'v task_frame \<Rightarrow> 'w res) \<Rightarrow> 'w res" where
  "at_frame t fs k =
     (case t of
        None \<Rightarrow> Inl Bad_Access
      | Some a \<Rightarrow> (case fs a of None \<Rightarrow> Inl Bad_Access | Some f \<Rightarrow> k a f))"

definition base_start :: "'v task_frame \<Rightarrow> 'v task_frame res" where
  "base_start f =
     (if task_place f = At_Start then Inr (f\<lparr>task_place := In_Body\<rparr>) else Inl Undefined_Behaviour)"

definition async_promise_start :: "nat \<Rightarrow> 'v task_frame \<Rightarrow> 'v task_frame res" where
  "async_promise_start ev f = base_start (f\<lparr>task_event := Some ev\<rparr>)"

definition sync_promise_start :: "'v task_frame \<Rightarrow> 'v task_frame res" where
  "sync_promise_start f = base_start f"

definition async_task_start :: "nat \<Rightarrow> nat option \<Rightarrow> 'v task_frames \<Rightarrow> 'v task_frames res" where
  "async_task_start ev t fs =
     at_frame t fs (\<lambda>a f. res_bind (async_promise_start ev f) (\<lambda>f'. Inr (fs(a \<mapsto> f'))))"

definition sync_task_start :: "nat option \<Rightarrow> 'v task_frames \<Rightarrow> 'v task_frames res" where
  "sync_task_start t fs =
     at_frame t fs (\<lambda>a f. res_bind (sync_promise_start f) (\<lambda>f'. Inr (fs(a \<mapsto> f'))))"

definition async_task_result :: "nat option \<Rightarrow> 'v task_frames \<Rightarrow> 'v res" where
  "async_task_result t fs = at_frame t fs (\<lambda>a f. wait_promise_result (task_promise f))"

definition sync_task_result :: "nat option \<Rightarrow> 'v task_frames \<Rightarrow> 'v res" where
  "sync_task_result t fs = at_frame t fs (\<lambda>a f. wait_promise_result (task_promise f))"

definition frame_destroy :: "nat option \<Rightarrow> 'v task_frames \<Rightarrow> 'v task_frames" where
  "frame_destroy t fs = (case t of None \<Rightarrow> fs | Some a \<Rightarrow> fs(a := None))"

text \<open>
  The awaitable completes and resumes the body, which ends: its result goes into the promise and
  the frame suspends at its end, by \<open>suspend_always\<close> or by the notifier, which sets the event the
  promise points to. \<open>return_void\<close> of a task with a value asserts; its body yields instead.
\<close>

definition body_ends :: "nat \<Rightarrow> 'v completion \<Rightarrow> 'v task_frames \<Rightarrow> 'v task_frames res" where
  "body_ends a c fs =
     at_frame (Some a) fs (\<lambda>a f.
       if task_place f = In_Body
       then Inr (fs(a \<mapsto> f\<lparr>task_promise := wait_task_body c (task_promise f), task_place := At_End\<rparr>))
       else Inl Undefined_Behaviour)"

definition valued_return_void :: "unit res" where
  "valued_return_void = Inl Assert_Failed"

definition completion_await_ready :: bool where
  "completion_await_ready = False"

definition completion_await_suspend :: "nat option \<Rightarrow> 'v task_frames \<Rightarrow> nat res" where
  "completion_await_suspend t fs =
     at_frame t fs (\<lambda>a f. case task_event f of None \<Rightarrow> Inl Undefined_Behaviour | Some e \<Rightarrow> Inr e)"

section \<open>\<open>sync_wait\<close>\<close>

text \<open>
  The whole function on a fresh frame at \<open>a\<close>: \<open>finished\<close> says whether the awaitable completes
  before \<open>start\<close> returns. The destructor of the task runs after the result has been read, also
  when reading it throws.
\<close>

definition sync_wait_run :: "nat \<Rightarrow> 'v completion option \<Rightarrow> 'v task_frames \<Rightarrow> 'v res \<times> 'v task_frames" where
  "sync_wait_run a finished fs =
     (case make_wait_task a fs of (t, fs) \<Rightarrow>
      case sync_task_start t fs of
        Inl e \<Rightarrow> (Inl e, frame_destroy t fs)
      | Inr fs \<Rightarrow>
          (case (case finished of None \<Rightarrow> Inr fs | Some c \<Rightarrow> body_ends a c fs) of
             Inl e \<Rightarrow> (Inl e, frame_destroy t fs)
           | Inr fs \<Rightarrow> (sync_task_result t fs, frame_destroy t fs)))"

lemmas frame_op_defs = make_wait_task_def frame_handle_def frame_init_def at_frame_def base_start_def
  async_promise_start_def sync_promise_start_def async_task_start_def sync_task_start_def
  async_task_result_def sync_task_result_def frame_destroy_def body_ends_def

lemma sync_wait_run_result:
  assumes "fs a = None"
  shows "sync_wait_run a finished fs = (sync_wait finished, fs)"
  using assms
  by (cases finished) (auto simp: sync_wait_run_def frame_op_defs sync_wait_def)

text \<open>
  The awaitable that suspended \<open>sync_wait\<close> still holds the handle: when it completes, it resumes
  a frame that is gone.
\<close>

lemma sync_wait_resumed_after_destroy:
  assumes "fs a = None" and "sync_wait_run a None fs = (r, fs')"
  shows "r = Inl Undefined_Behaviour" and "body_ends a c fs' = Inl Bad_Access"
  using assms sync_wait_only_synchronous
  by (auto simp: sync_wait_run_result body_ends_def at_frame_def)

section \<open>\<open>async_wait\<close>\<close>

text \<open>
  On frames: make, start with the event at \<open>ev\<close>, the completion at some later time, the
  notifier, the result, the destructor.
\<close>

definition async_wait_run ::
  "nat \<Rightarrow> nat \<Rightarrow> 'v completion \<Rightarrow> 'v task_frames \<Rightarrow> (nat \<times> 'v res \<times> 'v task_frames) res" where
  "async_wait_run a ev c fs =
     (case make_wait_task a fs of (t, fs) \<Rightarrow>
      res_bind (async_task_start ev t fs) (\<lambda>fs.
      res_bind (body_ends a c fs) (\<lambda>fs.
      res_bind (completion_await_suspend t fs) (\<lambda>set_event.
        Inr (set_event, async_task_result t fs, frame_destroy t fs)))))"

text \<open>
  The waiting functions return the outcome of what they wait for and leave no frame: \<open>sync_wait\<close>
  for an awaitable that completes without suspending, \<open>async_wait\<close> for every one; the event that
  the notifier sets is the caller's.
\<close>

lemma wait_functions_give_outcome:
  assumes "fs a = None"
  shows "sync_wait_run a (Some c) fs = (completion_res c, fs)"
    and "async_wait_run a ev c fs = Inr (ev, completion_res c, fs)"
proof -
  show "sync_wait_run a (Some c) fs = (completion_res c, fs)"
    using assms by (simp add: sync_wait_run_result sync_wait_only_synchronous [THEN conjunct1])
  show "async_wait_run a ev c fs = Inr (ev, completion_res c, fs)"
    using assms
    by (auto simp: async_wait_run_def frame_op_defs completion_await_suspend_def wait_task_body_result)
qed

text \<open>A task that was moved from has a null handle, and starting it or reading it crashes.\<close>

lemma null_wait_task_crashes:
  "async_task_start ev None fs = Inl Bad_Access" "sync_task_start None fs = Inl Bad_Access"
  "async_task_result None fs = Inl Bad_Access" "sync_task_result None fs = Inl Bad_Access"
  by (simp_all add: frame_op_defs)

end
