(* ===== verification/Io_Program.thy ===== *)
theory Io_Program
  imports Io_Session Event_Loop Socket
begin

text \<open>
  A program on one event service: sockets make operations (\<open>asio/socket.hpp\<close>), operations make
  their system calls through the service, and the loop of \<open>io_service_impl::run\<close> hands the
  events of all descriptors to the operations that wait for them. Each event comes with the
  kernel as it is at that moment, so that a call can return anything at any time.
\<close>

section \<open>The operations of a socket\<close>

text \<open>
  The operation structures hold a reference to the socket; what they use of it is the
  descriptor, the address to connect to and the data to send.
\<close>

datatype io_op =
    Op_Recv int recv_operation
  | Op_Send int "u8 list" send_operation
  | Op_Connect socket_internal ip_endpoint nat
  | Op_Shutdown socket_internal nat
  | Op_Accept socket_internal accept_operation

definition api_connect :: "socket_internal \<Rightarrow> ip_endpoint \<Rightarrow> io_op" where
  "api_connect s addr = Op_Connect s addr 0"

definition api_accept :: "socket_internal \<Rightarrow> io_op" where
  "api_accept s = Op_Accept s socket_accept_operation"

definition api_shutdown :: "socket_internal \<Rightarrow> io_op" where
  "api_shutdown s = Op_Shutdown s 0"

text \<open>\<open>recv\<close> asks for all bytes; \<open>recv_some\<close> is declared and never defined.\<close>

definition api_recv :: "socket_internal \<Rightarrow> u8 list \<Rightarrow> nat \<Rightarrow> io_op" where
  "api_recv s mem sz = Op_Recv (sock_descriptor s) (socket_recv_operation mem sz True)"

definition api_send :: "socket_internal \<Rightarrow> u8 list \<Rightarrow> io_op" where
  "api_send s bytes = Op_Send (sock_descriptor s) bytes (socket_send_operation (length bytes))"

text \<open>The forwarding members of \<open>socket_internal\<close>.\<close>

definition internal_recv :: "kernel \<Rightarrow> int \<Rightarrow> u64 \<Rightarrow> int \<Rightarrow> recv_result" where
  "internal_recv k fd sz flags =
     (case impl_recv k fd sz flags of (Failed e, bytes) \<Rightarrow> Recv_Failed e | (Done n, bytes) \<Rightarrow> Recv_Bytes (take n bytes))"

definition internal_send :: "kernel \<Rightarrow> int \<Rightarrow> u8 list \<Rightarrow> int \<Rightarrow> sys" where
  "internal_send k fd bytes flags = impl_send k fd bytes flags"

text \<open>The calls the operations make; the stack storage of an address is zero here.\<close>

definition storage0 :: "u8 list" where
  "storage0 = replicate 28 0"

definition connect_call :: "kernel \<Rightarrow> socket_internal \<Rightarrow> ip_endpoint \<Rightarrow> nat + unit" where
  "connect_call k s addr = socket_connect (\<lambda>fd a. sys_connect k fd a (of_nat sizeof_sockaddr_in)) storage0 addr s"

definition accept_call :: "kernel \<Rightarrow> socket_internal \<Rightarrow> socket_internal \<times> (nat + nat)" where
  "accept_call k s =
     socket_accept (\<lambda>fd. case sys_accept k fd (if is_ipv4 (local_endpoint s) then 16 else 28) of
       (r, m, len) \<Rightarrow> (r, m)) s"

text \<open>\<open>shutdown_read_write\<close> is 2.\<close>

definition shutdown_call :: "kernel \<Rightarrow> socket_internal \<Rightarrow> nat + unit" where
  "shutdown_call k s = socket_shutdown (sys_shutdown k) 2 s"

fun io_begin :: "kernel \<Rightarrow> io_op \<Rightarrow> io_op \<times> progress" where
  "io_begin k (Op_Recv fd op) =
     map_prod (Op_Recv fd) id (recv_begin (\<lambda>sz. internal_recv k fd sz 0) op)"
| "io_begin k (Op_Send fd bytes op) =
     map_prod (Op_Send fd bytes) id (send_begin (internal_send k fd bytes 0) op)"
| "io_begin k (Op_Connect s addr ec) = map_prod (Op_Connect s addr) id (connect_begin (connect_call k s addr) ec)"
| "io_begin k (Op_Shutdown s ec) = map_prod (Op_Shutdown s) id (shutdown_begin (shutdown_call k s) ec)"
| "io_begin k (Op_Accept s op) =
     (case accept_call k s of (s', r) \<Rightarrow> map_prod (Op_Accept s') id (accept_begin r op))"

fun io_work :: "kernel \<Rightarrow> io_op \<Rightarrow> io_op \<times> progress" where
  "io_work k (Op_Recv fd op) =
     map_prod (Op_Recv fd) id (recv_work (\<lambda>sz. internal_recv k fd sz 0) op)"
| "io_work k (Op_Send fd bytes op) =
     map_prod (Op_Send fd bytes) id (send_work (internal_send k fd bytes 0) op)"
| "io_work k (Op_Connect s addr ec) = map_prod (Op_Connect s addr) id (connect_work (connect_call k s addr) ec)"
| "io_work k (Op_Shutdown s ec) = map_prod (Op_Shutdown s) id (shutdown_work (shutdown_call k s) ec)"
| "io_work k (Op_Accept s op) =
     (case accept_call k s of (s', r) \<Rightarrow> map_prod (Op_Accept s') id (accept_work r op))"

fun op_kind :: "io_op \<Rightarrow> io_kind" where
  "op_kind (Op_Recv fd op) = Io_Read"
| "op_kind (Op_Send fd bytes op) = Io_Write"
| "op_kind (Op_Connect s addr ec) = Io_Write"
| "op_kind (Op_Shutdown s ec) = Io_Write"
| "op_kind (Op_Accept s op) = Io_Read"

lemma io_begin_progress: "snd (io_begin k op) = Ready \<or> snd (io_begin k op) = Armed (op_kind op)"
  by (cases op)
    (auto simp: recv_begin_def send_begin_def connect_begin_def shutdown_begin_def accept_begin_def Let_def
      split: recv_result.split sys.split sum.split prod.split)

lemma io_work_progress: "snd (io_work k op) = Resumed \<or> snd (io_work k op) = Armed (op_kind op)"
  by (cases op)
    (auto simp: recv_work_def send_work_def connect_work_def shutdown_work_def accept_work_def Let_def
      split: recv_result.split sys.split sum.split prod.split)

lemma op_kind_kept: "op_kind (fst (io_begin k op)) = op_kind op" "op_kind (fst (io_work k op)) = op_kind op"
  by (cases op; simp split: prod.split)+

interpretation sockets_io: one_kind_operation io_begin io_work op_kind
proof unfold_locales
  fix k op op' kd
  show "op_kind op \<noteq> Io_None" by (cases op) simp_all
  show "snd (io_begin k op) = Ready \<or> (\<exists>kd. snd (io_begin k op) = Armed kd)"
    using io_begin_progress by blast
  show "snd (io_work k op) = Resumed \<or> (\<exists>kd. snd (io_work k op) = Armed kd)"
    using io_work_progress by blast
  show "io_begin k op = (op', Armed kd) \<Longrightarrow> kd = op_kind op \<and> op_kind op' = op_kind op"
    using io_begin_progress [of k op] op_kind_kept(1) [of k op] by auto
  show "io_work k op = (op', Armed kd) \<Longrightarrow> kd = op_kind op \<and> op_kind op' = op_kind op"
    using io_work_progress [of k op] op_kind_kept(2) [of k op] by auto
qed

section \<open>One service, many descriptors\<close>

text \<open>
  Every awaited operation has its own descriptor; \<open>ids\<close> are the addresses of the operations. An
  event names the descriptor, the event bits and the kernel at its time. A coroutine that goes
  on may stop the service: \<open>stops\<close> says so from what its operation has done. A session that is
  \<open>Bad_Access\<close> has had \<open>work\<close> called on an operation that no longer exists; nothing that the
  program does from then on is defined, and here it stops nothing.
\<close>

type_synonym io_sessions = "int \<Rightarrow> io_op session res"
type_synonym io_event = "int \<times> u32 \<times> kernel"

definition start_all :: "(int \<Rightarrow> nat) \<Rightarrow> (int \<Rightarrow> kernel) \<Rightarrow> (int \<Rightarrow> io_op) \<Rightarrow> io_sessions" where
  "start_all ids ks ops fd =
     Inr (session_begin io_begin (ids fd) (ks fd) (ops fd) (register_descriptor fd))"

definition deliver :: "(int \<Rightarrow> nat) \<Rightarrow> io_event \<Rightarrow> io_sessions \<Rightarrow> io_sessions" where
  "deliver ids ev ss =
     ss(fst ev := res_bind (ss (fst ev)) (session_event io_work (ids (fst ev)) (snd ev)))"

definition event_callback ::
  "(int \<Rightarrow> nat) \<Rightarrow> (int \<Rightarrow> progress list \<Rightarrow> bool) \<Rightarrow> io_event \<Rightarrow> io_sessions callback" where
  "event_callback ids stops ev ss =
     (let ss' = deliver ids ev ss
      in (ss', case ss' (fst ev) of Inl f \<Rightarrow> False | Inr s \<Rightarrow> stops (fst ev) (history s)))"

definition run_program ::
  "(int \<Rightarrow> nat) \<Rightarrow> (int \<Rightarrow> kernel) \<Rightarrow> (int \<Rightarrow> io_op) \<Rightarrow> (int \<Rightarrow> progress list \<Rightarrow> bool) \<Rightarrow>
     io_event list list \<Rightarrow> io_service_impl \<Rightarrow> (io_sessions \<times> io_service_impl) option" where
  "run_program ids ks ops stops iterations svc =
     io_service_run (map (map (event_callback ids stops)) iterations) (start_all ids ks ops) svc"

definition events_of :: "int \<Rightarrow> io_event list \<Rightarrow> (u32 \<times> kernel) list" where
  "events_of fd evs = map snd (filter (\<lambda>ev. fst ev = fd) evs)"

text \<open>The sessions do not touch each other: each sees the events of its descriptor.\<close>

lemma deliver_all: "fold (deliver ids) evs ss fd = feed_events io_work (ids fd) (events_of fd evs) (ss fd)"
  by (induction evs arbitrary: ss) (auto simp: deliver_def events_of_def)

lemma client_after_callbacks:
  "client_after (map (event_callback ids stops) evs) ss = fold (deliver ids) evs ss"
  by (induction evs arbitrary: ss) (simp_all add: client_after_def event_callback_def Let_def)

lemma start_all_session:
  "feed_events io_work (ids fd) evs (start_all ids ks ops fd) =
     run_session io_begin io_work (ids fd) fd (ks fd) evs (ops fd)"
  by (simp add: start_all_def run_session_def)

text \<open>
  What one operation does alone with the events of its descriptor, and whether one more event
  comes that calls it after it has finished.
\<close>

definition alone :: "kernel \<Rightarrow> io_op \<Rightarrow> (u32 \<times> kernel) list \<Rightarrow> io_op \<times> progress list" where
  "alone k op evs = await_operation io_begin io_work k (results_of (op_kind op) evs) op"

definition overrun :: "kernel \<Rightarrow> io_op \<Rightarrow> (u32 \<times> kernel) list \<Rightarrow> bool" where
  "overrun k op evs \<longleftrightarrow> called_late (results_of (op_kind op) evs) (snd (alone k op evs))"

lemma session_alone:
  "if overrun k op evs then run_session io_begin io_work n fd k evs op = Inl Bad_Access
   else \<exists>s. run_session io_begin io_work n fd k evs op = Inr s \<and> (operation s, history s) = alone k op evs"
  using sockets_io.session_is_operation [of op evs k n fd]
  by (simp add: alone_def overrun_def Let_def split: prod.splits)

section \<open>Properties\<close>

text \<open>Whether the callbacks of one iteration stop the service, in terms of the operations alone.\<close>

definition stop_after :: "(int \<Rightarrow> kernel) \<Rightarrow> (int \<Rightarrow> io_op) \<Rightarrow> (int \<Rightarrow> progress list \<Rightarrow> bool) \<Rightarrow>
    io_event list \<Rightarrow> io_event list \<Rightarrow> bool" where
  "stop_after ks ops stops before evs \<longleftrightarrow>
     (\<exists>i < length evs. let fd = fst (evs ! i); seen = events_of fd (before @ take (Suc i) evs)
        in \<not> overrun (ks fd) (ops fd) seen \<and> stops fd (snd (alone (ks fd) (ops fd) seen)))"

lemma stops_in_callbacks:
  "stops_in (map (event_callback ids stops) evs) (fold (deliver ids) before (start_all ids ks ops)) \<longleftrightarrow>
     stop_after ks ops stops before evs"
proof (induction evs arbitrary: before)
  case Nil
  show ?case by (simp add: stop_after_def)
next
  case (Cons ev evs)
  let ?fd = "fst ev" and ?ss = "fold (deliver ids) (before @ [ev]) (start_all ids ks ops)"
  let ?seen = "events_of ?fd (before @ [ev])"
  have "?ss ?fd = run_session io_begin io_work (ids ?fd) ?fd (ks ?fd) ?seen (ops ?fd)"
    unfolding deliver_all by (rule start_all_session)
  then have h: "(case ?ss ?fd of Inl f \<Rightarrow> False | Inr s \<Rightarrow> stops ?fd (history s)) \<longleftrightarrow>
      \<not> overrun (ks ?fd) (ops ?fd) ?seen \<and> stops ?fd (snd (alone (ks ?fd) (ops ?fd) ?seen))"
    using session_alone [of "ks ?fd" "ops ?fd" ?seen "ids ?fd" ?fd]
    by (auto split: if_splits dest: arg_cong [of _ _ snd])
  have "stop_after ks ops stops before (ev # evs) \<longleftrightarrow>
      (case ?ss ?fd of Inl f \<Rightarrow> False | Inr s \<Rightarrow> stops ?fd (history s)) \<or>
      stop_after ks ops stops (before @ [ev]) evs"
    unfolding h by (auto simp: stop_after_def Let_def less_Suc_eq_0_disj)
  then show ?case
    using Cons.IH [of "before @ [ev]"] by (simp add: event_callback_def Let_def)
qed

text \<open>
  C28: a program on one service is its operations, each alone, up to the first call of a finished
  operation. Let every descriptor have one awaited operation, and let the loop deliver events of all
  descriptors in any interleaving. If some iteration makes a coroutine stop the service, then \<open>run\<close>
  returns at the end of the first such iteration. By then every operation is in the state, and
  has done exactly the things, that it would have reached alone with the events of its own
  descriptor up to that iteration, or \<open>work\<close> has been called on it after it had finished; and that
  is the case exactly when more events of its kind came than it consumed, because the service keeps
  watching the descriptor. After such a call the behaviour of the whole program is undefined.
\<close>

theorem program_runs_operations_alone:
  assumes "running svc" and "n < length its"
    and "\<forall>i < n. \<not> stop_after ks ops stops (concat (take i its)) (its ! i)"
    and "stop_after ks ops stops (concat (take n its)) (its ! n)"
  shows "\<exists>ss. run_program ids ks ops stops its svc = Some (ss, io_service_stop svc) \<and>
    (\<forall>fd. let seen = events_of fd (concat (take (Suc n) its))
      in if overrun (ks fd) (ops fd) seen then ss fd = Inl Bad_Access
         else \<exists>s. ss fd = Inr s \<and> (operation s, history s) = alone (ks fd) (ops fd) seen)"
proof -
  let ?cs = "map (map (event_callback ids stops)) its" and ?ss = "start_all ids ks ops"
  have after: "client_after (concat (take i ?cs)) ?ss = fold (deliver ids) (concat (take i its)) ?ss" for i
    by (simp add: take_map map_concat [symmetric] client_after_callbacks)
  have stop: "stops_in (?cs ! i) (client_after (concat (take i ?cs)) ?ss) \<longleftrightarrow>
      stop_after ks ops stops (concat (take i its)) (its ! i)" if "i < length its" for i
    using that stops_in_callbacks by (simp add: after)
  have "run_program ids ks ops stops its svc =
      Some (fold (deliver ids) (concat (take (Suc n) its)) ?ss, io_service_stop svc)"
    unfolding run_program_def after [symmetric]
    using assms stop by (intro run_until_stop) auto
  then show ?thesis
    using session_alone by (simp add: deliver_all start_all_session Let_def)
qed

text \<open>
  A pair of sockets 3 and 4: one coroutine receives two bytes and then stops the service, another
  sends. At first both calls would block; then the send buffer has room and the bytes arrive.
\<close>

definition kernel_of :: "sys \<times> u8 list \<Rightarrow> sys \<Rightarrow> kernel" where
  "kernel_of incoming outgoing =
     \<lparr>sys_bind = (\<lambda>_ _ _. Done 0), sys_connect = (\<lambda>_ _ _. Done 0), sys_listen = (\<lambda>_ _. Done 0),
      sys_accept = (\<lambda>_ _. (Failed EAGAIN, [], 0)), sys_socketpair = Inr (3, 4),
      sys_send = (\<lambda>_ _ _. outgoing), sys_recv = (\<lambda>_ _ _. incoming),
      sys_read = (\<lambda>_ _. (Done 0, [])), sys_write = (\<lambda>_ _. Done 0), sys_shutdown = (\<lambda>_ _. Done 0),
      sys_close = (\<lambda>_. Done 0), sys_getsockname = (\<lambda>_ _. (Done 0, [], 0)),
      sys_getpeername = (\<lambda>_ _. (Done 0, [], 0))\<rparr>"

definition busy :: kernel where
  "busy = kernel_of (Failed EAGAIN, []) (Failed EAGAIN)"

definition ready :: kernel where
  "ready = kernel_of (Done 2, [104, 105]) (Done 2)"

definition pair_ops :: "int \<Rightarrow> io_op" where
  "pair_ops fd = (if fd = 3 then api_recv (socket_internal_init 0 3 0) [0, 0] 2
                  else api_send (socket_internal_init 0 4 1) [104, 105])"

definition pair_events :: "io_event list list" where
  "pair_events = [[(4, EV_WRITE, ready)], [(3, EV_READ, ready)], [(3, EV_READ, busy)]]"

definition reader_done :: "int \<Rightarrow> progress list \<Rightarrow> bool" where
  "reader_done fd ps = (fd = 3 \<and> last ps = Resumed)"

lemmas pair_defs = kernel_of_def busy_def ready_def pair_ops_def pair_events_def reader_done_def
  api_recv_def api_send_def socket_internal_init_def alone_def await_operation_def events_of_def
  results_of_def effective_def watched_def io_kind_int_def EV_READ_def EV_WRITE_def
  overrun_def called_late_def store_bytes_def recv_space_def
  recv_begin_def recv_work_def send_begin_def send_work_def internal_recv_def internal_send_def
  impl_recv_def impl_send_def socket_recv_operation_def socket_send_operation_def

lemma pair_stops:
  "\<not> stop_after (\<lambda>_. busy) pair_ops reader_done [] [(4, EV_WRITE, ready)]"
  "stop_after (\<lambda>_. busy) pair_ops reader_done [(4, EV_WRITE, ready)] [(3, EV_READ, ready)]"
  by (simp_all add: stop_after_def pair_defs)

theorem program_runs_operations_alone_witness:
  "case run_program nat (\<lambda>_. busy) pair_ops reader_done pair_events
      \<lparr>running = True, event_loop = Default_Loop, process_monitor = False\<rparr> of
     Some (ss, svc) \<Rightarrow> \<not> running svc \<and>
       (\<exists>s3 s4. ss 3 = Inr s3 \<and> ss 4 = Inr s4 \<and> history s3 = [Armed Io_Read, Resumed] \<and>
         history s4 = [Armed Io_Write, Resumed])
   | None \<Rightarrow> False"
proof -
  let ?svc = "\<lparr>running = True, event_loop = Default_Loop, process_monitor = False\<rparr>"
  have "\<forall>i < 1. \<not> stop_after (\<lambda>_. busy) pair_ops reader_done (concat (take i pair_events)) (pair_events ! i)"
    and "stop_after (\<lambda>_. busy) pair_ops reader_done (concat (take 1 pair_events)) (pair_events ! 1)"
    using pair_stops by (simp_all add: pair_events_def)
  from program_runs_operations_alone [OF _ _ this, of ?svc nat]
  obtain ss where run: "run_program nat (\<lambda>_. busy) pair_ops reader_done pair_events ?svc =
        Some (ss, io_service_stop ?svc)"
    and ss: "\<And>fd. let seen = events_of fd (concat (take (Suc 1) pair_events))
      in if overrun busy (pair_ops fd) seen then ss fd = Inl Bad_Access
         else \<exists>s. ss fd = Inr s \<and> (operation s, history s) = alone busy (pair_ops fd) seen"
    by (auto simp: pair_events_def)
  have "\<exists>s. ss 3 = Inr s \<and> history s = [Armed Io_Read, Resumed]"
    "\<exists>s. ss 4 = Inr s \<and> history s = [Armed Io_Write, Resumed]"
    using ss [of 3] ss [of 4] by (auto simp: pair_defs)
  then show ?thesis unfolding run by (auto simp: io_service_stop_def)
qed

text \<open>
  The loop that goes on one iteration longer reports again that socket 4 can be written to: the
  send, which has finished, is called.
\<close>

lemma finished_send_is_called:
  "overrun busy (pair_ops 4) [(EV_WRITE, ready), (EV_WRITE, ready)]"
  by (simp add: pair_defs)

section \<open>Two operations on one descriptor\<close>

text \<open>
  A descriptor has room for one operation: a second one that waits on the same socket, say to
  send while another coroutine receives, takes the place of the first. No event reaches the
  first any more, and its coroutine never goes on unless something arms it again.
\<close>

lemma second_operation_replaces_first:
  assumes "n1 \<noteq> n2"
  shows "ev_notification events (start_io k2 n2 (start_io k1 n1 d)) \<noteq> Some (Inr n1)"
  using assms by (auto simp: ev_notification_def start_io_def Let_def)

lemma replaced_operation_starves:
  assumes "n1 \<noteq> n2" and "current_op (data s) = Some n2"
  shows "feed_events io_work n1 evs (Inr s) = Inr s"
  using assms by (induction evs) (auto simp: session_event_def ev_notification_def)

end
