(* ===== verification/List_Programs.thy ===== *)
theory List_Programs
  imports Intrusive_List
begin

text \<open>
  Programs over many intrusive lists (\<open>containers/list.hpp\<close>). Items may have several entries and be
  in several lists at once; an entry that is in no list is a ring of its own, like an empty
  list. The abstract state maps every list head and every lone entry to the entries of its
  ring; it says which sequences the lists of the heap hold, and that no two share an entry.
\<close>

type_synonym lists = "u64 \<Rightarrow> u64 list option"

definition apart :: "lists \<Rightarrow> bool" where
  "apart ls \<longleftrightarrow>
     (\<forall>x y es os. ls x = Some es \<and> ls y = Some os \<and> x \<noteq> y \<longrightarrow> set (x # es) \<inter> set (y # os) = {})"

definition rings :: "heap \<Rightarrow> lists \<Rightarrow> bool" where
  "rings h ls \<longleftrightarrow> (\<forall>x es. ls x = Some es \<longrightarrow> ring h x es) \<and> apart ls"

definition occurs :: "u64 \<Rightarrow> lists \<Rightarrow> bool" where
  "occurs e ls \<longleftrightarrow> (\<exists>x es. ls x = Some es \<and> e \<in> set (x # es))"

section \<open>Commands\<close>

text \<open>
  Entries are constructed and destroyed, pushed at either end of a list and removed. The list
  that \<open>Remove\<close> names is the one the entry is in; the code finds it by itself.
\<close>

datatype list_command =
    Construct u64
  | Push_Back u64 u64
  | Push_Front u64 u64
  | Remove u64 u64
  | Remove_Lone u64
  | Destruct u64

fun list_step :: "list_command \<Rightarrow> heap \<Rightarrow> heap" where
  "list_step (Construct e) h = entry_construct e h"
| "list_step (Push_Back x e) h = insert_before e x h"
| "list_step (Push_Front x e) h = insert_after e x h"
| "list_step (Remove x e) h = entry_remove e h"
| "list_step (Remove_Lone e) h = entry_remove e h"
| "list_step (Destruct e) h = entry_remove e h"

fun spec_step :: "list_command \<Rightarrow> lists \<Rightarrow> lists" where
  "spec_step (Construct e) ls = ls(e \<mapsto> [])"
| "spec_step (Push_Back x e) ls = ls(e := None, x \<mapsto> the (ls x) @ [e])"
| "spec_step (Push_Front x e) ls = ls(e := None, x \<mapsto> e # the (ls x))"
| "spec_step (Remove x e) ls = ls(x \<mapsto> remove1 e (the (ls x)), e \<mapsto> [])"
| "spec_step (Remove_Lone e) ls = ls"
| "spec_step (Destruct e) ls = ls(e := None)"

text \<open>
  What a program has to respect: it constructs entries in fresh memory, pushes entries that are
  in no list, removes what is there and destroys what is in no list (\<open>~ListEntry\<close> removes first).
\<close>

fun allowed :: "list_command \<Rightarrow> lists \<Rightarrow> bool" where
  "allowed (Construct e) ls \<longleftrightarrow> \<not> occurs e ls"
| "allowed (Push_Back x e) ls \<longleftrightarrow> ls x \<noteq> None \<and> ls e = Some [] \<and> e \<noteq> x"
| "allowed (Push_Front x e) ls \<longleftrightarrow> ls x \<noteq> None \<and> ls e = Some [] \<and> e \<noteq> x"
| "allowed (Remove x e) ls \<longleftrightarrow> ls x \<noteq> None \<and> e \<in> set (the (ls x))"
| "allowed (Remove_Lone e) ls \<longleftrightarrow> ls e = Some []"
| "allowed (Destruct e) ls \<longleftrightarrow> ls e = Some []"

fun all_allowed :: "list_command list \<Rightarrow> lists \<Rightarrow> bool" where
  "all_allowed [] ls \<longleftrightarrow> True"
| "all_allowed (c # cs) ls \<longleftrightarrow> allowed c ls \<and> all_allowed cs (spec_step c ls)"

section \<open>Each command keeps every list\<close>

lemma rings_ring: "rings h ls \<Longrightarrow> ls x = Some es \<Longrightarrow> ring h x es"
  by (simp add: rings_def)

lemma rings_disjoint:
  "rings h ls \<Longrightarrow> ls x = Some es \<Longrightarrow> ls y = Some os \<Longrightarrow> x \<noteq> y \<Longrightarrow> set (x # es) \<inter> set (y # os) = {}"
  unfolding rings_def apart_def by blast

lemma apartI:
  assumes "apart ls" and "\<And>x es. ls' x = Some es \<Longrightarrow> x \<noteq> a \<Longrightarrow> x \<noteq> b \<Longrightarrow> ls x = Some es"
    and "\<And>x es os. ls' a = Some es \<Longrightarrow> ls' x = Some os \<Longrightarrow> x \<noteq> a \<Longrightarrow> set (a # es) \<inter> set (x # os) = {}"
    and "\<And>x es os. ls' b = Some es \<Longrightarrow> ls' x = Some os \<Longrightarrow> x \<noteq> b \<Longrightarrow> set (b # es) \<inter> set (x # os) = {}"
  shows "apart ls'"
  unfolding apart_def
proof (intro allI impI, elim conjE)
  fix x y es os
  assume x: "ls' x = Some es" and y: "ls' y = Some os" and "x \<noteq> y"
  consider "x = a" | "x = b" | "y = a" | "y = b" | "x \<notin> {a, b}" "y \<notin> {a, b}" by auto
  then show "set (x # es) \<inter> set (y # os) = {}"
  proof cases
    case 5
    then have "ls x = Some es" "ls y = Some os" using assms(2) x y by auto
    with assms(1) \<open>x \<noteq> y\<close> show ?thesis unfolding apart_def by blast
  qed (use assms(3,4) x y \<open>x \<noteq> y\<close> in \<open>metis Int_commute\<close>)+
qed

lemma apart_push:
  assumes "apart ls" "ls x = Some es" "ls e = Some []" "set fs = insert e (set es)" "e \<noteq> x"
  shows "apart (ls(e := None, x \<mapsto> fs))"
proof (rule apartI [OF assms(1), where a = x and b = e])
  fix y gs os
  assume y: "(ls(e := None, x \<mapsto> fs)) x = Some gs" "(ls(e := None, x \<mapsto> fs)) y = Some os" "y \<noteq> x"
  then have "ls y = Some os" "y \<noteq> e" by (auto split: if_splits)
  with assms y have "set (x # es) \<inter> set (y # os) = {}" "set (e # []) \<inter> set (y # os) = {}"
    unfolding apart_def by metis+
  with y assms(4) show "set (x # gs) \<inter> set (y # os) = {}" by auto
qed (use assms(5) in \<open>auto split: if_splits\<close>)

lemma apart_remove:
  assumes "apart ls" "ls x = Some es" "e \<in> set es" "set fs = set es - {e}" "e \<noteq> x"
  shows "apart (ls(x \<mapsto> fs, e \<mapsto> []))"
proof -
  have other: "set (x # es) \<inter> set (y # os) = {}" if "ls y = Some os" "y \<noteq> x" for y os
    using assms(1,2) that unfolding apart_def by metis
  show ?thesis
    by (rule apartI [OF assms(1), where a = x and b = e])
      (use other assms(3-) in \<open>fastforce split: if_splits\<close>)+
qed

lemma rings_construct:
  assumes "rings h ls" "\<not> occurs e ls"
  shows "rings (entry_construct e h) (ls(e \<mapsto> []))"
proof -
  have "ring (entry_construct e h) e []"
    by (simp add: ring_def entry_construct_def)
  moreover have "ring (entry_construct e h) x es" if "ls x = Some es" for x es
    by (rule ring_other [OF rings_ring [OF assms(1) that]])
      (use assms(2) that in \<open>auto simp: occurs_def entry_construct_def\<close>)
  moreover have "apart (ls(e \<mapsto> []))"
    by (rule apartI [where ls = ls and a = e and b = e])
      (use assms in \<open>auto simp: rings_def occurs_def\<close>)
  ultimately show ?thesis by (simp add: rings_def)
qed

lemma rings_push_back:
  assumes "rings h ls" "ls x = Some es" "ls e = Some []" "e \<noteq> x"
  shows "rings (insert_before e x h) (ls(e := None, x \<mapsto> es @ [e]))"
proof -
  have e: "e \<notin> set (x # es)" using rings_disjoint [OF assms(1,2,3)] assms(4) by auto
  have "ring (insert_before e x h) x (es @ [e])"
    by (rule ring_insert_before [OF rings_ring [OF assms(1,2)] e])
  moreover have "ring (insert_before e x h) y os" if "ls y = Some os" "y \<noteq> e" "y \<noteq> x" for y os
    using rings_disjoint [OF assms(1,2) that(1)] rings_disjoint [OF assms(1,3) that(1)] that(2,3)
    by (intro insert_before_other [OF rings_ring [OF assms(1,2)] rings_ring [OF assms(1) that(1)] e]) auto
  moreover have "apart (ls(e := None, x \<mapsto> es @ [e]))"
    by (rule apart_push [OF _ assms(2,3) _ assms(4)]) (use assms(1) in \<open>auto simp: rings_def\<close>)
  ultimately show ?thesis by (simp add: rings_def)
qed

lemma rings_push_front:
  assumes "rings h ls" "ls x = Some es" "ls e = Some []" "e \<noteq> x"
  shows "rings (insert_after e x h) (ls(e := None, x \<mapsto> e # es))"
proof -
  have e: "e \<notin> set (x # es)" using rings_disjoint [OF assms(1,2,3)] assms(4) by auto
  have "ring (insert_after e x h) x (e # es)"
    by (rule ring_insert_after [OF rings_ring [OF assms(1,2)] e])
  moreover have "ring (insert_after e x h) y os" if "ls y = Some os" "y \<noteq> e" "y \<noteq> x" for y os
    using rings_disjoint [OF assms(1,2) that(1)] rings_disjoint [OF assms(1,3) that(1)] that(2,3)
    by (intro insert_after_other [OF rings_ring [OF assms(1,2)] rings_ring [OF assms(1) that(1)] e]) auto
  moreover have "apart (ls(e := None, x \<mapsto> e # es))"
    by (rule apart_push [OF _ assms(2,3) _ assms(4)]) (use assms(1) in \<open>auto simp: rings_def\<close>)
  ultimately show ?thesis by (simp add: rings_def)
qed

lemma rings_remove:
  assumes "rings h ls" "ls x = Some es" "e \<in> set es"
  shows "rings (entry_remove e h) (ls(x \<mapsto> remove1 e es, e \<mapsto> []))"
proof -
  note r = rings_ring [OF assms(1,2)]
  have d: "distinct (x # es)" using r by (simp add: ring_def)
  then have f: "remove1 e es = filter (\<lambda>y. y \<noteq> e) es"
    by (simp add: distinct_remove1_removeAll removeAll_filter_not_eq eq_commute)
  have "e \<noteq> x" using d assms(3) by auto
  have "ring (entry_remove e h) x (remove1 e es)" "ring (entry_remove e h) e []"
    using entry_remove_ring [OF r assms(3)] f by simp_all
  moreover have other: "ring (entry_remove e h) y os" if "ls y = Some os" "y \<noteq> x" for y os
    by (rule entry_remove_other [OF r rings_ring [OF assms(1) that(1)] assms(3)
          rings_disjoint [OF assms(1,2) that(1) that(2) [symmetric]]])
  moreover have "apart (ls(x \<mapsto> remove1 e es, e \<mapsto> []))"
    by (rule apart_remove [where ls = ls and es = es])
      (use assms d f \<open>e \<noteq> x\<close> in \<open>auto simp: rings_def\<close>)
  ultimately show ?thesis using \<open>e \<noteq> x\<close> by (simp add: rings_def)
qed

lemma rings_destruct: "rings h ls \<Longrightarrow> rings h (ls(e := None))"
  unfolding rings_def apart_def by (auto split: if_splits)

lemma rings_step:
  assumes "rings h ls" "allowed c ls"
  shows "rings (list_step c h) (spec_step c ls)"
  using assms
  by (cases c)
    (auto simp: rings_construct rings_push_back rings_push_front rings_remove rings_destruct
      entry_remove_alone [OF rings_ring])

lemma rings_program:
  "rings h ls \<Longrightarrow> all_allowed cs ls \<Longrightarrow> rings (fold list_step cs h) (fold spec_step cs ls)"
  by (induction cs arbitrary: h ls) (simp_all add: rings_step)

lemma ring_observers:
  assumes "ring h x es"
  shows "list_empty x h \<longleftrightarrow> es = []"
    and "list_front offset x h = (if es = [] then None else Some (from_entry offset (hd es)))"
    and "list_back offset x h = (if es = [] then None else Some (from_entry offset (last es)))"
  using ring_empty_iff [OF assms] ring_ends [OF assms] by (simp_all add: list_front_def list_back_def)

section \<open>Properties\<close>

text \<open>
  C8: programs over any number of intrusive lists refine programs over disjoint sequences: after
  any sequence of allowed constructions, pushes, removals and destructions, every list of the
  program is a ring through its entries, and testing for emptiness and asking for the front and
  the back give what the same commands on sequences give.
\<close>

theorem list_programs_refine:
  assumes "rings h ls" and "all_allowed cs ls" and "fold spec_step cs ls x = Some es"
  shows "ring (fold list_step cs h) x es \<and>
    (list_empty x (fold list_step cs h) \<longleftrightarrow> es = []) \<and>
    list_front offset x (fold list_step cs h) = (if es = [] then None else Some (from_entry offset (hd es))) \<and>
    list_back offset x (fold list_step cs h) = (if es = [] then None else Some (from_entry offset (last es)))"
proof -
  have "ring (fold list_step cs h) x es"
    using rings_ring [OF rings_program [OF assms(1,2)] assms(3)] .
  with ring_observers(1) [OF this] ring_observers(2,3) [OF this, of offset] show ?thesis by blast
qed

lemma rings_empty: "rings h Map.empty"
  by (simp add: rings_def apart_def)

lemma occurs_simps [simp]:
  "\<not> occurs e Map.empty"
  "\<not> occurs e ls \<Longrightarrow> \<not> occurs e (ls(x := None))"
  "\<not> occurs e ls \<Longrightarrow> e \<notin> set (x # es) \<Longrightarrow> \<not> occurs e (ls(x \<mapsto> es))"
  by (auto simp: occurs_def split: if_splits)

definition two_entries :: "list_command list" where
  "two_entries =
     [Construct 100, Construct 208, Construct 308, Push_Back 100 208, Push_Front 100 308,
      Remove 100 208, Destruct 208]"

lemma list_programs_refine_witness:
  "list_front 8 100 (fold list_step two_entries fresh_heap) = Some 300"
proof -
  have "all_allowed two_entries Map.empty" "fold spec_step two_entries Map.empty 100 = Some [308]"
    by (simp_all add: two_entries_def)
  from list_programs_refine [OF rings_empty this, where offset = 8] show ?thesis
    by (simp add: from_entry_def)
qed

end
