(* ===== verification/Unit_Tests.thy ===== *)
theory Unit_Tests
  imports Fnv_Hash Checked_Int Packed_Ptr List_Programs Expected Error_Code Assertion Scope_Guard
begin

text \<open>
  The library's own tests under \<open>src/test\<close>, as functions over the models: each definition is one
  test, written as the test is, whose value is the conjunction of what it requires. That they
  hold ties the models to what the authors check. The tests that need threads and coroutines
  are in \<open>Task_Tests\<close>, \<open>Event_Programs\<close>, \<open>Io_Sequence\<close> and \<open>Process_Program\<close>.
\<close>

section \<open>Bindings of list entries\<close>

text \<open>
  The macros of \<open>list.hpp\<close> name an entry by the hash of a string; two entries of one type must
  not have the same hash, or their offsets are defined twice.
\<close>

definition ascii :: "string \<Rightarrow> u8 list" where
  "ascii s = map of_char s"

definition list_binding_string :: "string \<Rightarrow> string \<Rightarrow> string" where
  "list_binding_string type field = ''ListEntry<'' @ type @ ''>::'' @ field"

definition list_binding :: "string \<Rightarrow> string \<Rightarrow> u32 option" where
  "list_binding type field = fnv1a_32 (c_string (ascii (list_binding_string type field))) val_32_const"

definition slist_binding_string :: "string \<Rightarrow> string \<Rightarrow> string" where
  "slist_binding_string type field = ''SListEntry<'' @ type @ ''>::'' @ field"

definition slist_binding :: "string \<Rightarrow> string \<Rightarrow> u32 option" where
  "slist_binding type field = fnv1a_32 (c_string (ascii (slist_binding_string type field))) val_32_const"

text \<open>The bindings of \<open>test/list_ut.cpp\<close> do not clash.\<close>

lemma test_bindings_distinct:
  "distinct [list_binding ''in_list'' ''entry1'', list_binding ''in_list'' ''entry2'',
     slist_binding ''in_slist'' ''entry1'', slist_binding ''in_slist'' ''entry2'', None]"
  by code_simp

section \<open>\<open>test/list_ut.cpp\<close>\<close>

text \<open>
  \<open>struct in_list\<close> has an \<open>int\<close> and two entries of two pointers each, at the offsets 8 and 24;
  \<open>struct the_list\<close> has two list heads. The addresses \<open>new\<close> returns are parameters; the data of
  an item is a map.
\<close>

definition entry1_offset :: u64 where "entry1_offset = 8"
definition entry2_offset :: u64 where "entry2_offset = 24"

record list_memory =
  entries :: heap
  data :: "u64 \<Rightarrow> int"

definition new_in_list :: "u64 \<Rightarrow> int \<Rightarrow> list_memory \<Rightarrow> list_memory" where
  "new_in_list item v m =
     \<lparr>entries = entry_construct (to_entry entry2_offset item)
        (entry_construct (to_entry entry1_offset item) (entries m)),
      data = (data m)(item := v)\<rparr>"

definition delete_in_list :: "u64 \<Rightarrow> list_memory \<Rightarrow> list_memory" where
  "delete_in_list item m = m\<lparr>entries := delete_item [entry1_offset, entry2_offset] item (entries m)\<rparr>"

definition push1 :: "u64 \<Rightarrow> u64 \<Rightarrow> int \<Rightarrow> list_memory \<Rightarrow> list_memory" where
  "push1 list item v m =
     (let m = new_in_list item v m in m\<lparr>entries := push_back entry1_offset list item (entries m)\<rparr>)"

definition push2 :: "u64 \<Rightarrow> u64 \<Rightarrow> int \<Rightarrow> list_memory \<Rightarrow> list_memory" where
  "push2 list item v m =
     (let m = new_in_list item v m in m\<lparr>entries := push_back entry2_offset list item (entries m)\<rparr>)"

definition delete_front1 :: "u64 \<Rightarrow> list_memory \<Rightarrow> list_memory" where
  "delete_front1 list m =
     (case list_front entry1_offset list (entries m) of None \<Rightarrow> m | Some item \<Rightarrow> delete_in_list item m)"

definition delete_front2 :: "u64 \<Rightarrow> list_memory \<Rightarrow> list_memory" where
  "delete_front2 list m =
     (case list_front entry2_offset list (entries m) of None \<Rightarrow> m | Some item \<Rightarrow> delete_in_list item m)"

definition list_test :: "u64 \<Rightarrow> u64 \<Rightarrow> u64 \<Rightarrow> u64 \<Rightarrow> u64 \<Rightarrow> list_memory \<Rightarrow> bool" where
  "list_test list a b c d m =
     (let list1 = list; list2 = list + 16;
          m = m\<lparr>entries := entry_construct list2 (entry_construct list1 (entries m))\<rparr>;
          m = push1 list1 a 3 m; m = push1 list1 b 4 m; m = push2 list2 c 5 m; m = push2 list2 d 6 m;
          found = map_option (data m) (list_front entry1_offset list1 (entries m)) = Some 3 \<and>
            map_option (data m) (list_back entry1_offset list1 (entries m)) = Some 4 \<and>
            map_option (data m) (list_front entry2_offset list2 (entries m)) = Some 5 \<and>
            map_option (data m) (list_back entry2_offset list2 (entries m)) = Some 6;
          m = delete_front1 list1 m; m = delete_front1 list1 m;
          m = delete_front2 list2 m; m = delete_front2 list2 m
      in found \<and> list_empty list1 (entries m) \<and> list_empty list2 (entries m))"

text \<open>
  Every step of the test is a few commands of \<open>List_Programs\<close>, so what the test finds is what
  the sequences of entries say.
\<close>

definition after :: "list_command list \<Rightarrow> list_memory \<Rightarrow> bool" where
  "after cs m \<longleftrightarrow> entries m = fold list_step cs fresh_heap \<and> all_allowed cs Map.empty"

lemma after_observers:
  assumes "after cs m" and "fold spec_step cs Map.empty x = Some es"
  shows "list_empty x (entries m) \<longleftrightarrow> es = []"
    and "list_front offset x (entries m) = (if es = [] then None else Some (from_entry offset (hd es)))"
    and "list_back offset x (entries m) = (if es = [] then None else Some (from_entry offset (last es)))"
  using assms ring_observers [OF rings_ring [OF rings_program [OF rings_empty]]] by (simp_all add: after_def)

lemma all_allowed_append:
  "all_allowed (cs @ ds) ls \<longleftrightarrow> all_allowed cs ls \<and> all_allowed ds (fold spec_step cs ls)"
  by (induction cs arbitrary: ls) simp_all

lemma after_push:
  assumes "after cs m"
  shows "all_allowed [Construct (item + 8), Construct (item + 24), Push_Back list (item + 8)] (fold spec_step cs Map.empty)
      \<Longrightarrow> after (cs @ [Construct (item + 8), Construct (item + 24), Push_Back list (item + 8)]) (push1 list item v m)"
    and "all_allowed [Construct (item + 8), Construct (item + 24), Push_Back list (item + 24)] (fold spec_step cs Map.empty)
      \<Longrightarrow> after (cs @ [Construct (item + 8), Construct (item + 24), Push_Back list (item + 24)]) (push2 list item v m)"
  using assms
  by (simp_all add: after_def all_allowed_append push1_def push2_def new_in_list_def push_back_def
      to_entry_def entry1_offset_def entry2_offset_def)

lemma after_delete:
  assumes "after cs m"
  shows "fold spec_step cs Map.empty list = Some (e # es) \<Longrightarrow> fold spec_step cs Map.empty (e + 16) = Some []
      \<Longrightarrow> after (cs @ [Remove_Lone (e + 16), Remove list e]) (delete_front1 list m)"
    and "fold spec_step cs Map.empty list = Some (e # es) \<Longrightarrow> fold spec_step cs Map.empty (e - 16) = Some []
      \<Longrightarrow> after (cs @ [Remove list e, Remove_Lone (e - 16)]) (delete_front2 list m)"
proof -
  assume l: "fold spec_step cs Map.empty list = Some (e # es)"
  note f = after_observers(2) [OF assms l]
  show "after (cs @ [Remove_Lone (e + 16), Remove list e]) (delete_front1 list m)"
    if "fold spec_step cs Map.empty (e + 16) = Some []"
    using assms l that f [of entry1_offset]
    by (simp add: after_def all_allowed_append delete_front1_def delete_in_list_def delete_item_def
        to_entry_def from_entry_def entry1_offset_def entry2_offset_def add.commute [of 16 e])
  show "after (cs @ [Remove list e, Remove_Lone (e - 16)]) (delete_front2 list m)"
    if "fold spec_step cs Map.empty (e - 16) = Some []"
    using assms l that f [of entry2_offset]
    by (auto simp: after_def all_allowed_append delete_front2_def delete_in_list_def delete_item_def
        to_entry_def from_entry_def entry1_offset_def entry2_offset_def)
qed

text \<open>With the lists at \<open>0x1000\<close> and the items one cache line apart.\<close>

definition test_program :: "list_command list" where
  "test_program =
     [Construct 0x1000, Construct 0x1010,
      Construct 0x2008, Construct 0x2018, Push_Back 0x1000 0x2008,
      Construct 0x2048, Construct 0x2058, Push_Back 0x1000 0x2048,
      Construct 0x2088, Construct 0x2098, Push_Back 0x1010 0x2098,
      Construct 0x20c8, Construct 0x20d8, Push_Back 0x1010 0x20d8]"

lemma list_test_passes:
  "list_test 0x1000 0x2000 0x2040 0x2080 0x20c0 \<lparr>entries = fresh_heap, data = (\<lambda>_. 0)\<rparr>"
proof -
  define m where "m = push2 0x1010 0x20c0 6 (push2 0x1010 0x2080 5 (push1 0x1000 0x2040 4 (push1 0x1000 0x2000 3
    \<lparr>entries = entry_construct 0x1010 (entry_construct 0x1000 fresh_heap), data = (\<lambda>_. 0)\<rparr>)))"
  have d: "data m 0x2000 = 3" "data m 0x2040 = 4" "data m 0x2080 = 5" "data m 0x20c0 = 6"
    by (simp_all add: m_def push1_def push2_def new_in_list_def)
  have p: "after test_program m"
    by (simp add: m_def after_def test_program_def push1_def push2_def new_in_list_def push_back_def
        to_entry_def entry1_offset_def entry2_offset_def)
  let ?s = "fold spec_step test_program Map.empty"
  have s: "?s 0x1000 = Some [0x2008, 0x2048]" "?s 0x1010 = Some [0x2098, 0x20d8]"
    "?s 0x2018 = Some []" "?s 0x2058 = Some []" "?s 0x2088 = Some []" "?s 0x20c8 = Some []"
    by (simp_all add: test_program_def)
  note o1 = after_observers [OF p s(1)] and o2 = after_observers [OF p s(2)]
  let ?m1 = "delete_front1 0x1000 m"
  let ?m2 = "delete_front1 0x1000 ?m1"
  let ?m3 = "delete_front2 0x1010 ?m2"
  let ?m4 = "delete_front2 0x1010 ?m3"
  note a1 = after_delete(1) [OF p s(1)]
  have q: "after (test_program @ [Remove_Lone 0x2018, Remove 0x1000 0x2008]) ?m1" using a1 s by simp
  have q: "after (test_program @ [Remove_Lone 0x2018, Remove 0x1000 0x2008, Remove_Lone 0x2058, Remove 0x1000 0x2048]) ?m2"
    using after_delete(1) [OF q, of "0x1000" "0x2048" "[]"] s by simp
  have q: "after (test_program @ [Remove_Lone 0x2018, Remove 0x1000 0x2008, Remove_Lone 0x2058, Remove 0x1000 0x2048,
      Remove 0x1010 0x2098, Remove_Lone 0x2088]) ?m3"
    using after_delete(2) [OF q, of "0x1010" "0x2098" "[0x20d8]"] s by simp
  have q: "after (test_program @ [Remove_Lone 0x2018, Remove 0x1000 0x2008, Remove_Lone 0x2058, Remove 0x1000 0x2048,
      Remove 0x1010 0x2098, Remove_Lone 0x2088, Remove 0x1010 0x20d8, Remove_Lone 0x20c8]) ?m4"
    using after_delete(2) [OF q, of "0x1010" "0x20d8" "[]"] s by simp
  have "list_empty 0x1000 (entries ?m4)" "list_empty 0x1010 (entries ?m4)"
    using after_observers(1) [OF q, of "0x1000" "[]"] after_observers(1) [OF q, of "0x1010" "[]"] s by simp_all
  then show ?thesis
    using o1 o2 d
    by (simp add: list_test_def m_def [symmetric] entry1_offset_def entry2_offset_def from_entry_def)
qed

section \<open>\<open>test/scope_guard_ut.cpp\<close>\<close>

text \<open>
  A guard whose callable is a lambda with reference captures: copying it does not throw. The
  state is the local variable; the value of a \<open>return\<close> is computed before the guards run.
\<close>

definition scope_exit :: "('s \<Rightarrow> 's) \<Rightarrow> 's statement" where
  "scope_exit f = Scope_Exit True None (\<lambda>s. (f s, None))"

definition act :: "('s \<Rightarrow> 's) \<Rightarrow> 's statement" where
  "act f = Act (\<lambda>s. (f s, None))"

text \<open>State: the variable \<open>a\<close> and the value that is returned.\<close>

definition scope_return :: "(int \<times> int) outcome" where
  "scope_return = run_block True
     [act (\<lambda>(a, r). (3, r)), scope_exit (\<lambda>(a, r). (4, r)), act (\<lambda>(a, r). (a, a))] [] (0, 0)"

definition scope_return2 :: "(int \<times> int) outcome" where
  "scope_return2 =
     (case run_block True [scope_exit (\<lambda>(a, r). (4, r))] [] (3, 0) of
        Normal s \<Rightarrow> run_block True [act (\<lambda>(a, r). (a, a))] [] s
      | other \<Rightarrow> other)"

definition scope_guard_order :: "int list outcome" where
  "scope_guard_order = run_block True [scope_exit (\<lambda>xs. xs @ [1]), scope_exit (\<lambda>xs. xs @ [2])] [] []"

text \<open>
  \<open>test\<close> holds two locks one after the other; the state has \<open>a_\<close>, \<open>b_\<close>, the variable \<open>*var\<close> and the
  value that is returned.
\<close>

definition lock :: "int \<times> int \<times> int \<times> int \<Rightarrow> int \<times> int \<times> int \<times> int" where
  "lock = (\<lambda>(a, b, var, r). (1, b, var, r))"

definition unlock :: "int \<times> int \<times> int \<times> int \<Rightarrow> int \<times> int \<times> int \<times> int" where
  "unlock = (\<lambda>(a, b, var, r). (0, b, var, r))"

definition lock2 :: "int \<times> int \<times> int \<times> int \<Rightarrow> int \<times> int \<times> int \<times> int" where
  "lock2 = (\<lambda>(a, b, var, r). (a, 1, var, r))"

definition unlock2 :: "int \<times> int \<times> int \<times> int \<Rightarrow> int \<times> int \<times> int \<times> int" where
  "unlock2 = (\<lambda>(a, b, var, r). (a, 0, var, r))"

definition locked_test :: "int \<Rightarrow> (int \<times> int \<times> int \<times> int) outcome" where
  "locked_test v = run_block True
     [act lock, scope_exit unlock, act (\<lambda>(a, b, var, r). (a, b, var + 4, r)),
      act lock2, scope_exit unlock2, act (\<lambda>(a, b, var, r). (a, b, var + 5, r)),
      act (\<lambda>(a, b, var, r). (a, b, var, var))] [] (0, 0, v, 0)"

lemma scope_guard_tests:
  "scope_return = Normal (4, 3)" "scope_return2 = Normal (4, 4)" "scope_guard_order = Normal [2, 1]"
  by code_simp+

text \<open>Both locks are released, and the value returned was read while both were held.\<close>

lemma locked_test_releases: "locked_test v = Normal (0, 0, v + 9, v + 9)"
  by (simp add: locked_test_def act_def scope_exit_def lock_def unlock_def lock2_def unlock2_def
      guard_construct_def guard_destroy_def execute_def make_failsafe_def failsafe_destroy_def
      dismiss_def catch_exception_def)

section \<open>\<open>test/assert_ut.cpp\<close>\<close>

text \<open>A handler that throws \<open>std::logic_error\<close>, exception 1, at the level \<open>ASSERT_LEVEL_NORMAL\<close>.\<close>

definition throwing_handler :: "unit handler" where
  "throwing_handler =
     \<lparr>handler_level = 2, throwing_exception_is_allowed = True, handle_noexcept = False,
      handle = (\<lambda>loc text args. Some 1)\<rparr>"

definition here :: Assertion.source_location where
  "here = \<lparr>file_name = ''assert_ut.cpp'', line_number = 0\<rparr>"

definition throws :: "unit \<times> unit res \<Rightarrow> bool" where
  "throws r = (case r of (_, Inl (Rethrown e)) \<Rightarrow> True | _ \<Rightarrow> False)"

definition assert_level :: "nat \<Rightarrow> bool \<Rightarrow> unit \<times> unit res" where
  "assert_level level b = check_assertion_level level throwing_handler (\<lambda>s. (s, Inr b)) here '''' () ()"

definition assert_plain :: "bool \<Rightarrow> unit \<times> unit res" where
  "assert_plain b = check_assertion throwing_handler (\<lambda>s. (s, Inr b)) here '''' () ()"

definition assertion_test :: bool where
  "assertion_test \<longleftrightarrow>
     throws (assert_level 1 False) \<and> assert_level 1 True = ((), Inr ()) \<and>
     assert_level 3 False = ((), Inr ()) \<and> assert_level 3 True = ((), Inr ()) \<and>
     throws (assert_plain False) \<and> assert_plain True = ((), Inr ())"

lemma assertion_test_passes: assertion_test
  by code_simp

section \<open>\<open>test/expected_ut.cpp\<close>\<close>

text \<open>
  \<open>expected<void, error_code>\<close> holding an error made with its location, and
  \<open>expected<int32_t, std::exception_ptr>\<close> with the throwing policy.
\<close>

definition trivial_elements :: "('t, 'e) elements" where
  "trivial_elements = \<lparr>copy_value = Inr, copy_error = Inr, move_value = (\<lambda>v. (v, v)), move_error = (\<lambda>e. (e, e))\<rparr>"

definition empty_ledger :: ledger where
  "empty_ledger = \<lparr>constructed = 0, destroyed = 0\<rparr>"

definition returns_null_error :: "exts \<Rightarrow> (unit, error_code) expected \<times> exts" where
  "returns_null_error exts =
     (case error_at 0 (- 3) (location_current ''expected_ut.cpp'' ''returns_null_error'' 12 0) exts of
        (e, exts) \<Rightarrow> (fst (expected_error_move trivial_elements e empty_ledger), exts))"

definition error_code_test :: bool where
  "error_code_test =
     (case returns_null_error (\<lambda>_. ext_default) of
        (v, exts) \<Rightarrow>
          (case error_access Error_Policy_Assert (\<lambda>_. None) v of
             Inr e \<Rightarrow> error_value e = - 3 \<and>
               function_name (ext_location (extended 0 exts e)) = ''returns_null_error''
           | Inl f \<Rightarrow> False))"

definition make_exception :: "nat \<Rightarrow> (int, nat) expected" where
  "make_exception e = fst (expected_error_move trivial_elements e empty_ledger)"

definition error_exception_test :: bool where
  "error_exception_test \<longleftrightarrow>
     (let v = make_exception 7 in is_error v \<and> \<not> is_value v \<and>
        value_lvalue Error_Policy_Throw Some v = Inl (Rethrown 7)) \<and>
     (case expected_value trivial_elements 0 empty_ledger of
        Inr (v, l) \<Rightarrow> \<not> is_error (v :: (int, nat) expected) \<and> is_value v \<and>
          value_lvalue Error_Policy_Throw Some v = Inr 0
      | Inl f \<Rightarrow> False)"

lemma expected_tests_pass: error_code_test error_exception_test
  by code_simp+

section \<open>\<open>test/integer_ut.cpp\<close> and \<open>test/packed_ptr_ut.cpp\<close>\<close>

definition integer_test :: "int cpp_call" where
  "integer_test =
     (case integer_from int32 (Integral_T int32) 3 of Returns i \<Rightarrow> integer_minus int32 i | r \<Rightarrow> r)"

text \<open>The test prints \<open>internal()\<close>; the exception is at \<open>ptr\<close>.\<close>

definition packed_test :: "u64 \<Rightarrow> u64" where
  "packed_test ptr = exc_set_small 7 (exc_set_value 0xffff (exc_set ptr packed_init))"

lemma integer_test_passes: "integer_test = Returns (- 3)"
  by code_simp

lemma packed_test_keeps_pointer:
  "exc_get (packed_test 0x7f00000010) = 0x7f00000010" "exc_value (packed_test 0x7f00000010) = 0xffff"
  "exc_small (packed_test 0x7f00000010) = 7"
  by code_simp+

end
