(* ===== verification/Intrusive_Slist.thy ===== *)
theory Intrusive_Slist
  imports Ref_Count
begin

text \<open>
  \<open>containers/intrusive_slist.hpp\<close>: a list whose links are counted pointers. \<open>push_back\<close>, \<open>push_front\<close>,
  \<open>front\<close> and \<open>next\<close> pass the arguments of a constructor in the wrong order, or to a function without
  parameters, and cannot be instantiated; the model reads them in the order of the constructor. The
  entry of an item takes and gives up references of the item, which counts them with
  \<open>intrusive_strong_reference\<close>, the counter the library has for that.
\<close>

section \<open>Items\<close>

record item =
  references :: u32
  next_entry :: "nat option"

text \<open>\<open>None\<close> is memory that is not an item, or no longer.\<close>

type_synonym items = "nat \<Rightarrow> item option"

definition entry_add_ref :: "nat \<Rightarrow> items \<Rightarrow> items res" where
  "entry_add_ref p h =
     (case h p of
        None \<Rightarrow> Inl Bad_Access
      | Some i \<Rightarrow> Inr (h(p \<mapsto> i\<lparr>references := intrusive_strong_ptr_add_ref (references i)\<rparr>)))"

text \<open>
  The last reference deletes the item, and the destructor of its entry gives up the next one
  before the memory is freed. \<open>None\<close> is a release that never returns.
\<close>

partial_function (option) entry_release :: "nat \<Rightarrow> items \<Rightarrow> items res option" where
  "entry_release p h =
     (case h p of
        None \<Rightarrow> Some (Inl Bad_Access)
      | Some i \<Rightarrow>
          (case intrusive_strong_ptr_release (references i) of (c, dead) \<Rightarrow>
             let h = h(p \<mapsto> i\<lparr>references := c\<rparr>)
             in if dead
                then (case next_entry i of
                        None \<Rightarrow> Some (Inr (h(p := None)))
                      | Some q \<Rightarrow>
                          Option.bind (entry_release q h) (\<lambda>r. Some (res_bind r (\<lambda>h. Inr (h(p := None)))))
                     )
                else Some (Inr h)))"

definition new_item :: "nat \<Rightarrow> items \<Rightarrow> items" where
  "new_item p h = h(p \<mapsto> \<lparr>references = strong_init, next_entry = None\<rparr>)"

section \<open>The list\<close>

text \<open>A list is its \<open>head_\<close>; \<open>curr\<close> and \<open>last\<close> are references to a handle in the list or in an entry.\<close>

datatype slot = Head | Next_Of nat

type_synonym islist = "nat option \<times> items"

fun slot_get :: "slot \<Rightarrow> islist \<Rightarrow> nat option res" where
  "slot_get Head (head, h) = Inr head"
| "slot_get (Next_Of p) (head, h) = (case h p of None \<Rightarrow> Inl Bad_Access | Some i \<Rightarrow> Inr (next_entry i))"

fun slot_set :: "slot \<Rightarrow> nat option \<Rightarrow> islist \<Rightarrow> islist res" where
  "slot_set Head v (head, h) = Inr (v, h)"
| "slot_set (Next_Of p) v (head, h) =
     (case h p of None \<Rightarrow> Inl Bad_Access | Some i \<Rightarrow> Inr (head, h(p \<mapsto> i\<lparr>next_entry := v\<rparr>)))"

definition islist_empty :: "islist \<Rightarrow> bool" where
  "islist_empty l \<longleftrightarrow> fst l = None"

text \<open>\<open>while (*curr) curr = &((*curr)->next_)\<close>\<close>

partial_function (option) seek_end :: "slot \<Rightarrow> islist \<Rightarrow> slot res option" where
  "seek_end cur l =
     (case slot_get cur l of
        Inl e \<Rightarrow> Some (Inl e)
      | Inr None \<Rightarrow> Some (Inr cur)
      | Inr (Some q) \<Rightarrow> seek_end (Next_Of q) l)"

text \<open>\<open>p\<close> is the address of the new item; its entry is moved into a handle that is null.\<close>

definition emplace_back :: "nat \<Rightarrow> islist \<Rightarrow> islist res option" where
  "emplace_back p l =
     (let l = (fst l, new_item p (snd l))
      in Option.bind (seek_end Head l) (\<lambda>r. Some (res_bind r (\<lambda>cur. slot_set cur (Some p) l))))"

text \<open>Assigning a handle copies it, swaps and destroys what the target held.\<close>

definition slot_copy :: "slot \<Rightarrow> nat option \<Rightarrow> islist \<Rightarrow> islist res option" where
  "slot_copy s v l =
     (case res_bind (case v of None \<Rightarrow> Inr (snd l) | Some q \<Rightarrow> entry_add_ref q (snd l)) (\<lambda>h.
        res_bind (slot_get s (fst l, h)) (\<lambda>old.
        res_bind (slot_set s v (fst l, h)) (\<lambda>l. Inr (old, l)))) of
        Inl e \<Rightarrow> Some (Inl e)
      | Inr (None, l) \<Rightarrow> Some (Inr l)
      | Inr (Some p, l) \<Rightarrow>
          Option.bind (entry_release p (snd l)) (\<lambda>r. Some (res_bind r (\<lambda>h. Inr (fst l, h)))))"

text \<open>
  The loop of \<open>back\<close>. \<open>last\<close> and \<open>curr\<close> are references, so the assignments in the loop change \<open>head_\<close>
  and the \<open>next_\<close> of the first item.
\<close>

partial_function (option) back_loop :: "slot \<Rightarrow> islist \<Rightarrow> islist res option" where
  "back_loop cur l =
     (case slot_get cur l of
        Inl e \<Rightarrow> Some (Inl e)
      | Inr None \<Rightarrow> Some (Inr l)
      | Inr (Some q) \<Rightarrow>
          Option.bind (slot_copy Head (Some q) l) (\<lambda>r.
            case r of
              Inl e \<Rightarrow> Some (Inl e)
            | Inr l \<Rightarrow>
                (case res_bind (slot_get cur l) (\<lambda>c. case c of None \<Rightarrow> Inl Bad_Access | Some q \<Rightarrow> slot_get (Next_Of q) l) of
                   Inl e \<Rightarrow> Some (Inl e)
                 | Inr v \<Rightarrow>
                     Option.bind (slot_copy cur v l) (\<lambda>r.
                       case r of Inl e \<Rightarrow> Some (Inl e) | Inr l \<Rightarrow> back_loop cur l))))"

text \<open>
  \<open>from_entry\<close> of the null pointer is a null item only when the entry is at offset 0; otherwise the
  handle is made from a pointer to nothing.
\<close>

definition islist_back :: "u64 \<Rightarrow> islist \<Rightarrow> (nat option \<times> islist) res option" where
  "islist_back offset l =
     Option.bind (case fst l of None \<Rightarrow> Some (Inr l) | Some a \<Rightarrow> back_loop (Next_Of a) l) (\<lambda>r.
       Some (res_bind r (\<lambda>l.
         case fst l of
           None \<Rightarrow> (if offset = 0 then Inr (None, l) else Inl Bad_Access)
         | Some p \<Rightarrow> res_bind (entry_add_ref p (snd l)) (\<lambda>h. Inr (Some p, fst l, h)))))"

text \<open>
  \<open>push_back\<close> and \<open>push_front\<close> get a handle that holds a reference, take another one for the entry, and
  give up the first when they return. \<open>push_back\<close> starts at the \<open>next_\<close> of the first item.
\<close>

definition give_up :: "nat \<Rightarrow> islist \<Rightarrow> islist res option" where
  "give_up p l = Option.bind (entry_release p (snd l)) (\<lambda>r. Some (res_bind r (\<lambda>h. Inr (fst l, h))))"

definition islist_push_back :: "nat \<Rightarrow> islist \<Rightarrow> islist res option" where
  "islist_push_back p l =
     (case entry_add_ref p (snd l) of
        Inl e \<Rightarrow> Some (Inl e)
      | Inr h \<Rightarrow>
          (case fst l of
             None \<Rightarrow> Some (Inl Bad_Access)
           | Some a \<Rightarrow>
               Option.bind (seek_end (Next_Of a) (fst l, h)) (\<lambda>r.
                 case res_bind r (\<lambda>cur. slot_set cur (Some p) (fst l, h)) of
                   Inl e \<Rightarrow> Some (Inl e)
                 | Inr l \<Rightarrow> give_up p l)))"

text \<open>
  The handle \<open>entry\<close> is copied into \<open>head_\<close>, what was there is moved into the entry's \<open>next_\<close>, and what
  that held is given up, before \<open>entry\<close> and the parameter are.
\<close>

definition islist_push_front :: "nat \<Rightarrow> islist \<Rightarrow> islist res option" where
  "islist_push_front p l =
     (case res_bind (entry_add_ref p (snd l)) (\<lambda>h. res_bind (entry_add_ref p h) (\<lambda>h.
        res_bind (slot_get (Next_Of p) (Some p, h)) (\<lambda>old.
        res_bind (slot_set (Next_Of p) (fst l) (Some p, h)) (\<lambda>l. Inr (old, l))))) of
        Inl e \<Rightarrow> Some (Inl e)
      | Inr (old, l) \<Rightarrow>
          Option.bind (case old of None \<Rightarrow> Some (Inr l) | Some q \<Rightarrow> give_up q l) (\<lambda>r. case r of
            Inl e \<Rightarrow> Some (Inl e)
          | Inr l \<Rightarrow> Option.bind (give_up p l) (\<lambda>r. case r of Inl e \<Rightarrow> Some (Inl e) | Inr l \<Rightarrow> give_up p l)))"

definition islist_front :: "islist \<Rightarrow> (nat option \<times> islist) res" where
  "islist_front l =
     (case fst l of
        None \<Rightarrow> Inr (None, l)
      | Some p \<Rightarrow> res_bind (entry_add_ref p (snd l)) (\<lambda>h. Inr (Some p, fst l, h)))"

definition entry_next :: "u64 \<Rightarrow> nat \<Rightarrow> islist \<Rightarrow> (nat option \<times> islist) res" where
  "entry_next offset p l =
     res_bind (slot_get (Next_Of p) l) (\<lambda>q.
       case q of
         None \<Rightarrow> (if offset = 0 then Inr (None, l) else Inl Bad_Access)
       | Some q \<Rightarrow> res_bind (entry_add_ref q (snd l)) (\<lambda>h. Inr (Some q, fst l, h)))"

definition islist_destroy :: "islist \<Rightarrow> items res option" where
  "islist_destroy l = (case fst l of None \<Rightarrow> Some (Inr (snd l)) | Some p \<Rightarrow> entry_release p (snd l))"

section \<open>Lists in memory\<close>

text \<open>The items from a handle on, each held by nothing but its predecessor.\<close>

fun owned :: "items \<Rightarrow> nat option \<Rightarrow> nat list \<Rightarrow> bool" where
  "owned h v [] \<longleftrightarrow> v = None"
| "owned h v (p # ps) \<longleftrightarrow>
     v = Some p \<and> (\<exists>i. h p = Some i \<and> references i = strong_init \<and> owned h (next_entry i) ps)"

definition holds_items :: "islist \<Rightarrow> nat list \<Rightarrow> bool" where
  "holds_items l ps \<longleftrightarrow> owned (snd l) (fst l) ps \<and> distinct ps"

lemma owned_cong: "(\<And>p. p \<in> set ps \<Longrightarrow> h' p = h p) \<Longrightarrow> owned h' v ps = owned h v ps"
  by (induction ps arbitrary: v) auto

lemma owned_upd: "p \<notin> set ps \<Longrightarrow> owned (h(p := x)) v ps = owned h v ps"
  by (rule owned_cong) auto

lemma seek_end_owned:
  assumes "slot_get s (head, h) = Inr v" and "owned h v ps"
  shows "seek_end s (head, h) = Some (Inr (if ps = [] then s else Next_Of (last ps)))"
  using assms
proof (induction ps arbitrary: s v)
  case Nil
  then show ?case by (subst seek_end.simps) simp
next
  case (Cons p ps)
  then obtain i where i: "v = Some p" "h p = Some i" "owned h (next_entry i) ps" by auto
  then have "seek_end (Next_Of p) (head, h) = Some (Inr (if ps = [] then Next_Of p else Next_Of (last ps)))"
    using Cons.IH [of "Next_Of p" "next_entry i"] by simp
  then show ?case using Cons.prems(1) i(1) by (subst seek_end.simps) simp
qed

lemma owned_append:
  assumes "owned h v ps" and "distinct ps" and "p \<notin> set ps" and "ps \<noteq> []"
    and "h p = Some i" "references i = strong_init" "next_entry i = None"
  shows "owned (h(last ps \<mapsto> (the (h (last ps)))\<lparr>next_entry := Some p\<rparr>)) v (ps @ [p])"
  using assms
proof (induction ps arbitrary: v)
  case (Cons q qs)
  then obtain j where j: "v = Some q" "h q = Some j" "references j = strong_init" "owned h (next_entry j) qs"
    by auto
  show ?case
  proof (cases "qs = []")
    case True
    then show ?thesis using Cons.prems j by auto
  next
    case False
    then have "q \<noteq> last qs" using Cons.prems(2) by (auto dest: last_in_set)
    then show ?thesis using Cons.IH [OF j(4)] Cons.prems False j by auto
  qed
qed simp

lemma owned_alive: "owned h v ps \<Longrightarrow> q \<in> set ps \<Longrightarrow> \<exists>i. h q = Some i"
  by (induction ps arbitrary: v) auto

lemma emplace_back_owned:
  assumes "holds_items (head, h) ps" and "h p = None"
  shows "\<exists>l. emplace_back p (head, h) = Some (Inr l) \<and> holds_items l (ps @ [p]) \<and>
    (\<forall>q. q \<notin> set (p # ps) \<longrightarrow> snd l q = h q)"
proof -
  let ?h = "new_item p h"
  have o: "owned h head ps" and d: "distinct ps" using assms(1) by (simp_all add: holds_items_def)
  then have p: "p \<notin> set ps" using owned_alive [OF o, of p] assms(2) by auto
  then have o': "owned ?h head ps" using o by (simp add: new_item_def owned_upd)
  have "seek_end Head (head, ?h) = Some (Inr (if ps = [] then Head else Next_Of (last ps)))"
    by (rule seek_end_owned [OF _ o']) simp
  moreover have "\<exists>l. slot_set (if ps = [] then Head else Next_Of (last ps)) (Some p) (head, ?h) = Inr l \<and>
      holds_items l (ps @ [p]) \<and> (\<forall>q. q \<notin> set (p # ps) \<longrightarrow> snd l q = h q)"
  proof (cases "ps = []")
    case True
    then show ?thesis by (simp add: holds_items_def new_item_def)
  next
    case False
    then have lp: "last ps \<noteq> p" using p by (metis last_in_set)
    with False obtain j where j: "?h (last ps) = Some j"
      using owned_alive [OF o, of "last ps"] by (auto simp: new_item_def)
    then have "owned (?h(last ps \<mapsto> j\<lparr>next_entry := Some p\<rparr>)) head (ps @ [p])"
      using owned_append [OF o' d p False, of "\<lparr>references = strong_init, next_entry = None\<rparr>"]
      by (simp add: new_item_def)
    then show ?thesis using False d p j by (auto simp: holds_items_def new_item_def)
  qed
  ultimately show ?thesis by (auto simp: emplace_back_def)
qed

text \<open>Releasing the only reference to the first of a chain frees the whole chain.\<close>

lemma release_owned:
  assumes "owned h (Some p) ps" and "distinct ps"
  shows "entry_release p h = Some (Inr (\<lambda>q. if q \<in> set ps then None else h q))"
  using assms
proof (induction ps arbitrary: h p)
  case (Cons r ps)
  then obtain i where i: "r = p" "h p = Some i" "references i = strong_init" "owned h (next_entry i) ps"
    by auto
  let ?h = "h(p \<mapsto> i\<lparr>references := 0\<rparr>)"
  have rel: "intrusive_strong_ptr_release (references i) = (0, True)"
    by (simp add: i(3) strong_init_def intrusive_strong_ptr_release_def)
  show ?case
  proof (cases ps)
    case Nil
    then have "next_entry i = None" using i(4) by simp
    then show ?thesis
      using i(1,2) rel Nil by (subst entry_release.simps) (auto simp: fun_eq_iff)
  next
    case (Cons q qs)
    then have q: "next_entry i = Some q" using i(4) by simp
    have "owned ?h (Some q) ps"
      using i(4) q Cons.prems(2) i(1) by (simp add: owned_upd)
    then have "entry_release q ?h = Some (Inr (\<lambda>x. if x \<in> set ps then None else ?h x))"
      using Cons.IH [of ?h q] Cons.prems(2) by (simp only: distinct.simps)
    then show ?thesis
      using i(1,2) q rel by (subst entry_release.simps) (auto simp: fun_eq_iff)
  qed
qed simp

section \<open>Properties\<close>

fun emplace_all :: "nat list \<Rightarrow> islist \<Rightarrow> islist res option" where
  "emplace_all [] l = Some (Inr l)"
| "emplace_all (p # ps) l =
     Option.bind (emplace_back p l) (\<lambda>r. case r of Inl e \<Rightarrow> Some (Inl e) | Inr l \<Rightarrow> emplace_all ps l)"

lemma emplace_all_owned:
  assumes "holds_items l qs" and "distinct (qs @ ps)" and "\<forall>p \<in> set ps. snd l p = None"
  shows "\<exists>l'. emplace_all ps l = Some (Inr l') \<and> holds_items l' (qs @ ps) \<and>
    (\<forall>q. q \<notin> set (qs @ ps) \<longrightarrow> snd l' q = snd l q)"
  using assms
proof (induction ps arbitrary: l qs)
  case (Cons p ps)
  obtain l1 where l1: "emplace_back p l = Some (Inr l1)" "holds_items l1 (qs @ [p])"
    "\<forall>q. q \<notin> set (p # qs) \<longrightarrow> snd l1 q = snd l q"
    using emplace_back_owned [of "fst l" "snd l" qs p] Cons.prems by auto
  have "\<forall>q \<in> set ps. snd l1 q = None" using l1(3) Cons.prems(2,3) by auto
  then obtain l2 where "emplace_all ps l1 = Some (Inr l2)" "holds_items l2 ((qs @ [p]) @ ps)"
    "\<forall>q. q \<notin> set ((qs @ [p]) @ ps) \<longrightarrow> snd l2 q = snd l1 q"
    using Cons.IH [OF l1(2)] Cons.prems(2) by auto
  then show ?case using l1 by auto
qed simp

lemma destroy_owned:
  assumes "holds_items l ps"
  shows "islist_destroy l = Some (Inr (\<lambda>q. if q \<in> set ps then None else snd l q))"
proof (cases ps)
  case Nil
  then show ?thesis using assms by (simp add: holds_items_def islist_destroy_def)
next
  case (Cons p qs)
  then have "fst l = Some p" "owned (snd l) (Some p) ps" "distinct ps"
    using assms by (simp_all add: holds_items_def)
  then show ?thesis using release_owned by (simp add: islist_destroy_def)
qed

text \<open>
  Items that are only in the list live exactly as long as the list. Emplacing any number of
  items always ends and appends them in order; and destroying the list, a release that runs
  through the links, ends, deletes each item once and leaves the rest of the memory alone.
\<close>

theorem emplaced_items_freed_with_list:
  assumes "distinct ps" and "\<forall>p \<in> set ps. h p = None"
  shows "\<exists>l. emplace_all ps (None, h) = Some (Inr l) \<and> holds_items l ps \<and>
    (islist_empty l \<longleftrightarrow> ps = []) \<and> islist_destroy l = Some (Inr h)"
proof -
  obtain l where l: "emplace_all ps (None, h) = Some (Inr l)" "holds_items l ps"
    "\<forall>q. q \<notin> set ps \<longrightarrow> snd l q = h q"
    using emplace_all_owned [of "(None, h)" "[]" ps] assms by (auto simp: holds_items_def)
  have "islist_destroy l = Some (Inr h)"
    using destroy_owned [OF l(2)] l(3) assms(2) by (auto simp: fun_eq_iff)
  moreover have "islist_empty l \<longleftrightarrow> ps = []"
    using l(2) by (cases ps) (auto simp: islist_empty_def holds_items_def)
  ultimately show ?thesis using l by blast
qed

lemma emplaced_items_freed_with_list_witness:
  "\<exists>l. emplace_all [3, 1, 2] (None, Map.empty) = Some (Inr l) \<and> islist_destroy l = Some (Inr Map.empty)"
  using emplaced_items_freed_with_list [of "[3, 1, 2]" Map.empty] by auto

text \<open>
  Pushing an item of which the caller gives away the only reference. \<open>push_front\<close> puts it at the
  front and \<open>push_back\<close> at the end of a list that has items; the list then holds the only reference.
  \<open>push_back\<close> of the first item goes through the null pointer.
\<close>

lemma release_shared:
  assumes "h p = Some i" and "references i \<noteq> 1"
  shows "entry_release p h = Some (Inr (h(p \<mapsto> i\<lparr>references := references i - 1\<rparr>)))"
  using assms by (subst entry_release.simps) (simp add: intrusive_strong_ptr_release_def)

theorem pushed_items_owned_by_list:
  assumes "holds_items l ps" and "p \<notin> set ps" and "snd l p = Some \<lparr>references = 1, next_entry = None\<rparr>"
  shows "(\<exists>l'. islist_push_front p l = Some (Inr l') \<and> holds_items l' (p # ps)) \<and>
    (if ps = [] then islist_push_back p l = Some (Inl Bad_Access)
     else \<exists>l'. islist_push_back p l = Some (Inr l') \<and> holds_items l' (ps @ [p]))"
proof
  obtain head h where l: "l = (head, h)" by (cases l)
  have o: "owned h head ps" and d: "distinct ps" and hp: "h p = Some \<lparr>references = 1, next_entry = None\<rparr>"
    using assms(1,3) l by (simp_all add: holds_items_def)
  have "islist_push_front p l = Some (Inr (Some p, h(p \<mapsto> \<lparr>references = 1, next_entry = head\<rparr>)))"
    using hp by (simp add: l islist_push_front_def give_up_def entry_add_ref_def
        intrusive_strong_ptr_add_ref_def release_shared)
  then show "\<exists>l'. islist_push_front p l = Some (Inr l') \<and> holds_items l' (p # ps)"
    using o d assms(2) by (simp add: holds_items_def owned_upd strong_init_def)
  show "if ps = [] then islist_push_back p l = Some (Inl Bad_Access)
     else \<exists>l'. islist_push_back p l = Some (Inr l') \<and> holds_items l' (ps @ [p])"
  proof (cases ps)
    case Nil
    then show ?thesis
      using o hp by (simp add: l islist_push_back_def entry_add_ref_def)
  next
    case (Cons a as)
    let ?h = "h(p \<mapsto> \<lparr>references = 2, next_entry = None\<rparr>)" and ?z = "last ps"
    have o': "owned ?h head ps" using o assms(2) by (simp add: owned_upd)
    have "seek_end Head (head, ?h) = Some (Inr (Next_Of ?z))"
      using seek_end_owned [OF _ o', of Head head] Cons by simp
    moreover have "seek_end Head (head, ?h) = seek_end (Next_Of a) (head, ?h)"
      using o Cons by (subst seek_end.simps) simp
    ultimately have seek: "seek_end (Next_Of a) (head, ?h) = Some (Inr (Next_Of ?z))" by simp
    have zp: "?z \<noteq> p" "?z \<in> set ps" using assms(2) Cons by (auto dest: last_in_set)
    obtain j where j: "h ?z = Some j"
      using owned_alive [OF o zp(2)] by blast
    have "owned (h(?z \<mapsto> j\<lparr>next_entry := Some p\<rparr>)) head (ps @ [p])"
      using owned_append [OF o d assms(2) _ hp] j Cons unfolding strong_init_def
      by (simp only: option.sel list.distinct item.simps not_False_eq_True simp_thms)
    moreover have "islist_push_back p l = Some (Inr (head, h(?z \<mapsto> j\<lparr>next_entry := Some p\<rparr>)))"
      using o Cons hp zp(1) j seek
      by (simp add: l islist_push_back_def entry_add_ref_def intrusive_strong_ptr_add_ref_def give_up_def
          release_shared fun_upd_twist fun_upd_idem)
    ultimately show ?thesis using Cons d assms(2) by (auto simp: holds_items_def)
  qed
qed

lemma pushed_items_owned_by_list_witness:
  "\<exists>l. islist_push_front 1 (None, [1 \<mapsto> \<lparr>references = 1, next_entry = None\<rparr>]) = Some (Inr l) \<and>
     holds_items l [1]"
  using pushed_items_owned_by_list [of "(None, [1 \<mapsto> \<lparr>references = 1, next_entry = None\<rparr>])" "[]" 1]
  by (simp add: holds_items_def)

text \<open>\<open>front\<close> and \<open>next\<close> walk the list; \<open>next\<close> of the last item goes wrong unless the entry is at offset 0.\<close>

lemma front_and_next:
  assumes "holds_items l (a # b # ps)"
  shows "\<exists>l'. islist_front l = Inr (Some a, l')" and "\<exists>l'. entry_next offset a l = Inr (Some b, l')"
    and "islist_front (None, h) = Inr (None, None, h)"
    and "offset \<noteq> 0 \<Longrightarrow> h p = Some i \<Longrightarrow> next_entry i = None \<Longrightarrow> entry_next offset p (head, h) = Inl Bad_Access"
  using assms
  by (cases l; auto simp: holds_items_def islist_front_def entry_next_def entry_add_ref_def)+

text \<open>
  \<open>back\<close> only works on one item. \<open>last\<close> and \<open>curr\<close> are references: with two items or more, the first
  assignment gives the head the second item and so deletes the first, whose \<open>next_\<close> is \<open>curr\<close>.
\<close>

lemma back_uses_deleted_item:
  assumes "holds_items l (a # b # ps)"
  shows "islist_back offset l = Some (Inl Bad_Access)"
proof -
  obtain i j where i: "fst l = Some a" "snd l a = Some i" "references i = 1" "next_entry i = Some b"
    and j: "snd l b = Some j" "references j = 1" and ab: "a \<noteq> b"
    using assms by (auto simp: holds_items_def strong_init_def)
  let ?h = "(snd l)(b \<mapsto> j\<lparr>references := 2\<rparr>)"
  have "entry_release b (?h(a \<mapsto> i\<lparr>references := 0\<rparr>)) =
      Some (Inr ((snd l)(a \<mapsto> i\<lparr>references := 0\<rparr>, b \<mapsto> j\<lparr>references := 1\<rparr>)))"
    using ab by (subst entry_release.simps)
      (simp add: intrusive_strong_ptr_release_def fun_upd_twist)
  then have "entry_release a ?h = Some (Inr ((snd l)(b \<mapsto> j\<lparr>references := 1\<rparr>, a := None)))"
    using ab i by (subst entry_release.simps) (simp add: intrusive_strong_ptr_release_def fun_upd_twist)
  then have "slot_copy Head (Some b) l = Some (Inr (Some b, (snd l)(b \<mapsto> j\<lparr>references := 1\<rparr>, a := None)))"
    using i j by (cases l) (simp add: slot_copy_def entry_add_ref_def intrusive_strong_ptr_add_ref_def)
  moreover have "slot_get (Next_Of a) l = Inr (Some b)" using i by (cases l) simp
  ultimately have "back_loop (Next_Of a) l = Some (Inl Bad_Access)"
    by (subst back_loop.simps) simp
  then show ?thesis using i(1) by (simp add: islist_back_def)
qed

lemma back_of_one_and_none:
  "islist_back offset (None, h) = (if offset = 0 then Some (Inr (None, None, h)) else Some (Inl Bad_Access))"
  "holds_items l [a] \<Longrightarrow> \<exists>l'. islist_back offset l = Some (Inr (Some a, l'))"
proof -
  show "islist_back offset (None, h) = (if offset = 0 then Some (Inr (None, None, h)) else Some (Inl Bad_Access))"
    by (simp add: islist_back_def)
  assume "holds_items l [a]"
  then obtain i where "fst l = Some a" "snd l a = Some i" "next_entry i = None"
    by (auto simp: holds_items_def)
  then show "\<exists>l'. islist_back offset l = Some (Inr (Some a, l'))"
    by (cases l) (simp add: islist_back_def back_loop.simps entry_add_ref_def)
qed

end
