(* ===== verification/Process_Program.thy ===== *)
theory Process_Program
  imports Process
begin

text \<open>
  Programs that wait for subprocesses (\<open>process/process.hpp\<close> on the watchers of
  \<open>src/io_service.cpp\<close>): any number of \<open>subprocess\<close> objects, each with its data in the service, the
  operations that coroutines await on them, and the changes of children the loop reports. The
  specification is a table of the launched objects.
\<close>

section \<open>Objects, operations and the service\<close>

text \<open>
  \<open>awaiting\<close> is the \<open>process_\<close> of the operation at each address, \<open>None\<close> where no operation lives;
  \<open>returned\<close> is what the awaiting coroutines got, in the order in which they went on.
\<close>

record process_machine =
  service :: process_state
  objects :: "nat \<Rightarrow> subprocess option"
  awaiting :: "nat \<Rightarrow> nat option"
  returned :: "(nat \<times> int) list"

datatype process_event =
    Launched nat int nat nat
  | Awaits nat nat
  | Changes int int
  | Destroyed nat

definition subprocess_wait :: "nat \<Rightarrow> nat \<Rightarrow> process_machine \<Rightarrow> process_machine" where
  "subprocess_wait d op m = m\<lparr>awaiting := (awaiting m)(op \<mapsto> d)\<rparr>"

text \<open>
  The coroutine goes on: \<open>await_resume\<close> of the operation returns, and with the end of the
  expression the operation is gone. No error is ever stored in \<open>ec_\<close>.
\<close>

definition terminate_await_resume :: "nat \<Rightarrow> process_machine \<Rightarrow> (nat + int) res" where
  "terminate_await_resume op m =
     (case awaiting m op of
        None \<Rightarrow> Inl Bad_Access
      | Some d \<Rightarrow>
          (case objects m d of
             None \<Rightarrow> Inl Bad_Access
           | Some p \<Rightarrow> await_resume 0 (Inr (terminate_return d (service m)))))"

definition terminate_resume :: "nat \<Rightarrow> process_machine \<Rightarrow> process_machine res" where
  "terminate_resume op m =
     res_bind (terminate_await_resume op m) (\<lambda>r.
       Inr (m\<lparr>awaiting := (awaiting m)(op := None),
              returned := returned m @ (case r of Inl e \<Rightarrow> [] | Inr v \<Rightarrow> [(op, v)])\<rparr>))"

text \<open>\<open>work\<close> of an operation that is gone reads its dead \<open>coroutine_\<close>.\<close>

definition terminate_work :: "nat \<Rightarrow> process_machine \<Rightarrow> process_machine res" where
  "terminate_work op m = (if awaiting m op = None then Inl Bad_Access else terminate_resume op m)"

fun process_exec :: "process_event \<Rightarrow> process_machine \<Rightarrow> process_machine res" where
  "process_exec (Launched d p r w) m =
     Inr (m\<lparr>service := register_process_notification p d (service m),
            objects := (objects m)(d \<mapsto> subprocess_init\<lparr>read_pipe := r, write_pipe := w\<rparr>)\<rparr>)"
| "process_exec (Awaits d op) m =
     (case objects m d of
        None \<Rightarrow> Inl Bad_Access
      | Some p \<Rightarrow>
          (case terminate_begin p d op (service m) of (s, ready) \<Rightarrow>
             let m = subprocess_wait d op (m\<lparr>service := s\<rparr>)
             in if ready then terminate_resume op m else Inr m))"
| "process_exec (Changes rpid rstatus) m =
     (case ev_process_change rpid rstatus (service m) of
        (s, None) \<Rightarrow> Inr (m\<lparr>service := s\<rparr>)
      | (s, Some (Inl e)) \<Rightarrow> Inl e
      | (s, Some (Inr op)) \<Rightarrow> terminate_work op (m\<lparr>service := s\<rparr>))"
| "process_exec (Destroyed d) m =
     Inr (m\<lparr>service := deregister_process_notification d (service m), objects := (objects m)(d := None)\<rparr>)"

fun process_run :: "process_event list \<Rightarrow> process_machine \<Rightarrow> process_machine res" where
  "process_run [] m = Inr m"
| "process_run (e # es) m = res_bind (process_exec e m) (process_run es)"

section \<open>The table of children\<close>

text \<open>
  A child that has ended without being awaited is gone, as is one whose end was reported. A child
  has one waiting operation: a second one replaces it.
\<close>

datatype child = Running (child_pid: int) | Waiting (child_pid: int) nat | Gone (child_pid: int)

type_synonym children = "(nat \<times> child) list"

definition child_awaits :: "nat \<Rightarrow> child \<Rightarrow> child" where
  "child_awaits op c = (case c of Gone p \<Rightarrow> Gone p | c \<Rightarrow> Waiting (child_pid c) op)"

definition child_report :: "int \<Rightarrow> int \<Rightarrow> child \<Rightarrow> (nat \<times> int) list" where
  "child_report p st c = (case c of Waiting q op \<Rightarrow> (if q = p then [(op, st)] else []) | _ \<Rightarrow> [])"

fun children_exec :: "process_event \<Rightarrow> children \<Rightarrow> children" where
  "children_exec (Launched d p r w) t = t @ [(d, Running p)]"
| "children_exec (Awaits d op) t = map (\<lambda>(e, c). (e, if e = d then child_awaits op c else c)) t"
| "children_exec (Changes p st) t = map (\<lambda>(e, c). (e, if child_pid c = p then Gone p else c)) t"
| "children_exec (Destroyed d) t = filter (\<lambda>(e, c). e \<noteq> d) t"

fun children_report :: "process_event \<Rightarrow> children \<Rightarrow> (nat \<times> int) list" where
  "children_report (Changes p st) t = concat (map (\<lambda>(e, c). child_report p st c) t)"
| "children_report _ t = []"

fun children_run :: "process_event list \<Rightarrow> children \<Rightarrow> (nat \<times> int) list" where
  "children_run [] t = []"
| "children_run (e # es) t = children_report e t @ children_run es (children_exec e t)"

text \<open>
  What a program and the system have to respect: an object is launched once, a process id is not
  used again while an object of the id exists, a child ends once, and what is awaited exists. Any
  number of coroutines may await one object. \<open>used\<close> are the operations so far; a new one has a
  name of its own.
\<close>

fun event_allowed :: "process_event \<Rightarrow> children \<Rightarrow> nat list \<Rightarrow> bool" where
  "event_allowed (Launched d p r w) t used \<longleftrightarrow> d \<notin> fst ` set t \<and> p \<notin> (child_pid \<circ> snd) ` set t"
| "event_allowed (Awaits d op) t used \<longleftrightarrow>
     d \<in> fst ` set t \<and> op \<notin> set used"
| "event_allowed (Changes p st) t used \<longleftrightarrow> Gone p \<notin> snd ` set t"
| "event_allowed (Destroyed d) t used \<longleftrightarrow> d \<in> fst ` set t"

fun operations :: "process_event \<Rightarrow> nat list" where
  "operations (Awaits d op) = [op]"
| "operations _ = []"

fun events_allowed :: "process_event list \<Rightarrow> children \<Rightarrow> nat list \<Rightarrow> bool" where
  "events_allowed [] t used \<longleftrightarrow> True"
| "events_allowed (e # es) t used \<longleftrightarrow>
     event_allowed e t used \<and> events_allowed es (children_exec e t) (operations e @ used)"

section \<open>The simulation\<close>

definition child_ok :: "process_machine \<Rightarrow> nat \<Rightarrow> child \<Rightarrow> bool" where
  "child_ok m d c \<longleftrightarrow>
     (\<exists>p. objects m d = Some p \<and> \<not> terminated p) \<and> pid (processes (service m) d) = child_pid c \<and>
     (case c of
        Running q \<Rightarrow> d \<notin> set (process_watchers (service m))
      | Waiting q op \<Rightarrow> d \<in> set (process_watchers (service m)) \<and>
          notification (processes (service m) d) = Some op \<and> awaiting m op = Some d
      | Gone q \<Rightarrow> True)"

definition simulated :: "process_machine \<Rightarrow> children \<Rightarrow> nat list \<Rightarrow> bool" where
  "simulated m t used \<longleftrightarrow>
     distinct (map fst t) \<and> distinct (map (child_pid \<circ> snd) t) \<and>
     (\<forall>(d, c) \<in> set t. child_ok m d c) \<and>
     set (process_watchers (service m)) \<subseteq> fst ` set t \<and> dom (awaiting m) \<subseteq> set used"

lemma simulatedD:
  assumes "simulated m t used"
  shows "(d, c) \<in> set t \<Longrightarrow> child_ok m d c" and "(d, c) \<in> set t \<Longrightarrow> (d, c') \<in> set t \<Longrightarrow> c' = c"
    and "(d, c) \<in> set t \<Longrightarrow> (e, c') \<in> set t \<Longrightarrow> child_pid c' = child_pid c \<Longrightarrow> (e, c') = (d, c)"
    and "d \<in> set (process_watchers (service m)) \<Longrightarrow> \<exists>c. (d, c) \<in> set t"
proof -
  have d1: "inj_on fst (set t)" and d2: "inj_on (child_pid \<circ> snd) (set t)"
    using assms by (simp_all add: simulated_def distinct_map)
  show "(d, c) \<in> set t \<Longrightarrow> child_ok m d c" using assms by (auto simp: simulated_def)
  show "(d, c) \<in> set t \<Longrightarrow> (d, c') \<in> set t \<Longrightarrow> c' = c" using inj_onD [OF d1, of "(d, c)" "(d, c')"] by simp
  show "(d, c) \<in> set t \<Longrightarrow> (e, c') \<in> set t \<Longrightarrow> child_pid c' = child_pid c \<Longrightarrow> (e, c') = (d, c)"
    using inj_onD [OF d2, of "(e, c')" "(d, c)"] by simp
  show "d \<in> set (process_watchers (service m)) \<Longrightarrow> \<exists>c. (d, c) \<in> set t"
    using assms by (force simp: simulated_def)
qed

lemma child_ok_cong:
  assumes "objects m' d = objects m d" "processes (service m') d = processes (service m) d"
    and "d \<in> set (process_watchers (service m')) \<longleftrightarrow> d \<in> set (process_watchers (service m))"
    and "\<And>q op. c = Waiting q op \<Longrightarrow> awaiting m op = Some d \<Longrightarrow> awaiting m' op = Some d"
    and "child_ok m d c"
  shows "child_ok m' d c"
  using assms by (cases c) (auto simp: child_ok_def)

lemma simulatedI:
  assumes "distinct (map fst t)" "distinct (map (child_pid \<circ> snd) t)"
    and "\<And>d c. (d, c) \<in> set t \<Longrightarrow> child_ok m d c"
    and "set (process_watchers (service m)) \<subseteq> fst ` set t" "dom (awaiting m) \<subseteq> set used"
  shows "simulated m t used"
  using assms by (auto simp: simulated_def)

lemma simulated_parts:
  assumes "simulated m t used"
  shows "distinct (map fst t)" "distinct (map (child_pid \<circ> snd) t)"
    and "set (process_watchers (service m)) \<subseteq> fst ` set t" "dom (awaiting m) \<subseteq> set used"
  using assms by (auto simp: simulated_def)

lemma simulated_launched:
  assumes "simulated m t used" "event_allowed (Launched d p r w) t used"
  shows "\<exists>m'. process_exec (Launched d p r w) m = Inr m' \<and> returned m' = returned m \<and>
    simulated m' (t @ [(d, Running p)]) used"
proof -
  have fresh: "d \<notin> fst ` set t" "p \<notin> (child_pid \<circ> snd) ` set t" using assms(2) by simp_all
  note old = simulated_parts [OF assms(1)]
  let ?m = "m\<lparr>service := register_process_notification p d (service m),
    objects := (objects m)(d \<mapsto> subprocess_init\<lparr>read_pipe := r, write_pipe := w\<rparr>)\<rparr>"
  have "simulated ?m (t @ [(d, Running p)]) used"
  proof (rule simulatedI)
    fix e c
    assume "(e, c) \<in> set (t @ [(d, Running p)])"
    then consider "e = d" "c = Running p" | "(e, c) \<in> set t" by auto
    then show "child_ok ?m e c"
    proof cases
      case 1
      then show ?thesis
        using fresh(1) old(3) by (auto simp: child_ok_def register_process_notification_def subprocess_init_def)
    next
      case 2
      then have "e \<noteq> d" using fresh(1) by force
      then show ?thesis
        by (intro child_ok_cong [OF _ _ _ _ simulatedD(1) [OF assms(1) 2]])
          (auto simp: register_process_notification_def)
    qed
  qed (use old fresh in \<open>auto simp: register_process_notification_def\<close>)
  then show ?thesis by simp
qed

lemma simulated_destroyed:
  assumes "simulated m t used"
  shows "\<exists>m'. process_exec (Destroyed d) m = Inr m' \<and> returned m' = returned m \<and>
    simulated m' (filter (\<lambda>(e, c). e \<noteq> d) t) used"
proof -
  note old = simulated_parts [OF assms]
  let ?m = "m\<lparr>service := deregister_process_notification d (service m), objects := (objects m)(d := None)\<rparr>"
  have "simulated ?m (filter (\<lambda>(e, c). e \<noteq> d) t) used"
  proof (rule simulatedI)
    show "child_ok ?m e c" if "(e, c) \<in> set (filter (\<lambda>(e, c). e \<noteq> d) t)" for e c
      using that
      by (intro child_ok_cong [OF _ _ _ _ simulatedD(1) [OF assms, of e c]])
        (auto simp: deregister_process_notification_def stop_notification_def)
    show "distinct (map fst (filter (\<lambda>(e, c). e \<noteq> d) t))"
      "distinct (map (child_pid \<circ> snd) (filter (\<lambda>(e, c). e \<noteq> d) t))"
      using old(1,2) by (simp_all add: distinct_map_filter)
  qed (use old(3,4) in \<open>force simp: deregister_process_notification_def stop_notification_def\<close>)+
  then show ?thesis by simp
qed

lemma simulated_awaits:
  assumes "simulated m t used" "event_allowed (Awaits d op) t used"
  shows "\<exists>m'. process_exec (Awaits d op) m = Inr m' \<and> returned m' = returned m \<and>
    simulated m' (children_exec (Awaits d op) t) (op # used)"
proof -
  note old = simulated_parts [OF assms(1)]
  obtain c where c: "(d, c) \<in> set t" and op: "op \<notin> set used" using assms(2) by auto
  have ok: "child_ok m d c" by (rule simulatedD(1) [OF assms(1) c])
  then obtain p where p: "objects m d = Some p" "\<not> terminated p" by (auto simp: child_ok_def)
  let ?m = "m\<lparr>service := start_notification d op (service m), awaiting := (awaiting m)(op \<mapsto> d)\<rparr>"
  have run: "process_exec (Awaits d op) m = Inr ?m"
    using p by (simp add: terminate_begin_def subprocess_wait_def)
  have fst: "map fst (children_exec (Awaits d op) t) = map fst t" by (auto simp: case_prod_beta)
  have pids: "map (child_pid \<circ> snd) (children_exec (Awaits d op) t) = map (child_pid \<circ> snd) t"
    by (auto simp: child_awaits_def split: child.splits)
  have "simulated ?m (children_exec (Awaits d op) t) (op # used)"
  proof (rule simulatedI)
    fix e c'
    assume "(e, c') \<in> set (children_exec (Awaits d op) t)"
    then obtain c0 where c0: "(e, c0) \<in> set t" "c' = (if e = d then child_awaits op c0 else c0)" by auto
    show "child_ok ?m e c'"
    proof (cases "e = d")
      case True
      then have "c0 = c" using simulatedD(2) [OF assms(1) c] c0(1) by simp
      then show ?thesis
        using ok c0(2) True by (cases c) (auto simp: child_ok_def child_awaits_def start_notification_def)
    next
      case False
      have "awaiting m op = None" using op old(4) by auto
      with False show ?thesis
        using c0(2)
        by (intro child_ok_cong [OF _ _ _ _ simulatedD(1) [OF assms(1)], where m' = ?m and d = e])
          (auto simp: start_notification_def c0(1))
    qed
  next
    have "d \<in> fst ` set t" using c by force
    moreover have "fst ` set (children_exec (Awaits d op) t) = fst ` set t"
      using fst by (metis set_map)
    ultimately show "set (process_watchers (service ?m)) \<subseteq> fst ` set (children_exec (Awaits d op) t)"
      using old(3) by (auto simp: start_notification_def)
  next
    show "dom (awaiting ?m) \<subseteq> set (op # used)" using old(4) by auto
  qed (simp_all only: old fst pids)
  with run show ?thesis by simp
qed

text \<open>Of the watchers, only the one of the object with the child's id reacts.\<close>

lemma find_eq: "find (\<lambda>i. i = d) xs = (if d \<in> set xs then Some d else None)"
  by (induction xs) auto

lemma watcher_found:
  assumes "simulated m t used" "(d, c) \<in> set t"
  shows "find (\<lambda>i. pid (processes (service m) i) = child_pid c) (process_watchers (service m)) =
    (if d \<in> set (process_watchers (service m)) then Some d else None)"
proof -
  have "pid (processes (service m) i) = child_pid c \<longleftrightarrow> i = d" if i: "i \<in> set (process_watchers (service m))" for i
  proof -
    obtain c' where c': "(i, c') \<in> set t" using simulatedD(4) [OF assms(1) i] by blast
    have "pid (processes (service m) i) = child_pid c'" "pid (processes (service m) d) = child_pid c"
      using simulatedD(1) [OF assms(1)] c' assms(2) by (simp_all add: child_ok_def)
    then show ?thesis using simulatedD(3) [OF assms(1,2) c'] by auto
  qed
  then show ?thesis by (simp add: find_eq [symmetric] cong: find_cong)
qed

lemma watcher_none:
  assumes "simulated m t used" "p \<notin> (child_pid \<circ> snd) ` set t"
  shows "find (\<lambda>i. pid (processes (service m) i) = p) (process_watchers (service m)) = None"
proof -
  have "pid (processes (service m) i) \<noteq> p" if i: "i \<in> set (process_watchers (service m))" for i
  proof -
    obtain c where c: "(i, c) \<in> set t" using simulatedD(4) [OF assms(1) i] by blast
    then show ?thesis using simulatedD(1) [OF assms(1) c] assms(2) by (force simp: child_ok_def)
  qed
  then show ?thesis by (simp add: find_None_iff)
qed

lemma report_none:
  assumes "p \<notin> (child_pid \<circ> snd) ` set t"
  shows "concat (map (\<lambda>(e, c). child_report p st c) t) = []"
    and "map (\<lambda>(e, c). (e, if child_pid c = p then Gone p else c)) t = t"
  using assms by (induction t) (auto simp: child_report_def split: child.splits)

lemma report_one:
  assumes "distinct (map (child_pid \<circ> snd) t)" "(d, c) \<in> set t"
  shows "concat (map (\<lambda>(e, c'). child_report (child_pid c) st c') t) = child_report (child_pid c) st c"
proof -
  obtain xs ys where t: "t = xs @ (d, c) # ys" using assms(2) by (meson split_list)
  then have "child_pid c \<notin> (child_pid \<circ> snd) ` set xs" "child_pid c \<notin> (child_pid \<circ> snd) ` set ys"
    using assms(1) by auto
  note none = this [THEN report_none(1), of st]
  show ?thesis unfolding t by (simp only: map_append concat_append none list.map concat.simps) simp
qed

lemma simulated_changes:
  assumes "simulated m t used" "event_allowed (Changes p st) t used"
  shows "\<exists>m'. process_exec (Changes p st) m = Inr m' \<and>
    returned m' = returned m @ children_report (Changes p st) t \<and>
    simulated m' (children_exec (Changes p st) t) used"
proof (cases "p \<in> (child_pid \<circ> snd) ` set t")
  case False
  then have "ev_process_change p st (service m) = (service m, None)"
    using watcher_none [OF assms(1)] by (simp add: ev_process_change_def process_change_finds)
  then show ?thesis using assms(1) report_none [OF False] by simp
next
  case True
  then obtain d c where dc: "(d, c) \<in> set t" and p: "p = child_pid c" by auto
  note old = simulated_parts [OF assms(1)]
  have ok: "child_ok m d c" by (rule simulatedD(1) [OF assms(1) dc])
  have rep: "children_report (Changes p st) t = child_report p st c"
    using report_one [OF old(2) dc, of st] by (simp add: p)
  have shape1: "map fst (children_exec (Changes p st) t) = map fst t"
    and shape2: "map (child_pid \<circ> snd) (children_exec (Changes p st) t) = map (child_pid \<circ> snd) t"
    by (auto simp: case_prod_beta)
  have shape0: "fst ` set (children_exec (Changes p st) t) = fst ` set t"
    using shape1 by (metis set_map)
  note shape = shape0 shape1 shape2
  have entries: "(e = d \<and> c' = Gone p) \<or> (e \<noteq> d \<and> (e, c') \<in> set t)"
    if mem: "(e, c') \<in> set (children_exec (Changes p st) t)" for e c'
  proof -
    obtain c0 where c0: "(e, c0) \<in> set t" "c' = (if child_pid c0 = p then Gone p else c0)" using mem by auto
    show ?thesis
    proof (cases "child_pid c0 = p")
      case True
      then show ?thesis using simulatedD(3) [OF assms(1) dc c0(1)] c0(2) p by simp
    next
      case False
      then have "e \<noteq> d" using simulatedD(2) [OF assms(1) dc] c0(1) p by metis
      then show ?thesis using c0 False by simp
    qed
  qed
  show ?thesis
  proof (cases c)
    case (Running q)
    then have "ev_process_change p st (service m) = (service m, None)"
      using watcher_found [OF assms(1) dc] ok p
      by (simp add: ev_process_change_def process_change_finds child_ok_def)
    moreover have "simulated m (children_exec (Changes p st) t) used"
    proof (rule simulatedI)
      show "child_ok m e c'" if "(e, c') \<in> set (children_exec (Changes p st) t)" for e c'
        using entries [OF that] simulatedD(1) [OF assms(1)] ok p by (auto simp: child_ok_def)
    qed (simp_all only: old shape)
    ultimately show ?thesis using rep Running by (simp add: child_report_def)
  next
    case (Waiting q op)
    let ?s = "service m\<lparr>processes := (processes (service m))(d := (processes (service m) d)\<lparr>rc := st\<rparr>)\<rparr>"
    let ?m = "m\<lparr>service := ?s, awaiting := (awaiting m)(op := None), returned := returned m @ [(op, st)]\<rparr>"
    have w: "d \<in> set (process_watchers (service m))" "notification (processes (service m) d) = Some op"
      "awaiting m op = Some d" "\<exists>x. objects m d = Some x"
      using ok Waiting by (auto simp: child_ok_def)
    then have "ev_process_change p st (service m) = (?s, Some (Inr op))"
      using watcher_found [OF assms(1) dc] p by (simp add: ev_process_change_def process_change_finds)
    then have "process_exec (Changes p st) m = Inr ?m"
      using w by (auto simp: terminate_work_def terminate_resume_def terminate_await_resume_def
          await_resume_def terminate_return_def)
    moreover have "simulated ?m (children_exec (Changes p st) t) used"
    proof (rule simulatedI)
      fix e c'
      assume "(e, c') \<in> set (children_exec (Changes p st) t)"
      from entries [OF this] show "child_ok ?m e c'"
      proof
        assume "e = d \<and> c' = Gone p"
        then show ?thesis using ok p by (auto simp: child_ok_def)
      next
        assume e: "e \<noteq> d \<and> (e, c') \<in> set t"
        then show ?thesis
          using w(3) by (intro child_ok_cong [OF _ _ _ _ simulatedD(1) [OF assms(1), of e c']]) auto
      qed
    next
      show "set (process_watchers (service ?m)) \<subseteq> fst ` set (children_exec (Changes p st) t)"
        using old(3) by (simp only: shape) simp
      show "dom (awaiting ?m) \<subseteq> set used" using old(4) by auto
    qed (simp_all only: old shape)
    ultimately show ?thesis using rep Waiting p by (auto simp: child_report_def)
  next
    case (Gone q)
    then have "Gone p \<in> snd ` set t" using dc p by force
    then show ?thesis using assms(2) by simp
  qed
qed

section \<open>Properties\<close>

lemma process_exec_simulated:
  assumes "simulated m t used" "event_allowed e t used"
  shows "\<exists>m'. process_exec e m = Inr m' \<and> returned m' = returned m @ children_report e t \<and>
    simulated m' (children_exec e t) (operations e @ used)"
proof (cases e)
  case (Launched d p r w)
  then show ?thesis using simulated_launched assms by simp
next
  case (Awaits d op)
  then show ?thesis using simulated_awaits [of m t used d op] assms by simp
next
  case (Changes p st)
  then show ?thesis using simulated_changes [of m t used p st] assms by simp
next
  case (Destroyed d)
  then show ?thesis using simulated_destroyed [of m t used d] assms by simp
qed

lemma process_run_simulated:
  "simulated m t used \<Longrightarrow> events_allowed es t used \<Longrightarrow>
     \<exists>m'. process_run es m = Inr m' \<and> returned m' = returned m @ children_run es t"
proof (induction es arbitrary: m t used)
  case (Cons e es)
  then obtain m' where m': "process_exec e m = Inr m'" "returned m' = returned m @ children_report e t"
      "simulated m' (children_exec e t) (operations e @ used)"
    using process_exec_simulated [of m t used e] by auto
  with Cons.IH [OF m'(3)] Cons.prems(2) show ?case by auto
qed simp

text \<open>An operation that has gone on is not awaited any more.\<close>

definition resumed_once :: "process_machine \<Rightarrow> nat list \<Rightarrow> bool" where
  "resumed_once m used \<longleftrightarrow>
     distinct (map fst (returned m)) \<and> dom (awaiting m) \<union> fst ` set (returned m) \<subseteq> set used \<and>
     dom (awaiting m) \<inter> fst ` set (returned m) = {}"

lemma terminate_resume_once:
  assumes "terminate_resume op m = Inr m'" and "resumed_once m used"
  shows "resumed_once m' used"
proof -
  have "op \<in> dom (awaiting m)"
    using assms(1) by (auto simp: terminate_resume_def terminate_await_resume_def split: option.splits)
  moreover obtain r :: "nat + int" where "m' = m\<lparr>awaiting := (awaiting m)(op := None),
      returned := returned m @ (case r of Inl e \<Rightarrow> [] | Inr v \<Rightarrow> [(op, v)])\<rparr>"
    using assms(1) by (auto simp: terminate_resume_def res_bind_Inr_iff)
  ultimately show ?thesis
    using assms(2) by (cases r) (auto simp: resumed_once_def)
qed

lemma process_exec_once:
  assumes "process_exec e m = Inr m'" and "resumed_once m used" and "set (operations e) \<inter> set used = {}"
  shows "resumed_once m' (operations e @ used)"
proof (cases e)
  case (Awaits d op)
  let ?m = "subprocess_wait d op (m\<lparr>service := fst (terminate_begin (the (objects m d)) d op (service m))\<rparr>)"
  have "resumed_once ?m (op # used)"
    using assms(2,3) Awaits by (auto simp: resumed_once_def subprocess_wait_def)
  moreover have "m' = ?m \<or> terminate_resume op ?m = Inr m'"
    using assms(1) Awaits by (auto simp: Let_def split: option.splits prod.splits if_splits)
  ultimately show ?thesis using Awaits terminate_resume_once by auto
next
  case (Changes p st)
  obtain s r where r: "ev_process_change p st (service m) = (s, r)" by fastforce
  have "resumed_once (m\<lparr>service := s\<rparr>) used" using assms(2) by (simp add: resumed_once_def)
  moreover have "m' = m\<lparr>service := s\<rparr> \<or> (\<exists>op. terminate_resume op (m\<lparr>service := s\<rparr>) = Inr m')"
    using assms(1) Changes r by (auto simp: terminate_work_def split: option.splits sum.splits if_splits)
  ultimately show ?thesis using Changes terminate_resume_once by auto
next
  case (Launched d p r w)
  then have "awaiting m' = awaiting m" "returned m' = returned m" using assms(1) by auto
  then show ?thesis using assms(2) Launched by (simp add: resumed_once_def)
next
  case (Destroyed d)
  then have "awaiting m' = awaiting m" "returned m' = returned m" using assms(1) by auto
  then show ?thesis using assms(2) Destroyed by (simp add: resumed_once_def)
qed

lemma process_run_once:
  "process_run es m = Inr m' \<Longrightarrow> events_allowed es t used \<Longrightarrow> resumed_once m used \<Longrightarrow>
     distinct (map fst (returned m'))"
proof (induction es arbitrary: m t used)
  case Nil
  then show ?case by (simp add: resumed_once_def)
next
  case (Cons e es)
  obtain m1 where m1: "process_exec e m = Inr m1" "process_run es m1 = Inr m'"
    using Cons.prems(1) by (auto simp: res_bind_Inr_iff)
  have "set (operations e) \<inter> set used = {}" using Cons.prems(2) by (cases e) auto
  from process_exec_once [OF m1(1) Cons.prems(3) this] show ?case
    using Cons.IH [OF m1(2)] Cons.prems(2) by auto
qed

definition no_children :: "(nat \<Rightarrow> process_service_data) \<Rightarrow> process_machine" where
  "no_children ps =
     \<lparr>service = \<lparr>processes = ps, process_watchers = []\<rparr>, objects = Map.empty, awaiting = Map.empty, returned = []\<rparr>"

text \<open>
  C32: waiting for subprocesses on one service gives what a table of children gives. Take any
  number of objects, each launched once, awaited by any number of coroutines and destroyed, in any
  order, while their children end in any order. As long as the system does not use a process id
  again while an object of the id exists, no call reaches an operation or an object that is gone,
  and a coroutine goes on at most once: exactly when the child it awaits ends while its object
  exists and no other coroutine has awaited the object since, and then with that child's status. A
  coroutine that awaits after the child has ended, that was replaced by a later one or whose object
  has been destroyed never goes on.
\<close>

theorem waiting_coroutines_get_their_status:
  assumes "events_allowed es [] []"
  shows "\<exists>m. process_run es (no_children ps) = Inr m \<and> returned m = children_run es [] \<and>
    distinct (map fst (returned m))"
proof -
  have "simulated (no_children ps) [] []" by (simp add: simulated_def no_children_def)
  then obtain m where m: "process_run es (no_children ps) = Inr m" "returned m = children_run es []"
    using process_run_simulated [OF _ assms] by (fastforce simp: no_children_def)
  moreover have "resumed_once (no_children ps) []" by (simp add: resumed_once_def no_children_def)
  ultimately show ?thesis using process_run_once [OF m(1) assms] by blast
qed

definition two_children :: "process_event list" where
  "two_children =
     [Launched 0 70 5 3, Launched 1 71 9 7, Awaits 0 10, Awaits 1 11, Changes 71 256, Destroyed 1,
      Awaits 0 12, Changes 70 0, Awaits 0 13, Destroyed 0]"

lemma waiting_coroutines_get_their_status_witness:
  "\<exists>m. process_run two_children (no_children (\<lambda>_. \<lparr>pid = 0, rc = 0, notification = None\<rparr>)) = Inr m \<and>
     returned m = [(11, 256), (12, 0)]"
proof -
  have "events_allowed two_children [] []" "children_run two_children [] = [(11, 256), (12, 0)]"
    by (simp_all add: two_children_def child_awaits_def child_report_def)
  with waiting_coroutines_get_their_status [OF this(1)] show ?thesis by metis
qed

text \<open>
  The condition on ids is needed. An object that has been told of its child stays among the watchers
  until it is destroyed: when the system uses the id again, the change of the new child calls the
  old operation, which is gone. And a second coroutine that awaits one object makes the first wait
  for ever.
\<close>

definition data0 :: "nat \<Rightarrow> process_service_data" where
  "data0 = (\<lambda>_. \<lparr>pid = 0, rc = 0, notification = None\<rparr>)"

lemma reused_id_calls_dead_operation:
  "process_run [Launched 0 70 5 3, Awaits 0 10, Changes 70 0, Launched 1 70 9 7, Awaits 1 11, Changes 70 256]
     (no_children data0) = Inl Bad_Access"
  by (simp add: no_children_def data0_def register_process_notification_def terminate_begin_def
      start_notification_def subprocess_init_def subprocess_wait_def ev_process_change_def
      terminate_work_def terminate_resume_def terminate_await_resume_def await_resume_def
      terminate_return_def)

lemma second_waiter_replaces_first:
  "\<exists>m. process_run [Launched 0 70 5 3, Awaits 0 10, Awaits 0 11, Changes 70 256] (no_children data0) = Inr m \<and>
     returned m = [(11, 256)] \<and> awaiting m 10 = Some 0"
  by (simp add: no_children_def data0_def register_process_notification_def terminate_begin_def
      start_notification_def subprocess_init_def subprocess_wait_def ev_process_change_def
      terminate_work_def terminate_resume_def terminate_await_resume_def await_resume_def
      terminate_return_def)

section \<open>\<open>test/process_ut.cpp\<close>\<close>

text \<open>
  \<open>TEST_CASE("launch 'false'")\<close>: the coroutine launches a compiler, reads its output until a read
  gives an error or nothing, and waits for it. A read makes one system call on the pipe; the
  arguments are the results of the calls. A read that would block suspends for ever.
\<close>

datatype read_loop = Loop_Ends "(nat + nat) list" | Loop_Parks | Still_Reading

definition process_read_operation :: pipe_operation where
  "process_read_operation = \<lparr>pipe_done = Some 0, pipe_ec = 0\<rparr>"

fun read_until_end :: "(nat + nat) list \<Rightarrow> read_loop" where
  "read_until_end [] = Still_Reading"
| "read_until_end (r # rs) =
     (case process_read_begin r process_read_operation of
        (op, Ready) \<Rightarrow>
          (case await_resume (pipe_ec op) (xfer_get_return (pipe_done op)) of
             Inr (Inr sz) \<Rightarrow> if sz = 0 then Loop_Ends rs else read_until_end rs
           | _ \<Rightarrow> Loop_Ends rs)
      | (op, p) \<Rightarrow> Loop_Parks)"

text \<open>
  What \<open>rc\<close> is when the coroutine has ended: \<open>d\<close> is the object, \<open>op\<close> the address of the operation
  of \<open>p.wait()\<close>, \<open>child\<close> its process id, and \<open>changes\<close> the changes of children the loop reports after the
  coroutine has suspended.
\<close>

definition launch_false_test ::
  "(nat + nat) list \<Rightarrow> nat \<Rightarrow> nat \<Rightarrow> int \<Rightarrow> nat \<Rightarrow> nat \<Rightarrow> process_event list \<Rightarrow> process_machine \<Rightarrow> int option" where
  "launch_false_test reads d op child r w changes m =
     (case read_until_end reads of
        Loop_Ends rest \<Rightarrow>
          (case process_run (Launched d child r w # Awaits d op # changes) m of
             Inr m \<Rightarrow> map_of (returned m) op
           | Inl e \<Rightarrow> None)
      | _ \<Rightarrow> None)"

lemma read_until_end_reads:
  assumes "\<forall>n \<in> set sizes. n > 0" and "r = Inr 0 \<or> (\<exists>e. r = Inl e \<and> e \<noteq> EAGAIN)"
  shows "read_until_end (map Inr sizes @ r # rest) = Loop_Ends rest"
  using assms
  by (induction sizes)
    (auto simp: process_read_begin_def process_read_operation_def await_resume_def xfer_get_return_def
      EAGAIN_def EWOULDBLOCK_def)

text \<open>
  The test gets the status of its child, however much it reads first and whatever other children
  end before; and it never ends if a read would block, or if the end of the child was reported
  before it waits.
\<close>

lemma launch_false_test_result:
  assumes "\<forall>n \<in> set sizes. n > 0" and "r = Inr 0 \<or> (\<exists>e. r = Inl e \<and> e \<noteq> EAGAIN)" and "other \<noteq> child"
  shows "launch_false_test (map Inr sizes @ r # rest) d op child rp wp
      [Changes other s, Changes child status] (no_children ps) = Some status"
    and "launch_false_test (map Inr sizes @ Inl EAGAIN # rest) d op child rp wp es m = None"
proof -
  have "events_allowed [Launched d child rp wp, Awaits d op, Changes other s, Changes child status] [] []"
    and c: "children_run [Launched d child rp wp, Awaits d op, Changes other s, Changes child status] [] = [(op, status)]"
    using assms(3) by (simp_all add: child_awaits_def child_report_def)
  moreover have "simulated (no_children ps) [] []" by (simp add: simulated_def no_children_def)
  ultimately obtain m0 where
    "process_run [Launched d child rp wp, Awaits d op, Changes other s, Changes child status] (no_children ps) = Inr m0"
    "returned m0 = [(op, status)]"
    using process_run_simulated [of "no_children ps" "[]" "[]"] by (fastforce simp: no_children_def)
  then show "launch_false_test (map Inr sizes @ r # rest) d op child rp wp
      [Changes other s, Changes child status] (no_children ps) = Some status"
    using read_until_end_reads [OF assms(1,2)] by (simp add: launch_false_test_def)
  have "read_until_end (map Inr sizes @ Inl EAGAIN # rest) = Loop_Parks"
    using assms(1)
    by (induction sizes)
      (auto simp: process_read_begin_def process_read_operation_def await_resume_def xfer_get_return_def)
  then show "launch_false_test (map Inr sizes @ Inl EAGAIN # rest) d op child rp wp es m = None"
    by (simp add: launch_false_test_def)
qed

lemma launch_false_test_misses_early_end:
  "process_run [Launched d child rp wp, Changes child status, Awaits d op] (no_children ps) = Inr m \<Longrightarrow> returned m = []"
proof -
  assume run: "process_run [Launched d child rp wp, Changes child status, Awaits d op] (no_children ps) = Inr m"
  have "events_allowed [Launched d child rp wp, Changes child status, Awaits d op] [] []"
    and c: "children_run [Launched d child rp wp, Changes child status, Awaits d op] [] = []"
    by (simp_all add: child_awaits_def child_report_def)
  moreover have "simulated (no_children ps) [] []" by (simp add: simulated_def no_children_def)
  ultimately obtain m' where "process_run [Launched d child rp wp, Changes child status, Awaits d op] (no_children ps) = Inr m'"
    "returned m' = returned (no_children ps) @ []"
    using process_run_simulated [of "no_children ps" "[]" "[]"] by fastforce
  then show "returned m = []" using run by (simp add: no_children_def)
qed

end
