(* ===== verification/Bit_Field.thy ===== *)
theory Bit_Field
  imports Ptl_Prelude
begin

text \<open>
  \<open>bitfield.hpp\<close>: a member of a union of bit fields over one unsigned word, \<open>Bits\<close> bits wide at
  \<open>Offset\<close>. The code writes \<open>mask0\<close> and \<open>mask\<close> where it means to call them, so that every member
  function that uses them is ill-formed when it is instantiated; the model reads them as the calls.
  The word is at least as wide as \<open>int\<close>, so that the arithmetic is that of the word.
\<close>

section \<open>The member\<close>

definition mask0 :: "nat \<Rightarrow> 'a::len word" where
  "mask0 bits = push_bit bits 1 - 1"

definition field_mask :: "nat \<Rightarrow> nat \<Rightarrow> 'a::len word" where
  "field_mask offset bits = push_bit offset (mask0 bits)"

definition field_get :: "nat \<Rightarrow> nat \<Rightarrow> 'a::len word \<Rightarrow> 'a word" where
  "field_get offset bits value = drop_bit offset value AND mask0 bits"

definition field_assign :: "nat \<Rightarrow> nat \<Rightarrow> 'a::len word \<Rightarrow> 'a word \<Rightarrow> 'a word res" where
  "field_assign offset bits v value =
     (if v \<le> mask0 bits
      then Inr ((value AND NOT (field_mask offset bits)) OR push_bit offset v)
      else Inl Assert_Failed)"

definition field_add :: "nat \<Rightarrow> nat \<Rightarrow> 'a::len word \<Rightarrow> 'a word \<Rightarrow> 'a word res" where
  "field_add offset bits v value =
     (if field_get offset bits value + v \<le> mask0 bits
      then Inr (value + push_bit offset v) else Inl Assert_Failed)"

definition field_sub :: "nat \<Rightarrow> nat \<Rightarrow> 'a::len word \<Rightarrow> 'a word \<Rightarrow> 'a word res" where
  "field_sub offset bits v value =
     (if v \<le> field_get offset bits value
      then Inr (value - push_bit offset v) else Inl Assert_Failed)"

definition field_increment :: "nat \<Rightarrow> nat \<Rightarrow> 'a::len word \<Rightarrow> 'a word res" where
  "field_increment offset bits value = field_add offset bits 1 value"

definition field_decrement :: "nat \<Rightarrow> nat \<Rightarrow> 'a::len word \<Rightarrow> 'a word res" where
  "field_decrement offset bits value = field_sub offset bits 1 value"

text \<open>
  The postfix operators return a reference to the local copy: what the caller may do with the
  result is the second component.
\<close>

definition field_post_increment :: "nat \<Rightarrow> nat \<Rightarrow> 'a::len word \<Rightarrow> ('a word \<times> 'a word res) res" where
  "field_post_increment offset bits value =
     res_bind (field_increment offset bits value) (\<lambda>value. Inr (value, Inl Undefined_Behaviour))"

definition field_post_decrement :: "nat \<Rightarrow> nat \<Rightarrow> 'a::len word \<Rightarrow> ('a word \<times> 'a word res) res" where
  "field_post_decrement offset bits value =
     res_bind (field_decrement offset bits value) (\<lambda>value. Inr (value, Inl Undefined_Behaviour))"

text \<open>The assertions at compile time.\<close>

definition field_ok :: "nat \<Rightarrow> nat \<Rightarrow> nat \<Rightarrow> bool" where
  "field_ok width offset bits \<longleftrightarrow> bits < width \<and> bits + offset \<le> width"

section \<open>Bits\<close>

lemma mask0_mask: "mask0 bits = mask bits"
  by (simp add: mask0_def mask_eq_decr_exp push_bit_eq_mult)

lemma bit_field_mask [simp]:
  "bit (field_mask offset bits :: 'a::len word) n \<longleftrightarrow> n < LENGTH('a) \<and> offset \<le> n \<and> n < offset + bits"
  by (auto simp: field_mask_def mask0_mask bit_simps)

lemma bit_field_get:
  "bit (field_get offset bits value :: 'a::len word) n \<longleftrightarrow>
     n < bits \<and> n < LENGTH('a) \<and> bit value (offset + n)"
  by (auto simp: field_get_def mask0_mask bit_simps)

lemma le_mask0_bits:
  fixes v :: "'a::len word"
  assumes "v \<le> mask0 bits" and "bits < LENGTH('a)" and "bit v n"
  shows "n < bits"
proof -
  have "uint (mask bits :: 'a word) = mask bits"
    using assms(2) by transfer simp
  then have "uint v < 2 ^ bits"
    using assms(1) by (simp add: mask0_mask word_le_def mask_eq_exp_minus_1)
  then have "uint (take_bit bits v) = uint v" by (simp add: unsigned_take_bit_eq take_bit_int_eq_self)
  then have "take_bit bits v = v" by (rule word_uint_eq_iff [THEN iffD2])
  then show ?thesis using assms(3) by (metis bit_take_bit_iff)
qed

text \<open>A word is its field and the rest, and a field value can be put in by addition.\<close>

definition rest :: "nat \<Rightarrow> nat \<Rightarrow> 'a::len word \<Rightarrow> 'a word" where
  "rest offset bits value = value AND NOT (field_mask offset bits)"

lemma bit_rest:
  "bit (rest offset bits value :: 'a::len word) n \<longleftrightarrow>
     n < LENGTH('a) \<and> bit value n \<and> \<not> (offset \<le> n \<and> n < offset + bits)"
  by (auto simp: rest_def bit_simps)

lemma put_is_or:
  fixes y :: "'a::len word"
  assumes "y \<le> mask0 bits" "field_ok LENGTH('a) offset bits"
  shows "rest offset bits value + push_bit offset y = rest offset bits value OR push_bit offset y"
proof (rule disjunctive_add_eq_or, rule bit_word_eqI)
  fix n
  have "n - offset < bits" if "bit y (n - offset)"
    using le_mask0_bits [OF assms(1) _ that] assms(2) by (simp add: field_ok_def)
  then show "bit (rest offset bits value AND push_bit offset y) n = bit 0 n"
    by (auto simp: bit_rest bit_simps)
qed

lemma field_le_mask0: "field_get offset bits value \<le> mask0 bits"
  unfolding field_get_def by (rule word_and_le1)

lemma rest_and_field:
  fixes w :: "'a::len word"
  assumes "field_ok LENGTH('a) offset bits"
  shows "w = rest offset bits w + push_bit offset (field_get offset bits w)"
  unfolding put_is_or [OF field_le_mask0 assms]
  by (rule bit_word_eqI) (use assms in \<open>auto simp: bit_rest bit_field_get bit_simps field_ok_def\<close>)

lemma put_bits:
  fixes y :: "'a::len word"
  assumes "y \<le> mask0 bits" "field_ok LENGTH('a) offset bits"
  shows "field_get offset bits (rest offset bits value + push_bit offset y) = y"
    and "other_offset + other_bits \<le> offset \<or> offset + bits \<le> other_offset \<Longrightarrow>
      field_get other_offset other_bits (rest offset bits value + push_bit offset y) =
      field_get other_offset other_bits value"
proof -
  have b: "n < bits" if "bit y n" for n
    using le_mask0_bits [OF assms(1) _ that] assms(2) by (simp add: field_ok_def)
  show "field_get offset bits (rest offset bits value + push_bit offset y) = y"
    unfolding put_is_or [OF assms]
    by (rule bit_word_eqI) (use assms(2) in \<open>auto simp: bit_rest bit_field_get bit_simps field_ok_def dest: b\<close>)
  assume "other_offset + other_bits \<le> offset \<or> offset + bits \<le> other_offset"
  then show "field_get other_offset other_bits (rest offset bits value + push_bit offset y) =
      field_get other_offset other_bits value"
    unfolding put_is_or [OF assms]
    by (intro bit_word_eqI)
      (use assms(2) in \<open>auto simp: bit_rest bit_field_get bit_simps field_ok_def dest!: b dest: bit_imp_le_length\<close>)
qed

text \<open>The three ways to change a field all put in a value that fits.\<close>

lemma field_changes:
  fixes w :: "'a::len word"
  assumes "field_ok LENGTH('a) offset bits"
  shows "field_assign offset bits v w = Inr w' \<Longrightarrow>
      v \<le> mask0 bits \<and> w' = rest offset bits w + push_bit offset v"
    and "field_add offset bits v w = Inr w' \<Longrightarrow> field_get offset bits w + v \<le> mask0 bits \<and>
      w' = rest offset bits w + push_bit offset (field_get offset bits w + v)"
    and "field_sub offset bits v w = Inr w' \<Longrightarrow>
      v \<le> field_get offset bits w \<and> field_get offset bits w - v \<le> mask0 bits \<and>
      w' = rest offset bits w + push_bit offset (field_get offset bits w - v)"
proof -
  note split = rest_and_field [OF assms, of w]
  show "v \<le> mask0 bits \<and> w' = rest offset bits w + push_bit offset v"
    if "field_assign offset bits v w = Inr w'"
    using that put_is_or [OF _ assms, of v w] by (simp add: field_assign_def rest_def split: if_splits)
  show "field_get offset bits w + v \<le> mask0 bits \<and>
      w' = rest offset bits w + push_bit offset (field_get offset bits w + v)"
    if "field_add offset bits v w = Inr w'"
  proof -
    have "field_get offset bits w + v \<le> mask0 bits" "w' = w + push_bit offset v"
      using that by (simp_all add: field_add_def split: if_splits)
    moreover have "w + push_bit offset v = rest offset bits w + push_bit offset (field_get offset bits w + v)"
      by (subst split) (simp add: push_bit_add add.assoc)
    ultimately show ?thesis by simp
  qed
  show "v \<le> field_get offset bits w \<and> field_get offset bits w - v \<le> mask0 bits \<and>
      w' = rest offset bits w + push_bit offset (field_get offset bits w - v)"
    if "field_sub offset bits v w = Inr w'"
  proof -
    have s: "v \<le> field_get offset bits w" "w' = w - push_bit offset v"
      using that by (simp_all add: field_sub_def split: if_splits)
    have "push_bit offset (field_get offset bits w) =
        push_bit offset (field_get offset bits w - v) + push_bit offset v"
      by (simp flip: push_bit_add)
    then have "w - push_bit offset v = rest offset bits w + push_bit offset (field_get offset bits w - v)"
      by (subst split) simp
    moreover have "field_get offset bits w - v \<le> mask0 bits"
      using field_le_mask0 [of offset bits w] s(1) by (meson order_trans word_sub_le)
    ultimately show ?thesis using s by simp
  qed
qed

section \<open>Properties\<close>

text \<open>
  The fields of a union are independent variables. An assignment, addition or subtraction that
  passes its assertion gives its own field exactly the value asked for, an addition also when the
  sum in the word wraps around, and every field on other bits keeps its value.
\<close>

theorem bit_fields_independent:
  fixes w :: "'a::len word"
  assumes "field_ok LENGTH('a) offset bits"
    and "other_offset + other_bits \<le> offset \<or> offset + bits \<le> other_offset"
    and "(c, r) \<in> {(v, field_assign offset bits v w), (field_get offset bits w + v, field_add offset bits v w),
      (field_get offset bits w - v, field_sub offset bits v w)}"
    and "r = Inr w'"
  shows "field_get offset bits w' = c \<and> c \<le> mask0 bits \<and>
    field_get other_offset other_bits w' = field_get other_offset other_bits w"
proof -
  have "c \<le> mask0 bits \<and> w' = rest offset bits w + push_bit offset c"
    using assms(3,4) field_changes [OF assms(1), of v w w'] by auto
  then show ?thesis using put_bits [OF _ assms(1), of c] assms(2) by blast
qed

lemma bit_fields_independent_witness:
  "field_get 4 3 (0x1c :: 32 word) = 1 \<and> field_get 0 4 (0x1c :: 32 word) = 12"
proof -
  have "field_add 0 4 7 (0x15 :: 32 word) = Inr 0x1c" by code_simp
  moreover have "field_get 4 3 (0x15 :: 32 word) = 1" "field_get 0 4 (0x15 :: 32 word) + 7 = 12"
    "field_ok LENGTH(32) 0 4"
    by code_simp+
  ultimately show ?thesis
    using bit_fields_independent [where offset = 0 and bits = 4 and other_offset = 4 and other_bits = 3
        and c = 12 and r = "field_add 0 4 7 0x15" and v = 7 and w = "0x15 :: 32 word" and w' = "0x1c"] by simp
qed

text \<open>An assignment fails exactly for values that do not fit; the postfix operators give nothing usable.\<close>

lemma field_assign_fails_iff: "field_assign offset bits v w = Inl e \<longleftrightarrow> e = Assert_Failed \<and> \<not> v \<le> mask0 bits"
  by (auto simp: field_assign_def)

lemma postfix_result_dangles:
  "field_post_increment offset bits w = Inr (w', old) \<Longrightarrow> old = Inl Undefined_Behaviour"
  "field_post_decrement offset bits w = Inr (w', old) \<Longrightarrow> old = Inl Undefined_Behaviour"
  by (auto simp: field_post_increment_def field_post_decrement_def res_bind_Inr_iff)

end
