(* ===== verification/Static_String.thy ===== *)
theory Static_String
  imports Ptl_Prelude
begin

text \<open>
  \<open>experimental/static_string.hpp\<close>, a view of a string literal, and \<open>experimental/type_name.hpp\<close>,
  which cuts the name of a type out of the text a compiler gives for the enclosing function. A
  pointer into a string is what can be read from it on; that text is a parameter.
\<close>

section \<open>\<open>static_string\<close>\<close>

record static_string =
  memory :: "char list"
  size_of_view :: u64

text \<open>From an array of \<open>N\<close> characters, with the null character at its end, or from a pointer and a size.\<close>

definition static_string_array :: "char list \<Rightarrow> static_string" where
  "static_string_array a = \<lparr>memory = a, size_of_view = of_nat (length a) - 1\<rparr>"

definition static_string_range :: "char list \<Rightarrow> u64 \<Rightarrow> static_string" where
  "static_string_range p n = \<lparr>memory = p, size_of_view = n\<rparr>"

definition string_data :: "static_string \<Rightarrow> char list" where
  "string_data s = memory s"

definition string_size :: "static_string \<Rightarrow> u64" where
  "string_size s = size_of_view s"

text \<open>Moving a pointer past the end of its array is undefined.\<close>

definition advance :: "nat \<Rightarrow> char list \<Rightarrow> char list res" where
  "advance n p = (if n \<le> length p then Inr (drop n p) else Inl Undefined_Behaviour)"

definition string_begin :: "static_string \<Rightarrow> char list" where
  "string_begin s = memory s"

definition string_end :: "static_string \<Rightarrow> char list res" where
  "string_end s = advance (unat (size_of_view s)) (memory s)"

text \<open>\<open>std::out_of_range\<close> is a logic error.\<close>

definition string_at :: "static_string \<Rightarrow> u64 \<Rightarrow> char res" where
  "string_at s n =
     (if n < size_of_view s
      then (if unat n < length (memory s) then Inr (memory s ! unat n) else Inl Undefined_Behaviour)
      else Inl Logic_Error)"

definition string_write :: "static_string \<Rightarrow> string res" where
  "string_write s =
     (if unat (string_size s) \<le> length (string_data s)
      then Inr (take (unat (string_size s)) (string_data s)) else Inl Undefined_Behaviour)"

section \<open>\<open>type_name\<close>\<close>

datatype compiler = Clang | Gnu_Before_2014 | Gnu | Msvc

fun cut_front :: "compiler \<Rightarrow> nat" where
  "cut_front Clang = 31"
| "cut_front Gnu_Before_2014 = 36"
| "cut_front Gnu = 46"
| "cut_front Msvc = 38"

fun cut_back :: "compiler \<Rightarrow> nat" where
  "cut_back Msvc = 7"
| "cut_back _ = 1"

text \<open>\<open>function_text\<close> is the array behind \<open>__PRETTY_FUNCTION__\<close> or \<open>__FUNCSIG__\<close>.\<close>

definition type_name :: "compiler \<Rightarrow> char list \<Rightarrow> static_string res" where
  "type_name k function_text =
     (let p = static_string_array function_text
      in res_bind (advance (cut_front k) (string_data p)) (\<lambda>q.
           Inr (static_string_range q (string_size p - of_nat (cut_front k) - of_nat (cut_back k)))))"

section \<open>Properties\<close>

text \<open>What the compilers are documented to give for \<open>type_name<T>\<close>, around the name of \<open>T\<close>.\<close>

fun text_before :: "compiler \<Rightarrow> string" where
  "text_before Clang = ''static_string type_name() [T = ''"
| "text_before Gnu_Before_2014 = ''static_string type_name() [with T = ''"
| "text_before Gnu = ''constexpr static_string type_name() [with T = ''"
| "text_before Msvc = ''class static_string __cdecl type_name<''"

fun text_after :: "compiler \<Rightarrow> string" where
  "text_after Msvc = ''>(void)''"
| "text_after _ = '']''"

definition terminator :: char where
  "terminator = CHR 0x00"

lemma cuts: "cut_front k = length (text_before k)" "cut_back k = length (text_after k)"
  by (cases k; simp)+

text \<open>
  \<open>type_name\<close> gives the name of the type. For each of the four compilers, when the text of the
  function is the documented one around a name, the view consists of exactly that name: printing
  it, its size, its characters by index, and the check of the index.
\<close>

theorem type_name_is_the_name:
  assumes "function_text = text_before k @ name @ text_after k @ [terminator]" and "length name < 2 ^ 63"
  shows "\<exists>s. type_name k function_text = Inr s \<and> string_write s = Inr name \<and>
    unat (string_size s) = length name \<and>
    string_end s = Inr (text_after k @ [terminator]) \<and>
    (\<forall>n. string_at s n = (if unat n < length name then Inr (name ! unat n) else Inl Logic_Error))"
proof -
  let ?q = "name @ text_after k @ [terminator]"
  have l: "length (text_before k) \<le> 46" "length (text_after k) \<le> 7" by (cases k; simp)+
  have "(of_nat (length function_text) - 1 - of_nat (cut_front k) - of_nat (cut_back k) :: u64) = of_nat (length name)"
    by (simp add: assms(1) cuts)
  moreover have "advance (cut_front k) function_text = Inr ?q"
    by (simp add: advance_def assms(1) cuts)
  ultimately have "type_name k function_text = Inr \<lparr>memory = ?q, size_of_view = of_nat (length name)\<rparr>"
    by (simp add: type_name_def static_string_array_def static_string_range_def string_data_def string_size_def)
  moreover have u: "unat (of_nat (length name) :: u64) = length name"
    using assms(2) by (simp add: unat_of_nat take_bit_nat_eq_self)
  ultimately show ?thesis
    by (auto simp: string_write_def string_size_def string_data_def string_end_def advance_def
        string_at_def word_less_nat_alt nth_append)
qed

lemma type_name_is_the_name_witness:
  "\<exists>s. type_name Clang (''static_string type_name() [T = int]'' @ [terminator]) = Inr s \<and> string_write s = Inr ''int''"
  using type_name_is_the_name [of _ Clang "''int''", OF refl] by auto

text \<open>A text that is too short for the cuts, from a compiler of another kind, is not detected.\<close>

lemma type_name_of_short_text:
  assumes "length function_text < cut_front k"
  shows "type_name k function_text = Inl Undefined_Behaviour"
  using assms by (simp add: type_name_def Let_def advance_def string_data_def static_string_array_def)

end
