(* ===== verification/Task_Lifetime.thy ===== *)
theory Task_Lifetime
  imports Coro_Properties Task_Handles
begin

text \<open>
  The memory of coroutine frames (\<open>task.hpp\<close>). \<open>Coro_Task\<close> has a frame for every coroutine from the
  start; here a frame is allocated by the call of the coroutine in a \<open>co_await\<close> expression
  and freed by the destructor of the \<open>Task\<close> at the end of that expression, on whatever thread that
  is. A step that touches a frame that is not there is a fault. The root belongs to the caller.
\<close>

section \<open>Frames in memory\<close>

record 'v memory =
  world :: "'v world"
  allocated :: "nat \<Rightarrow> bool"

text \<open>\<open>operator new\<close> of the promise gives fresh memory.\<close>

definition promise_new :: "nat \<Rightarrow> 'v memory \<Rightarrow> 'v memory res" where
  "promise_new c m =
     (if allocated m c then Inl Undefined_Behaviour else Inr (m\<lparr>allocated := (allocated m)(c := True)\<rparr>))"

definition promise_delete :: "nat \<Rightarrow> 'v memory \<Rightarrow> 'v memory res" where
  "promise_delete c m =
     (if allocated m c then Inr (m\<lparr>allocated := (allocated m)(c := False)\<rparr>) else Inl Undefined_Behaviour)"

definition task_get_return_object :: "nat \<Rightarrow> task_handle" where
  "task_get_return_object c = task_from c"

text \<open>The task that the next instruction of the body calls and awaits.\<close>

fun next_task :: "instr list \<Rightarrow> nat option" where
  "next_task (Co_Await c # rest) = Some c"
| "next_task (Schedule_On c ex # rest) = Some c"
| "next_task _ = None"

text \<open>\<open>~Task\<close> at the end of the expression, also when \<open>await_resume\<close> throws.\<close>

definition end_of_expression :: "nat \<Rightarrow> 'v memory \<Rightarrow> 'v memory res" where
  "end_of_expression c m =
     fold (\<lambda>a r. res_bind r (promise_delete a)) (task_destroy (task_get_return_object c)) (Inr m)"

definition memory_run :: "nat \<Rightarrow> nat \<Rightarrow> 'v memory \<Rightarrow> 'v memory res" where
  "memory_run t h m =
     (if \<not> allocated m h then Inl Bad_Access
      else case awaiting (frames (world m) h) of
        Some c \<Rightarrow>
          (if \<not> allocated m c then Inl Bad_Access
           else end_of_expression c (m\<lparr>world := coroutine_step t h (world m)\<rparr>))
      | None \<Rightarrow>
          res_bind (case next_task (body (frames (world m) h)) of None \<Rightarrow> Inr m | Some c \<Rightarrow> promise_new c m)
            (\<lambda>m. Inr (m\<lparr>world := coroutine_step t h (world m)\<rparr>)))"

definition memory_take :: "nat \<Rightarrow> nat \<Rightarrow> nat \<Rightarrow> 'v memory \<Rightarrow> 'v memory res" where
  "memory_take t ex h m =
     (if \<not> allocated m h then Inl Bad_Access else Inr (m\<lparr>world := take_job t ex h (world m)\<rparr>))"

inductive memory_step :: "(nat \<Rightarrow> nat \<Rightarrow> bool) \<Rightarrow> 'v memory \<Rightarrow> 'v memory res \<Rightarrow> bool" for drains where
  Run: "running (world m) t = Some h \<Longrightarrow> memory_step drains m (memory_run t h m)"
| Take: "\<lbrakk>running (world m) t = None; drains t ex; queues (world m) ex = h # rest\<rbrakk>
    \<Longrightarrow> memory_step drains m (memory_take t ex h m)"

definition memory_init :: "(nat \<Rightarrow> instr list \<times> 'v ending) \<Rightarrow> (nat \<Rightarrow> nat option) \<Rightarrow> 'v memory" where
  "memory_init prog cur = \<lparr>world = coro_init prog cur, allocated = (\<lambda>c. c = 0)\<rparr>"

inductive memory_reachable ::
  "(nat \<Rightarrow> instr list \<times> 'v ending) \<Rightarrow> (nat \<Rightarrow> nat option) \<Rightarrow> (nat \<Rightarrow> nat \<Rightarrow> bool) \<Rightarrow> 'v memory res \<Rightarrow> bool"
  for prog cur drains where
  Init: "memory_reachable prog cur drains (Inr (memory_init prog cur))"
| Step: "memory_reachable prog cur drains (Inr m) \<Longrightarrow> memory_step drains m r \<Longrightarrow> memory_reachable prog cur drains r"

section \<open>Who waits for whom\<close>

text \<open>A coroutine that is the continuation of a task that has not ended awaits that task.\<close>

definition links :: "'v world \<Rightarrow> bool" where
  "links w \<longleftrightarrow>
     (\<forall>c g. continuation (frames w c) = Some g \<and> status (frames w c) \<noteq> Ended \<longrightarrow> awaiting (frames w g) = Some c) \<and>
     (\<forall>h. awaiting (frames w h) \<noteq> None \<longrightarrow> status (frames w h) = Active)"

lemma frames_end:
  assumes "stored (frames w h) = expected_nothing"
  shows "\<exists>x. frames (end_coroutine t h out w) = (frames w)(h := ended_frame x (frames w h))"
proof -
  obtain x where "store_ending out expected_nothing = Inr x" using store_ending_fresh by blast
  then show ?thesis
    using assms by (auto simp: end_coroutine_def on_frame_def ended_frame_def frames_final_suspend)
qed

text \<open>
  What one step does to the frames: it changes the running one, and starts at most one other. The
  two shapes a step can have:
\<close>

definition changes_self :: "nat \<Rightarrow> 'v world \<Rightarrow> 'v world \<Rightarrow> bool" where
  "changes_self h w w' \<longleftrightarrow>
     (\<exists>f. frames w' = (frames w)(h := f) \<and> continuation f = continuation (frames w h) \<and>
       awaiting f = None \<and> (awaiting (frames w h) = None \<longrightarrow> next_task (body (frames w h)) = None))"

definition starts_task :: "nat \<Rightarrow> nat \<Rightarrow> 'v world \<Rightarrow> 'v world \<Rightarrow> bool" where
  "starts_task h c w w' \<longleftrightarrow>
     awaiting (frames w h) = None \<and> next_task (body (frames w h)) = Some c \<and>
     (\<exists>f g. frames w' = (frames w)(h := f, c := g) \<and>
       continuation f = continuation (frames w h) \<and> awaiting f = Some c \<and> status f = Active \<and>
       continuation g = Some h \<and> awaiting g = None) \<and>
     c \<noteq> h \<and> c \<noteq> 0 \<and> continuation (frames w c) = None"

lemma starts_taskE:
  assumes "starts_task h c w w'"
  obtains f g where "frames w' = (frames w)(h := f, c := g)" "continuation f = continuation (frames w h)"
    "awaiting f = Some c" "status f = Active" "continuation g = Some h" "awaiting g = None" "c \<noteq> h" "c \<noteq> 0"
    "continuation (frames w c) = None" "awaiting (frames w h) = None" "next_task (body (frames w h)) = Some c"
  using assms unfolding starts_task_def by (elim exE conjE) (rule that; assumption)

lemma changes_selfE:
  assumes "changes_self h w w'"
  obtains f where "frames w' = (frames w)(h := f)" "continuation f = continuation (frames w h)" "awaiting f = None"
    "awaiting (frames w h) = None \<Longrightarrow> next_task (body (frames w h)) = None"
  using assms unfolding changes_self_def by (elim exE conjE) (rule that; simp)

lemma end_changes_self:
  assumes "stored (frames w h) = expected_nothing" and "awaiting (frames w h) = None \<longrightarrow> body (frames w h) = []"
  shows "changes_self h w (end_coroutine t h out w)"
proof -
  obtain x where "frames (end_coroutine t h out w) = (frames w)(h := ended_frame x (frames w h))"
    using frames_end [OF assms(1)] by blast
  then show ?thesis
    using assms(2) unfolding changes_self_def by (intro exI [of _ "ended_frame x (frames w h)"]) auto
qed

lemma await_starts_task:
  assumes inv: "coro_inv n cur drains pl w" and run: "running w t = Some h" and l: "links w"
    and none: "awaiting (frames w h) = None" and b: "body (frames w h) = i # rest" and i: "target i = Some c"
  shows "starts_task h c w (coroutine_step t h w)"
proof -
  have u: "untouched n pl w" using inv by (simp add: coro_inv_def)
  have "c \<in> set (targets (body (frames w h)))" using b i by (cases i) auto
  note c = untouched_facts [OF u this]
  have "awaiting (frames w c) \<noteq> None \<Longrightarrow> status (frames w c) = Active" using l unfolding links_def by blast
  then have a: "awaiting (frames w c) = None" using c(1) by (metis status.distinct(1))
  have ch: "c \<noteq> h" "h \<noteq> c" "c \<noteq> 0" using c(4) by simp_all
  let ?f = "(frames w h)\<lparr>body := rest, awaiting := Some c\<rparr>"
  let ?g = "set_continuation h (current w t) (frames w c)"
  have nt: "next_task (body (frames w h)) = Some c" using b i by (cases i) auto
  have act: "status (frames w h) = Active" by (rule running_facts(2) [OF inv run])
  have "\<exists>g. frames (coroutine_step t h w) = (frames w)(h := ?f, c := g) \<and> continuation g = Some h \<and> awaiting g = None"
  proof (cases i)
    case (Co_Await c')
    then have "frames (coroutine_step t h w) = (frames w)(h := ?f, c := ?g\<lparr>status := Active\<rparr>)"
      using none b i c(1) ch
      by (simp add: coroutine_step_def await_ready_def await_suspend_def Let_def world_ops)
    then show ?thesis using a by (intro exI [of _ "?g\<lparr>status := Active\<rparr>"]) (simp add: set_continuation_def)
  next
    case (Schedule_On c' ex)
    then have "frames (coroutine_step t h w) = (frames w)(h := ?f, c := ?g)"
      using none b i ch by (simp add: coroutine_step_def schedule_on_suspend_def world_ops)
    then show ?thesis using a by (intro exI [of _ ?g]) (simp add: set_continuation_def)
  next
    case (Switch_To ex)
    then show ?thesis using i by simp
  qed
  then obtain g where "frames (coroutine_step t h w) = (frames w)(h := ?f, c := g)"
    "continuation g = Some h" "awaiting g = None" by blast
  then show ?thesis
    using none nt act c(2) ch unfolding starts_task_def
    by (intro conjI exI [of _ ?f] exI [of _ g]) simp_all
qed

lemma step_frames:
  assumes inv: "coro_inv n cur drains pl w" and run: "running w t = Some h" and l: "links w"
  shows "changes_self h w (coroutine_step t h w) \<or> (\<exists>c. starts_task h c w (coroutine_step t h w))"
proof (cases "awaiting (frames w h)")
  case (Some c)
  obtain out where out: "task_result (stored (frames w c)) = ending_res out"
    using awaited_has_ended(2) [OF inv run Some] by blast
  show ?thesis
  proof (cases out)
    case (Co_Return v)
    let ?f = "(frames w h)\<lparr>awaiting := None, received := received (frames w h) @ [v]\<rparr>"
    have "frames (coroutine_step t h w) = (frames w)(h := ?f)"
      using Some out Co_Return by (simp add: coroutine_step_def on_frame_def)
    then have "changes_self h w (coroutine_step t h w)"
      using Some unfolding changes_self_def by (intro exI [of _ ?f]) simp
    then show ?thesis by blast
  next
    case (Raise e)
    then have "coroutine_step t h w = end_coroutine t h (Raise e) w"
      using Some out by (simp add: coroutine_step_def)
    then show ?thesis using end_changes_self [OF running_facts(3) [OF inv run]] Some by simp
  qed
next
  case None
  show ?thesis
  proof (cases "body (frames w h)")
    case Nil
    then have "coroutine_step t h w = end_coroutine t h (ending (frames w h)) w"
      using None by (simp add: coroutine_step_def)
    then show ?thesis using end_changes_self [OF running_facts(3) [OF inv run]] Nil by simp
  next
    case (Cons i rest)
    show ?thesis
    proof (cases "target i")
      case (Some c)
      then show ?thesis using await_starts_task [OF inv run l None Cons] by blast
    next
      case no: None
      then obtain ex where ex: "i = Switch_To ex" by (cases i) auto
      let ?f = "(frames w h)\<lparr>body := rest\<rparr>"
      have "frames (coroutine_step t h w) = (frames w)(h := ?f)"
        using None Cons ex by (simp add: coroutine_step_def Let_def world_ops)
      then have "changes_self h w (coroutine_step t h w)"
        using None Cons ex unfolding changes_self_def by (intro exI [of _ ?f]) simp
      then show ?thesis by blast
    qed
  qed
qed

lemma links_awaits: "links w \<Longrightarrow> continuation (frames w c) = Some g \<Longrightarrow> status (frames w c) \<noteq> Ended \<Longrightarrow>
    awaiting (frames w g) = Some c"
  unfolding links_def by blast

lemma links_active: "links w \<Longrightarrow> awaiting (frames w h) = Some c \<Longrightarrow> status (frames w h) = Active"
  unfolding links_def by blast

lemma linksI:
  assumes "\<And>c g. continuation (frames w c) = Some g \<Longrightarrow> status (frames w c) \<noteq> Ended \<Longrightarrow> awaiting (frames w g) = Some c"
    and "\<And>h c. awaiting (frames w h) = Some c \<Longrightarrow> status (frames w h) = Active"
  shows "links w"
  using assms unfolding links_def by blast

text \<open>Nobody waits behind a task for a coroutine that runs.\<close>

lemma runner_not_behind:
  assumes inv: "coro_inv n cur drains pl w" and run: "running w t = Some h"
    and "continuation (frames w c) = Some h" and "status (frames w c) \<noteq> Ended"
  shows False
proof -
  have "pl h = Some (Behind c)" using inv assms(3,4) by (auto simp: coro_inv_def placed_def)
  then show False using running_facts(1) [OF inv run] by simp
qed

lemma placed_has_continuation:
  assumes "coro_inv n cur drains pl w" and "c \<noteq> 0" and "pl c \<noteq> None \<or> status (frames w c) = Active"
  shows "continuation (frames w c) \<noteq> None"
proof -
  have "\<forall>c. status (frames w c) = Active \<longrightarrow> pl c \<noteq> None \<and> c < n"
    and "\<forall>c. c \<noteq> 0 \<and> pl c \<noteq> None \<longrightarrow> continuation (frames w c) \<noteq> None"
    using assms(1) unfolding coro_inv_def lively_def by argo+
  then show ?thesis using assms(2,3) by blast
qed

lemma links_self:
  assumes inv: "coro_inv n cur drains pl w" and run: "running w t = Some h" and l: "links w"
    and "changes_self h w w'"
  shows "links w'"
proof -
  from assms(4) obtain f where f: "frames w' = (frames w)(h := f)" "continuation f = continuation (frames w h)" "awaiting f = None"
    by (rule changes_selfE)
  show ?thesis
  proof (rule linksI)
    fix c g
    assume c: "continuation (frames w' c) = Some g" "status (frames w' c) \<noteq> Ended"
    have k: "continuation (frames w c) = Some g" using c(1) f by (cases "c = h") simp_all
    have e: "status (frames w c) \<noteq> Ended"
      using c(2) f running_facts(2) [OF inv run] by (cases "c = h") simp_all
    have "g \<noteq> h" using runner_not_behind [OF inv run _ e] k by metis
    then show "awaiting (frames w' g) = Some c" using links_awaits [OF l k e] f by simp
  next
    fix g c
    assume g: "awaiting (frames w' g) = Some c"
    then have "g \<noteq> h" using f by auto
    then show "status (frames w' g) = Active" using links_active [OF l] g f by simp
  qed
qed

lemma links_start:
  assumes inv: "coro_inv n cur drains pl w" and run: "running w t = Some h" and l: "links w"
    and "starts_task h d w w'"
  shows "links w'"
proof -
  from assms(4) obtain f g0 where f: "frames w' = (frames w)(h := f, d := g0)" "continuation f = continuation (frames w h)"
      "awaiting f = Some d" "status f = Active" "continuation g0 = Some h" "awaiting g0 = None" "d \<noteq> h"
      and d: "d \<noteq> 0" "continuation (frames w d) = None"
    by (rule starts_taskE)
  show ?thesis
  proof (rule linksI)
    fix c g
    assume c: "continuation (frames w' c) = Some g" "status (frames w' c) \<noteq> Ended"
    show "awaiting (frames w' g) = Some c"
    proof (cases "c = d")
      case True
      then have "g = h" using c(1) f by simp
      then show ?thesis using f True by simp
    next
      case False
      have k: "continuation (frames w c) = Some g" using c(1) f False by (cases "c = h") simp_all
      have e: "status (frames w c) \<noteq> Ended"
        using c(2) f False running_facts(2) [OF inv run] by (cases "c = h") simp_all
      have a: "awaiting (frames w g) = Some c" by (rule links_awaits [OF l k e])
      have "g \<noteq> h" using runner_not_behind [OF inv run _ e] k by metis
      moreover have "g \<noteq> d"
      proof
        assume "g = d"
        then have "status (frames w d) = Active" using links_active [OF l] a by simp
        then show False using placed_has_continuation [OF inv d(1) disjI2] d(2) by simp
      qed
      ultimately show ?thesis using a f by simp
    qed
  next
    fix g c
    assume g: "awaiting (frames w' g) = Some c"
    then have "g \<noteq> d" using f by auto
    then show "status (frames w' g) = Active"
      using links_active [OF l] g f by (cases "g = h") simp_all
  qed
qed

lemma take_job_frames:
  assumes "coro_inv n cur drains pl w" and "queues w ex = h # rest"
  shows "frames (take_job t ex h w) = (frames w)(h := (frames w h)\<lparr>status := Active\<rparr>)"
    and "status (frames w h) \<noteq> Ended" and "pl h \<noteq> None"
proof -
  have "h \<in> set (queues w ex)" using assms(2) by simp
  then show pl: "pl h \<noteq> None" using assms(1) by (auto simp: coro_inv_def placed_def)
  then show e: "status (frames w h) \<noteq> Ended" using assms(1) by (auto simp: coro_inv_def lively_def)
  show "frames (take_job t ex h w) = (frames w)(h := (frames w h)\<lparr>status := Active\<rparr>)"
    using e by (simp add: take_job_def Let_def world_ops)
qed

lemma links_take:
  assumes "coro_inv n cur drains pl w" and "queues w ex = h # rest" and "links w"
  shows "links (take_job t ex h w)"
proof -
  note f = take_job_frames(1) [OF assms(1,2), of t] take_job_frames(2) [OF assms(1,2)]
  show ?thesis
  proof (rule linksI)
    fix c g
    assume c: "continuation (frames (take_job t ex h w) c) = Some g" "status (frames (take_job t ex h w) c) \<noteq> Ended"
    then have "continuation (frames w c) = Some g" "status (frames w c) \<noteq> Ended"
      using f(1,2) by (cases "c = h"; simp)+
    then show "awaiting (frames (take_job t ex h w) g) = Some c"
      using links_awaits [OF assms(3)] f(1) by (cases "g = h") simp_all
  next
    fix g c
    assume "awaiting (frames (take_job t ex h w) g) = Some c"
    then show "status (frames (take_job t ex h w) g) = Active"
      using links_active [OF assms(3)] f(1) by (cases "g = h") simp_all
  qed
qed

section \<open>Properties\<close>

lemma links_reachable:
  assumes "coro_reachable prog cur drains w" and "well_nested prog n"
  shows "links w"
  using assms(1)
proof (induction rule: coro_reachable.induct)
  case Init
  show ?case by (simp add: links_def coro_init_def)
next
  case (Step w w')
  obtain pl where inv: "coro_inv n cur drains pl w" using coro_inv_reachable [OF Step.hyps(1) assms(2)] by blast
  from Step.hyps(2) show ?case
  proof (cases rule: coro_step.cases)
    case (Run t h)
    then show ?thesis
      using step_frames [OF inv _ Step.IH] links_self [OF inv _ Step.IH] links_start [OF inv _ Step.IH] by blast
  next
    case (Take t ex h rest)
    then show ?thesis using links_take [OF inv _ Step.IH] by blast
  qed
qed

text \<open>The allocated frames are the root and the tasks somebody awaits.\<close>

definition awaited_frames :: "'v memory \<Rightarrow> bool" where
  "awaited_frames m \<longleftrightarrow>
     (\<forall>c. allocated m c \<longleftrightarrow> c = 0 \<or> (\<exists>h. awaiting (frames (world m) h) = Some c))"

lemma placed_allocated:
  assumes inv: "coro_inv n cur drains pl (world m)" and "links (world m)" and "awaited_frames m"
    and "pl h \<noteq> None"
  shows "allocated m h"
proof (cases "h = 0")
  case False
  then obtain g where g: "continuation (frames (world m) h) = Some g"
    using placed_has_continuation [OF inv] assms(4) by blast
  have "status (frames (world m) h) \<noteq> Ended" using inv assms(4) by (auto simp: coro_inv_def lively_def)
  then show ?thesis using links_awaits [OF assms(2) g] assms(3) by (auto simp: awaited_frames_def)
qed (use assms(3) in \<open>simp add: awaited_frames_def\<close>)

lemma task_awaited_once:
  assumes "coro_inv n cur drains pl w" and "awaiting (frames w g) = Some c"
  shows "continuation (frames w c) = Some g" and "c \<noteq> 0"
proof -
  show k: "continuation (frames w c) = Some g" using assms by (auto simp: coro_inv_def results_in_def)
  have "lively n pl w" using assms(1) by (simp add: coro_inv_def)
  then have "continuation (frames w 0) = None" by (rule lively_facts(1))
  with k show "c \<noteq> 0" by (metis option.distinct(1))
qed

lemma memory_run_ok:
  assumes inv: "coro_inv n cur drains pl (world m)" and l: "links (world m)" and a: "awaited_frames m"
    and run: "running (world m) t = Some h"
  shows "\<exists>m'. memory_run t h m = Inr m' \<and> world m' = coroutine_step t h (world m) \<and> awaited_frames m'"
proof -
  let ?w = "world m"
  have h: "allocated m h" using placed_allocated [OF inv l a] running_facts(1) [OF inv run] by simp
  from step_frames [OF inv run l] show ?thesis
  proof (elim disjE exE)
    assume "changes_self h ?w (coroutine_step t h ?w)"
    then obtain f where f: "frames (coroutine_step t h ?w) = (frames ?w)(h := f)" "awaiting f = None"
        "awaiting (frames ?w h) = None \<Longrightarrow> next_task (body (frames ?w h)) = None"
      by (elim changes_selfE) (rule that; simp)
    have aw: "awaiting (frames (coroutine_step t h ?w) g) = Some c \<longleftrightarrow> g \<noteq> h \<and> awaiting (frames ?w g) = Some c" for g c
      using f(1,2) by simp
    show ?thesis
    proof (cases "awaiting (frames ?w h)")
      case None
      let ?m = "m\<lparr>world := coroutine_step t h ?w\<rparr>"
      have "awaiting (frames (coroutine_step t h ?w) g) = Some c \<longleftrightarrow> awaiting (frames ?w g) = Some c" for g c
        using aw [of g c] None by (cases "g = h") simp_all
      then have "awaited_frames ?m" using a by (simp add: awaited_frames_def)
      then show ?thesis using h None f(3) by (simp add: memory_run_def)
    next
      case (Some c)
      let ?m = "m\<lparr>world := coroutine_step t h ?w, allocated := (allocated m)(c := False)\<rparr>"
      have "allocated m c" using a Some by (auto simp: awaited_frames_def)
      then have "memory_run t h m = Inr ?m"
        using h Some by (simp add: memory_run_def end_of_expression_def task_destroy_def
            task_get_return_object_def task_from_def promise_delete_def)
      moreover have only: "g = h" if "awaiting (frames ?w g) = Some c" for g
        using task_awaited_once(1) [OF inv that] task_awaited_once(1) [OF inv Some] by simp
      have "allocated ?m d \<longleftrightarrow> d = 0 \<or> (\<exists>g. awaiting (frames (world ?m) g) = Some d)" for d
      proof (cases "d = c")
        case True
        then show ?thesis using only aw task_awaited_once(2) [OF inv Some] by auto
      next
        case False
        have "allocated m d \<longleftrightarrow> d = 0 \<or> (\<exists>g. awaiting (frames ?w g) = Some d)" using a by (simp add: awaited_frames_def)
        moreover have "g \<noteq> h" if "awaiting (frames ?w g) = Some d" for g using that Some False by auto
        ultimately show ?thesis using False aw by auto
      qed
      ultimately show ?thesis by (intro exI [of _ ?m]) (simp add: awaited_frames_def)
    qed
  next
    fix c
    assume "starts_task h c ?w (coroutine_step t h ?w)"
    then obtain f g0 where f: "frames (coroutine_step t h ?w) = (frames ?w)(h := f, c := g0)"
        "continuation f = continuation (frames ?w h)" "awaiting f = Some c" "status f = Active"
        "continuation g0 = Some h" "awaiting g0 = None" "c \<noteq> h"
      and c: "c \<noteq> 0" "continuation (frames ?w c) = None"
      and n: "awaiting (frames ?w h) = None" "next_task (body (frames ?w h)) = Some c"
      by (rule starts_taskE)
    have no: "awaiting (frames ?w g) \<noteq> Some c" for g using task_awaited_once(1) [OF inv] c(2) by fastforce
    then have "\<not> allocated m c" using a c(1) by (simp add: awaited_frames_def)
    then have run: "memory_run t h m = Inr (m\<lparr>allocated := (allocated m)(c := True), world := coroutine_step t h ?w\<rparr>)"
      using h n by (simp add: memory_run_def promise_new_def)
    have "awaiting (frames ?w c) = None"
    proof (rule ccontr)
      assume "awaiting (frames ?w c) \<noteq> None"
      then have "status (frames ?w c) = Active" using links_active [OF l] by blast
      then show False using placed_has_continuation [OF inv c(1)] c(2) by blast
    qed
    then have aw: "awaiting (frames (coroutine_step t h ?w) g) = Some d \<longleftrightarrow>
        (g = h \<and> d = c) \<or> awaiting (frames ?w g) = Some d" for g d
      using f n(1) by auto
    have "awaited_frames (m\<lparr>allocated := (allocated m)(c := True), world := coroutine_step t h ?w\<rparr>)"
      using a aw by (auto simp: awaited_frames_def)
    then show ?thesis using run by simp
  qed
qed

lemma memory_take_ok:
  assumes inv: "coro_inv n cur drains pl (world m)" and l: "links (world m)" and a: "awaited_frames m"
    and q: "queues (world m) ex = h # rest"
  shows "\<exists>m'. memory_take t ex h m = Inr m' \<and> world m' = take_job t ex h (world m) \<and> awaited_frames m'"
proof -
  note f = take_job_frames(1) [OF inv q, of t] take_job_frames(3) [OF inv q]
  have "allocated m h" by (rule placed_allocated [OF inv l a f(2)])
  moreover have "awaiting (frames (take_job t ex h (world m)) g) = awaiting (frames (world m) g)" for g
    using f(1) by simp
  ultimately show ?thesis using a by (simp add: memory_take_def awaited_frames_def)
qed

lemma memory_reachable_ok:
  assumes "memory_reachable prog cur drains r" and "well_nested prog n"
  shows "\<exists>m. r = Inr m \<and> coro_reachable prog cur drains (world m) \<and> awaited_frames m"
  using assms(1)
proof (induction rule: memory_reachable.induct)
  case Init
  have "awaited_frames (memory_init prog cur)"
    by (simp add: memory_init_def awaited_frames_def coro_init_def)
  then show ?case using coro_reachable.Init [of prog cur drains] by (simp add: memory_init_def)
next
  case (Step m r)
  then have c: "coro_reachable prog cur drains (world m)" and a: "awaited_frames m" by auto
  obtain pl where inv: "coro_inv n cur drains pl (world m)" using coro_inv_reachable [OF c assms(2)] by blast
  have l: "links (world m)" by (rule links_reachable [OF c assms(2)])
  from Step.hyps(2) show ?case
  proof (cases rule: memory_step.cases)
    case (Run t h)
    then show ?thesis
      using memory_run_ok [OF inv l a Run(2)] coro_reachable.Step [OF c coro_step.Run [OF Run(2)]] by auto
  next
    case (Take t ex h rest)
    have "coro_step drains (world m) (take_job t ex h (world m))"
      by (rule coro_step.Take [where rest = rest]) (simp_all add: Take)
    then show ?thesis
      using memory_take_ok [OF inv l a Take(4), of t] coro_reachable.Step [OF c] Take(1) by auto
  qed
qed

text \<open>
  C13: the frames of tasks are neither used after they are freed nor leaked. For every program of
  awaits and every schedule on any threads and executors, the frames that exist are those of the
  root and of the tasks whose \<open>co_await\<close> expression is not finished; no step resumes, reads or
  frees any other; and when all threads are idle only the root's frame is left.
\<close>

theorem task_frames_live_while_awaited:
  assumes "memory_reachable prog cur drains r" and "well_nested prog n"
  shows "\<exists>m. r = Inr m \<and>
    (\<forall>c. allocated m c \<longleftrightarrow> c = 0 \<or> (\<exists>h. awaiting (frames (world m) h) = Some c)) \<and>
    ((\<forall>t. running (world m) t = None) \<and> (\<forall>ex. queues (world m) ex = []) \<longrightarrow>
       (\<forall>c. allocated m c \<longleftrightarrow> c = 0))"
proof -
  obtain m where m: "r = Inr m" "coro_reachable prog cur drains (world m)" "awaited_frames m"
    using memory_reachable_ok [OF assms] by blast
  have l: "links (world m)" by (rule links_reachable [OF m(2) assms(2)])
  have "awaiting (frames (world m) h) = None"
    if "\<forall>t. running (world m) t = None" "\<forall>ex. queues (world m) ex = []" for h
    using idle_all_ended [OF m(2) assms(2) that, of h] links_active [OF l] by (metis not_None_eq)
  with m show ?thesis by (auto simp: awaited_frames_def)
qed

text \<open>Every schedule of the coroutines is one of the memory.\<close>

lemma memory_follows:
  assumes "coro_reachable prog cur drains w" and "well_nested prog n"
  shows "\<exists>m. memory_reachable prog cur drains (Inr m) \<and> world m = w"
  using assms(1)
proof (induction rule: coro_reachable.induct)
  case Init
  show ?case
    by (intro exI [of _ "memory_init prog cur"]) (simp add: memory_reachable.Init, simp add: memory_init_def)
next
  case (Step w w')
  then obtain m where m: "memory_reachable prog cur drains (Inr m)" "world m = w" by blast
  then have c: "coro_reachable prog cur drains (world m)" and a: "awaited_frames m"
    using memory_reachable_ok [OF m(1) assms(2)] by auto
  obtain pl where inv: "coro_inv n cur drains pl (world m)" using coro_inv_reachable [OF c assms(2)] by blast
  have l: "links (world m)" by (rule links_reachable [OF c assms(2)])
  from Step.hyps(2) show ?case
  proof (cases rule: coro_step.cases)
    case (Run t h)
    then have run: "running (world m) t = Some h" by (simp add: m(2))
    show ?thesis
      using memory_run_ok [OF inv l a run] memory_reachable.Step [OF m(1) memory_step.Run [OF run]] Run(1) m(2) by auto
  next
    case (Take t ex h rest)
    then have t: "running (world m) t = None" "drains t ex" "queues (world m) ex = h # rest" by (simp_all add: m(2))
    have "memory_step drains m (memory_take t ex h m)"
      by (rule memory_step.Take [where rest = rest]) (simp_all add: t)
    then show ?thesis
      using memory_take_ok [OF inv l a t(3), of t] memory_reachable.Step [OF m(1), of "memory_take t ex h m"]
        Take(1) m(2) by auto
  qed
qed

lemma task_frames_live_while_awaited_witness:
  "\<exists>m. memory_reachable two_executors own_executor drains_own (Inr m) \<and>
     world m = schedule to_the_end example_init \<and> allocated m 0 \<and> \<not> allocated m 1 \<and> \<not> allocated m 2"
proof -
  obtain m where m: "memory_reachable two_executors own_executor drains_own (Inr m)"
      "world m = schedule to_the_end example_init"
    using memory_follows [OF example_reachable(1) two_executors_nested] by blast
  have "\<forall>t. running (world m) t = None" "\<forall>ex. queues (world m) ex = []"
    using final_state(1,2) by (simp_all add: m(2))
  then have "\<forall>c. allocated m c \<longleftrightarrow> c = 0"
    using task_frames_live_while_awaited [OF m(1) two_executors_nested] by auto
  with m show ?thesis by auto
qed

end
