(* ===== verification/Task_Termination.thy ===== *)
theory Task_Termination
  imports Task_Lifetime
begin

text \<open>
  Every run of a program of tasks ends, and what it ends with. What a coroutine may still do is
  bounded by what is left of its body: an await is at most a suspension, a job, the job that
  brings the coroutine back and the read of the result. The measure below counts this; the
  machine is the one of \<open>Coro_Task\<close>, under any interleaving.
\<close>

section \<open>What is left to do\<close>

definition queued :: "'v world \<Rightarrow> nat \<Rightarrow> bool" where
  "queued w h \<longleftrightarrow> (\<exists>ex. h \<in> set (queues w ex))"

definition frame_potential :: "'v frame \<Rightarrow> nat" where
  "frame_potential f =
     4 * length (body f) + (if awaiting f = None then 0 else 2) + (if status f = Ended then 0 else 2)"

definition potential :: "'v world \<Rightarrow> nat \<Rightarrow> nat" where
  "potential w h = frame_potential (frames w h) + of_bool (queued w h)"

definition steps_left :: "nat \<Rightarrow> 'v world \<Rightarrow> nat" where
  "steps_left n w = (\<Sum>h<n. potential w h)"

lemma steps_left_one:
  assumes "h < n" and "potential w' h < potential w h" and "\<And>g. g \<noteq> h \<Longrightarrow> potential w' g \<le> potential w g"
  shows "steps_left n w' < steps_left n w"
  unfolding steps_left_def
proof (rule sum_strict_mono_ex1)
  show "\<forall>g\<in>{..<n}. potential w' g \<le> potential w g" using assms(2,3) by (metis less_imp_le)
qed (use assms(1,2) in auto)

lemma steps_left_two:
  fixes w w' :: "'a world"
  assumes "h < n" and "k < n" and "h \<noteq> k"
    and "potential w' h + potential w' k < potential w h + potential w k"
    and "\<And>g. g \<noteq> h \<Longrightarrow> g \<noteq> k \<Longrightarrow> potential w' g \<le> potential w g"
  shows "steps_left n w' < steps_left n w"
proof -
  have split: "steps_left n v = potential v h + potential v k + (\<Sum>g \<in> {..<n} - {h} - {k}. potential v g)"
    for v :: "'a world"
    unfolding steps_left_def using assms(1-3)
    by (simp add: sum.remove [of _ h] sum.remove [of _ k])
  have "(\<Sum>g \<in> {..<n} - {h} - {k}. potential w' g) \<le> (\<Sum>g \<in> {..<n} - {h} - {k}. potential w g)"
    by (rule sum_mono) (use assms(5) in auto)
  then show ?thesis using assms(4) split [of w] split [of w'] by linarith
qed

lemma queued_ops [simp]:
  "queued (run_on t x w) = queued w" "queued (on_frame h f w) = queued w"
  by (simp_all add: fun_eq_iff queued_def run_on_def on_frame_def)

lemma queued_add [simp]: "queued (executor_add ex k w) h \<longleftrightarrow> h = k \<or> queued w h"
  by (auto simp: queued_def executor_add_def)

lemma frames_on_frame [simp]: "frames (on_frame h f w) = (frames w)(h := f (frames w h))"
  by (simp add: on_frame_def)

section \<open>Every step uses some of it up\<close>

lemma end_decreases:
  assumes inv: "coro_inv n cur drains pl w" and run: "running w t = Some h"
  shows "steps_left n (end_coroutine t h out w) < steps_left n w"
proof -
  note h = running_facts [OF inv run]
  have l: "lively n pl w" using inv by (simp add: coro_inv_def)
  let ?w = "end_coroutine t h out w"
  obtain x where f: "frames ?w = (frames w)(h := ended_frame x (frames w h))"
    using frames_end [OF h(3)] by blast
  have p: "frame_potential (ended_frame x (frames w h)) + 2 \<le> frame_potential (frames w h)"
    using h(2) by (simp add: frame_potential_def ended_frame_def)
  have q: "queued ?w g \<Longrightarrow> queued w g \<or> continuation (frames w h) = Some g" for g
    using store_ending_fresh [of out] h(3)
    by (auto simp: end_coroutine_def final_suspend_def Let_def queued_def on_frame_def run_on_def executor_add_def
        split: if_splits option.splits)
  have others: "potential ?w g \<le> potential w g" if "g \<noteq> h" "continuation (frames w h) \<noteq> Some g" for g
    using q [of g] that f by (auto simp: potential_def)
  show ?thesis
  proof (cases "continuation (frames w h)")
    case None
    then show ?thesis
      using others q [of h] p f h(4) by (intro steps_left_one [of h]) (auto simp: potential_def)
  next
    case (Some k)
    then have k: "k < h" using l by (auto simp: lively_def)
    have "potential ?w h + potential ?w k < potential w h + potential w k"
      using q [of h] k p f Some by (auto simp: potential_def)
    then show ?thesis
      using others Some k h(4) by (intro steps_left_two [of h n k]) auto
  qed
qed

lemma take_decreases:
  assumes inv: "coro_inv n cur drains pl w" and q: "queues w ex = h # rest"
  shows "steps_left n (take_job t ex h w) < steps_left n w"
proof -
  let ?w = "take_job t ex h w"
  note f = take_job_frames [OF inv q]
  have l: "lively n pl w" and p: "placed pl w" using inv by (simp_all add: coro_inv_def)
  have n: "h < n" using lively_facts(2) [OF l f(3)] .
  have qs: "queues ?w = (queues w)(ex := rest)"
    using f(2) q by (simp add: take_job_def Let_def run_on_def on_frame_def)
  have "pl h = Some (In_Queue ex)" and "distinct (queues w ex)"
    using p q by (metis list.set_intros(1) placed_def)+
  then have "\<not> queued ?w h"
    using p q unfolding queued_def qs placed_def by (auto split: if_splits)
  moreover have "queued w h" using q by (auto simp: queued_def intro: exI [of _ ex])
  moreover have "queued ?w g \<Longrightarrow> queued w g" for g
    unfolding queued_def qs using q by (auto split: if_splits intro: exI [of _ ex])
  ultimately show ?thesis
    using n f(1,2) by (intro steps_left_one [of h]) (auto simp: potential_def frame_potential_def)
qed

lemma await_decreases:
  assumes inv: "coro_inv n cur drains pl w" and run: "running w t = Some h"
    and none: "awaiting (frames w h) = None" and b: "body (frames w h) = i # rest"
  shows "steps_left n (coroutine_step t h w) < steps_left n w"
proof -
  note h = running_facts [OF inv run]
  have u: "untouched n pl w" using inv by (simp add: coro_inv_def)
  let ?w = "coroutine_step t h w"
  have pot: "frame_potential ((frames w h)\<lparr>body := rest, awaiting := a\<rparr>) + 2 \<le> frame_potential (frames w h)" for a
    using none b by (simp add: frame_potential_def)
  have pot': "frame_potential ((frames w h)\<lparr>body := rest\<rparr>) + 2 \<le> frame_potential (frames w h)"
    using none b by (simp add: frame_potential_def)
  have start: "frame_potential (f\<lparr>continuation := k, executor := x, status := Active\<rparr>) = frame_potential f"
    if "status f = Suspended_Start" for f :: "'a frame" and k x
    using that by (simp add: frame_potential_def)
  have start': "frame_potential (f\<lparr>continuation := k, executor := x\<rparr>) = frame_potential f"
    for f :: "'a frame" and k x
    by (simp add: frame_potential_def)
  show ?thesis
  proof (cases i)
    case (Co_Await c)
    then have "c \<in> set (targets (body (frames w h)))" using b by simp
    note c = untouched_facts [OF u this]
    have "?w = run_on t (Some c) (on_frame c (\<lambda>f. f\<lparr>status := Active\<rparr>) (on_frame c (set_continuation h (current w t))
        (on_frame h (\<lambda>f. f\<lparr>body := rest, awaiting := Some c\<rparr>) w)))"
      using none b Co_Await c(1,4)
      by (simp add: coroutine_step_def await_ready_def await_suspend_def Let_def set_continuation_def)
        (simp add: on_frame_def)
    then show ?thesis
      using c pot [of "Some c"] start [OF c(1)]
      by (intro steps_left_two [of h n c]) (auto simp: potential_def set_continuation_def)
  next
    case (Schedule_On c ex)
    then have "c \<in> set (targets (body (frames w h)))" using b by simp
    note c = untouched_facts [OF u this]
    have "?w = run_on t None (executor_add ex c (on_frame c (set_continuation h (current w t))
        (on_frame h (\<lambda>f. f\<lparr>body := rest, awaiting := Some c\<rparr>) w)))"
      using none b Schedule_On by (simp add: coroutine_step_def schedule_on_suspend_def) (simp add: on_frame_def)
    then show ?thesis
      using c pot [of "Some c"] start'
      by (intro steps_left_two [of h n c]) (auto simp: potential_def set_continuation_def)
  next
    case (Switch_To ex)
    then have "?w = (let v = on_frame h (\<lambda>f. f\<lparr>body := rest\<rparr>) w in if current w t = Some ex then v
        else run_on t None (executor_add ex h v))"
      using none b by (simp add: coroutine_step_def Let_def) (simp add: on_frame_def)
    then show ?thesis
      using h(4) pot' by (intro steps_left_one [of h]) (auto simp: potential_def Let_def)
  qed
qed

lemma run_decreases:
  assumes inv: "coro_inv n cur drains pl w" and run: "running w t = Some h"
  shows "steps_left n (coroutine_step t h w) < steps_left n w"
proof (cases "awaiting (frames w h)")
  case (Some c)
  obtain out where out: "task_result (stored (frames w c)) = ending_res out"
    using awaited_has_ended(2) [OF inv run Some] by blast
  show ?thesis
  proof (cases out)
    case (Co_Return v)
    then have "coroutine_step t h w = on_frame h (\<lambda>f. f\<lparr>awaiting := None, received := received f @ [v]\<rparr>) w"
      using Some out by (simp add: coroutine_step_def)
    then show ?thesis
      using Some running_facts(4) [OF inv run]
      by (intro steps_left_one [of h]) (auto simp: potential_def frame_potential_def)
  next
    case (Raise e)
    then have "coroutine_step t h w = end_coroutine t h (Raise e) w"
      using Some out by (simp add: coroutine_step_def)
    then show ?thesis using end_decreases [OF inv run] by simp
  qed
next
  case None
  show ?thesis
  proof (cases "body (frames w h)")
    case Nil
    then show ?thesis using None end_decreases [OF inv run] by (simp add: coroutine_step_def)
  next
    case (Cons i rest)
    then show ?thesis by (rule await_decreases [OF inv run None])
  qed
qed

lemma step_decreases:
  assumes "coro_reachable prog cur drains w" and "well_nested prog n" and "coro_step drains w w'"
  shows "steps_left n w' < steps_left n w"
proof -
  obtain pl where inv: "coro_inv n cur drains pl w" using coro_inv_reachable [OF assms(1,2)] by blast
  from assms(3) show ?thesis
    by (cases rule: coro_step.cases) (auto intro: run_decreases [OF inv] take_decreases [OF inv])
qed

text \<open>The steps a program can take: four for each await and two for each end.\<close>

definition step_bound :: "(nat \<Rightarrow> instr list \<times> 'v ending) \<Rightarrow> nat \<Rightarrow> nat" where
  "step_bound prog n = (\<Sum>h<n. 4 * length (fst (prog h)) + 2)"

lemma steps_left_init: "steps_left n (coro_init prog cur) = step_bound prog n"
  unfolding steps_left_def step_bound_def
  by (rule sum.cong) (auto simp: potential_def frame_potential_def queued_def coro_init_def)

lemma run_reachable:
  assumes "f 0 = coro_init prog cur" and "\<forall>i<k. coro_step drains (f i) (f (Suc i))" and "i \<le> k"
  shows "coro_reachable prog cur drains (f i)"
  using assms(3)
  by (induction i) (use assms(1,2) in \<open>auto intro: coro_reachable.intros\<close>)

lemma run_length:
  assumes "f 0 = coro_init prog cur" and "\<forall>i<k. coro_step drains (f i) (f (Suc i))" and "well_nested prog n"
    and "i \<le> k"
  shows "i + steps_left n (f i) \<le> step_bound prog n"
  using assms(4)
proof (induction i)
  case 0
  show ?case by (simp add: assms(1) steps_left_init)
next
  case (Suc i)
  then have "steps_left n (f (Suc i)) < steps_left n (f i)"
    using step_decreases [OF run_reachable [OF assms(1,2)] assms(3)] assms(2) by simp
  then show ?case using Suc by simp
qed

lemma run_ends:
  assumes "well_nested prog n" and "f 0 = coro_init prog cur"
    and "\<forall>i<k. coro_step drains (f i) (f (Suc i))"
  shows "k \<le> step_bound prog n \<and>
    ((\<nexists>w. coro_step drains (f k) w) \<and> (\<forall>ex. queues (f k) ex \<noteq> [] \<longrightarrow> (\<exists>t. drains t ex)) \<longrightarrow>
      status (frames (f k) 0) = Ended \<and>
      task_result (stored (frames (f k) 0)) = ending_res (direct prog n 0))"
proof (intro conjI impI; (elim conjE)?)
  show "k \<le> step_bound prog n" using run_length [OF assms(2,3,1), of k] by simp
  have r: "coro_reachable prog cur drains (f k)" by (rule run_reachable [OF assms(2,3)]) simp
  assume stuck: "\<nexists>w. coro_step drains (f k) w" and served: "\<forall>ex. queues (f k) ex \<noteq> [] \<longrightarrow> (\<exists>t. drains t ex)"
  have none: "\<forall>t. running (f k) t = None" using stuck by (metis coro_step.Run not_None_eq)
  have "\<forall>ex. queues (f k) ex = []" using stuck served none by (metis coro_step.Take neq_Nil_conv)
  then show e: "status (frames (f k) 0) = Ended" using idle_all_ended [OF r assms(1) none] by blast
  show "task_result (stored (frames (f k) 0)) = ending_res (direct prog n 0)"
    using on_course_reachable [OF r assms(1), of 0] e by (simp add: on_course_def)
qed

section \<open>Properties\<close>

text \<open>
  C10: every run of a well-nested program ends, after at most four steps for each await and two
  for each coroutine, whatever the interleaving; and when no thread can go on, although each
  executor that has jobs is drained by some thread, the root has ended with exactly the value or
  the exception of the direct evaluation.
\<close>

theorem every_run_ends:
  assumes "well_nested prog n" and "f 0 = coro_init prog cur"
    and "\<forall>i<k. coro_step drains (f i) (f (Suc i))"
  shows "k \<le> step_bound prog n \<and>
    ((\<nexists>w. coro_step drains (f k) w) \<and> (\<forall>ex. queues (f k) ex \<noteq> [] \<longrightarrow> (\<exists>t. drains t ex)) \<longrightarrow>
      status (frames (f k) 0) = Ended \<and>
      task_result (stored (frames (f k) 0)) = ending_res (direct prog n 0))"
  by (rule run_ends [OF assms])

text \<open>The program of two executors ends with the exception of its innermost task.\<close>

lemma schedulable_take: "schedulable s w \<Longrightarrow> schedulable (take k s) w"
  by (induction s w arbitrary: k rule: schedulable.induct) (auto simp: take_Cons split: nat.splits)

lemma schedule_append: "schedule (s @ r) w = schedule r (schedule s w)"
  by (induction s w rule: schedule.induct) simp_all

lemma schedule_steps:
  "schedulable s w \<Longrightarrow> i < length s \<Longrightarrow> coro_step drains_own (schedule (take i s) w) (schedule (take (Suc i) s) w)"
proof (induction s w arbitrary: i rule: schedulable.induct)
  case (2 t s w)
  then show ?case by (cases i) (auto intro: coro_step.Run)
next
  case (3 t ex s w)
  show ?case
  proof (cases i)
    case 0
    obtain h rest where "queues w ex = h # rest" using 3(2) by (cases "queues w ex") auto
    then show ?thesis using 0 3(2) by (auto intro: coro_step.Take)
  qed (use 3 in auto)
qed simp

lemma every_run_ends_witness:
  "task_result (stored (frames (schedule to_the_end example_init) 0)) = Inl (Rethrown 5) \<and>
   length to_the_end \<le> 18"
proof -
  let ?f = "\<lambda>i. schedule (take i to_the_end) example_init"
  have "\<forall>i<length to_the_end. coro_step drains_own (?f i) (?f (Suc i))"
    using schedule_steps [OF example_schedulable(1)] by simp
  moreover have "?f 0 = coro_init two_executors own_executor" by (simp add: example_init_def)
  ultimately have *: "length to_the_end \<le> step_bound two_executors 3 \<and>
     ((\<nexists>w. coro_step drains_own (?f (length to_the_end)) w) \<and>
       (\<forall>ex. queues (?f (length to_the_end)) ex \<noteq> [] \<longrightarrow> (\<exists>t. drains_own t ex)) \<longrightarrow>
      status (frames (?f (length to_the_end)) 0) = Ended \<and>
      task_result (stored (frames (?f (length to_the_end)) 0)) = ending_res (direct two_executors 3 0))"
    by (intro every_run_ends [OF two_executors_nested])
  have "\<not> coro_step drains_own (schedule to_the_end example_init) w" for w
    by (auto simp: coro_step.simps final_state)
  then show ?thesis using * final_state(2) by (simp add: step_bound_def numeral_3_eq_3)
qed

end
