(* ===== verification/Task_Route.thy ===== *)
theory Task_Route
  imports Task_Termination Executor
begin

text \<open>
  On which executor every statement of a program of tasks runs. What a body says fixes it: a
  task starts where its awaiter is, or on the executor it is scheduled on; a
  \<open>SchedulerAwaitable\<close> moves the coroutine, and an await leaves it where it was, wherever the
  awaited task went in between. The rules below compute this from the text of the program alone,
  and the property says that every interleaving of the machine keeps to it.
\<close>

section \<open>The route of a coroutine\<close>

text \<open>
  \<open>routed prog cur h is ex\<close>: after the statements \<open>is\<close> of its body, the coroutine \<open>h\<close> executes
  for the executor \<open>ex\<close>. There is no rule for a root whose thread has no executor.
\<close>

inductive routed ::
  "(nat \<Rightarrow> instr list \<times> 'v ending) \<Rightarrow> (nat \<Rightarrow> nat option) \<Rightarrow> nat \<Rightarrow> instr list \<Rightarrow> nat \<Rightarrow> bool"
  for prog cur where
  Root: "cur 0 = Some ex \<Longrightarrow> routed prog cur 0 [] ex"
| Awaited: "\<lbrakk>fst (prog g) = is @ Co_Await c # rest; routed prog cur g is ex\<rbrakk> \<Longrightarrow> routed prog cur c [] ex"
| Scheduled: "fst (prog g) = is @ Schedule_On c ex # rest \<Longrightarrow> routed prog cur c [] ex"
| Switched: "routed prog cur h (is @ [Switch_To ex]) ex"
| Kept: "\<lbrakk>routed prog cur h is ex; target i \<noteq> None\<rbrakk> \<Longrightarrow> routed prog cur h (is @ [i]) ex"

inductive_cases routed_startE: "routed prog cur h [] ex"
inductive_cases routed_snocE: "routed prog cur h (is @ [i]) ex"

lemma routed_switch: "routed prog cur h (is @ [Switch_To ex']) ex \<longleftrightarrow> ex = ex'"
  by (auto intro: routed.Switched elim: routed_snocE)

lemma routed_kept: "routed prog cur h (is @ [i]) ex \<Longrightarrow> target i \<noteq> None \<Longrightarrow> routed prog cur h is ex"
  by (auto elim: routed_snocE)

text \<open>A task is awaited at one place of one body.\<close>

lemma target_in_targets: "target i = Some c \<Longrightarrow> c \<in> set (targets (is @ i # rest))"
  by (induction "is") (auto simp: targets_def map_filter_simps split: option.split)

lemma targets_append: "targets (is @ js) = targets is @ targets js"
  by (simp add: targets_def List.map_filter_def)

lemma awaited_later:
  assumes "well_nested prog n" and "fst (prog g) = is @ i # rest" and "target i = Some c"
  shows "g < c"
proof -
  have "c \<in> set (targets (fst (prog g)))" using assms(2,3) by (simp add: target_in_targets)
  then show ?thesis using assms(1) by (simp add: well_nested_def)
qed

lemma awaited_at_one_place:
  assumes "well_nested prog n" and "fst (prog g) = is @ i # rest" and "fst (prog h) = js @ j # rest'"
    and "target i = Some c" and "target j = Some c"
  shows "g = h \<and> is = js \<and> i = j"
proof -
  have "c \<in> set (targets (fst (prog g)))" "c \<in> set (targets (fst (prog h)))"
    using assms(2-5) by (simp_all add: target_in_targets)
  then have gh: "g = h" using assms(1) unfolding well_nested_def by blast
  have d: "distinct (targets (fst (prog g)))" using assms(1) by (simp add: well_nested_def)
  have twice: False
    if "xs @ i # ys = xs' @ j # ys'" "length xs < length xs'" "target i = Some c" "target j = Some c"
      "distinct (targets (xs @ i # ys))" for xs ys xs' ys' i j
  proof -
    from that(1,2) obtain zs where "ys = zs @ j # ys'"
      by (auto simp: append_eq_append_conv2 Cons_eq_append_conv)
    then show False
      using that(3-5) target_in_targets [of j c zs ys'] target_in_targets [of i c "[]" "[]"]
      by (auto simp: targets_append [of xs] targets_append [of "[i]" "zs @ j # ys'", simplified])
  qed
  have eq: "is @ i # rest = js @ j # rest'" using assms(2,3) gh by simp
  consider "length is < length js" | "length js < length is" | "length is = length js" by linarith
  then show ?thesis
  proof cases
    case 1
    then show ?thesis using twice [OF eq] assms(2,4,5) d by simp
  next
    case 2
    then show ?thesis using twice [OF eq [symmetric]] assms(2,4,5) d eq by simp
  next
    case 3
    then show ?thesis using eq gh by simp
  qed
qed

section \<open>The machine keeps to it\<close>

text \<open>
  A coroutine that awaits has told the task which executor to come back to; another one is on a
  thread or in the queue of its executor, if it is anywhere.
\<close>

definition in_order :: "nat \<Rightarrow> nat \<Rightarrow> 'v world \<Rightarrow> bool" where
  "in_order h ex w \<longleftrightarrow>
     (case awaiting (frames w h) of
        Some c \<Rightarrow> executor (frames w c) = Some ex
      | None \<Rightarrow> (\<forall>t. running w t = Some h \<longrightarrow> current w t = Some ex) \<and> (\<forall>q. h \<in> set (queues w q) \<longrightarrow> q = ex))"

definition on_route :: "(nat \<Rightarrow> instr list \<times> 'v ending) \<Rightarrow> (nat \<Rightarrow> nat option) \<Rightarrow> 'v world \<Rightarrow> bool" where
  "on_route prog cur w \<longleftrightarrow>
     (\<forall>h. \<exists>is. fst (prog h) = is @ body (frames w h)) \<and>
     (\<forall>h. status (frames w h) = Suspended_Start \<longrightarrow> body (frames w h) = fst (prog h)) \<and>
     (\<forall>h is ex. fst (prog h) = is @ body (frames w h) \<and> status (frames w h) \<noteq> Ended \<and>
        routed prog cur h is ex \<longrightarrow> in_order h ex w)"

lemma in_order_mono:
  assumes "in_order g ex w" and "awaiting (frames w' g) = awaiting (frames w g)" and "current w' = current w"
    and "\<And>c. awaiting (frames w g) = Some c \<Longrightarrow> executor (frames w' c) = executor (frames w c)"
    and "\<And>t. awaiting (frames w g) = None \<Longrightarrow> running w' t = Some g \<Longrightarrow> running w t = Some g"
    and "\<And>q. awaiting (frames w g) = None \<Longrightarrow> g \<in> set (queues w' q) \<Longrightarrow> g \<in> set (queues w q)"
  shows "in_order g ex w'"
  using assms unfolding in_order_def by (auto split: option.splits)

lemma on_route_step:
  assumes r: "on_route prog cur w"
    and b: "\<And>g. g \<noteq> h \<Longrightarrow> body (frames w' g) = body (frames w g)"
      "body (frames w' h) = body (frames w h) \<or> (\<exists>i. body (frames w h) = i # body (frames w' h))"
    and s: "\<And>g. status (frames w' g) = Suspended_Start \<Longrightarrow> status (frames w g) = Suspended_Start \<and> g \<noteq> h"
      "\<And>g. status (frames w g) = Ended \<Longrightarrow> status (frames w' g) = Ended"
    and self: "\<And>is ex. fst (prog h) = is @ body (frames w' h) \<Longrightarrow> status (frames w' h) \<noteq> Ended \<Longrightarrow>
      routed prog cur h is ex \<Longrightarrow> in_order h ex w'"
    and others: "\<And>g is ex. g \<noteq> h \<Longrightarrow> fst (prog g) = is @ body (frames w g) \<Longrightarrow> routed prog cur g is ex \<Longrightarrow>
      status (frames w' g) \<noteq> Ended \<Longrightarrow> in_order g ex w \<Longrightarrow> in_order g ex w'"
  shows "on_route prog cur w'"
  unfolding on_route_def
proof (intro conjI allI impI; (elim conjE)?)
  fix g
  obtain "is" where "is": "fst (prog g) = is @ body (frames w g)" using r unfolding on_route_def by blast
  show "\<exists>is. fst (prog g) = is @ body (frames w' g)"
  proof (cases "g = h")
    case True
    from b(2) show ?thesis
    proof
      assume "\<exists>i. body (frames w h) = i # body (frames w' h)"
      then obtain i where "body (frames w h) = i # body (frames w' h)" ..
      then show ?thesis using "is" True by (intro exI [of _ "is @ [i]"]) simp
    qed (use "is" True in auto)
  qed (use "is" b(1) in auto)
next
  fix g
  assume "status (frames w' g) = Suspended_Start"
  then show "body (frames w' g) = fst (prog g)" using s(1) b(1) r unfolding on_route_def by metis
next
  fix g "is" ex
  assume g: "fst (prog g) = is @ body (frames w' g)" "status (frames w' g) \<noteq> Ended" "routed prog cur g is ex"
  show "in_order g ex w'"
  proof (cases "g = h")
    case False
    then have "fst (prog g) = is @ body (frames w g)" "status (frames w g) \<noteq> Ended" using g b(1) s(2) by metis+
    moreover have "in_order g ex w" using r calculation g(3) unfolding on_route_def by blast
    ultimately show ?thesis using others False g by blast
  qed (use self g in simp)
qed

lemma on_route_order:
  "on_route prog cur w \<Longrightarrow> fst (prog h) = is @ body (frames w h) \<Longrightarrow> status (frames w h) \<noteq> Ended \<Longrightarrow>
     routed prog cur h is ex \<Longrightarrow> in_order h ex w"
  unfolding on_route_def by blast

text \<open>The places of the runner, for the cases below.\<close>

lemma runner_alone:
  assumes "coro_inv n cur drains pl w" and "running w t = Some h"
  shows "running w u = Some h \<Longrightarrow> u = t" and "h \<notin> set (queues w q)"
  using running_facts(1) [OF assms] assms(1) by (auto simp: coro_inv_def placed_def)

lemma route_receive:
  assumes inv: "coro_inv n cur drains pl w" and run: "running w t = Some h" and r: "on_route prog cur w"
    and home: "at_home pl w" and c: "awaiting (frames w h) = Some c"
  shows "on_route prog cur (on_frame h (\<lambda>f. f\<lparr>awaiting := None, received := xs\<rparr>) w)"
proof (rule on_route_step [OF r, of h])
  let ?w = "on_frame h (\<lambda>f. f\<lparr>awaiting := None, received := xs\<rparr>) w"
  have q: "queues ?w = queues w" "running ?w = running w" "current ?w = current w" by (simp_all add: on_frame_def)
  note h = running_facts [OF inv run]
  fix "is" ex
  assume "fst (prog h) = is @ body (frames ?w h)" "routed prog cur h is ex"
  then have "in_order h ex w" using on_route_order [OF r] h(2) by simp
  then have "executor (frames w c) = Some ex" using c by (simp add: in_order_def)
  then have "\<exists>u. pl h = Some (On_Thread u) \<and> current w u = Some ex"
    using home c awaited_has_ended(1) [OF inv run c] h(1) unfolding at_home_def by fastforce
  then have "current w t = Some ex" using h(1) by simp
  then show "in_order h ex ?w"
    using runner_alone [OF inv run] unfolding in_order_def q by auto
next
  let ?w = "on_frame h (\<lambda>f. f\<lparr>awaiting := None, received := xs\<rparr>) w"
  fix g "is" ex
  assume "g \<noteq> h" "in_order g ex w"
  then show "in_order g ex ?w" by (elim in_order_mono) (auto simp: on_frame_def)
qed (use running_facts(2) [OF inv run] in \<open>auto split: if_splits\<close>)

lemma route_end:
  assumes inv: "coro_inv n cur drains pl w" and run: "running w t = Some h" and r: "on_route prog cur w"
    and l: "links w"
  shows "on_route prog cur (end_coroutine t h out w)"
proof -
  let ?w = "end_coroutine t h out w"
  note h = running_facts [OF inv run]
  obtain x where f: "frames ?w = (frames w)(h := ended_frame x (frames w h))"
    using frames_end [OF h(3)] by blast
  have ex: "executor (frames ?w g) = executor (frames w g)" for g using f by (simp add: ended_frame_def)
  obtain y where "store_ending out expected_nothing = Inr y" using store_ending_fresh by blast
  then have w: "?w = final_suspend t h (on_frame h (\<lambda>f. f\<lparr>stored := y, awaiting := None, status := Ended\<rparr>) w)"
    using h(3) by (simp add: end_coroutine_def)
  have new: "current ?w = current w"
    "running ?w u = Some g \<Longrightarrow> running w u = Some g \<or> continuation (frames w h) = Some g"
    "g \<in> set (queues ?w q) \<Longrightarrow> g \<in> set (queues w q) \<or> continuation (frames w h) = Some g" for g u q
    unfolding w
    by (auto simp: final_suspend_def Let_def on_frame_def run_on_def executor_add_def split: if_splits option.splits)
  have aw: "continuation (frames w h) = Some g \<Longrightarrow> awaiting (frames w g) \<noteq> None" for g
    using links_awaits [OF l, of h g] h(2) by simp
  show ?thesis
  proof (rule on_route_step [OF r, of h])
    fix g "is" ex
    assume g: "g \<noteq> h" "in_order g ex w"
    then show "in_order g ex ?w"
      using new(2,3) aw [of g]
      by (elim in_order_mono) (use g(1) f ex new(1) in auto)
  qed (use h(2) f in \<open>auto simp: ended_frame_def split: if_splits\<close>)
qed

lemma route_switch:
  assumes inv: "coro_inv n cur drains pl w" and run: "running w t = Some h" and r: "on_route prog cur w"
    and none: "awaiting (frames w h) = None" and b: "body (frames w h) = Switch_To ex # rest"
  shows "on_route prog cur (coroutine_step t h w)"
proof -
  let ?w = "coroutine_step t h w"
  note h = running_facts [OF inv run]
  have f: "frames ?w = (frames w)(h := (frames w h)\<lparr>body := rest\<rparr>)" and cur: "current ?w = current w"
    using none b by (simp_all add: coroutine_step_def Let_def world_ops)
  have new: "running ?w u = Some g \<Longrightarrow> running w u = Some g"
    "g \<in> set (queues ?w q) \<Longrightarrow> g \<in> set (queues w q) \<or> g = h \<and> q = ex" for u g q
    using none b by (auto simp: coroutine_step_def Let_def world_ops split: if_splits)
  have self: "running ?w u = Some h \<Longrightarrow> current w u = Some ex" for u
    using none b runner_alone(1) [OF inv run, of u]
    by (auto simp: coroutine_step_def Let_def world_ops split: if_splits)
  show ?thesis
  proof (rule on_route_step [OF r, of h])
    fix "is" e
    assume "fst (prog h) = is @ body (frames ?w h)" and e: "routed prog cur h is e"
    obtain js where "fst (prog h) = js @ body (frames w h)" using r unfolding on_route_def by blast
    then have "is = js @ [Switch_To ex]"
      using b f \<open>fst (prog h) = is @ body (frames ?w h)\<close> by (simp add: append_eq_append_conv2)
    then have "e = ex" using e by (simp add: routed_switch)
    then show "in_order h e ?w"
      using none f cur self new(2) runner_alone(2) [OF inv run] by (auto simp: in_order_def)
  next
    fix g "is" e
    assume g: "g \<noteq> h" "in_order g e w"
    then show "in_order g e ?w"
      using new by (elim in_order_mono) (use g(1) f cur new in auto)
  qed (use h(2) f b in \<open>auto split: if_splits\<close>)
qed

text \<open>What an await does: the task is started in place, or put into a queue.\<close>

lemma await_world:
  assumes inv: "coro_inv n cur drains pl w" and run: "running w t = Some h"
    and none: "awaiting (frames w h) = None" and b: "body (frames w h) = i # rest" and i: "target i = Some c"
  obtains g where
    "frames (coroutine_step t h w) = (frames w)(h := (frames w h)\<lparr>body := rest, awaiting := Some c\<rparr>, c := g)"
    "body g = body (frames w c)" "awaiting g = awaiting (frames w c)" "executor g = current w t" "status g \<noteq> Ended"
    "current (coroutine_step t h w) = current w"
    "\<And>u. running (coroutine_step t h w) u = (if u = t then (if i = Co_Await c then Some c else None) else running w u)"
    "\<And>q. queues (coroutine_step t h w) q = queues w q @ (if i = Schedule_On c q then [c] else [])"
proof -
  have u: "untouched n pl w" using inv by (simp add: coro_inv_def)
  have "c \<in> set (targets (body (frames w h)))" using b i by (cases i) auto
  note c = untouched_facts [OF u this]
  let ?g = "set_continuation h (current w t) (frames w c)"
  show thesis
  proof (cases i)
    case (Co_Await c')
    then show ?thesis
      using none b i c(1,4)
      by (intro that [of "?g\<lparr>status := Active\<rparr>"])
        (simp_all add: coroutine_step_def await_ready_def await_suspend_def Let_def world_ops)
  next
    case (Schedule_On c' ex)
    then show ?thesis
      using none b i c(1,4)
      by (intro that [of ?g]) (auto simp: coroutine_step_def schedule_on_suspend_def world_ops)
  qed (use i in simp)
qed

lemma route_await:
  assumes inv: "coro_inv n cur drains pl w" and run: "running w t = Some h" and r: "on_route prog cur w"
    and wn: "well_nested prog n" and l: "links w"
    and none: "awaiting (frames w h) = None" and b: "body (frames w h) = i # rest" and i: "target i = Some c"
  shows "on_route prog cur (coroutine_step t h w)"
proof -
  let ?w = "coroutine_step t h w"
  note h = running_facts [OF inv run]
  have u: "untouched n pl w" using inv by (simp add: coro_inv_def)
  have "c \<in> set (targets (body (frames w h)))" using b i by (cases i) auto
  note c = untouched_facts [OF u this]
  obtain g0 where f: "frames ?w = (frames w)(h := (frames w h)\<lparr>body := rest, awaiting := Some c\<rparr>, c := g0)"
      and g0: "body g0 = body (frames w c)" "awaiting g0 = awaiting (frames w c)" "executor g0 = current w t" "status g0 \<noteq> Ended"
      and cur: "current ?w = current w"
      and rn: "\<And>u. running ?w u = (if u = t then (if i = Co_Await c then Some c else None) else running w u)"
      and qs: "\<And>q. queues ?w q = queues w q @ (if i = Schedule_On c q then [c] else [])"
    by (rule await_world [OF inv run none b i]) (rule that)
  obtain js where js: "fst (prog h) = js @ i # rest" using r b unfolding on_route_def by metis
  have at: "current w t = Some e" if "routed prog cur h js e" for e
    using on_route_order [OF r _ _ that] js b h(2) none run by (simp add: in_order_def)
  show ?thesis
  proof (rule on_route_step [OF r, of h])
    fix "is" e
    assume "fst (prog h) = is @ body (frames ?w h)" and e: "routed prog cur h is e"
    then have "is = js @ [i]" using js f c(4) by (simp add: append_eq_append_conv2)
    then have "routed prog cur h js e" using routed_kept [of prog cur h js i e] e i by simp
    then show "in_order h e ?w" using at f g0(3) c(4) by (simp add: in_order_def)
  next
    fix g "is" e
    assume g: "g \<noteq> h" "fst (prog g) = is @ body (frames w g)" "routed prog cur g is e" "in_order g e w"
    show "in_order g e ?w"
    proof (cases "g = c")
      case False
      have "awaiting (frames w g) = Some d \<Longrightarrow> d \<noteq> c" for d
        using inv c(2) unfolding coro_inv_def results_in_def by (metis option.distinct(1))
      moreover have "awaiting (frames w g) = Some d \<Longrightarrow> executor (frames ?w d) = executor (frames w d)" if "d \<noteq> c" for d
        using f that by simp
      ultimately show ?thesis
        using g(4) by (elim in_order_mono) (use f False g(1) rn qs cur in \<open>auto split: if_splits\<close>)
    next
      case True
      have "body (frames w c) = fst (prog c)" using r c(1) unfolding on_route_def by blast
      then have "is = []" using g(2) True by simp
      then have start: "routed prog cur c [] e" using g(3) True by simp
      have e: "current w t = Some e" if "i = Co_Await c"
        using start
      proof (cases rule: routed.cases)
        case (Awaited g' ks rest')
        then show ?thesis using awaited_at_one_place [OF wn Awaited(1) js, of c] i at by simp
      next
        case (Scheduled g' ks rest')
        then show ?thesis using awaited_at_one_place [OF wn Scheduled js, of c] i that by simp
      qed (use c(4) in simp_all)
      have q: "q = e" if "i = Schedule_On c q" for q
        using start
      proof (cases rule: routed.cases)
        case (Awaited g' ks rest')
        then show ?thesis using awaited_at_one_place [OF wn Awaited(1) js, of c] i that by simp
      next
        case (Scheduled g' ks rest')
        then show ?thesis using awaited_at_one_place [OF wn Scheduled js, of c] i that by simp
      qed (use c(4) in simp_all)
      have none: "running w u \<noteq> Some c" "c \<notin> set (queues w q)" for u q
        using inv c(3) by (auto simp: coro_inv_def placed_def)
      have "awaiting (frames w c) = None"
        using links_active [OF l, of c] c(1) by (cases "awaiting (frames w c)") simp_all
      then show ?thesis
        using True e q none f g0(2) by (auto simp: in_order_def rn qs cur split: if_splits)
    qed
  qed (use h(2) f b g0 c(1,4) in \<open>auto split: if_splits\<close>)
qed

lemma route_take:
  assumes inv: "coro_inv n cur drains pl w" and q: "queues w ex = h # rest" and t: "current w t = Some ex"
    and r: "on_route prog cur w"
  shows "on_route prog cur (take_job t ex h w)"
proof -
  let ?w = "take_job t ex h w"
  note f = take_job_frames(1) [OF inv q, of t] take_job_frames(2,3) [OF inv q]
  have w: "running ?w = (running w)(t \<mapsto> h)" "queues ?w = (queues w)(ex := rest)" "current ?w = current w"
    using f(2) q by (simp_all add: take_job_def Let_def run_on_def on_frame_def)
  have h: "h \<in> set (queues w ex)" using q by simp
  then have alone: "running w u \<noteq> Some h" for u using inv by (auto simp: coro_inv_def placed_def)
  have rest: "g \<in> set (queues ?w p) \<Longrightarrow> g \<in> set (queues w p)" for g p
    using w(2) q by (simp split: if_splits)
  show ?thesis
  proof (rule on_route_step [OF r, of h])
    fix "is" e
    assume "fst (prog h) = is @ body (frames ?w h)" "routed prog cur h is e"
    then have "in_order h e w" using on_route_order [OF r] f by simp
    then show "in_order h e ?w"
      using f(1) w(1,3) t alone h by (auto simp: in_order_def split: option.splits dest: rest)
  next
    fix g "is" e
    assume g: "g \<noteq> h" "in_order g e w"
    then show "in_order g e ?w"
      by (elim in_order_mono) (use f(1) w(1,3) rest g(1) in \<open>auto split: if_splits\<close>)
  qed (use f(1,2) in \<open>auto split: if_splits\<close>)
qed

lemma on_route_reachable:
  assumes "coro_reachable prog cur drains w" and wn: "well_nested prog n"
    and d: "\<forall>t ex. drains t ex \<longrightarrow> cur t = Some ex"
  shows "on_route prog cur w"
  using assms(1)
proof (induction rule: coro_reachable.induct)
  case Init
  have "routed prog cur 0 [] e \<Longrightarrow> cur 0 = Some e" for e
    by (erule routed_startE) (use awaited_later [OF wn] in fastforce)+
  then show ?case
    by (auto simp: on_route_def coro_init_def in_order_def split: if_splits)
next
  case (Step w w')
  obtain pl where inv: "coro_inv n cur drains pl w" using coro_inv_reachable [OF Step.hyps(1) wn] by blast
  have cur: "current w = cur" and home: "at_home pl w" using inv d by (simp_all add: coro_inv_def)
  have l: "links w" by (rule links_reachable [OF Step.hyps(1) wn])
  from Step.hyps(2) show ?case
  proof (cases rule: coro_step.cases)
    case (Take t ex h rest)
    then show ?thesis using route_take [OF inv _ _ Step.IH] d cur by simp
  next
    case (Run t h)
    show ?thesis
    proof (cases "awaiting (frames w h)")
      case (Some c)
      obtain out where out: "task_result (stored (frames w c)) = ending_res out"
        using awaited_has_ended(2) [OF inv Run(2) Some] by blast
      then show ?thesis
        using Some Run route_receive [OF inv Run(2) Step.IH home Some] route_end [OF inv Run(2) Step.IH l]
        by (cases out) (simp_all add: coroutine_step_def on_frame_def)
    next
      case None
      show ?thesis
      proof (cases "body (frames w h)")
        case Nil
        then show ?thesis using None Run route_end [OF inv Run(2) Step.IH l] by (simp add: coroutine_step_def)
      next
        case (Cons i rest)
        show ?thesis
        proof (cases "target i")
          case (Some c)
          then show ?thesis using route_await [OF inv Run(2) Step.IH wn l None Cons] Run(1) by simp
        next
          case no: None
          then obtain ex where "i = Switch_To ex" by (cases i) auto
          then show ?thesis using route_switch [OF inv Run(2) Step.IH None] Cons Run(1) by simp
        qed
      qed
    qed
  qed
qed

lemma runs_on_route:
  assumes "coro_reachable prog cur drains w" and "well_nested prog n"
    and "\<forall>t ex. drains t ex \<longrightarrow> cur t = Some ex"
    and "running w t = Some h" and "awaiting (frames w h) = None"
    and "fst (prog h) = is @ body (frames w h)" and "routed prog cur h is ex"
  shows "current w t = Some ex"
proof -
  obtain pl where inv: "coro_inv n cur drains pl w" using coro_inv_reachable [OF assms(1,2)] by blast
  show ?thesis
    using on_route_order [OF on_route_reachable [OF assms(1-3)] assms(6) _ assms(7)]
      running_facts(2) [OF inv assms(4)] assms(4,5) by (simp add: in_order_def)
qed

section \<open>Threads that construct the executor they run\<close>

text \<open>
  \<open>ps\<close> lists the threads with the executor that each of them constructs and then runs, as the
  thread function of a pool does. \<open>Executor::current\<close> of a thread is what its last constructor
  left there: nothing else in the library sets it.
\<close>

definition constructed_on :: "(nat \<times> nat) list \<Rightarrow> current_executor" where
  "constructed_on ps = fold (\<lambda>(t, ex). executor_construct t ex) ps (\<lambda>_. None)"

definition runs_on :: "(nat \<times> nat) list \<Rightarrow> nat \<Rightarrow> nat \<Rightarrow> bool" where
  "runs_on ps t ex \<longleftrightarrow> (t, ex) \<in> set ps"

lemma fold_construct:
  "distinct (map fst ps) \<Longrightarrow> fold (\<lambda>(t, ex). executor_construct t ex) ps cur = cur ++ map_of ps"
proof (induction ps arbitrary: cur)
  case (Cons p ps)
  obtain t ex where p: "p = (t, ex)" by (cases p)
  then have "map_of ps t = None" using Cons.prems by (simp add: map_of_eq_None_iff)
  then have "executor_construct t ex cur ++ map_of ps = cur ++ map_of (p # ps)"
    by (auto simp: p executor_construct_def fun_eq_iff map_add_def split: option.splits)
  moreover have "fold (\<lambda>(t, ex). executor_construct t ex) (p # ps) cur = executor_construct t ex cur ++ map_of ps"
    using Cons.IH Cons.prems p by simp
  ultimately show ?case by (rule trans [rotated])
qed simp

lemma constructed_runs:
  "distinct (map fst ps) \<Longrightarrow> runs_on ps t ex \<longleftrightarrow> constructed_on ps t = Some ex"
  by (simp add: fold_construct constructed_on_def runs_on_def)

text \<open>
  The condition is needed: a thread that runs an executor that another thread constructed has no
  current executor, and one whose nested executor is destroyed has none either.
\<close>

lemma runs_without_current:
  "constructed_on [(0, 1)] 1 = None"
  "executor_destroy 0 (constructed_on [(0, 1), (0, 2)]) 0 = None"
  by (simp_all add: constructed_on_def executor_construct_def executor_destroy_def)

section \<open>Properties\<close>

text \<open>
  C14: every statement runs on the executor the text of the program says, when every thread
  constructs one executor and runs that one (\<open>Executor::current\<close> is set by the constructor and
  belongs to the constructing thread). Then in every reachable state of a well-nested program a
  coroutine that is about to execute the next statement of its body, after the statements \<open>is\<close>,
  does so on the executor of its route: that of its awaiter, the one it was scheduled on, or the
  one it last switched to, no matter what it awaited since.
\<close>

theorem statements_run_on_their_route:
  assumes "distinct (map fst ps)"
    and "coro_reachable prog (constructed_on ps) (runs_on ps) w" and "well_nested prog n"
    and "running w t = Some h" and "awaiting (frames w h) = None"
    and "fst (prog h) = is @ body (frames w h)" and "routed prog (constructed_on ps) h is ex"
  shows "current w t = Some ex"
  by (rule runs_on_route [OF assms(2,3) _ assms(4-7)]) (simp add: constructed_runs [OF assms(1)])

text \<open>Task 2 of the program of two executors starts on executor 1, where it was scheduled.\<close>

definition to_task_two :: "(nat \<times> nat option) list" where
  "to_task_two = [(0, None), (0, None), (1, Some 1)]"

lemma two_threads:
  "constructed_on [(0, 0), (1, 1)] = own_executor" "runs_on [(0, 0), (1, 1)] = drains_own"
  by (auto simp: fun_eq_iff constructed_on_def executor_construct_def own_executor_def runs_on_def)

lemma statements_run_on_their_route_witness:
  "current (schedule to_task_two example_init) 1 = Some 1 \<and> running (schedule to_task_two example_init) 1 = Some 2"
proof -
  let ?w = "schedule to_task_two example_init" and ?ps = "[(0, 0), (1, 1)] :: (nat \<times> nat) list"
  have s: "schedulable to_task_two example_init" by (simp add: to_task_two_def example_simps)
  have r: "coro_reachable two_executors (constructed_on ?ps) (runs_on ?ps) ?w"
    using schedule_reachable [OF coro_reachable.Init [of two_executors own_executor drains_own]] s
    unfolding example_init_def two_threads by blast
  have f: "running ?w 1 = Some 2" "awaiting (frames ?w 2) = None" "fst (two_executors 2) = [] @ body (frames ?w 2)"
    by (simp_all add: to_task_two_def example_simps)
  have route: "routed two_executors (constructed_on ?ps) 2 [] 1"
    by (rule routed.Scheduled [of _ 1 "[]" _ _ "[]"]) simp
  have "distinct (map fst ?ps)" by simp
  from statements_run_on_their_route [OF this r two_executors_nested f route] f(1) show ?thesis by blast
qed

end
