(* ===== verification/Sync_Programs.thy ===== *)
theory Sync_Programs
  imports Task_Route Sync_Wait
begin

text \<open>
  \<open>sync_wait\<close> of \<open>sync_wait.hpp\<close> over the machine of \<open>Coro_Task\<close>: the coroutine of
  \<open>make_sync_wait_task\<close> is the root, the task it awaits is coroutine 1, and \<open>start\<close> resumes the
  root on the calling thread, which belongs to no executor. \<open>start\<close> returns when nothing runs on
  the thread any more.
\<close>

section \<open>Resuming on one thread\<close>

text \<open>The number bounds the steps; \<open>step_bound\<close> of the program is enough.\<close>

fun run_inline :: "nat \<Rightarrow> 'v world \<Rightarrow> 'v world" where
  "run_inline 0 w = w"
| "run_inline (Suc k) w = (case running w 0 of None \<Rightarrow> w | Some h \<Rightarrow> run_inline k (coroutine_step 0 h w))"

definition no_executor :: "nat \<Rightarrow> nat option" where
  "no_executor t = None"

text \<open>How the body of \<open>make_sync_wait_task\<close> ends, if it has ended: as the task it awaits.\<close>

definition root_completion :: "'v world \<Rightarrow> 'v completion option" where
  "root_completion w =
     (if status (frames w 0) \<noteq> Ended then None
      else case task_result (stored (frames w 1)) of
        Inr v \<Rightarrow> Some (Gives v)
      | Inl (Rethrown e) \<Rightarrow> Some (Throws e)
      | Inl _ \<Rightarrow> None)"

definition sync_start :: "(nat \<Rightarrow> instr list \<times> 'v ending) \<Rightarrow> nat \<Rightarrow> 'v world" where
  "sync_start prog n = run_inline (step_bound prog n) (coro_init prog no_executor)"

definition sync_wait_program :: "(nat \<Rightarrow> instr list \<times> 'v ending) \<Rightarrow> nat \<Rightarrow> 'v res" where
  "sync_wait_program prog n = sync_wait (root_completion (sync_start prog n))"

definition sync_wait_void_program :: "(nat \<Rightarrow> instr list \<times> unit ending) \<Rightarrow> nat \<Rightarrow> unit res" where
  "sync_wait_void_program prog n = sync_wait_void (root_completion (sync_start prog n))"

section \<open>The root ends after its task\<close>

definition root_after_task :: "instr \<Rightarrow> 'v world \<Rightarrow> bool" where
  "root_after_task i w \<longleftrightarrow>
     (if status (frames w 0) = Ended then status (frames w 1) = Ended
      else case awaiting (frames w 0) of
        Some c \<Rightarrow> c = 1 \<and> body (frames w 0) = []
      | None \<Rightarrow> body (frames w 0) = [i] \<or> body (frames w 0) = [] \<and> status (frames w 1) = Ended)"

lemma next_task_target: "next_task is = Some c \<Longrightarrow> c \<in> set (targets is)"
  by (cases "is" rule: next_task.cases) simp_all

text \<open>A coroutine that has ended stays so, and only the root's own steps change its frame.\<close>

lemma step_keeps:
  assumes inv: "coro_inv n cur drains pl w" and run: "running w t = Some h" and l: "links w"
  shows "status (frames w g) = Ended \<Longrightarrow> frames (coroutine_step t h w) g = frames w g"
    and "h \<noteq> 0 \<Longrightarrow> frames (coroutine_step t h w) 0 = frames w 0"
proof -
  note act = running_facts(2) [OF inv run]
  have "(status (frames w g) = Ended \<longrightarrow> frames (coroutine_step t h w) g = frames w g) \<and>
    (h \<noteq> 0 \<longrightarrow> frames (coroutine_step t h w) 0 = frames w 0)"
    using step_frames [OF inv run l]
  proof (elim disjE exE)
    assume "changes_self h w (coroutine_step t h w)"
    then show ?thesis using act by (elim changes_selfE) auto
  next
    fix c
    assume "starts_task h c w (coroutine_step t h w)"
    then show ?thesis
    proof (elim starts_taskE)
      fix f k
      assume f: "frames (coroutine_step t h w) = (frames w)(h := f, c := k)" "c \<noteq> h" "c \<noteq> 0"
        "next_task (body (frames w h)) = Some c"
      have "untouched n pl w" using inv by (simp add: coro_inv_def)
      then have "status (frames w c) = Suspended_Start"
        using untouched_facts(1) next_task_target f(4) by blast
      then show ?thesis using f act by auto
    qed
  qed
  then show "status (frames w g) = Ended \<Longrightarrow> frames (coroutine_step t h w) g = frames w g"
    and "h \<noteq> 0 \<Longrightarrow> frames (coroutine_step t h w) 0 = frames w 0" by blast+
qed

lemma root_after_task_same:
  assumes "root_after_task i w" and "body (frames w' 0) = body (frames w 0)" and "awaiting (frames w' 0) = awaiting (frames w 0)"
    and "status (frames w' 0) = Ended \<longleftrightarrow> status (frames w 0) = Ended"
    and "status (frames w 1) = Ended \<Longrightarrow> status (frames w' 1) = Ended"
  shows "root_after_task i w'"
  using assms unfolding root_after_task_def by (auto split: option.splits if_splits)

lemma root_end:
  assumes "stored (frames w 0) = expected_nothing" and "status (frames w 1) = Ended"
  shows "root_after_task i (end_coroutine t 0 out w)"
proof -
  obtain x where "frames (end_coroutine t 0 out w) = (frames w)(0 := ended_frame x (frames w 0))"
    using frames_end [OF assms(1)] by blast
  then show ?thesis using assms(2) by (simp add: root_after_task_def ended_frame_def)
qed

lemma root_step:
  assumes i: "target i = Some 1" and inv: "coro_inv n cur drains pl w" and run: "running w t = Some 0" and r: "root_after_task i w"
  shows "root_after_task i (coroutine_step t 0 w)"
proof -
  note act = running_facts(2,3) [OF inv run]
  show ?thesis
  proof (cases "awaiting (frames w 0)")
    case (Some c)
    then have c: "c = 1" "body (frames w 0) = []" using r act(1) by (simp_all add: root_after_task_def)
    have e: "status (frames w 1) = Ended" using awaited_has_ended(1) [OF inv run Some] c by simp
    obtain out where "task_result (stored (frames w 1)) = ending_res out"
      using awaited_has_ended(2) [OF inv run Some] c by blast
    then show ?thesis
    proof (cases out)
      case (Co_Return v)
      then show ?thesis
        using Some c e \<open>task_result (stored (frames w 1)) = ending_res out\<close>
        by (simp add: coroutine_step_def root_after_task_def on_frame_def)
    next
      case (Raise x)
      then show ?thesis
        using Some c root_end [OF act(2) e] \<open>task_result (stored (frames w 1)) = ending_res out\<close>
        by (simp add: coroutine_step_def)
    qed
  next
    case None
    show ?thesis
    proof (cases "body (frames w 0) = []")
      case True
      then have "status (frames w 1) = Ended" using None r act(1) by (simp add: root_after_task_def)
      then show ?thesis using None True root_end [OF act(2)] by (simp add: coroutine_step_def)
    next
      case False
      then have b: "body (frames w 0) = i # []" using None r act(1) by (simp add: root_after_task_def)
      obtain g where
        "frames (coroutine_step t 0 w) = (frames w)(0 := (frames w 0)\<lparr>body := [], awaiting := Some 1\<rparr>, 1 := g)"
        by (rule await_world [OF inv run None b i])
      then show ?thesis using act(1) by (simp add: root_after_task_def)
    qed
  qed
qed

lemma root_after_task_reachable:
  assumes "coro_reachable prog cur drains w" and wn: "well_nested prog n" and root: "fst (prog 0) = [i]" and i: "target i = Some 1"
  shows "root_after_task i w"
  using assms(1)
proof (induction rule: coro_reachable.induct)
  case Init
  show ?case by (simp add: root_after_task_def coro_init_def root)
next
  case (Step w w')
  obtain pl where inv: "coro_inv n cur drains pl w" using coro_inv_reachable [OF Step.hyps(1) wn] by blast
  have l: "links w" by (rule links_reachable [OF Step.hyps(1) wn])
  from Step.hyps(2) show ?case
  proof (cases rule: coro_step.cases)
    case (Take t ex h rest)
    then show ?thesis
      using take_job_frames(1) [OF inv Take(4), of t] take_job_frames(2) [OF inv Take(4)] by (intro root_after_task_same [OF Step.IH]) auto
  next
    case (Run t h)
    show ?thesis
    proof (cases "h = 0")
      case True
      then show ?thesis using root_step [OF i inv _ Step.IH] Run by simp
    next
      case False
      then show ?thesis
        using Run step_keeps [OF inv Run(2) l] by (intro root_after_task_same [OF Step.IH]) simp_all
    qed
  qed
qed

section \<open>Without executors\<close>

definition inline_program :: "(nat \<Rightarrow> instr list \<times> 'v ending) \<Rightarrow> bool" where
  "inline_program prog \<longleftrightarrow> (\<forall>h. \<forall>i \<in> set (fst (prog h)). \<exists>c. i = Co_Await c)"

text \<open>No queue is ever used, and only the calling thread executes.\<close>

definition stays_inline :: "'v world \<Rightarrow> bool" where
  "stays_inline w \<longleftrightarrow>
     (\<forall>h. \<forall>i \<in> set (body (frames w h)). \<exists>c. i = Co_Await c) \<and> (\<forall>c. executor (frames w c) = None) \<and>
     (\<forall>ex. queues w ex = []) \<and> (\<forall>t. t \<noteq> 0 \<longrightarrow> running w t = None) \<and> current w = no_executor"

lemma inline_final:
  assumes "executor (frames w h) = None"
  shows "queues (final_suspend t h w) = queues w" "current (final_suspend t h w) = current w"
    "u \<noteq> t \<Longrightarrow> running (final_suspend t h w) u = running w u"
  using assms by (auto simp: final_suspend_def Let_def run_on_def split: option.split)

lemma inline_end:
  assumes "stays_inline w"
  shows "stays_inline (end_coroutine 0 h out w)"
proof (cases "store_ending out (stored (frames w h))")
  case (Inr x)
  let ?w = "on_frame h (\<lambda>f. f\<lparr>stored := x, awaiting := None, status := Ended\<rparr>) w"
  have "executor (frames ?w h) = None" using assms by (simp add: stays_inline_def)
  note f = inline_final [OF this]
  show ?thesis
    using assms Inr unfolding stays_inline_def
    by (auto simp: end_coroutine_def f) (auto simp: on_frame_def)
qed (use assms in \<open>simp add: end_coroutine_def stays_inline_def\<close>)

lemma inline_step:
  assumes "stays_inline w"
  shows "stays_inline (coroutine_step 0 h w)"
proof (cases "awaiting (frames w h)")
  case (Some c)
  then show ?thesis
    using assms inline_end [OF assms]
    by (auto simp: coroutine_step_def split: sum.split fault.split) (auto simp: stays_inline_def on_frame_def)
next
  case None
  show ?thesis
  proof (cases "body (frames w h)")
    case Nil
    then show ?thesis using None inline_end [OF assms] by (simp add: coroutine_step_def)
  next
    case (Cons i rest)
    have all: "\<forall>j \<in> set (body (frames w h)). \<exists>c. j = Co_Await c" using assms unfolding stays_inline_def by blast
    then obtain c where i: "i = Co_Await c" using Cons by auto
    have "\<forall>j \<in> set rest. \<exists>c. j = Co_Await c" using all Cons by simp
    then show ?thesis
      using None Cons i assms
      by (auto simp: coroutine_step_def Let_def await_ready_def await_suspend_def stays_inline_def
          on_frame_def run_on_def set_continuation_def no_executor_def)
  qed
qed

text \<open>The run ends, with nothing on the thread.\<close>

lemma run_inline_ends:
  assumes "coro_reachable prog no_executor drains w" and "well_nested prog n" and "stays_inline w"
    and "steps_left n w \<le> k"
  shows "coro_reachable prog no_executor drains (run_inline k w) \<and> stays_inline (run_inline k w) \<and>
    running (run_inline k w) 0 = None"
  using assms(1,3,4)
proof (induction k arbitrary: w)
  case 0
  have "running w 0 = Some h \<Longrightarrow> False" for h
    using step_decreases [OF 0(1) assms(2) coro_step.Run] 0(3) by fastforce
  then show ?case using 0 by (cases "running w 0") simp_all
next
  case (Suc k)
  show ?case
  proof (cases "running w 0")
    case (Some h)
    have s: "coro_step drains w (coroutine_step 0 h w)" by (rule coro_step.Run [OF Some])
    show ?thesis
      using Some Suc.IH [OF coro_reachable.Step [OF Suc.prems(1) s] inline_step [OF Suc.prems(2)]]
        step_decreases [OF Suc.prems(1) assms(2) s] Suc.prems(3) by simp
  qed (use Suc.prems in simp)
qed

lemma sync_start_ends:
  fixes prog :: "nat \<Rightarrow> instr list \<times> 'v ending"
  assumes "well_nested prog n" and "inline_program prog" and "fst (prog 0) = [Co_Await 1]"
  shows "status (frames (sync_start prog n) 0) = Ended" and "status (frames (sync_start prog n) 1) = Ended"
    and "task_result (stored (frames (sync_start prog n) 1)) = ending_res (direct prog n 1)"
proof -
  let ?d = "\<lambda>t ex. False" and ?i = "coro_init prog no_executor"
  have "stays_inline ?i" using assms(2) by (auto simp: stays_inline_def inline_program_def coro_init_def)
  moreover have "steps_left n ?i \<le> step_bound prog n" by (simp add: steps_left_init)
  ultimately have r: "coro_reachable prog no_executor ?d (sync_start prog n)" "stays_inline (sync_start prog n)"
      "running (sync_start prog n) 0 = None"
    using run_inline_ends [OF coro_reachable.Init assms(1)] unfolding sync_start_def by blast+
  then have "running (sync_start prog n) t = None" "queues (sync_start prog n) ex = []" for t ex
    by (cases "t = 0"; simp add: stays_inline_def)+
  then show e: "status (frames (sync_start prog n) 0) = Ended"
    using idle_all_ended [OF r(1) assms(1)] by blast
  have "root_after_task (Co_Await 1) (sync_start prog n)"
    by (rule root_after_task_reachable [OF r(1) assms(1,3)]) simp
  then show one: "status (frames (sync_start prog n) 1) = Ended" using e by (simp add: root_after_task_def)
  show "task_result (stored (frames (sync_start prog n) 1)) = ending_res (direct prog n 1)"
    using on_course_reachable [OF r(1) assms(1), of 1] one by (simp add: on_course_def)
qed

lemma sync_wait_direct:
  assumes "well_nested prog n" and "inline_program prog" and "fst (prog 0) = [Co_Await 1]"
  shows "sync_wait_program prog n = ending_res (direct prog n 1)"
  using sync_start_ends [OF assms]
  by (cases "direct prog n 1")
    (simp_all add: sync_wait_program_def root_completion_def sync_wait_def wait_promise_result_def
      wait_promise_init_def wait_yield_value_def wait_unhandled_exception_def)

lemma sync_wait_void_direct:
  assumes "well_nested prog n" and "inline_program prog" and "fst (prog 0) = [Co_Await 1]"
  shows "sync_wait_void_program prog n = ending_res (direct prog n 1)"
  using sync_start_ends [OF assms]
  by (cases "direct prog n 1")
    (simp_all add: sync_wait_void_program_def root_completion_def sync_wait_void_def void_promise_result_def
      wait_promise_init_def wait_yield_value_def wait_unhandled_exception_def)

section \<open>Properties\<close>

text \<open>
  C37: \<open>sync_wait\<close> of a task that uses no executor returns what a direct evaluation of the
  task gives. The nesting of the tasks is any; the resumption finishes within the bound, the
  root has ended when \<open>start\<close> returns, and the result is the value of the task or its exception,
  thrown again in the caller.
\<close>

theorem sync_wait_runs_tasks:
  assumes "well_nested prog n" and "inline_program prog" and "fst (prog 0) = [Co_Await 1]"
  shows "status (frames (sync_start prog n) 0) = Ended \<and>
    sync_wait_program prog n = ending_res (direct prog n 1)"
  using sync_start_ends(1) [OF assms] sync_wait_direct [OF assms] by simp

text \<open>Three tasks below each other; the last one raises, and the ones above it end with its exception.\<close>

fun three_tasks :: "nat \<Rightarrow> instr list \<times> nat ending" where
  "three_tasks h =
     (if h = 0 then ([Co_Await 1], Co_Return 0) else if h = 1 then ([Co_Await 2, Co_Await 3], Co_Return 10)
      else if h = 2 then ([], Co_Return 7) else if h = 3 then ([], Raise 5) else ([], Co_Return 0))"

lemma sync_wait_runs_tasks_witness: "sync_wait_program three_tasks 4 = Inl (Rethrown 5)"
proof -
  have "well_nested three_tasks 4" by (auto simp: well_nested_def split: if_splits)
  moreover have "inline_program three_tasks" by (auto simp: inline_program_def split: if_splits)
  ultimately show ?thesis
    using sync_wait_runs_tasks [of three_tasks 4] by (simp add: eval_nat_numeral)
qed

end
