(* ===== verification/Task_Tests.thy ===== *)
theory Task_Tests
  imports Sync_Programs
begin

text \<open>
  The tests of \<open>test/task_ut.cpp\<close> (\<open>test/task_threading_ut.cpp\<close> has the same text) as programs of
  tasks. A test that runs a task by \<open>sync_wait\<close> is a function of the world it ends in; the test on
  two executors is a claim about every interleaving of their threads.
\<close>

section \<open>Tests on one thread\<close>

text \<open>A root that awaits coroutine 1, which awaits the next one if there are two.\<close>

definition one_task :: "'v ending \<Rightarrow> nat \<Rightarrow> instr list \<times> 'v ending" where
  "one_task out h = (if h = 0 then [Co_Await 1] else [], out)"

definition nested_task :: "'v ending \<Rightarrow> 'v ending \<Rightarrow> nat \<Rightarrow> instr list \<times> 'v ending" where
  "nested_task inner outer h =
     (if h = 0 then [Co_Await 1] else if h = 1 then [Co_Await 2] else [], if h = 2 then inner else outer)"

lemma one_task_fine: "well_nested (one_task out) 2" "inline_program (one_task out)"
  by (auto simp: one_task_def well_nested_def inline_program_def split: if_splits)

lemma nested_task_fine: "well_nested (nested_task inner outer) 3" "inline_program (nested_task inner outer)"
  by (auto simp: nested_task_def well_nested_def inline_program_def split: if_splits)

text \<open>
  \<open>TEST_CASE("task")\<close>: coroutine 2 is \<open>func\<close>, which sets \<open>started\<close> as its first statement;
  coroutine 1 awaits it and returns the value \<open>i\<close> it received.
\<close>

definition has_started :: "nat \<Rightarrow> 'v world \<Rightarrow> bool" where
  "has_started h w \<longleftrightarrow> status (frames w h) \<noteq> Suspended_Start"

definition test_task :: "int \<Rightarrow> bool" where
  "test_task i =
     (let prog = nested_task (Co_Return 1) (Co_Return i);
          created = coro_init prog no_executor; done = sync_start prog 3
      in \<not> has_started 2 created \<and>
         (received (frames done 1) = [i] \<longrightarrow> has_started 2 done \<and> sync_wait_program prog 3 = Inr i) \<and>
         received (frames done 1) = [1])"

text \<open>\<open>TEST_CASE("task return void")\<close>: \<open>run\<close> is set by the only statement of the task.\<close>

definition test_return_void :: bool where
  "test_return_void =
     (sync_wait_void_program (one_task (Co_Return ())) 2 = Inr () \<and>
      has_started 1 (sync_start (one_task (Co_Return ())) 2))"

text \<open>
  \<open>TEST_CASE("task return ref")\<close>: the value of a \<open>Task<int&>\<close> is the address of the variable
  \<open>value\<close>; \<open>mem\<close> is the memory, the task stores 1 when it runs, and the test stores 2 through the
  reference it got.
\<close>

definition test_return_ref :: "nat \<Rightarrow> (nat \<Rightarrow> int) \<Rightarrow> bool" where
  "test_return_ref value mem =
     (let prog = one_task (Co_Return value); mem = mem(value := 0);
          mem = (if has_started 1 (sync_start prog 2) then mem(value := 1) else mem)
      in case sync_wait_program prog 2 of
           Inl f \<Rightarrow> False
         | Inr r \<Rightarrow> mem r = 1 \<and> mem value = 1 \<and> (mem(r := 2)) value = 2)"

definition test_return_value :: bool where
  "test_return_value = (sync_wait_program (one_task (Co_Return (42 :: int))) 2 = Inr 42)"

text \<open>The three tests with an exception: \<open>REQUIRE_THROWS\<close>.\<close>

definition rethrows :: "'v res \<Rightarrow> bool" where
  "rethrows r = (case r of Inl (Rethrown e) \<Rightarrow> True | _ \<Rightarrow> False)"

definition test_void_exception :: "nat \<Rightarrow> bool" where
  "test_void_exception e = rethrows (sync_wait_void_program (one_task (Raise e)) 2)"

definition test_int_exception :: "nat \<Rightarrow> bool" where
  "test_int_exception e = rethrows (sync_wait_program (one_task (Raise e) :: nat \<Rightarrow> instr list \<times> int ending) 2)"

definition test_ref_exception :: "nat \<Rightarrow> bool" where
  "test_ref_exception e = rethrows (sync_wait_program (one_task (Raise e) :: nat \<Rightarrow> instr list \<times> nat ending) 2)"

lemma one_task_result:
  "sync_wait_program (one_task out) 2 = ending_res out" "has_started 1 (sync_start (one_task out) 2)"
proof -
  have root: "fst (one_task out 0) = [Co_Await 1]" by (simp add: one_task_def)
  have d: "direct (one_task out) 2 1 = out" by (simp add: one_task_def eval_nat_numeral)
  show "sync_wait_program (one_task out) 2 = ending_res out"
    using sync_wait_direct [OF one_task_fine root] d by simp
  show "has_started 1 (sync_start (one_task out) 2)"
    using sync_start_ends(2) [OF one_task_fine root] by (simp add: has_started_def)
qed

lemma one_void_task_result: "sync_wait_void_program (one_task out) 2 = ending_res out"
proof -
  have "direct (one_task out) 2 1 = out" by (simp add: one_task_def eval_nat_numeral)
  then show ?thesis using sync_wait_void_direct [OF one_task_fine] by (simp add: one_task_def)
qed

lemma test_task_passes: "test_task 1"
proof -
  let ?p = "nested_task (Co_Return (1 :: int)) (Co_Return 1)"
  have root: "fst (?p 0) = [Co_Await 1]" by (simp add: nested_task_def)
  have "direct ?p 3 1 = Co_Return 1" by (simp add: nested_task_def eval_nat_numeral)
  then have "sync_wait_program ?p 3 = Inr 1" using sync_wait_direct [OF nested_task_fine root] by simp
  moreover have "step_bound ?p 3 = 14" by (simp add: step_bound_def nested_task_def eval_nat_numeral)
  then have "received (frames (sync_start ?p 3) 1) = [1]" "has_started 2 (sync_start ?p 3)"
    by (simp_all add: sync_start_def eval_nat_numeral nested_task_def has_started_def no_executor_def example_simps)
  moreover have "\<not> has_started 2 (coro_init ?p no_executor)" by (simp add: has_started_def coro_init_def)
  ultimately show ?thesis by (simp add: test_task_def Let_def)
qed

lemma one_task_tests:
  "test_return_void" "test_return_ref v mem" "test_return_value"
  "test_void_exception e" "test_int_exception e" "test_ref_exception e"
  by (simp_all add: test_return_void_def test_return_ref_def test_return_value_def test_void_exception_def
      test_int_exception_def test_ref_exception_def rethrows_def one_task_result one_void_task_result Let_def
      del: One_nat_def)

section \<open>The test on two executors\<close>

text \<open>
  \<open>TEST_CASE("task multithread")\<close>. Thread 0 is the test's; it has no executor and awaits by
  \<open>async_wait\<close>. Threads 1 and 2 are \<open>thread_executor\<close>: each constructs the executor of its number,
  which is \<open>current\<close> there from then on, and drains it. The root is the coroutine of
  \<open>make_async_wait_task\<close>, coroutine 1 is \<open>task_on_thread1\<close> or \<open>thread_return_ref\<close>.
\<close>

definition thread_executors :: "nat \<Rightarrow> nat option" where
  "thread_executors t = (if t = 1 \<or> t = 2 then Some t else None)"

definition drains_thread :: "nat \<Rightarrow> nat \<Rightarrow> bool" where
  "drains_thread t ex \<longleftrightarrow> thread_executors t = Some ex"

definition task_on_thread1 :: "nat \<Rightarrow> nat \<Rightarrow> instr list \<times> int ending" where
  "task_on_thread1 ex1 ex2 = ([Switch_To ex1, Switch_To ex2, Switch_To ex2], Co_Return 3)"

text \<open>The four \<open>REQUIRE\<close> lines: the executor asked for when so many statements have been executed.\<close>

definition task_on_thread1_requires :: "nat \<Rightarrow> nat \<Rightarrow> nat \<Rightarrow> nat" where
  "task_on_thread1_requires ex1 ex2 k = [ex1, ex1, ex2, ex2] ! k"

text \<open>The value of \<open>thread_return_ref\<close> is the address of its local variable \<open>x\<close>.\<close>

definition thread_return_ref :: "nat \<Rightarrow> instr list \<times> nat ending" where
  "thread_return_ref x = ([], Co_Return x)"

definition async_wait_scheduled :: "instr list \<times> 'v ending \<Rightarrow> nat \<Rightarrow> nat \<Rightarrow> instr list \<times> 'v ending" where
  "async_wait_scheduled task ex h =
     (if h = 0 then ([Schedule_On 1 ex], snd task) else if h = 1 then task else ([], snd task))"

lemma async_wait_scheduled_nested:
  "targets (fst task) = [] \<Longrightarrow> well_nested (async_wait_scheduled task ex) 2"
  by (auto simp: well_nested_def async_wait_scheduled_def)

lemma task_on_thread1_requires_hold:
  assumes "coro_reachable (async_wait_scheduled (task_on_thread1 1 2) 1) thread_executors drains_thread w"
    and "running w t = Some 1" and "awaiting (frames w 1) = None"
    and "fst (task_on_thread1 1 2) = is @ body (frames w 1)"
  shows "current w t = Some (task_on_thread1_requires 1 2 (length is))"
proof -
  let ?p = "async_wait_scheduled (task_on_thread1 1 2) 1"
  have wn: "well_nested ?p 2" by (rule async_wait_scheduled_nested) (simp add: task_on_thread1_def)
  have d: "\<forall>t ex. drains_thread t ex \<longrightarrow> thread_executors t = Some ex" by (simp add: drains_thread_def)
  have b: "fst (?p 1) = is @ body (frames w 1)" using assms(4) by (simp add: async_wait_scheduled_def)
  have "routed ?p thread_executors 1 [] 1"
    by (rule routed.Scheduled [of _ 0 "[]" _ _ "[]"]) (simp add: async_wait_scheduled_def)
  moreover have "is \<in> {[], [] @ [Switch_To 1], [Switch_To 1] @ [Switch_To 2], [Switch_To 1, Switch_To 2] @ [Switch_To 2]}"
    using assms(4) by (auto simp: task_on_thread1_def Cons_eq_append_conv)
  ultimately have "routed ?p thread_executors 1 is (task_on_thread1_requires 1 2 (length is))"
    by (elim insertE emptyE) (auto simp: task_on_thread1_requires_def routed_switch [of _ _ _ "[]", simplified]
      routed_switch [of _ _ _ "[Switch_To 1]", simplified] routed_switch [of _ _ _ "[Switch_To 1, Switch_To 2]", simplified])
  then show ?thesis by (rule runs_on_route [OF assms(1) wn d assms(2,3) b])
qed

text \<open>Only the executors a program names have jobs.\<close>

fun names :: "instr \<Rightarrow> nat set" where
  "names (Co_Await c) = {}"
| "names (Schedule_On c ex) = {ex}"
| "names (Switch_To ex) = {ex}"

definition named :: "nat set \<Rightarrow> 'v world \<Rightarrow> bool" where
  "named E w \<longleftrightarrow>
     (\<forall>h. \<forall>i \<in> set (body (frames w h)). names i \<subseteq> E) \<and> (\<forall>c. set_option (executor (frames w c)) \<subseteq> E) \<and>
     (\<forall>ex. queues w ex \<noteq> [] \<longrightarrow> ex \<in> E) \<and> (\<forall>t. set_option (current w t) \<subseteq> E)"

lemma namedD:
  assumes "named E w"
  shows "i \<in> set (body (frames w h)) \<Longrightarrow> names i \<subseteq> E" "executor (frames w c) = Some ex \<Longrightarrow> ex \<in> E"
    "queues w ex \<noteq> [] \<Longrightarrow> ex \<in> E" "current w t = Some ex \<Longrightarrow> ex \<in> E"
  using assms unfolding named_def by (fastforce dest: equalityD1)+

lemma named_frame:
  assumes "named E w" and "set (body f) \<subseteq> set (body (frames w h))"
    and "executor f = executor (frames w h) \<or> (\<exists>t. executor f = current w t)"
  shows "named E (w\<lparr>frames := (frames w)(h := f)\<rparr>)"
proof -
  have "set_option (executor f) \<subseteq> E" using assms(1,3) unfolding named_def by metis
  moreover have "\<forall>i \<in> set (body f). names i \<subseteq> E" using assms(1,2) unfolding named_def by blast
  ultimately show ?thesis using assms(1) unfolding named_def by simp
qed

lemma named_ops:
  assumes "named E w"
  shows "named E (run_on t x w)" and "ex \<in> E \<Longrightarrow> named E (executor_add ex h w)"
    and "named E (w\<lparr>corrupt := b\<rparr>)"
  using assms by (auto simp: named_def run_on_def executor_add_def)

lemma named_end:
  assumes "named E w"
  shows "named E (end_coroutine t h out w)"
proof (cases "store_ending out (stored (frames w h))")
  case (Inr x)
  let ?w = "on_frame h (\<lambda>f. f\<lparr>stored := x, awaiting := None, status := Ended\<rparr>) w"
  have n: "named E ?w" unfolding on_frame_def by (rule named_frame [OF assms]) simp_all
  have "executor (frames ?w h) = Some ex \<Longrightarrow> ex \<in> E" for ex using namedD(2) [OF n] .
  then have "named E (final_suspend t h ?w)"
    unfolding final_suspend_def Let_def using named_ops [OF n] named_ops(1) [OF named_ops(2) [OF n]]
    by (auto split: option.split)
  then show ?thesis using Inr by (simp add: end_coroutine_def)
qed (use assms named_ops(3) in \<open>simp add: end_coroutine_def\<close>)

lemma named_step:
  assumes "named E w"
  shows "named E (coroutine_step t h w)"
proof (cases "awaiting (frames w h)")
  case (Some c)
  then show ?thesis
    using named_end [OF assms] named_ops(3) [OF assms] named_frame [OF assms, of _ h]
    by (auto simp: coroutine_step_def on_frame_def split: sum.split fault.split)
next
  case None
  show ?thesis
  proof (cases "body (frames w h)")
    case Nil
    then show ?thesis using None named_end [OF assms] by (simp add: coroutine_step_def)
  next
    case (Cons i rest)
    have e: "names i \<subseteq> E" using namedD(1) [OF assms, of i h] Cons by simp
    have n: "named E (on_frame h (\<lambda>f. f\<lparr>body := rest, awaiting := a\<rparr>) w)" for a
      unfolding on_frame_def by (rule named_frame [OF assms]) (auto simp: Cons)
    have n': "named E (on_frame h (\<lambda>f. f\<lparr>body := rest\<rparr>) w)"
      unfolding on_frame_def by (rule named_frame [OF assms]) (auto simp: Cons)
    have k: "named E (on_frame c (set_continuation h (current v t)) v)" if "named E v" for c v
      unfolding on_frame_def by (rule named_frame [OF that]) (auto simp: set_continuation_def)
    have s: "named E (on_frame c (\<lambda>f. f\<lparr>status := Active\<rparr>) v)" if "named E v" for c v
      unfolding on_frame_def by (rule named_frame [OF that]) auto
    show ?thesis
      using None Cons e n n'
      by (cases i) (auto simp: coroutine_step_def Let_def await_suspend_def schedule_on_suspend_def
          intro!: named_ops k s)
  qed
qed

lemma named_take: "named E w \<Longrightarrow> named E (take_job t ex h w)"
  unfolding take_job_def Let_def
  by (auto simp: named_def run_on_def on_frame_def split: if_splits) (metis list.sel(2))+

lemma named_reachable:
  assumes "coro_reachable prog cur drains w" and "named E (coro_init prog cur)"
  shows "queues w ex \<noteq> [] \<Longrightarrow> ex \<in> E"
proof -
  from assms(1) have "named E w"
    by (induction rule: coro_reachable.induct)
      (auto simp: assms(2) elim!: coro_step.cases intro: named_step named_take)
  then show "queues w ex \<noteq> [] \<Longrightarrow> ex \<in> E" by (rule namedD(3))
qed

text \<open>\<open>async_wait\<close> is reached by every run that cannot go on, and the task gives 3, or the reference.\<close>

lemma async_wait_scheduled_ends:
  assumes "targets (fst task) = []" and "f 0 = coro_init (async_wait_scheduled task ex) thread_executors"
    and "\<forall>i<k. coro_step drains_thread (f i) (f (Suc i))" and "\<nexists>w. coro_step drains_thread (f k) w"
    and "named {1, 2} (coro_init (async_wait_scheduled task ex) thread_executors)"
  shows "root_completion (f k) = (case snd task of Co_Return v \<Rightarrow> Some (Gives v) | Raise e \<Rightarrow> Some (Throws e))"
proof -
  let ?p = "async_wait_scheduled task ex"
  have wn: "well_nested ?p 2" by (rule async_wait_scheduled_nested [OF assms(1)])
  have r: "coro_reachable ?p thread_executors drains_thread (f k)" by (rule run_reachable [OF assms(2,3)]) simp
  have served: "\<forall>ex. queues (f k) ex \<noteq> [] \<longrightarrow> (\<exists>t. drains_thread t ex)"
    using named_reachable [OF r assms(5)] by (fastforce simp: drains_thread_def thread_executors_def)
  have e: "status (frames (f k) 0) = Ended" using run_ends [OF wn assms(2,3)] assms(4) served by blast
  have "root_after_task (Schedule_On 1 ex) (f k)"
    by (rule root_after_task_reachable [OF r wn]) (simp_all add: async_wait_scheduled_def)
  then have "status (frames (f k) 1) = Ended" using e by (simp add: root_after_task_def)
  moreover have "direct ?p 2 1 = snd task"
    using assms(1) by (simp add: async_wait_scheduled_def eval_nat_numeral)
  ultimately have "task_result (stored (frames (f k) 1)) = ending_res (snd task)"
    using on_course_reachable [OF r wn, of 1] by (simp add: on_course_def)
  then show ?thesis using e by (cases "snd task") (simp_all add: root_completion_def)
qed

text \<open>The two calls of the test.\<close>

lemma multithread_test:
  "\<lbrakk>f 0 = coro_init (async_wait_scheduled (task_on_thread1 1 2) 1) thread_executors;
    \<forall>i<k. coro_step drains_thread (f i) (f (Suc i)); \<nexists>w. coro_step drains_thread (f k) w\<rbrakk>
   \<Longrightarrow> root_completion (f k) = Some (Gives 3)"
  "\<lbrakk>g 0 = coro_init (async_wait_scheduled (thread_return_ref x) 1) thread_executors;
    \<forall>i<k. coro_step drains_thread (g i) (g (Suc i)); \<nexists>w. coro_step drains_thread (g k) w\<rbrakk>
   \<Longrightarrow> root_completion (g k) = Some (Gives x)"
  using async_wait_scheduled_ends [of "task_on_thread1 1 2" f 1 k] async_wait_scheduled_ends [of "thread_return_ref x" g 1 k]
  by (simp_all add: task_on_thread1_def thread_return_ref_def named_def coro_init_def async_wait_scheduled_def
      thread_executors_def)

end
