(* ===== verification/Event_Programs.thy ===== *)
theory Event_Programs
  imports Sync_Event
begin

text \<open>
  Threads that synchronise by manual reset events: programs of \<open>set\<close> and \<open>wait\<close> on any number of
  events, over the atomic steps of \<open>Sync_Event\<close>. What the events promise is a much simpler
  machine, in which \<open>set\<close> is one step and \<open>wait\<close> is one step that is possible once the event was
  set. \<open>test/sync_ut.cpp\<close> is such a program.
\<close>

section \<open>Programs\<close>

text \<open>\<open>Wake e\<close> is the second half of \<open>set\<close>, its futex call.\<close>

datatype event_command = Signal nat | Wake nat | Wait nat

record event_world =
  events :: "nat \<Rightarrow> event_state"
  code :: "nat \<Rightarrow> event_command list"

definition on_event :: "nat \<Rightarrow> (event_state \<Rightarrow> event_state) \<Rightarrow> event_world \<Rightarrow> event_world" where
  "on_event e f w = w\<lparr>events := (events w)(e := f (events w e))\<rparr>"

definition proceed :: "nat \<Rightarrow> event_command list \<Rightarrow> event_world \<Rightarrow> event_world" where
  "proceed t cs w = w\<lparr>code := (code w)(t := cs)\<rparr>"

text \<open>A thread calls \<open>wait\<close> again only after the last call has returned; its place is then free.\<close>

inductive program_step :: "nat \<Rightarrow> event_world \<Rightarrow> event_world \<Rightarrow> bool" for t where
  Stores: "code w t = Signal e # cs \<Longrightarrow> program_step t w (proceed t (Wake e # cs) (on_event e set_store w))"
| Wakes: "code w t = Wake e # cs \<Longrightarrow> program_step t w (proceed t cs (on_event e set_wake w))"
| Waits: "\<lbrakk>code w t = Wait e # cs; wait_step t (events w e) ev\<rbrakk> \<Longrightarrow> program_step t w (on_event e (\<lambda>_. ev) w)"
| Returns: "\<lbrakk>code w t = Wait e # cs; wait_pcs (events w e) t = Has_Returned\<rbrakk>
    \<Longrightarrow> program_step t w (proceed t cs (on_event e (at_pc t Idle) w))"

definition event_world_init :: "(nat \<Rightarrow> event_command list) \<Rightarrow> event_world" where
  "event_world_init prog = \<lparr>events = (\<lambda>_. event_init), code = prog\<rparr>"

inductive program_reachable :: "(nat \<Rightarrow> event_command list) \<Rightarrow> event_world \<Rightarrow> bool" for prog where
  Init: "program_reachable prog (event_world_init prog)"
| Step: "program_reachable prog w \<Longrightarrow> program_step t w w' \<Longrightarrow> program_reachable prog w'"

text \<open>A program as it is written has no half of a \<open>set\<close>.\<close>

fun whole :: "event_command list \<Rightarrow> bool" where
  "whole [] = True"
| "whole (Wake e # cs) = False"
| "whole (c # cs) = whole cs"

section \<open>The promise\<close>

record event_spec =
  was_set :: "nat set"
  to_do :: "nat \<Rightarrow> event_command list"

inductive spec_event_step :: "event_spec \<Rightarrow> event_spec \<Rightarrow> bool" where
  Set: "to_do a t = Signal e # cs \<Longrightarrow> spec_event_step a (a\<lparr>was_set := insert e (was_set a), to_do := (to_do a)(t := cs)\<rparr>)"
| Pass: "\<lbrakk>to_do a t = Wait e # cs; e \<in> was_set a\<rbrakk> \<Longrightarrow> spec_event_step a (a\<lparr>to_do := (to_do a)(t := cs)\<rparr>)"

definition event_spec_init :: "(nat \<Rightarrow> event_command list) \<Rightarrow> event_spec" where
  "event_spec_init prog = \<lparr>was_set = {}, to_do = prog\<rparr>"

fun after_store :: "event_command list \<Rightarrow> event_command list" where
  "after_store (Wake e # cs) = cs"
| "after_store cs = cs"

definition abstract_events :: "event_world \<Rightarrow> event_spec" where
  "abstract_events w = \<lparr>was_set = {e. signal (events w e) = 1}, to_do = (\<lambda>t. after_store (code w t))\<rparr>"

text \<open>Every thread has finished or sleeps in the kernel.\<close>

definition all_asleep :: "event_world \<Rightarrow> bool" where
  "all_asleep w \<longleftrightarrow>
     (\<forall>t. code w t = [] \<or> (\<exists>e cs. code w t = Wait e # cs \<and> wait_pcs (events w e) t = Sleeping))"

section \<open>Invariant\<close>

definition sleepers_covered :: "event_world \<Rightarrow> bool" where
  "sleepers_covered w \<longleftrightarrow>
     (\<forall>e t. wait_pcs (events w e) t = Sleeping \<and> signal (events w e) = 1 \<longrightarrow> (\<exists>u cs. code w u = Wake e # cs))"

definition events_inv :: "event_world \<Rightarrow> bool" where
  "events_inv w \<longleftrightarrow>
     (\<forall>e. signal (events w e) \<in> {0, 1}) \<and>
     (\<forall>e t. wait_pcs (events w e) t = Has_Returned \<longrightarrow> signal (events w e) = 1) \<and>
     (\<forall>e t. pc_fine (wait_pcs (events w e) t)) \<and>
     (\<forall>e t. wait_pcs (events w e) t \<noteq> Idle \<longrightarrow> (\<exists>cs. code w t = Wait e # cs)) \<and>
     (\<forall>e t cs. code w t = Wake e # cs \<longrightarrow> signal (events w e) = 1) \<and>
     (\<forall>t. whole (tl (code w t))) \<and> sleepers_covered w"

lemmas program_ops = on_event_def proceed_def event_ops

lemma events_invD:
  assumes "events_inv w"
  shows "signal (events w e) = 0 \<or> signal (events w e) = 1"
    and "wait_pcs (events w e) t = Has_Returned \<Longrightarrow> signal (events w e) = 1"
    and "pc_fine (wait_pcs (events w e) t)"
    and "wait_pcs (events w e) t \<noteq> Idle \<Longrightarrow> \<exists>cs. code w t = Wait e # cs"
    and "code w t = Wake e # cs \<Longrightarrow> signal (events w e) = 1"
    and "whole (tl (code w t))"
    and "wait_pcs (events w e) t = Sleeping \<Longrightarrow> signal (events w e) = 1 \<Longrightarrow> \<exists>u cs. code w u = Wake e # cs"
  using assms unfolding events_inv_def sleepers_covered_def by blast+

lemma events_invI:
  assumes "\<And>e. signal (events w e) = 0 \<or> signal (events w e) = 1"
    and "\<And>e t. wait_pcs (events w e) t = Has_Returned \<Longrightarrow> signal (events w e) = 1"
    and "\<And>e t. pc_fine (wait_pcs (events w e) t)"
    and "\<And>e t. wait_pcs (events w e) t \<noteq> Idle \<Longrightarrow> \<exists>cs. code w t = Wait e # cs"
    and "\<And>e t cs. code w t = Wake e # cs \<Longrightarrow> signal (events w e) = 1"
    and "\<And>t. whole (tl (code w t))"
    and "\<And>e t. wait_pcs (events w e) t = Sleeping \<Longrightarrow> signal (events w e) = 1 \<Longrightarrow> \<exists>u cs. code w u = Wake e # cs"
  shows "events_inv w"
  using assms unfolding events_inv_def sleepers_covered_def by blast

lemma whole_tl: "whole cs \<Longrightarrow> whole (tl cs)"
  by (cases cs rule: whole.cases) simp_all

text \<open>A step of a waiter: where it stands afterwards, and that only the event's waiters change.\<close>

lemma wait_step_effect:
  assumes "wait_step t s s'" and "pc_fine (wait_pcs s t)" and "signal s = 0 \<or> signal s = 1"
  obtains p where "s' = at_pc t p s" "p = Has_Returned \<Longrightarrow> signal s = 1" "pc_fine p" "p = Sleeping \<Longrightarrow> signal s = 0"
  using assms
  by (cases rule: wait_step.cases) (force simp: wait_load_def wait_futex_def split: if_splits)+

lemma events_inv_waits:
  assumes inv: "events_inv w" and c: "code w t = Wait e # cs" and s: "wait_step t (events w e) ev"
  shows "events_inv (on_event e (\<lambda>_. ev) w)"
proof -
  note d = events_invD [OF inv]
  obtain p where p: "ev = at_pc t p (events w e)" "p = Has_Returned \<Longrightarrow> signal (events w e) = 1" "pc_fine p"
      "p = Sleeping \<Longrightarrow> signal (events w e) = 0"
    by (rule wait_step_effect [OF s d(3,1)]) (rule that)
  show ?thesis
    by (rule events_invI)
      (use p d c in \<open>auto simp: on_event_def at_pc_def split: if_splits\<close>)
qed

lemma events_inv_step:
  assumes inv: "events_inv w" and "program_step t w w'"
  shows "events_inv w'"
  using assms(2)
proof (cases rule: program_step.cases)
  case (Waits e cs ev)
  then show ?thesis using events_inv_waits [OF inv] by simp
next
  case (Stores e cs)
  note d = events_invD [OF inv]
  have idle: "wait_pcs (events w x) t = Idle" for x using d(4) [of x t] Stores(2) by auto
  show ?thesis
  proof (rule events_invI)
    fix x u
    assume s: "wait_pcs (events w' x) u = Sleeping" "signal (events w' x) = 1"
    show "\<exists>v cs. code w' v = Wake x # cs"
    proof (cases "x = e")
      case False
      then obtain v ds where v: "code w v = Wake x # ds" using d(7) [of x u] s Stores(1) by (auto simp: program_ops)
      then have "v \<noteq> t" using Stores(2) by auto
      then show ?thesis using v Stores(1) by (intro exI [of _ v]) (simp add: program_ops)
    qed (use Stores(1) in \<open>auto simp: program_ops\<close>)
  qed (use d idle Stores whole_tl [OF d(6), of t] d(6) [of t] in \<open>auto simp: program_ops split: if_splits\<close>)
next
  case (Wakes e cs)
  note d = events_invD [OF inv]
  have idle: "wait_pcs (events w x) t = Idle" for x using d(4) [of x t] Wakes(2) by auto
  have cs: "whole cs" using d(6) [of t] Wakes(2) by simp
  show ?thesis
  proof (rule events_invI)
    fix x u
    assume s: "wait_pcs (events w' x) u = Sleeping" "signal (events w' x) = 1"
    then have "x \<noteq> e" using Wakes(1) by (auto simp: program_ops split: if_splits)
    then obtain v ds where "code w v = Wake x # ds" using d(7) [of x u] s Wakes(1) by (auto simp: program_ops)
    then show "\<exists>v cs. code w' v = Wake x # cs"
      using Wakes \<open>x \<noteq> e\<close> by (intro exI [of _ v]) (auto simp: program_ops)
  qed (use d idle Wakes cs whole_tl [OF cs] in \<open>auto simp: program_ops split: if_splits\<close>)
next
  case (Returns e cs)
  note d = events_invD [OF inv]
  have cs: "whole cs" using d(6) [of t] Returns(2) by simp
  have others: "wait_pcs (events w x) t = Idle" if "x \<noteq> e" for x using d(4) [of x t] Returns(2) that by auto
  show ?thesis
  proof (rule events_invI)
    fix x u
    assume "wait_pcs (events w' x) u = Sleeping" "signal (events w' x) = 1"
    then obtain v ds where "code w v = Wake x # ds"
      using d(7) [of x u] Returns(1) by (auto simp: program_ops split: if_splits)
    then show "\<exists>v cs. code w' v = Wake x # cs"
      using Returns by (intro exI [of _ v]) (auto simp: program_ops)
  qed (use d others Returns cs whole_tl [OF cs] in \<open>auto simp: program_ops split: if_splits\<close>)
qed

lemma events_inv_reachable:
  assumes "program_reachable prog w" and "\<forall>t. whole (prog t)"
  shows "events_inv w"
  using assms(1)
proof (induction rule: program_reachable.induct)
  case Init
  have "prog t \<noteq> Wake e # cs" for t e cs using assms(2) by (metis whole.simps(2))
  then show ?case
    using assms(2) by (intro events_invI) (auto simp: event_world_init_def event_init_def whole_tl)
qed (rule events_inv_step)

section \<open>Refinement\<close>

lemma after_store_whole: "whole cs \<Longrightarrow> after_store cs = cs"
  by (cases cs rule: after_store.cases) simp_all

lemma step_refines:
  assumes inv: "events_inv w" and "program_step t w w'"
  shows "abstract_events w' = abstract_events w \<or> spec_event_step (abstract_events w) (abstract_events w')"
  using assms(2)
proof (cases rule: program_step.cases)
  case (Stores e cs)
  let ?a = "abstract_events w"
  have "to_do ?a t = Signal e # cs" using Stores(2) by (simp add: abstract_events_def)
  note spec_event_step.Set [OF this]
  moreover have "abstract_events w' = ?a\<lparr>was_set := insert e (was_set ?a), to_do := (to_do ?a)(t := cs)\<rparr>"
    using Stores(1) by (auto simp: abstract_events_def program_ops fun_eq_iff)
  ultimately show ?thesis by simp
next
  case (Wakes e cs)
  have "whole cs" using events_invD(6) [OF inv, of t] Wakes(2) by simp
  then have "abstract_events w' = abstract_events w"
    using Wakes after_store_whole by (auto simp: abstract_events_def program_ops fun_eq_iff)
  then show ?thesis by simp
next
  case (Waits e cs ev)
  note d = events_invD [OF inv]
  obtain p where "ev = at_pc t p (events w e)" by (rule wait_step_effect [OF Waits(3) d(3,1)]) (rule that)
  then have "abstract_events w' = abstract_events w"
    using Waits(1) by (auto simp: abstract_events_def program_ops fun_eq_iff)
  then show ?thesis by simp
next
  case (Returns e cs)
  let ?a = "abstract_events w"
  have "whole cs" using events_invD(6) [OF inv, of t] Returns(2) by simp
  have "to_do ?a t = Wait e # cs" "e \<in> was_set ?a"
    using Returns(2) events_invD(2) [OF inv Returns(3)] by (simp_all add: abstract_events_def)
  note spec_event_step.Pass [OF this]
  moreover have "abstract_events w' = ?a\<lparr>to_do := (to_do ?a)(t := cs)\<rparr>"
    using Returns(1) after_store_whole [OF \<open>whole cs\<close>] by (auto simp: abstract_events_def program_ops fun_eq_iff)
  ultimately show ?thesis by simp
qed

lemma program_refines:
  assumes "program_reachable prog w" and "\<forall>t. whole (prog t)"
  shows "spec_event_step\<^sup>*\<^sup>* (event_spec_init prog) (abstract_events w)"
  using assms(1)
proof (induction rule: program_reachable.induct)
  case Init
  have "abstract_events (event_world_init prog) = event_spec_init prog"
    using assms(2) by (simp add: abstract_events_def event_world_init_def event_init_def event_spec_init_def
      after_store_whole)
  then show ?case by simp
next
  case (Step w t w')
  then show ?case
    using step_refines [OF events_inv_reachable [OF Step.hyps(1) assms(2)] Step.hyps(2)]
    by (metis rtranclp.rtrancl_into_rtrancl)
qed

lemma asleep_is_blocked:
  assumes inv: "events_inv w" and "all_asleep w"
  shows "\<not> spec_event_step (abstract_events w) a"
proof
  assume "spec_event_step (abstract_events w) a"
  then show False
  proof (cases rule: spec_event_step.cases)
    case (Set t e cs)
    then show False using assms(2) unfolding all_asleep_def
      by (metis abstract_events_def after_store.simps(2,4) event_command.distinct(3) event_spec.select_convs(2) list.distinct(1) list.inject)
  next
    case (Pass t e cs)
    have "code w t \<noteq> []" using Pass(2) by (auto simp: abstract_events_def)
    then obtain x ds where c: "code w t = Wait x # ds" "wait_pcs (events w x) t = Sleeping"
      using assms(2) unfolding all_asleep_def by blast
    then have "x = e" "signal (events w e) = 1" using Pass(2,3) by (simp_all add: abstract_events_def)
    then obtain u ks where "code w u = Wake e # ks" using events_invD(7) [OF inv] c(2) by blast
    then show False using assms(2) unfolding all_asleep_def by (metis event_command.distinct(5) list.distinct(1) list.inject)
  qed
qed

section \<open>Properties\<close>

text \<open>
  C23: programs of events run as if \<open>set\<close> and \<open>wait\<close> were single steps. Whatever the interleaving
  of the loads, stores and futex calls of any number of threads on any number of events, and
  whenever sleepers wake for no reason, the state corresponds to a run of the simple machine;
  and if every thread that has not finished sleeps in the kernel, then the simple machine is
  stuck there too: each of them waits for an event that nobody has set.
\<close>

theorem event_programs_refine:
  assumes "program_reachable prog w" and "\<forall>t. whole (prog t)"
  shows "spec_event_step\<^sup>*\<^sup>* (event_spec_init prog) (abstract_events w) \<and>
    (all_asleep w \<longrightarrow> (\<nexists>a. spec_event_step (abstract_events w) a) \<and>
      (\<forall>t. code w t = [] \<or> (\<exists>e cs. code w t = Wait e # cs \<and> e \<notin> was_set (abstract_events w))))"
proof -
  have inv: "events_inv w" by (rule events_inv_reachable [OF assms])
  have "\<exists>e cs. code w t = Wait e # cs \<and> e \<notin> was_set (abstract_events w)"
    if a: "all_asleep w" and b: "code w t \<noteq> []" for t
  proof -
    obtain e cs where c: "code w t = Wait e # cs" using a b unfolding all_asleep_def by blast
    then have "to_do (abstract_events w) t = Wait e # cs" by (simp add: abstract_events_def)
    then show ?thesis using asleep_is_blocked [OF inv a] spec_event_step.Pass c by blast
  qed
  then show ?thesis using program_refines [OF assms] asleep_is_blocked [OF inv] by blast
qed

text \<open>A thread that waits for an event nobody sets falls asleep, and is blocked for good.\<close>

definition lone_waiter :: "nat \<Rightarrow> event_command list" where
  "lone_waiter t = (if t = 0 then [Wait 0] else [])"

definition asleep :: event_world where
  "asleep = on_event 0 (\<lambda>_. sleeping_waiter) (event_world_init lone_waiter)"

lemma asleep_reachable: "program_reachable lone_waiter asleep"
proof -
  let ?i = "event_world_init lone_waiter"
  let ?ev = "\<lambda>ev. on_event 0 (\<lambda>_. ev) ?i"
  have code: "code (?ev ev) 0 = [Wait 0]" "code ?i 0 = [Wait 0]" "events (?ev ev) 0 = ev" "events ?i 0 = event_init" for ev
    by (simp_all add: on_event_def event_world_init_def lone_waiter_def)
  have over: "on_event 0 (\<lambda>_. ev') (?ev ev) = ?ev ev'" for ev ev' by (simp add: on_event_def)
  let ?a = "at_pc 0 Loading event_init"
  have "program_step 0 ?i (?ev ?a)"
    by (rule program_step.Waits [OF code(2)]) (simp add: code wait_step.Call event_init_def)
  moreover have "program_step 0 (?ev ?a) (?ev (wait_load 0 ?a))"
    using program_step.Waits [OF code(1) [of ?a], of "wait_load 0 ?a"] by (simp add: code over wait_step.Load at_pc_def)
  moreover have "wait_step 0 (wait_load 0 ?a) sleeping_waiter"
    unfolding sleeping_waiter_def by (rule wait_step.Futex) (simp add: event_ops event_init_def)
  then have "program_step 0 (?ev (wait_load 0 ?a)) (?ev sleeping_waiter)"
    using program_step.Waits [OF code(1) [of "wait_load 0 ?a"], of sleeping_waiter] by (simp add: code over)
  ultimately show ?thesis unfolding asleep_def by (meson program_reachable.intros)
qed

lemma event_programs_refine_witness:
  "all_asleep asleep \<and> 0 \<notin> was_set (abstract_events asleep)"
proof -
  have "all_asleep asleep"
    by (auto simp: all_asleep_def asleep_def on_event_def event_world_init_def lone_waiter_def sleeping_waiter_def
        event_ops event_init_def)
  moreover have "\<forall>t. whole (lone_waiter t)" "code asleep 0 = [Wait 0]"
    by (simp_all add: lone_waiter_def asleep_def on_event_def event_world_init_def)
  ultimately show ?thesis using event_programs_refine [OF asleep_reachable] by (metis event_command.inject(3) list.distinct(1) list.inject)
qed

section \<open>\<open>test/sync_ut.cpp\<close>\<close>

text \<open>Thread 0 is \<open>thread1\<close>, thread 1 is \<open>thread2\<close>; they share the events 1 and 2.\<close>

definition test_thread1 :: "nat \<Rightarrow> nat \<Rightarrow> event_command list" where
  "test_thread1 ev1 ev2 = [Wait ev1, Signal ev2]"

definition test_thread2 :: "nat \<Rightarrow> nat \<Rightarrow> event_command list" where
  "test_thread2 ev1 ev2 = [Signal ev1, Wait ev2]"

definition test_event :: "nat \<Rightarrow> event_command list" where
  "test_event t = (if t = 0 then test_thread1 1 2 else if t = 1 then test_thread2 1 2 else [])"

lemma test_event_spec:
  assumes "spec_event_step\<^sup>*\<^sup>* (event_spec_init test_event) a"
  shows "(to_do a 1 = [Signal 1, Wait 2] \<or> 1 \<in> was_set a \<and> (to_do a 1 = [Wait 2] \<or> to_do a 1 = [])) \<and>
    (to_do a 0 = [Wait 1, Signal 2] \<or> to_do a 0 = [Signal 2] \<or> to_do a 0 = [] \<and> 2 \<in> was_set a) \<and>
    (\<forall>t. t \<noteq> 0 \<and> t \<noteq> 1 \<longrightarrow> to_do a t = [])"
  using assms
proof (induction rule: rtranclp_induct)
  case base
  show ?case by (simp add: event_spec_init_def test_event_def test_thread1_def test_thread2_def)
next
  case (step a b)
  from step.hyps(2) show ?case
  proof (cases rule: spec_event_step.cases)
    case (Set t e cs)
    then show ?thesis using step.IH by (cases "t = 0"; cases "t = 1") auto
  next
    case (Pass t e cs)
    then show ?thesis using step.IH by (cases "t = 0"; cases "t = 1") auto
  qed
qed

text \<open>The test does not hang: when no thread is awake, both have returned and can be joined.\<close>

lemma test_event_joins:
  assumes "program_reachable test_event w" and "all_asleep w"
  shows "code w t = []"
proof -
  have "\<forall>t. whole (test_event t)" by (simp add: test_event_def test_thread1_def test_thread2_def)
  note inv = events_inv_reachable [OF assms(1) this] and run = program_refines [OF assms(1) this]
  let ?a = "abstract_events w"
  note s = test_event_spec [OF run]
  have stuck: "\<not> spec_event_step ?a b" for b by (rule asleep_is_blocked [OF inv assms(2)])
  have "to_do ?a u = Signal e # cs \<Longrightarrow> False" "to_do ?a u = Wait e # cs \<Longrightarrow> e \<in> was_set ?a \<Longrightarrow> False" for u e cs
    using stuck spec_event_step.Set spec_event_step.Pass by blast+
  then have "to_do ?a u = []" for u using s by (cases "u = 0"; cases "u = 1") (metis One_nat_def)+
  then have "after_store (code w t) = []" by (simp add: abstract_events_def)
  moreover have "code w t = [] \<or> (\<exists>e cs. code w t = Wait e # cs)" using assms(2) unfolding all_asleep_def by blast
  ultimately show ?thesis by auto
qed

text \<open>
  The start of \<open>test/task_ut.cpp\<close>: the threads 1 and 2 store the address of their executor and set
  their event, and only then does the test go on to use the addresses.
\<close>

definition thread_executor_starts :: "nat \<Rightarrow> event_command list" where
  "thread_executor_starts ev = [Signal ev]"

definition start_executors :: "nat \<Rightarrow> event_command list" where
  "start_executors t = (if t = 0 then [Wait 1, Wait 2] else if t = 1 \<or> t = 2 then thread_executor_starts t else [])"

lemma start_executors_spec:
  assumes "spec_event_step\<^sup>*\<^sup>* (event_spec_init start_executors) a"
  shows "(to_do a 1 = [Signal 1] \<or> to_do a 1 = [] \<and> 1 \<in> was_set a) \<and>
    (to_do a 2 = [Signal 2] \<or> to_do a 2 = [] \<and> 2 \<in> was_set a) \<and>
    (1 \<in> was_set a \<longrightarrow> to_do a 1 = []) \<and> (2 \<in> was_set a \<longrightarrow> to_do a 2 = []) \<and>
    (to_do a 0 = [Wait 1, Wait 2] \<or> to_do a 0 = [Wait 2] \<and> 1 \<in> was_set a \<or>
     to_do a 0 = [] \<and> 1 \<in> was_set a \<and> 2 \<in> was_set a) \<and>
    (\<forall>t. t \<noteq> 0 \<and> t \<noteq> 1 \<and> t \<noteq> 2 \<longrightarrow> to_do a t = [])"
  using assms
proof (induction rule: rtranclp_induct)
  case base
  show ?case by (simp add: event_spec_init_def start_executors_def thread_executor_starts_def)
next
  case (step a b)
  from step.hyps(2) show ?case
  proof (cases rule: spec_event_step.cases)
    case (Set t e cs)
    then show ?thesis using step.IH by (cases "t = 0"; cases "t = 1"; cases "t = 2") auto
  next
    case (Pass t e cs)
    then show ?thesis using step.IH by (cases "t = 0"; cases "t = 1"; cases "t = 2") auto
  qed
qed

lemma executors_started:
  assumes "program_reachable start_executors w"
  shows "code w 0 = [] \<Longrightarrow> ex \<in> {1, 2} \<Longrightarrow> after_store (code w ex) = []"
    and "all_asleep w \<Longrightarrow> code w t = []"
proof -
  have "\<forall>t. whole (start_executors t)" by (simp add: start_executors_def thread_executor_starts_def)
  note inv = events_inv_reachable [OF assms this] and run = program_refines [OF assms this]
  let ?a = "abstract_events w"
  note s = start_executors_spec [OF run]
  have todo: "to_do ?a u = after_store (code w u)" for u by (simp add: abstract_events_def)
  show "after_store (code w ex) = []" if "code w 0 = []" "ex \<in> {1, 2}"
    using s that todo [of 0] todo [of 1] todo [of 2] by auto
  assume asleep: "all_asleep w"
  have stuck: "to_do ?a u = Signal e # cs \<Longrightarrow> False" "to_do ?a u = Wait e # cs \<Longrightarrow> e \<in> was_set ?a \<Longrightarrow> False" for u e cs
    using asleep_is_blocked [OF inv asleep] spec_event_step.Set spec_event_step.Pass by blast+
  have one: "to_do ?a 1 = []" "1 \<in> was_set ?a" using s stuck(1) [of 1] by auto
  have two: "to_do ?a 2 = []" "2 \<in> was_set ?a" using s stuck(1) [of 2] by auto
  have "to_do ?a 0 = []" using s stuck(2) [of 0] one two by auto
  then have "to_do ?a t = []" using s one two by (cases "t = 0"; cases "t = 1"; cases "t = 2") auto
  moreover have "code w t = [] \<or> (\<exists>e cs. code w t = Wait e # cs)" using asleep unfolding all_asleep_def by blast
  ultimately show "code w t = []" using todo [of t] by auto
qed

end
