(* ===== verification/Io_Sequence.thy ===== *)
theory Io_Sequence
  imports Io_Program
begin

text \<open>
  A coroutine that awaits one operation after the other on a socket, as the connections of
  \<open>test/async_io_ut.cpp\<close> do. The service knows only the descriptor, the kind and the operation
  armed last; each operation is a temporary of the coroutine, so that an event may find an
  operation that is gone, or another one at its address. What the coroutine means is much
  simpler: each \<open>co_await\<close> blocks until its operation is complete.
\<close>

section \<open>The coroutine and its descriptor\<close>

text \<open>
  An event comes with the results of the system calls made in its callback: number 0 for the
  call of \<open>work\<close>, the following ones for the operations that begin after it. \<open>addr i\<close> is the
  address of the operation number \<open>i\<close>. \<open>dead_calls\<close> counts calls on an operation that is gone.
\<close>

record 'op turns =
  turn_data :: descriptor_service_data
  waiting :: "'op option"
  later :: "'op list"
  finished :: "'op list"
  dead_calls :: nat

type_synonym 'r turn_event = "u32 \<times> (nat \<Rightarrow> 'r)"

text \<open>The coroutine runs until an operation is armed, or to its end.\<close>

fun begin_turns ::
  "('r \<Rightarrow> 'op \<Rightarrow> 'op \<times> progress) \<Rightarrow> (nat \<Rightarrow> nat) \<Rightarrow> (nat \<Rightarrow> 'r) \<Rightarrow> nat \<Rightarrow> 'op list \<Rightarrow> 'op turns \<Rightarrow> 'op turns" where
  "begin_turns start addr rs i [] s = s\<lparr>waiting := None, later := []\<rparr>"
| "begin_turns start addr rs i (op # ops) s =
     (case start (rs i) op of
        (op', Armed k) \<Rightarrow>
          s\<lparr>turn_data := start_io k (addr (length (finished s))) (turn_data s), waiting := Some op', later := ops\<rparr>
      | (op', p) \<Rightarrow> begin_turns start addr rs (Suc i) ops (s\<lparr>finished := finished s @ [op']\<rparr>))"

definition turn_event ::
  "('r \<Rightarrow> 'op \<Rightarrow> 'op \<times> progress) \<Rightarrow> ('r \<Rightarrow> 'op \<Rightarrow> 'op \<times> progress) \<Rightarrow> (nat \<Rightarrow> nat) \<Rightarrow> 'r turn_event \<Rightarrow> 'op turns \<Rightarrow> 'op turns" where
  "turn_event start work addr ev s =
     (if \<not> ev_reports (fst ev) (turn_data s) then s
      else case ev_notification (fst ev) (turn_data s) of
        Some (Inr n) \<Rightarrow>
          (case waiting s of
             None \<Rightarrow> s\<lparr>dead_calls := dead_calls s + 1\<rparr>
           | Some op \<Rightarrow>
               if n \<noteq> addr (length (finished s)) then s\<lparr>dead_calls := dead_calls s + 1\<rparr>
               else case work (snd ev 0) op of
                 (op', Armed k) \<Rightarrow> s\<lparr>turn_data := start_io k n (turn_data s), waiting := Some op'\<rparr>
               | (op', p) \<Rightarrow> begin_turns start addr (snd ev) 1 (later s) (s\<lparr>finished := finished s @ [op']\<rparr>))
      | _ \<Rightarrow> s)"

definition turns_init :: "int \<Rightarrow> 'op turns" where
  "turns_init fd =
     \<lparr>turn_data = register_descriptor fd, waiting = None, later = [], finished = [], dead_calls = 0\<rparr>"

definition run_turns ::
  "('r \<Rightarrow> 'op \<Rightarrow> 'op \<times> progress) \<Rightarrow> ('r \<Rightarrow> 'op \<Rightarrow> 'op \<times> progress) \<Rightarrow> (nat \<Rightarrow> nat) \<Rightarrow> int
     \<Rightarrow> (nat \<Rightarrow> 'r) \<Rightarrow> 'r turn_event list \<Rightarrow> 'op list \<Rightarrow> 'op turns" where
  "run_turns start work addr fd rs evs ops =
     fold (turn_event start work addr) evs (begin_turns start addr rs 0 ops (turns_init fd))"

section \<open>Blocking\<close>

text \<open>
  The watcher of a descriptor that was once written to goes on to report that it can be written
  to; \<open>writes\<close> remembers this.
\<close>

definition awaited_event :: "bool \<Rightarrow> io_kind \<Rightarrow> u32 \<Rightarrow> bool" where
  "awaited_event writes kind events \<longleftrightarrow>
     events \<noteq> 0 \<and> events AND (if writes then EV_READ OR EV_WRITE else EV_READ) = events \<and>
     events AND io_kind_int kind = io_kind_int kind"

fun block_on ::
  "('r \<Rightarrow> 'op \<Rightarrow> 'op \<times> progress) \<Rightarrow> bool \<Rightarrow> io_kind \<Rightarrow> 'op \<Rightarrow> 'r turn_event list
     \<Rightarrow> ('op \<times> (nat \<Rightarrow> 'r) \<times> 'r turn_event list) option" where
  "block_on work writes kind op [] = None"
| "block_on work writes kind op (ev # evs) =
     (if awaited_event writes kind (fst ev) then
        (case work (snd ev 0) op of
           (op', Armed k) \<Rightarrow> block_on work writes kind op' evs
         | (op', p) \<Rightarrow> Some (op', snd ev, evs))
      else block_on work writes kind op evs)"

text \<open>The operations that complete, each after the one before it.\<close>

fun in_turn ::
  "('r \<Rightarrow> 'op \<Rightarrow> 'op \<times> progress) \<Rightarrow> ('r \<Rightarrow> 'op \<Rightarrow> 'op \<times> progress) \<Rightarrow> bool \<Rightarrow> (nat \<Rightarrow> 'r) \<Rightarrow> nat
     \<Rightarrow> 'op list \<Rightarrow> 'r turn_event list \<Rightarrow> 'op list" where
  "in_turn start work writes rs i [] evs = []"
| "in_turn start work writes rs i (op # ops) evs =
     (case start (rs i) op of
        (op', Armed k) \<Rightarrow>
          (case block_on work (writes \<or> k = Io_Write) k op' evs of
             None \<Rightarrow> []
           | Some (op'', rs', evs') \<Rightarrow> op'' # in_turn start work (writes \<or> k = Io_Write) rs' 1 ops evs')
      | (op', p) \<Rightarrow> op' # in_turn start work writes rs (Suc i) ops evs)"

section \<open>The service implements blocking\<close>

definition watches :: "bool \<Rightarrow> descriptor_service_data \<Rightarrow> bool" where
  "watches writes d \<longleftrightarrow>
     ev_events d = (if writes then EV_READ OR EV_WRITE else EV_READ) \<and> registered_events d = ev_events d"

definition armed_at :: "bool \<Rightarrow> io_kind \<Rightarrow> nat \<Rightarrow> descriptor_service_data \<Rightarrow> bool" where
  "armed_at writes kind n d \<longleftrightarrow>
     watches writes d \<and> ev_active d \<and> current_io d = kind \<and> current_op d = Some n \<and> (kind = Io_Write \<longrightarrow> writes)"

lemma watches_register: "watches False (register_descriptor fd)"
  by (simp add: watches_def register_descriptor_def)

lemma armed_at_start:
  "watches writes d \<Longrightarrow> kind \<noteq> Io_None \<Longrightarrow> armed_at (writes \<or> kind = Io_Write) kind n (start_io kind n d)"
  by (cases kind; cases writes) (simp_all add: armed_at_def watches_def start_io_def Let_def)

lemma armed_at_reacts:
  "armed_at writes kind n d \<Longrightarrow>
     (ev_reports events d \<and> ev_notification events d = Some (Inr n)) = awaited_event writes kind events"
  by (auto simp: armed_at_def watches_def ev_reports_def ev_notification_def awaited_event_def)

lemma armed_at_silent:
  "armed_at writes kind n d \<Longrightarrow> \<not> awaited_event writes kind events \<Longrightarrow> ev_reports events d \<Longrightarrow>
     ev_notification events d = None"
  by (auto simp: armed_at_def watches_def ev_reports_def ev_notification_def awaited_event_def)

lemma finished_stays:
  "waiting s = None \<Longrightarrow> finished (fold (turn_event start work addr) evs s) = finished s"
proof (induction evs arbitrary: s)
  case (Cons ev evs)
  have "waiting (turn_event start work addr ev s) = None \<and>
      finished (turn_event start work addr ev s) = finished s"
    using Cons.prems by (auto simp: turn_event_def split: option.split sum.split)
  then show ?case using Cons.IH by simp
qed simp

definition waits :: "('op \<Rightarrow> io_kind) \<Rightarrow> bool \<Rightarrow> (nat \<Rightarrow> nat) \<Rightarrow> 'op turns \<Rightarrow> 'op \<Rightarrow> bool" where
  "waits kind writes addr s op \<longleftrightarrow>
     waiting s = Some op \<and> armed_at writes (kind op) (addr (length (finished s))) (turn_data s)"

context one_kind_operation
begin

lemma begin_in_turn:
  assumes "\<And>writes s op. waits kind writes addr s op \<Longrightarrow>
      finished (fold (turn_event start work addr) evs s) = finished s @
        (case block_on work writes (kind op) op evs of
           None \<Rightarrow> []
         | Some (op', rs', evs') \<Rightarrow> op' # in_turn start work writes rs' 1 (later s) evs')"
    and "watches writes (turn_data s)"
  shows "finished (fold (turn_event start work addr) evs (begin_turns start addr rs i ops s)) =
    finished s @ in_turn start work writes rs i ops evs"
  using assms(2)
proof (induction ops arbitrary: s i)
  case Nil
  show ?case using finished_stays [of "s\<lparr>waiting := None, later := []\<rparr>"] by simp
next
  case (Cons op ops)
  obtain op' p where b: "start (rs i) op = (op', p)" by (cases "start (rs i) op")
  from start_law [of "rs i" op] b consider "p = Ready" | k where "p = Armed k" by auto
  then show ?case
  proof cases
    case 1
    then show ?thesis using Cons.IH [of "s\<lparr>finished := finished s @ [op']\<rparr>"] Cons.prems b by simp
  next
    case 2
    let ?s = "s\<lparr>turn_data := start_io k (addr (length (finished s))) (turn_data s), waiting := Some op', later := ops\<rparr>"
    have k: "k = kind op'" using start_kind [of "rs i" op op' k] b 2 by simp
    have "waits kind (writes \<or> k = Io_Write) addr ?s op'"
      using armed_at_start [OF Cons.prems kind_law] by (simp add: waits_def k)
    from assms(1) [OF this] show ?thesis using b 2 k by (simp split: option.split prod.split)
  qed
qed

lemma waiting_in_turn:
  assumes "waits kind writes addr s op"
  shows "finished (fold (turn_event start work addr) evs s) = finished s @
    (case block_on work writes (kind op) op evs of
       None \<Rightarrow> []
     | Some (op', rs', evs') \<Rightarrow> op' # in_turn start work writes rs' 1 (later s) evs')"
  using assms
proof (induction evs arbitrary: writes s op)
  case Nil
  then show ?case by simp
next
  case (Cons ev evs)
  have w: "waiting s = Some op" and a: "armed_at writes (kind op) (addr (length (finished s))) (turn_data s)"
    using Cons.prems by (simp_all add: waits_def)
  show ?case
  proof (cases "awaited_event writes (kind op) (fst ev)")
    case False
    then have "turn_event start work addr ev s = s"
      using armed_at_silent [OF a False] by (simp add: turn_event_def)
    then show ?thesis using Cons.IH [OF Cons.prems] False by simp
  next
    case True
    then have r: "ev_reports (fst ev) (turn_data s)"
        "ev_notification (fst ev) (turn_data s) = Some (Inr (addr (length (finished s))))"
      using armed_at_reacts [OF a] by blast+
    obtain op' p where wk: "work (snd ev 0) op = (op', p)" by (cases "work (snd ev 0) op")
    from work_law [of "snd ev 0" op] wk consider "p = Resumed" | k where "p = Armed k" by auto
    then show ?thesis
    proof cases
      case 1
      let ?s = "s\<lparr>finished := finished s @ [op']\<rparr>"
      have "turn_event start work addr ev s = begin_turns start addr (snd ev) 1 (later s) ?s"
        using r w wk 1 by (simp add: turn_event_def)
      moreover have "watches writes (turn_data ?s)" using a by (simp add: armed_at_def)
      ultimately show ?thesis
        using begin_in_turn [OF Cons.IH, of writes ?s "snd ev" 1 "later s"] True wk 1 by simp
    next
      case 2
      let ?s = "s\<lparr>turn_data := start_io k (addr (length (finished s))) (turn_data s), waiting := Some op'\<rparr>"
      have k: "k = kind op" "kind op' = kind op" using work_kind [of "snd ev 0" op op' k] wk 2 by simp_all
      have "armed_at (writes \<or> k = Io_Write) k (addr (length (finished s))) (turn_data ?s)"
        using armed_at_start [of writes "turn_data s" k] a kind_law [of op] k by (simp add: armed_at_def)
      moreover have "(writes \<or> k = Io_Write) = writes" using a k by (auto simp: armed_at_def)
      ultimately have "waits kind writes addr ?s op'" using k by (simp add: waits_def)
      moreover have "turn_event start work addr ev s = ?s"
        using r w wk 2 by (simp add: turn_event_def)
      ultimately show ?thesis using Cons.IH [of writes ?s op'] True wk 2 k
        by (simp split: option.split prod.split)
    qed
  qed
qed

lemma turns_in_order:
  "finished (run_turns start work addr fd rs evs ops) = in_turn start work False rs 0 ops evs"
  using begin_in_turn [OF waiting_in_turn, where s = "turns_init fd" and writes = False]
  by (simp add: run_turns_def turns_init_def watches_register)

end

section \<open>Properties\<close>

text \<open>
  C27: a coroutine on a socket runs as if every \<open>co_await\<close> blocked. Whatever operations it
  awaits one after the other on its descriptor, whatever the calls return, whatever events libev
  reports and wherever the operations live, the operations that complete, with all they hold,
  are those of the blocking reading: no event of one kind completes an operation of the other,
  none is given to an operation that is gone while another one waits, and the watch for writing
  that an earlier operation left behind disturbs nothing.
\<close>

theorem awaits_block_in_turn:
  "finished (run_turns io_begin io_work addr fd ks evs ops) = in_turn io_begin io_work False ks 0 ops evs"
  by (rule sockets_io.turns_in_order)

section \<open>The connections of the test\<close>

text \<open>
  \<open>TEST_CASE("socket connection")\<close> of \<open>test/async_io_ut.cpp\<close>: the server's connection sends its
  greeting and shuts down; the client connects, receives into a buffer of 64 bytes and shuts
  down. Each coroutine is the list of what it awaits on its socket.
\<close>

definition hello_world :: "u8 list" where
  "hello_world = map of_char ''hello, world''"

definition server_connection :: "socket_internal \<Rightarrow> io_op list" where
  "server_connection s = [api_send s hello_world, api_shutdown s]"

definition client_connection :: "socket_internal \<Rightarrow> io_op list" where
  "client_connection s = [api_recv s (replicate 64 0) 64, api_shutdown s]"

definition client_handler :: "socket_internal \<Rightarrow> ip_endpoint \<Rightarrow> io_op list" where
  "client_handler s ep = api_connect s ep # client_connection s"

text \<open>The server's listening socket awaits one connection.\<close>

definition server_handler :: "socket_internal \<Rightarrow> io_op list" where
  "server_handler s = [api_accept s]"

text \<open>
  The client against a server that has accepted: connecting is in progress and completes, the
  greeting arrives in two parts, and then the stream ends.
\<close>

definition connecting :: kernel where
  "connecting = (kernel_of (Failed EAGAIN, []) (Done 0))\<lparr>sys_connect := (\<lambda>_ _ _. Failed EINPROGRESS)\<rparr>"

definition bytes_arrive :: "u8 list \<Rightarrow> kernel" where
  "bytes_arrive bs = kernel_of (Done (length bs), bs) (Done 0)"

definition client_events :: "kernel turn_event list" where
  "client_events =
     [(EV_READ, \<lambda>_. busy), (EV_WRITE, \<lambda>i. if i = 0 then bytes_arrive [] else busy),
      (EV_WRITE, \<lambda>_. busy), (EV_READ, \<lambda>_. bytes_arrive (take 7 hello_world)),
      (EV_READ OR EV_WRITE, \<lambda>_. bytes_arrive (drop 7 hello_world)), (EV_READ, \<lambda>_. bytes_arrive [])]"

definition client_socket :: socket_internal where
  "client_socket = socket_internal_init 0 5 0"

definition client_test :: "ip_endpoint \<Rightarrow> io_op list" where
  "client_test ep =
     finished (run_turns io_begin io_work (\<lambda>_. 0) 5 (\<lambda>_. connecting) client_events (client_handler client_socket ep))"

lemmas client_defs = client_handler_def client_connection_def api_connect_def api_recv_def api_shutdown_def
  client_socket_def socket_internal_init_def client_events_def connecting_def bytes_arrive_def hello_world_def
  kernel_of_def busy_def awaited_event_def io_kind_int_def EV_READ_def EV_WRITE_def EINPROGRESS_def EAGAIN_def
  connect_begin_def connect_work_def connect_call_def socket_connect_def
  recv_begin_def recv_work_def internal_recv_def impl_recv_def socket_recv_operation_def
  shutdown_begin_def shutdown_work_def shutdown_call_def socket_shutdown_def store_bytes_def recv_space_def

text \<open>What the client requires of \<open>received\<close>: its value is the size, and the bytes are the greeting.\<close>

definition client_requires :: "io_op \<Rightarrow> bool" where
  "client_requires op =
     (case op of
        Op_Recv fd r \<Rightarrow>
          (case await_resume (recv_ec r) (xfer_get_return (recv_transferred r)) of
             Inr (Inr n) \<Rightarrow> take n (buffer r) = hello_world
           | _ \<Rightarrow> False)
      | _ \<Rightarrow> False)"

lemma client_test_passes:
  "length (client_test ep) = 3 \<and> client_requires (client_test ep ! 1)"
proof -
  have "client_test ep =
    [Op_Connect client_socket ep 0,
     Op_Recv 5 ((socket_recv_operation (hello_world @ replicate 52 0) 64 True)\<lparr>received := 12, recv_transferred := Some 12\<rparr>),
     Op_Shutdown client_socket 0]"
    unfolding client_test_def sockets_io.turns_in_order
    by (simp add: client_defs wrap_void_def Let_def)
  then show ?thesis
    by (simp add: client_requires_def await_resume_def xfer_get_return_def hello_world_def socket_recv_operation_def)
qed

end
