(* ===== verification/Strong_Type.thy ===== *)
theory Strong_Type
  imports Ptl_Prelude "HOL-Library.Signed_Division"
begin

text \<open>
  \<open>type_safe/strong_type.hpp\<close>: a value of an underlying type under a name of its own, with the
  operators of the interfaces it is given. The header names \<open>strong_type\<close> and \<open>self_ref_tpe\<close>, which
  do not exist, and cannot be compiled; the model reads them as \<open>StrongType\<close> and \<open>self_ref_type\<close>.
\<close>

section \<open>The type\<close>

text \<open>The tag keeps types apart whose values are the same; there is no operator between two tags.\<close>

datatype ('u, 'tag) strong_type = StrongType (get: 'u)

definition strong_default :: "'u \<Rightarrow> ('u, 'tag) strong_type" where
  "strong_default zero = StrongType zero"

definition strong_value :: "('u, 'tag) strong_type \<Rightarrow> 'u" where
  "strong_value a = get a"

definition strong_assign :: "'u \<Rightarrow> ('u, 'tag) strong_type \<Rightarrow> ('u, 'tag) strong_type" where
  "strong_assign v a = StrongType v"

text \<open>
  The operators of the underlying type are a parameter: they may be undefined (a signed
  overflow, a division by zero), and a comparison need not be an order (NaN).
\<close>

record 'u underlying =
  u_add :: "'u \<Rightarrow> 'u \<Rightarrow> 'u res"
  u_sub :: "'u \<Rightarrow> 'u \<Rightarrow> 'u res"
  u_mul :: "'u \<Rightarrow> 'u \<Rightarrow> 'u res"
  u_div :: "'u \<Rightarrow> 'u \<Rightarrow> 'u res"
  u_mod :: "'u \<Rightarrow> 'u \<Rightarrow> 'u res"
  u_neg :: "'u \<Rightarrow> 'u res"
  u_and :: "'u \<Rightarrow> 'u \<Rightarrow> 'u"
  u_or :: "'u \<Rightarrow> 'u \<Rightarrow> 'u"
  u_xor :: "'u \<Rightarrow> 'u \<Rightarrow> 'u"
  u_eq :: "'u \<Rightarrow> 'u \<Rightarrow> bool"
  u_gt :: "'u \<Rightarrow> 'u \<Rightarrow> bool"
  u_lt :: "'u \<Rightarrow> 'u \<Rightarrow> bool"

definition lift2 :: "('u \<Rightarrow> 'u \<Rightarrow> 'u res) \<Rightarrow> ('u, 'tag) strong_type \<Rightarrow> ('u, 'tag) strong_type \<Rightarrow> ('u, 'tag) strong_type res" where
  "lift2 f a b = res_bind (f (get a) (get b)) (\<lambda>v. Inr (StrongType v))"

text \<open>\<open>Addable\<close>, \<open>Multiplicable\<close>, \<open>Negatable\<close>, \<open>Binopable\<close>.\<close>

definition strong_add where "strong_add U a b = lift2 (u_add U) a b"
definition strong_sub where "strong_sub U a b = lift2 (u_sub U) a b"
definition strong_mul where "strong_mul U a b = lift2 (u_mul U) a b"
definition strong_div where "strong_div U a b = lift2 (u_div U) a b"
definition strong_mod where "strong_mod U a b = lift2 (u_mod U) a b"

definition strong_neg :: "'u underlying \<Rightarrow> ('u, 'tag) strong_type \<Rightarrow> ('u, 'tag) strong_type res" where
  "strong_neg U a = res_bind (u_neg U (get a)) (\<lambda>v. Inr (StrongType v))"

definition strong_and :: "'u underlying \<Rightarrow> ('u, 'tag) strong_type \<Rightarrow> ('u, 'tag) strong_type \<Rightarrow> ('u, 'tag) strong_type" where
  "strong_and U a b = StrongType (u_and U (get a) (get b))"

definition strong_or :: "'u underlying \<Rightarrow> ('u, 'tag) strong_type \<Rightarrow> ('u, 'tag) strong_type \<Rightarrow> ('u, 'tag) strong_type" where
  "strong_or U a b = StrongType (u_or U (get a) (get b))"

definition strong_xor :: "'u underlying \<Rightarrow> ('u, 'tag) strong_type \<Rightarrow> ('u, 'tag) strong_type \<Rightarrow> ('u, 'tag) strong_type" where
  "strong_xor U a b = StrongType (u_xor U (get a) (get b))"

text \<open>\<open>EqualityComparable\<close> and \<open>Comparable\<close>: the other three operators are negations.\<close>

definition strong_eq :: "'u underlying \<Rightarrow> ('u, 'tag) strong_type \<Rightarrow> ('u, 'tag) strong_type \<Rightarrow> bool" where
  "strong_eq U a b = u_eq U (get a) (get b)"

definition strong_neq :: "'u underlying \<Rightarrow> ('u, 'tag) strong_type \<Rightarrow> ('u, 'tag) strong_type \<Rightarrow> bool" where
  "strong_neq U a b = (\<not> strong_eq U a b)"

definition strong_gt :: "'u underlying \<Rightarrow> ('u, 'tag) strong_type \<Rightarrow> ('u, 'tag) strong_type \<Rightarrow> bool" where
  "strong_gt U a b = u_gt U (get a) (get b)"

definition strong_lt :: "'u underlying \<Rightarrow> ('u, 'tag) strong_type \<Rightarrow> ('u, 'tag) strong_type \<Rightarrow> bool" where
  "strong_lt U a b = u_lt U (get a) (get b)"

definition strong_le :: "'u underlying \<Rightarrow> ('u, 'tag) strong_type \<Rightarrow> ('u, 'tag) strong_type \<Rightarrow> bool" where
  "strong_le U a b = (\<not> strong_gt U a b)"

definition strong_ge :: "'u underlying \<Rightarrow> ('u, 'tag) strong_type \<Rightarrow> ('u, 'tag) strong_type \<Rightarrow> bool" where
  "strong_ge U a b = (\<not> strong_lt U a b)"

section \<open>Underlying integers\<close>

text \<open>Unsigned and signed integers at least as wide as \<open>int\<close>, so that nothing is promoted.\<close>

definition in_range :: "'a::len word itself \<Rightarrow> int \<Rightarrow> bool" where
  "in_range T x \<longleftrightarrow> - (2 ^ (LENGTH('a) - 1)) \<le> x \<and> x < 2 ^ (LENGTH('a) - 1)"

definition exact :: "int \<Rightarrow> 'a::len word res" where
  "exact x = (if in_range TYPE('a word) x then Inr (word_of_int x) else Inl Undefined_Behaviour)"

definition unsigned_ops :: "'a::len word underlying" where
  "unsigned_ops =
     \<lparr>u_add = (\<lambda>x y. Inr (x + y)), u_sub = (\<lambda>x y. Inr (x - y)), u_mul = (\<lambda>x y. Inr (x * y)),
      u_div = (\<lambda>x y. if y = 0 then Inl Undefined_Behaviour else Inr (x div y)),
      u_mod = (\<lambda>x y. if y = 0 then Inl Undefined_Behaviour else Inr (x mod y)),
      u_neg = (\<lambda>x. Inr (- x)), u_and = (AND), u_or = (OR), u_xor = (XOR),
      u_eq = (=), u_gt = (\<lambda>x y. y < x), u_lt = (<)\<rparr>"

definition signed_ops :: "'a::len word underlying" where
  "signed_ops =
     \<lparr>u_add = (\<lambda>x y. exact (sint x + sint y)), u_sub = (\<lambda>x y. exact (sint x - sint y)),
      u_mul = (\<lambda>x y. exact (sint x * sint y)),
      u_div = (\<lambda>x y. if y = 0 then Inl Undefined_Behaviour else exact (sint x sdiv sint y)),
      u_mod = (\<lambda>x y. if y = 0 \<or> \<not> in_range TYPE('a word) (sint x sdiv sint y) then Inl Undefined_Behaviour
                else exact (sint x smod sint y)),
      u_neg = (\<lambda>x. exact (- sint x)), u_and = (AND), u_or = (OR), u_xor = (XOR),
      u_eq = (=), u_gt = (\<lambda>x y. sint y < sint x), u_lt = (\<lambda>x y. sint x < sint y)\<rparr>"

lemma sint_exact: "exact x = Inr w \<Longrightarrow> sint w = x"
  by (auto simp: exact_def in_range_def sint_sbintrunc' signed_take_bit_int_eq_self split: if_splits)

lemma in_range_sint: "in_range TYPE('a::len word) (sint (w :: 'a word))"
  using sint_ge [of w] sint_lt [of w] by (simp add: in_range_def)

section \<open>What the operators give\<close>

text \<open>
  Over unsigned integers, subtraction takes back addition, and division with remainder gives the
  dividend again, exactly when the divisor is not zero.
\<close>

theorem strong_unsigned_laws:
  fixes a b :: "('w::len word, 'tag) strong_type"
  shows "res_bind (strong_add unsigned_ops a b) (\<lambda>c. strong_sub unsigned_ops c b) = Inr a"
    and "res_bind (strong_div unsigned_ops a b) (\<lambda>q. res_bind (strong_mul unsigned_ops q b) (\<lambda>p.
      res_bind (strong_mod unsigned_ops a b) (strong_add unsigned_ops p))) =
      (if get b = 0 then Inl Undefined_Behaviour else Inr a)"
  using div_mult_mod_eq [of "get a" "get b"]
  by (simp_all add: strong_add_def strong_sub_def strong_div_def strong_mul_def strong_mod_def lift2_def
      unsigned_ops_def strong_type.expand)

text \<open>Over signed integers, an operator that has a value has the exact one, and otherwise it is out of range.\<close>

theorem strong_signed_exact:
  fixes a b :: "('w::len word, 'tag) strong_type"
  defines "v \<equiv> \<lambda>s :: ('w word, 'tag) strong_type. sint (get s)"
  shows "(case strong_add signed_ops a b of Inr c \<Rightarrow> v c = v a + v b | Inl _ \<Rightarrow> \<not> in_range TYPE('w word) (v a + v b))"
    and "(case strong_sub signed_ops a b of Inr c \<Rightarrow> v c = v a - v b | Inl _ \<Rightarrow> \<not> in_range TYPE('w word) (v a - v b))"
    and "(case strong_mul signed_ops a b of Inr c \<Rightarrow> v c = v a * v b | Inl _ \<Rightarrow> \<not> in_range TYPE('w word) (v a * v b))"
    and "(case strong_neg signed_ops a of Inr c \<Rightarrow> v c = - v a | Inl _ \<Rightarrow> v a = - (2 ^ (LENGTH('w) - 1)))"
proof -
  have e: "(case res_bind (exact x) (\<lambda>w. Inr (StrongType w)) of Inr c \<Rightarrow> v c = x | Inl _ \<Rightarrow> \<not> in_range TYPE('w word) x)"
    for x using sint_exact [of x "word_of_int x :: 'w word"] by (cases "exact x :: 'w word res") (auto simp: v_def exact_def split: if_splits)
  show "(case strong_add signed_ops a b of Inr c \<Rightarrow> v c = v a + v b | Inl _ \<Rightarrow> \<not> in_range TYPE('w word) (v a + v b))"
    and "(case strong_sub signed_ops a b of Inr c \<Rightarrow> v c = v a - v b | Inl _ \<Rightarrow> \<not> in_range TYPE('w word) (v a - v b))"
    and "(case strong_mul signed_ops a b of Inr c \<Rightarrow> v c = v a * v b | Inl _ \<Rightarrow> \<not> in_range TYPE('w word) (v a * v b))"
    using e [of "v a + v b"] e [of "v a - v b"] e [of "v a * v b"]
    by (simp_all add: strong_add_def strong_sub_def strong_mul_def lift2_def signed_ops_def v_def)
  have "\<not> in_range TYPE('w word) (- v a) \<Longrightarrow> v a = - (2 ^ (LENGTH('w) - 1))"
    using in_range_sint [of "get a"] by (auto simp: in_range_def v_def)
  then show "(case strong_neg signed_ops a of Inr c \<Rightarrow> v c = - v a | Inl _ \<Rightarrow> v a = - (2 ^ (LENGTH('w) - 1)))"
    using e [of "- v a"] by (auto simp: strong_neg_def signed_ops_def v_def split: sum.splits)
qed

text \<open>
  If the comparisons of the underlying type are those of a total order, then so are the six
  operators; in particular, strong types over unsigned integers are a linear order.
\<close>

lemma strong_comparisons:
  fixes le :: "'u \<Rightarrow> 'u \<Rightarrow> bool" and a b :: "('u, 'tag) strong_type"
  assumes "\<And>x y. le x y \<or> le y x" and "\<And>x y. le x y \<Longrightarrow> le y x \<Longrightarrow> x = y"
    and "u_lt U = (\<lambda>x y. le x y \<and> x \<noteq> y)" and "u_gt U = (\<lambda>x y. le y x \<and> x \<noteq> y)"
  shows "strong_le U a b \<longleftrightarrow> le (get a) (get b)" and "strong_ge U a b \<longleftrightarrow> le (get b) (get a)"
    and "strong_lt U a b \<longleftrightarrow> strong_le U a b \<and> \<not> strong_le U b a"
    and "strong_gt U a b \<longleftrightarrow> strong_lt U b a"
  using assms(1,2) unfolding strong_le_def strong_ge_def strong_gt_def strong_lt_def assms(3,4) by metis+

instantiation strong_type :: (linorder, type) linorder
begin

definition less_strong_type :: "('a, 'b) strong_type \<Rightarrow> ('a, 'b) strong_type \<Rightarrow> bool" where
  "less_strong_type a b \<longleftrightarrow> get a < get b"

definition less_eq_strong_type :: "('a, 'b) strong_type \<Rightarrow> ('a, 'b) strong_type \<Rightarrow> bool" where
  "less_eq_strong_type a b \<longleftrightarrow> get a \<le> get b"

instance
  by standard (auto simp: less_strong_type_def less_eq_strong_type_def strong_type.expand)

end

lemma strong_unsigned_order:
  "strong_lt unsigned_ops a b \<longleftrightarrow> a < b" "strong_gt unsigned_ops a b \<longleftrightarrow> b < a"
  "strong_le unsigned_ops a b \<longleftrightarrow> a \<le> b" "strong_ge unsigned_ops a b \<longleftrightarrow> b \<le> a"
  "strong_eq unsigned_ops a b \<longleftrightarrow> a = b" "strong_neq unsigned_ops a b \<longleftrightarrow> a \<noteq> b"
  by (simp_all add: strong_lt_def strong_gt_def strong_le_def strong_ge_def strong_eq_def strong_neq_def
      unsigned_ops_def less_strong_type_def less_eq_strong_type_def not_less strong_type.expand)
    (auto intro: strong_type.expand)

text \<open>
  For values that are not comparable, as NaN and any number, both \<open><=\<close> and \<open>>=\<close> hold, where the
  operators of the underlying type say that neither does.
\<close>

lemma incomparable_values_are_le_and_ge:
  "\<not> u_gt U x y \<Longrightarrow> \<not> u_lt U x y \<Longrightarrow> \<not> u_eq U x y \<Longrightarrow>
     strong_le U (StrongType x) (StrongType y) \<and> strong_ge U (StrongType x) (StrongType y) \<and>
     strong_neq U (StrongType x) (StrongType y)"
  by (simp add: strong_le_def strong_ge_def strong_gt_def strong_lt_def strong_neq_def strong_eq_def)

end
