(* ===== verification/Thread_Pool.thy ===== *)
theory Thread_Pool
  imports Mpmc_Queue
begin

text \<open>
  \<open>scheduling/thread_pool.hpp\<close>, as far as it goes: a thread with a queue of coroutines, from which
  it or a thief runs one. The pool is empty, the loop of a thread has no body, the flag that
  would end it is never initialised, and \<open>dispatch_queue\<close> has no way to put a coroutine in.
\<close>

section \<open>The queue of a thread\<close>

text \<open>
  A call of \<open>try_pop\<close> by the thread \<open>p\<close> while the others stand still, step by step to its end; six
  steps are enough. A coroutine is a number.
\<close>

fun finish_call :: "nat \<Rightarrow> nat \<Rightarrow> 'a queue \<Rightarrow> 'a queue" where
  "finish_call 0 p q = q"
| "finish_call (Suc k) p q =
     (case pc q p of Idle r \<Rightarrow> q | _ \<Rightarrow> finish_call k p (thread_step p Try_Pop q))"

definition dispatch_queue :: "nat \<Rightarrow> nat queue" where
  "dispatch_queue capacity = queue_init capacity"

definition dispatch_get :: "nat \<Rightarrow> nat queue \<Rightarrow> nat option \<times> nat queue" where
  "dispatch_get p q =
     (let q = finish_call 6 p (thread_step p Try_Pop q)
      in (if pc q p = Idle (Some True) then Some (snd (last (out_log q))) else None, q))"

text \<open>\<open>finished\<close> is \<open>None\<close> while it has not been initialised.\<close>

record pool_thread =
  finished :: "bool option"
  jobs :: "nat queue"

definition pool_thread_init :: pool_thread where
  "pool_thread_init = \<lparr>finished = None, jobs = dispatch_queue 25\<rparr>"

text \<open>\<open>execute_one\<close> gives what it resumes, what it returns, and the thread afterwards.\<close>

definition execute_one :: "nat \<Rightarrow> pool_thread \<Rightarrow> nat option \<times> bool \<times> pool_thread" where
  "execute_one p th =
     (case dispatch_get p (jobs th) of
        (Some coroutine, q) \<Rightarrow> (Some coroutine, True, th\<lparr>jobs := q\<rparr>)
      | (None, q) \<Rightarrow> (None, False, th\<lparr>jobs := q\<rparr>))"

definition steal_one :: "nat \<Rightarrow> pool_thread \<Rightarrow> nat option \<times> bool \<times> pool_thread" where
  "steal_one p other = execute_one p other"

text \<open>The loop: \<open>None\<close> is the loop that never ends.\<close>

definition execution :: "pool_thread \<Rightarrow> unit res option" where
  "execution th =
     (case finished th of
        None \<Rightarrow> Some (Inl Undefined_Behaviour)
      | Some True \<Rightarrow> Some (Inr ())
      | Some False \<Rightarrow> None)"

section \<open>Properties\<close>

lemma same_places_of_slots:
  assumes "slots q' = slots q"
  shows "slot_of q' t = slot_of q t" "release_turn q' t = release_turn q t" "idx q' t = idx q t"
  using assms by (simp_all add: slot_of_def release_turn_def turn_def idx_def size_of_def)

lemma thread_step_at:
  "pc q p = Idle r \<Longrightarrow> thread_step p Try_Pop q = goto p (Try_Check (tail q)) q"
  "pc q p = Try_Check t \<Longrightarrow> thread_step p Try_Pop q =
     (if release_turn q t = sequence (slot_of q t) then goto p (Try_Cas t) q
      else goto p (Try_Reload t (tail q = t \<and> unat t \<notin> set (published q))) q)"
  "pc q p = Try_Cas t \<Longrightarrow> tail q = t \<Longrightarrow>
     thread_step p Try_Pop q = goto p (Take_Move t (Some True)) (q\<lparr>tail := t + 1\<rparr>)"
  "pc q p = Try_Reload t b \<Longrightarrow> tail q = t \<Longrightarrow> thread_step p Try_Pop q = goto p (Idle (Some False)) q"
  "pc q p = Take_Move t s \<Longrightarrow> thread_step p Try_Pop q = goto p (Take_Destruct t s) (move_out t q)"
  "pc q p = Take_Destruct t s \<Longrightarrow> thread_step p Try_Pop q = goto p (Take_Store t s) (destruct t q)"
  "pc q p = Take_Store t s \<Longrightarrow>
     thread_step p Try_Pop q =
       goto p (Idle s) ((store_sequence t (release_turn q t + 1) q)\<lparr>released := unat t # released q\<rparr>)"
  by (simp_all add: thread_step_def start_call_def try_pop_step_def pop_step_def)

lemma finish_idle: "pc q p = Idle r \<Longrightarrow> finish_call k p q = q"
  by (cases k) simp_all

lemma get_nothing:
  assumes "pc q p = Idle r" and "release_turn q (tail q) \<noteq> sequence (slot_of q (tail q))"
  shows "dispatch_get p q = (None, goto p (Idle (Some False)) q)"
proof -
  let ?t = "tail q"
  let ?a = "goto p (Try_Check ?t) q"
  let ?b = "goto p (Try_Reload ?t (unat ?t \<notin> set (published q))) ?a"
  have "thread_step p Try_Pop q = ?a" by (rule thread_step_at(1) [OF assms(1)])
  moreover have "thread_step p Try_Pop ?a = ?b"
    using thread_step_at(2) [of ?a p ?t] assms(2) same_places_of_slots [of ?a q] by simp
  moreover have "thread_step p Try_Pop ?b = goto p (Idle (Some False)) ?b"
    by (rule thread_step_at(4) [where t = ?t]) simp_all
  moreover have "goto p (Idle (Some False)) ?b = goto p (Idle (Some False)) q" by (simp add: goto_def)
  ultimately show ?thesis by (simp add: dispatch_get_def eval_nat_numeral finish_idle)
qed

lemma get_something:
  assumes "pc q p = Idle r" and "release_turn q (tail q) = sequence (slot_of q (tail q))"
    and "data (slot_of q (tail q)) = Some v"
  shows "\<exists>q'. dispatch_get p q = (Some v, q') \<and> tail q' = tail q + 1 \<and> in_log q' = in_log q \<and>
    out_log q' = out_log q @ [(unat (tail q), v)] \<and> pc q' = (pc q)(p := Idle (Some True))"
proof -
  let ?t = "tail q"
  let ?a = "goto p (Try_Check ?t) q"
  let ?b = "goto p (Try_Cas ?t) ?a"
  let ?c = "goto p (Take_Move ?t (Some True)) (?b\<lparr>tail := ?t + 1\<rparr>)"
  let ?d = "goto p (Take_Destruct ?t (Some True)) (move_out ?t ?c)"
  let ?e = "goto p (Take_Store ?t (Some True)) (destruct ?t ?d)"
  let ?f = "goto p (Idle (Some True))
    ((store_sequence ?t (release_turn ?e ?t + 1) ?e)\<lparr>released := unat ?t # released ?e\<rparr>)"
  have "thread_step p Try_Pop q = ?a" by (rule thread_step_at(1) [OF assms(1)])
  moreover have "thread_step p Try_Pop ?a = ?b"
    using thread_step_at(2) [of ?a p ?t] assms(2) same_places_of_slots [of ?a q] by simp
  moreover have "thread_step p Try_Pop ?b = ?c" by (rule thread_step_at(3)) simp_all
  moreover have "thread_step p Try_Pop ?c = ?d" by (rule thread_step_at(5)) simp
  moreover have m: "move_out ?t ?c = ?c\<lparr>out_log := out_log q @ [(unat ?t, v)]\<rparr>"
    using assms(3) same_places_of_slots [of ?c q] by (simp add: move_out_def)
  moreover have "thread_step p Try_Pop ?d = ?e" by (rule thread_step_at(6)) simp
  moreover have "thread_step p Try_Pop ?e = ?f" by (rule thread_step_at(7)) simp
  ultimately have get: "dispatch_get p q = (Some (snd (last (out_log ?f))), ?f)"
    by (simp add: dispatch_get_def eval_nat_numeral finish_idle)
  have f: "out_log ?f = out_log q @ [(unat ?t, v)]" "tail ?f = ?t + 1" "in_log ?f = in_log q"
    "pc ?f = (pc q)(p := Idle (Some True))"
    using m by (simp_all add: store_sequence_def destruct_def goto_def)
  show ?thesis
    unfolding get by (rule exI [of _ ?f], intro conjI) (simp_all only: f last_snoc snd_conv)
qed

text \<open>
  Executing or stealing one job, while no other thread is at work on the queue. Whatever has
  happened on the queue before, either the oldest coroutine that has not been taken is there:
  then exactly it is resumed, once, and the call returns true; or it returns false and nothing
  is taken.
\<close>

theorem execute_one_takes_oldest:
  assumes "length sched < 2 ^ 63" and "jobs th = run sched (dispatch_queue 25)"
    and "\<forall>p. \<exists>r. pc (jobs th) p = Idle r"
  shows "(case execute_one p th of
      (Some coroutine, b, th') \<Rightarrow> b \<and> unat (tail (jobs th)) < length (in_log (jobs th)) \<and>
        coroutine = in_log (jobs th) ! unat (tail (jobs th)) \<and> tail (jobs th') = tail (jobs th) + 1
    | (None, b, th') \<Rightarrow> \<not> b \<and> tail (jobs th') = tail (jobs th) \<and> out_log (jobs th') = out_log (jobs th))"
proof -
  let ?q = "jobs th"
  have inv: "queue_inv ?q" using inv_from_init [of 25 sched] assms(1,2) by (simp add: dispatch_queue_def)
  then have fits: "fits ?q" and st: "storage ?q" and len: "length (in_log ?q) = unat (head ?q)"
    by (simp_all add: queue_inv_def)
  have t: "unat (tail ?q) < 2 ^ 63" using fits by (simp add: fits_def)
  obtain r where r: "pc ?q p = Idle r" using assms(3) by blast
  show ?thesis
  proof (cases "release_turn ?q (tail ?q) = sequence (slot_of ?q (tail ?q))")
    case True
    then have at: "at_take ?q (unat (tail ?q))" using release_check [OF fits t] by simp
    have "clear_ticket (pc ?q p') = None" for p'
    proof -
      obtain r' where "pc ?q p' = Idle r'" using assms(3) by blast
      then show ?thesis by simp
    qed
    then have "held clear_ticket (pc ?q) = {}" by (simp add: held_def)
    then have "dt ?q (pos ?q (unat (tail ?q))) = Some (in_log ?q ! unat (tail ?q))"
      using st at by (simp add: storage_def)
    then have "data (slot_of ?q (tail ?q)) = Some (in_log ?q ! unat (tail ?q))"
      using data_slot_of [OF fits] by simp
    from get_something [OF r True this] show ?thesis
      using inv_bounds(3) [OF inv at] len by (auto simp: execute_one_def)
  next
    case False
    then show ?thesis using get_nothing [OF r False] by (simp add: execute_one_def)
  qed
qed

text \<open>A new thread has nothing to run, and nothing can be given to it; running it is undefined.\<close>

lemma new_thread_is_idle:
  "fst (execute_one p pool_thread_init) = None \<and> fst (steal_one p pool_thread_init) = None \<and>
   execution pool_thread_init = Some (Inl Undefined_Behaviour)"
proof -
  let ?q = "dispatch_queue 25"
  have "release_turn ?q (tail ?q) \<noteq> sequence (slot_of ?q (tail ?q))"
    by (simp add: dispatch_queue_def queue_init_def release_turn_def turn_def size_of_def slot_of_def idx_def)
  moreover have "pc ?q p = Idle None" by (simp add: dispatch_queue_def queue_init_def)
  ultimately have "dispatch_get p ?q = (None, goto p (Idle (Some False)) ?q)" by (rule get_nothing [rotated])
  then show ?thesis by (simp add: execute_one_def steal_one_def execution_def pool_thread_init_def)
qed

end
