(* ===== verification/File_Operations.thy ===== *)
theory File_Operations
  imports Socket Io_Operations
begin

text \<open>
  \<open>asio/file.hpp\<close>, \<open>asio/file_read_operation.hpp\<close>, \<open>asio/file_write_operation.hpp\<close> and
  \<open>asio/socket_listen_operation.hpp\<close>. They are written against an earlier interface of the event
  service (\<open>ptl/asio/...\<close>, calls that return an \<open>int\<close> and set \<open>errno\<close>) and nothing includes them.
  The model reads the base classes as those of \<open>io_operation.hpp\<close>, \<open>socket_\<close> in the file operations
  as \<open>file_\<close> where only one of the two is declared, and \<open>fil_write_operation file::send\<close> as the
  definition of \<open>file::write\<close>.
\<close>

section \<open>Files\<close>

text \<open>
  \<open>data_\<close> is a plain pointer to the registration. The constructor that takes another file does not
  initialise it.
\<close>

record file_internal =
  file_descriptor :: int
  file_data :: "nat option res"
  file_local :: ip_endpoint
  file_remote :: ip_endpoint

definition file_internal_init :: "int \<Rightarrow> nat \<Rightarrow> file_internal" where
  "file_internal_init d reg =
     \<lparr>file_descriptor = d, file_data = Inr (Some reg), file_local = endpoint_default,
      file_remote = endpoint_default\<rparr>"

definition file_internal_of :: "int \<Rightarrow> file_internal" where
  "file_internal_of d =
     \<lparr>file_descriptor = d, file_data = Inl Undefined_Behaviour, file_local = endpoint_default,
      file_remote = endpoint_default\<rparr>"

definition file_internal_create :: "int \<Rightarrow> file_internal" where
  "file_internal_create d = file_internal_of d"

definition file_move :: "file_internal \<Rightarrow> file_internal \<times> file_internal" where
  "file_move ob =
     (\<lparr>file_descriptor = file_descriptor ob, file_data = file_data ob, file_local = endpoint_default,
       file_remote = endpoint_default\<rparr>,
      ob\<lparr>file_descriptor := 0, file_data := Inr None\<rparr>)"

text \<open>Moving a pointer copies it, and the assignment does nothing else.\<close>

definition file_assign :: "file_internal \<Rightarrow> file_internal \<Rightarrow> file_internal \<times> file_internal" where
  "file_assign this ob = (this\<lparr>file_data := file_data ob\<rparr>, ob)"

definition file_destroy :: "file_internal \<Rightarrow> resource list res" where
  "file_destroy f =
     res_bind (file_data f) (\<lambda>data. Inr
       ((case data of None \<Rightarrow> [] | Some reg \<Rightarrow> [Registration reg]) @
        (if file_descriptor f \<noteq> 0 then [Descriptor (file_descriptor f)] else [])))"

text \<open>\<open>start_io\<close> dereferences \<open>data_\<close>; what the service is asked to do.\<close>

definition file_start_io :: "io_kind \<Rightarrow> nat \<Rightarrow> file_internal \<Rightarrow> (nat \<times> io_kind \<times> nat) res" where
  "file_start_io kind op f =
     res_bind (file_data f) (\<lambda>data. case data of None \<Rightarrow> Inl Bad_Access | Some reg \<Rightarrow> Inr (reg, kind, op))"

section \<open>Reading and writing\<close>

record read_operation =
  read_buffer :: "u8 list"
  read_size :: nat
  read_received :: nat
  read_all :: bool
  read_ec :: nat
  read_transferred :: "nat option"

definition file_read_operation :: "u8 list \<Rightarrow> nat \<Rightarrow> bool \<Rightarrow> read_operation" where
  "file_read_operation mem sz all =
     \<lparr>read_buffer = mem, read_size = sz, read_received = 0, read_all = all, read_ec = 0,
      read_transferred = None\<rparr>"

definition file_read :: "u8 list \<Rightarrow> nat \<Rightarrow> read_operation" where
  "file_read mem sz = file_read_operation mem sz True"

definition file_read_begin ::
  "recv_call \<Rightarrow> read_operation \<Rightarrow> (read_operation \<times> progress) res" where
  "file_read_begin call op =
     (case call (of_nat (read_size op)) of
        Recv_Failed e \<Rightarrow>
          if e = EAGAIN \<or> e = EWOULDBLOCK then Inr (op, Armed Io_Read) else Inl Assert_Failed
      | Recv_Bytes bs \<Rightarrow>
          (let op = op\<lparr>read_buffer := store_bytes 0 bs (read_buffer op), read_received := length bs\<rparr>
           in if read_all op \<and> read_received op < read_size op then Inr (op, Armed Io_Read)
              else Inr (op, Ready)))"

text \<open>The space \<open>work\<close> passes: \<open>size_ - received_\<close> as a \<open>size_t\<close>.\<close>

definition read_space :: "read_operation \<Rightarrow> u64" where
  "read_space op = of_nat (read_size op) - of_nat (read_received op)"

definition file_read_work ::
  "recv_call \<Rightarrow> read_operation \<Rightarrow> (read_operation \<times> progress) res" where
  "file_read_work call op =
     (case call (read_space op) of
        Recv_Failed e \<Rightarrow> Inl Assert_Failed
      | Recv_Bytes bs \<Rightarrow>
          (let op = op\<lparr>read_buffer := store_bytes (read_received op) bs (read_buffer op),
                       read_received := read_received op + length bs\<rparr>
           in if read_all op \<and> read_received op < read_size op then Inr (op, Armed Io_Read)
              else Inr (op\<lparr>read_transferred := Some (read_received op), read_ec := 0\<rparr>, Resumed)))"

record write_operation =
  write_size :: nat
  write_sent :: nat
  write_ec :: nat
  write_transferred :: "nat option"

definition file_write_operation :: "nat \<Rightarrow> write_operation" where
  "file_write_operation sz = \<lparr>write_size = sz, write_sent = 0, write_ec = 0, write_transferred = None\<rparr>"

definition file_write :: "nat \<Rightarrow> write_operation" where
  "file_write sz = file_write_operation sz"

definition file_write_begin ::
  "sys \<Rightarrow> write_operation \<Rightarrow> (write_operation \<times> progress) res" where
  "file_write_begin r op =
     (case r of
        Failed e \<Rightarrow>
          if e = EAGAIN \<or> e = EWOULDBLOCK then Inr (op, Armed Io_Write) else Inl Assert_Failed
      | Done n \<Rightarrow> Inr (op, Ready))"

definition file_write_work ::
  "sys \<Rightarrow> write_operation \<Rightarrow> (write_operation \<times> progress) res" where
  "file_write_work r op =
     (if r = Done (write_size op)
      then Inr (op\<lparr>write_sent := write_size op, write_transferred := Some (write_size op), write_ec := 0\<rparr>, Resumed)
      else Inl Assert_Failed)"

text \<open>The life of an operation that may abort, as \<open>await_operation\<close> of \<open>Io_Operations\<close>.\<close>

fun notified_or_abort ::
  "('r \<Rightarrow> 'op \<Rightarrow> ('op \<times> progress) res) \<Rightarrow> 'r list \<Rightarrow> 'op \<Rightarrow> ('op \<times> progress list) res" where
  "notified_or_abort work [] op = Inr (op, [])"
| "notified_or_abort work (r # rs) op =
     res_bind (work r op) (\<lambda>(op', p). case p of
       Armed k \<Rightarrow> res_bind (notified_or_abort work rs op') (\<lambda>(op'', ps). Inr (op'', p # ps))
     | _ \<Rightarrow> Inr (op', [p]))"

definition await_or_abort ::
  "('r \<Rightarrow> 'op \<Rightarrow> ('op \<times> progress) res) \<Rightarrow> ('r \<Rightarrow> 'op \<Rightarrow> ('op \<times> progress) res) \<Rightarrow> 'r \<Rightarrow> 'r list \<Rightarrow> 'op
     \<Rightarrow> ('op \<times> progress list) res" where
  "await_or_abort start work r rs op =
     res_bind (start r op) (\<lambda>(op', p). case p of
       Armed k \<Rightarrow> res_bind (notified_or_abort work rs op') (\<lambda>(op'', ps). Inr (op'', p # ps))
     | _ \<Rightarrow> Inr (op', [p]))"

section \<open>Listening\<close>

text \<open>
  Each of \<open>begin\<close> and \<open>work\<close> makes up to two calls, whose results are its input: \<open>listen\<close> or
  \<open>accept\<close> (the descriptor it gives is not kept) and \<open>get_local\<close>.
\<close>

record listen_operation =
  have_listened :: bool
  listen_ec :: nat

definition socket_listen_operation :: listen_operation where
  "socket_listen_operation = \<lparr>have_listened = False, listen_ec = 0\<rparr>"

definition must_wait :: "nat \<Rightarrow> bool" where
  "must_wait e \<longleftrightarrow> e = EINPROGRESS \<or> e = EAGAIN"

definition listen_begin ::
  "(nat + nat) \<times> (nat + unit) \<Rightarrow> listen_operation \<Rightarrow> listen_operation \<times> progress" where
  "listen_begin r op =
     (case fst r of
        Inl e \<Rightarrow> if must_wait e then (op, Armed Io_Read) else (op\<lparr>listen_ec := e\<rparr>, Ready)
      | Inr _ \<Rightarrow>
          (let op = op\<lparr>have_listened := True\<rparr>
           in case snd r of
                Inl e \<Rightarrow> if must_wait e then (op, Armed Io_Read) else (op\<lparr>listen_ec := e\<rparr>, Ready)
              | Inr _ \<Rightarrow> (op, Ready)))"

definition listen_local_work :: "nat + unit \<Rightarrow> listen_operation \<Rightarrow> listen_operation \<times> progress" where
  "listen_local_work r op =
     (case r of
        Inl e \<Rightarrow> if must_wait e then (op, Armed Io_Read) else (op\<lparr>listen_ec := e\<rparr>, Resumed)
      | Inr _ \<Rightarrow> (op\<lparr>listen_ec := 0\<rparr>, Resumed))"

definition listen_work ::
  "(nat + nat) \<times> (nat + unit) \<Rightarrow> listen_operation \<Rightarrow> listen_operation \<times> progress" where
  "listen_work r op =
     (if have_listened op then listen_local_work (snd r) op
      else case fst r of
        Inl e \<Rightarrow> (op\<lparr>listen_ec := e\<rparr>, Resumed)
      | Inr fd \<Rightarrow> listen_local_work (snd r) (op\<lparr>have_listened := True\<rparr>))"

interpretation listening: awaitable_operation listen_begin listen_work
  by unfold_locales
    (auto simp: listen_begin_def listen_work_def listen_local_work_def Let_def split: sum.split)

section \<open>Properties\<close>

text \<open>What has been read into the memory \<open>mem\<close>; the terms are those of \<open>recv_collects_stream\<close>.\<close>

definition read_inv :: "nat \<Rightarrow> u8 list \<Rightarrow> u8 list \<Rightarrow> read_operation \<Rightarrow> bool" where
  "read_inv sz mem got op \<longleftrightarrow>
     read_size op = sz \<and> read_received op = length got \<and> length got \<le> sz \<and>
     read_buffer op = holds got mem \<and> read_transferred op = None"

definition read_so_far ::
  "nat \<Rightarrow> bool \<Rightarrow> u8 list \<Rightarrow> u8 list \<Rightarrow> progress list \<Rightarrow> read_operation \<Rightarrow> bool" where
  "read_so_far sz all mem got ps op \<longleftrightarrow>
     length got \<le> sz \<and> read_received op = length got \<and> read_buffer op = holds got mem \<and>
     read_transferred op = (if ps \<noteq> [] \<and> last ps = Resumed then Some (length got) else None) \<and>
     (ps \<noteq> [] \<and> last ps = Resumed \<and> all \<longrightarrow> length got = sz)"

lemma read_inv_space: "read_inv sz mem got op \<Longrightarrow> read_space op = of_nat (sz - length got)"
  by (simp add: read_inv_def read_space_def of_nat_diff)

lemma read_so_far_armed:
  "read_so_far sz all mem got ps op \<Longrightarrow> read_so_far sz all mem got (Armed k # ps) op"
  by (cases ps) (simp_all add: read_so_far_def)

lemma file_read_notified:
  assumes "read_inv sz mem got op" and "sz < 2 ^ 31" and "\<forall>c \<in> set calls. kernel_call c"
  shows "case notified_or_abort file_read_work calls op of
      Inl f \<Rightarrow> f = Assert_Failed \<and> (\<exists>e. Recv_Failed e \<in> set (granted (sz - length got) calls))
    | Inr (op', ps) \<Rightarrow>
        read_so_far sz (read_all op) mem
          (got @ stream (take (length ps) (granted (sz - length got) calls))) ps op'"
  using assms(1,3)
proof (induction calls arbitrary: op got)
  case Nil
  then show ?case by (simp add: read_inv_def read_so_far_def)
next
  case (Cons c calls)
  let ?n = "sz - length got"
  have n: "read_space op = of_nat ?n" by (rule read_inv_space [OF Cons.prems(1)])
  have c: "kernel_call c" and cs: "\<forall>c \<in> set calls. kernel_call c" using Cons.prems(2) by simp_all
  show ?case
  proof (cases "c (of_nat ?n)")
    case (Recv_Failed e)
    then show ?thesis by (auto simp: file_read_work_def n Let_def)
  next
    case (Recv_Bytes bs)
    let ?op = "op\<lparr>read_buffer := store_bytes (read_received op) bs (read_buffer op),
      read_received := read_received op + length bs\<rparr>"
    have got: "length got \<le> sz" using Cons.prems(1) by (simp add: read_inv_def)
    have "length bs \<le> ?n" using kernel_call_fits [OF c, of ?n] assms(2) Recv_Bytes by simp
    with got have "length got + length bs \<le> sz" by linarith
    then have inv: "read_inv sz mem (got @ bs) ?op"
      using Cons.prems(1) by (simp add: read_inv_def store_bytes_holds)
    have r: "read_received ?op = length (got @ bs)" "read_size ?op = sz"
      using Cons.prems(1) by (simp_all add: read_inv_def)
    show ?thesis
    proof (cases "read_all op \<and> length (got @ bs) < sz")
      case True
      then have w: "file_read_work c op = Inr (?op, Armed Io_Read)"
        using Recv_Bytes r by (simp add: file_read_work_def Let_def n)
      show ?thesis
        using Cons.IH [OF inv cs] w Recv_Bytes
        by (auto simp: Let_def read_so_far_armed split: sum.splits prod.splits)
    next
      case False
      then have "file_read_work c op =
          Inr (?op\<lparr>read_transferred := Some (read_received ?op), read_ec := 0\<rparr>, Resumed)"
        using Recv_Bytes r by (auto simp: file_read_work_def Let_def n)
      then show ?thesis
        using False inv Recv_Bytes by (auto simp: Let_def read_inv_def read_so_far_def)
    qed
  qed
qed

lemma file_read_collected:
  assumes "\<forall>c \<in> set (call # calls). kernel_call c" and "sz < 2 ^ 31"
  shows "case await_or_abort file_read_begin file_read_work call calls (file_read_operation mem sz all) of
      Inl f \<Rightarrow> f = Assert_Failed \<and> (\<exists>e. Recv_Failed e \<in> set (granted sz (call # calls)))
    | Inr (op, ps) \<Rightarrow>
        ps \<noteq> [] \<and> read_so_far sz all mem (stream (take (length ps) (granted sz (call # calls)))) ps op"
proof -
  let ?op = "file_read_operation mem sz all"
  have c: "kernel_call call" and cs: "\<forall>c \<in> set calls. kernel_call c" using assms(1) by simp_all
  have fit: "length (bytes_of (call (of_nat sz))) \<le> sz" by (rule kernel_call_fits [OF c assms(2)])
  consider (abort) e where "call (of_nat sz) = Recv_Failed e" "\<not> (e = EAGAIN \<or> e = EWOULDBLOCK)"
    | (wait) e where "call (of_nat sz) = Recv_Failed e" "e = EAGAIN \<or> e = EWOULDBLOCK"
    | (more) bs where "call (of_nat sz) = Recv_Bytes bs" "all \<and> length bs < sz"
    | (ready) bs where "call (of_nat sz) = Recv_Bytes bs" "\<not> (all \<and> length bs < sz)"
    by (cases "call (of_nat sz)") auto
  then show ?thesis
  proof cases
    case abort
    then show ?thesis
      by (auto simp: await_or_abort_def file_read_begin_def file_read_operation_def Let_def)
  next
    case wait
    have "read_inv sz mem [] ?op" by (simp add: read_inv_def file_read_operation_def holds_def)
    from file_read_notified [OF this assms(2) cs] show ?thesis
      using wait
      by (auto simp: await_or_abort_def file_read_begin_def file_read_operation_def read_so_far_armed Let_def
          split: sum.splits prod.splits)
  next
    case more
    let ?op' = "?op\<lparr>read_buffer := store_bytes 0 bs mem, read_received := length bs\<rparr>"
    have "read_inv sz mem bs ?op'"
      using fit more(1) by (simp add: read_inv_def file_read_operation_def store_bytes_holds)
    from file_read_notified [OF this assms(2) cs] show ?thesis
      using more
      by (auto simp: await_or_abort_def file_read_begin_def file_read_operation_def read_so_far_armed Let_def
          split: sum.splits prod.splits)
  next
    case ready
    then show ?thesis
      using fit by (auto simp: await_or_abort_def file_read_begin_def file_read_operation_def
          read_so_far_def store_bytes_holds Let_def)
  qed
qed

text \<open>
  C26: what a read of at most \<open>sz\<close> bytes into memory of at least that size comes to, when the kernel
  gives no more than it is asked for. Either an assertion fails, and then some call failed; or every
  call asked for exactly the space that was left, the memory starts with the bytes the file gave, in
  order and at most \<open>sz\<close>, and is otherwise as it was. A coroutine that has been resumed is told
  their number, which is \<open>sz\<close> when the whole buffer was asked for. One that goes on without
  having been suspended is told a number that was never assigned: only \<open>work\<close> assigns it.
\<close>

theorem file_read_outcome:
  assumes "\<forall>c \<in> set (call # calls). kernel_call c" and "sz < 2 ^ 31" and "sz \<le> length mem"
  shows "case await_or_abort file_read_begin file_read_work call calls (file_read_operation mem sz all) of
      Inl f \<Rightarrow> f = Assert_Failed \<and> (\<exists>e. Recv_Failed e \<in> set (granted sz (call # calls)))
    | Inr (op, ps) \<Rightarrow>
        (let got = stream (take (length ps) (granted sz (call # calls)))
         in length got \<le> sz \<and> read_received op = length got \<and>
           length (read_buffer op) = length mem \<and> read_buffer op = got @ drop (length got) mem \<and>
           read_transferred op = (if last ps = Resumed then Some (length got) else None) \<and>
           (last ps = Resumed \<and> all \<longrightarrow> length got = sz))"
  using file_read_collected [OF assms(1,2), where mem = mem and all = all] assms(3)
  by (auto simp: read_so_far_def holds_def Let_def split: sum.splits prod.splits)

lemma file_read_outcome_witness:
  "case await_or_abort file_read_begin file_read_work (gives [1]) [gives [2, 3, 4]] (file_read [0, 0, 0, 9] 3) of
     Inl f \<Rightarrow> False
   | Inr (op, ps) \<Rightarrow> ps = [Armed Io_Read, Resumed] \<and> read_buffer op = [1, 2, 3, 9] \<and> read_transferred op = Some 3"
proof -
  let ?r = "await_or_abort file_read_begin file_read_work (gives [1]) [gives [2, 3, 4]] (file_read [0, 0, 0, 9] 3)"
  obtain op where r: "?r = Inr (op, [Armed Io_Read, Resumed])"
    by (simp add: await_or_abort_def file_read_begin_def file_read_work_def file_read_def
        file_read_operation_def gives_def read_space_def)
  have k: "\<forall>c \<in> set (gives [1] # [gives [2, 3, 4]]). kernel_call c" by (simp add: gives_kernel_call)
  have "read_buffer op = [1, 2, 3, 9] \<and> read_transferred op = Some 3"
    using file_read_outcome [OF k, of 3 "[0, 0, 0, 9]" True] r
    by (simp add: file_read_def gives_def Let_def)
  then show ?thesis using r by simp
qed

text \<open>
  A read of more bytes than the file has left never ends: at the end of the file \<open>read\<close> gives no
  bytes, and the operation waits for more each time.
\<close>

lemma file_read_at_end_never_resumes:
  assumes "length bs < sz"
  shows "\<exists>op. await_or_abort file_read_begin file_read_work (\<lambda>_. Recv_Bytes bs)
    (replicate k (\<lambda>_. Recv_Bytes [])) (file_read mem sz) = Inr (op, replicate (k + 1) (Armed Io_Read))"
proof -
  let ?op = "(file_read mem sz)\<lparr>read_buffer := store_bytes 0 bs mem, read_received := length bs\<rparr>"
  have w: "\<exists>op'. file_read_work (\<lambda>_. Recv_Bytes []) op = Inr (op', Armed Io_Read) \<and>
      read_all op' \<and> read_received op' < read_size op'"
    if "read_all op" "read_received op < read_size op" for op
    using that by (auto simp: file_read_work_def Let_def)
  have "\<exists>op'. notified_or_abort file_read_work (replicate k (\<lambda>_. Recv_Bytes [])) op =
      Inr (op', replicate k (Armed Io_Read))" if "read_all op" "read_received op < read_size op" for op
    using that
  proof (induction k arbitrary: op)
    case (Suc k)
    obtain op' where w': "file_read_work (\<lambda>_. Recv_Bytes []) op = Inr (op', Armed Io_Read)"
      "read_all op'" "read_received op' < read_size op'" using w [OF Suc.prems] by blast
    with Suc.IH [OF w'(2,3)] show ?case by auto
  qed simp
  from this [of ?op] show ?thesis
    using assms by (auto simp: await_or_abort_def file_read_begin_def file_read_def file_read_operation_def)
qed

text \<open>
  A write that completes at once reports a number nobody assigned, however much was written; one
  that waited reports its whole size, and aborts the program when less was written.
\<close>

lemma file_write_outcome:
  "(\<exists>op. await_or_abort file_write_begin file_write_work (Done n) rs (file_write sz) = Inr (op, [Ready]) \<and>
      xfer_get_return (write_transferred op) = Inl Undefined_Behaviour) \<and>
   await_or_abort file_write_begin file_write_work (Failed EAGAIN) (r # rs) (file_write sz) =
     (if r = Done sz
      then Inr (\<lparr>write_size = sz, write_sent = sz, write_ec = 0, write_transferred = Some sz\<rparr>,
                [Armed Io_Write, Resumed])
      else Inl Assert_Failed)"
  by (simp add: await_or_abort_def file_write_begin_def file_write_work_def file_write_def
      file_write_operation_def xfer_get_return_def)

text \<open>
  The ownership of files. A file that was only moved is released by its last owner; a file that
  was assigned is deregistered twice, what the target had registered never.
\<close>

lemma file_ownership:
  assumes "d \<noteq> 0" and "e \<noteq> 0"
  shows "(let (new, old) = file_move (file_internal_init d reg)
      in file_destroy old = Inr [] \<and> file_destroy new = Inr [Registration reg, Descriptor d])"
    and "(let (this, other) = file_assign (file_internal_init d reg) (file_internal_init e reg')
      in file_destroy this = Inr [Registration reg', Descriptor d] \<and>
         file_destroy other = Inr [Registration reg', Descriptor e])"
    and "file_destroy (file_internal_create d) = Inl Undefined_Behaviour"
    and "file_start_io kind op (snd (file_move (file_internal_init d reg))) = Inl Bad_Access"
  using assms
  by (simp_all add: file_move_def file_assign_def file_destroy_def file_internal_init_def
      file_internal_create_def file_internal_of_def file_start_io_def)

text \<open>
  Listening resumes its coroutine once, as the operations on sockets do. After a wait it does
  not listen but accepts: a descriptor that is then given is lost.
\<close>

lemma listen_resumes_once:
  "resumes_once (length rs) (snd (await_operation listen_begin listen_work r rs op))"
  using listening.awaited_once [of r rs op] by (simp add: resumes_once_def Let_def)

lemma listen_loses_accepted:
  "await_operation listen_begin listen_work (Inl EAGAIN, g) [(Inr fd, Inr ())] socket_listen_operation =
     await_operation listen_begin listen_work (Inl EAGAIN, g) [(Inr fd', Inr ())] socket_listen_operation"
  by (simp add: await_operation_def listen_begin_def listen_work_def listen_local_work_def must_wait_def
      socket_listen_operation_def)

end
