(* ===== verification/Exceptable.thy ===== *)
theory Exceptable
  imports Expected Error_Code
begin

text \<open>
  The primary template of \<open>exceptable.hpp\<close> and its specialisation for references (the one for \<open>void\<close>
  is in \<open>Error_Code\<close>). Both keep an \<open>expected<T, std::exception_ptr>\<close>. They cannot be instantiated:
  \<open>expected\<close> rejects an exception pointer with the assert policy, and \<open>is_expected\<close>,
  \<open>is_unexpected\<close> and \<open>unexpected\<close> are not its members. The model reads the throwing policy and
  \<open>is_value\<close>, \<open>is_error\<close> and \<open>error\<close>.
\<close>

section \<open>The operations\<close>

text \<open>An exception is a number, as in \<open>Error_Code\<close>; every exception pointer here holds one.\<close>

type_synonym 't exceptable = "('t, nat) expected"

definition exceptable_default :: "'t exceptable" where
  "exceptable_default = expected_nothing"

definition exceptable_of_value ::
  "('t, nat) elements \<Rightarrow> 't \<Rightarrow> ledger \<Rightarrow> ('t exceptable \<times> ledger) res" where
  "exceptable_of_value el v l = expected_value el v l"

definition exceptable_of_moved ::
  "('t, nat) elements \<Rightarrow> 't \<Rightarrow> ledger \<Rightarrow> 't exceptable \<times> 't \<times> ledger" where
  "exceptable_of_moved el v l = expected_value_move el v l"

definition exceptable_of_exception ::
  "('t, nat) elements \<Rightarrow> nat \<Rightarrow> ledger \<Rightarrow> 't exceptable \<times> nat \<times> ledger" where
  "exceptable_of_exception el ex l = expected_error_move el ex l"

definition exceptable_has_value :: "'t exceptable \<Rightarrow> bool" where
  "exceptable_has_value x \<longleftrightarrow> is_value x"

definition exceptable_has_exception :: "'t exceptable \<Rightarrow> bool" where
  "exceptable_has_exception x \<longleftrightarrow> is_error x"

text \<open>What \<open>throw\<close> throws is the left side; the failures of \<open>expected\<close> itself are in the \<open>res\<close>.\<close>

definition exceptable_throw_if_failed :: "'t exceptable \<Rightarrow> thrown + unit res" where
  "exceptable_throw_if_failed x =
     (if is_error x
      then case error_access Error_Policy_Throw Some x of Inl f \<Rightarrow> Inr (Inl f) | Inr e \<Rightarrow> Inl (Thrown_Exception_Ptr e)
      else Inr (Inr ()))"

definition exceptable_get :: "'t exceptable \<Rightarrow> thrown + 't res" where
  "exceptable_get x =
     (case exceptable_throw_if_failed x of
        Inl t \<Rightarrow> Inl t
      | Inr r \<Rightarrow> Inr (res_bind r (\<lambda>_. value_lvalue Error_Policy_Throw Some x)))"

text \<open>
  The specialisation for references keeps the address of the object. Its \<open>value() &&\<close> moves from the
  pointer instead of the object and has no reading.
\<close>

definition exceptable_of_reference :: "u64 \<Rightarrow> u64 exceptable" where
  "exceptable_of_reference address = \<lparr>contains = EXPECTED, members = Live_Value address\<rparr>"

definition exceptable_ref_of_exception :: "nat \<Rightarrow> u64 exceptable" where
  "exceptable_ref_of_exception ex = \<lparr>contains = UNEXPECTED, members = Live_Error ex\<rparr>"

definition exceptable_ref_throw_if_failed :: "u64 exceptable \<Rightarrow> thrown + unit res" where
  "exceptable_ref_throw_if_failed x = exceptable_throw_if_failed x"

definition exceptable_ref_get :: "u64 exceptable \<Rightarrow> thrown + u64 res" where
  "exceptable_ref_get x =
     (case exceptable_ref_throw_if_failed x of
        Inl t \<Rightarrow> Inl t
      | Inr r \<Rightarrow> Inr (res_bind r (\<lambda>_. value_lvalue Error_Policy_Throw Some x)))"

section \<open>Properties\<close>

text \<open>
  \<open>value\<close> gives the value that was put in, or throws the exception pointer that was put in, never
  the exception it holds; a default-constructed object has neither, and \<open>value\<close> throws
  \<open>std::logic_error\<close>.
\<close>

lemma exceptable_round_trips:
  "exceptable_of_value el v l = Inr (x, l') \<Longrightarrow>
     exceptable_has_value x \<and> \<not> exceptable_has_exception x \<and> (\<exists>w. copy_value el v = Inr w \<and> exceptable_get x = Inr (Inr w))"
  "exceptable_of_moved el v l = (x, rest, l') \<Longrightarrow>
     exceptable_has_value x \<and> \<not> exceptable_has_exception x \<and> exceptable_get x = Inr (Inr (fst (move_value el v)))"
  "exceptable_of_exception el e l = (x, rest', l') \<Longrightarrow>
     \<not> exceptable_has_value x \<and> exceptable_has_exception x \<and>
     exceptable_get x = Inl (Thrown_Exception_Ptr (fst (move_error el e)))"
  "exceptable_get exceptable_default = Inr (Inl Logic_Error) \<and> \<not> exceptable_has_value exceptable_default \<and>
     \<not> exceptable_has_exception exceptable_default"
  "exceptable_ref_get (exceptable_of_reference a) = Inr (Inr a)"
  "exceptable_ref_get (exceptable_ref_of_exception e) = Inl (Thrown_Exception_Ptr e)"
  by (auto simp: exceptable_of_value_def exceptable_of_moved_def exceptable_of_exception_def
      exceptable_default_def exceptable_has_value_def exceptable_has_exception_def exceptable_get_def
      exceptable_throw_if_failed_def exceptable_ref_get_def exceptable_ref_throw_if_failed_def
      exceptable_of_reference_def exceptable_ref_of_exception_def expected_value_def expected_value_move_def
      expected_error_move_def expected_nothing_def is_value_def is_error_def value_lvalue_def error_access_def
      enforce_def res_bind_Inr_iff split: prod.splits)

lemma exceptable_never_rethrows: "exceptable_get x \<noteq> Inl (Thrown_Exception e)"
  by (auto simp: exceptable_get_def exceptable_throw_if_failed_def split: sum.splits)

end
