(* ===== verification/Socket_Service.thy ===== *)
theory Socket_Service
  imports Socket Event_Loop
begin

text \<open>
  Sockets and the service together: the constructors of \<open>socket_internal\<close> that register the
  descriptor, \<open>create_pair\<close>, \<open>create_tcpv4\<close> and \<open>create_tcpv6\<close> of \<open>src/socket.cpp\<close>, and the release of
  both by the destructor, over the registrations the service may call and the descriptors that
  are open. \<open>container_of\<close> takes the callback from the watcher to its registration.
\<close>

section \<open>From a watcher to its registration\<close>

text \<open>Addresses are 64-bit words; a member of a standard-layout class has a fixed offset.\<close>

definition offset_of :: "(u64 \<Rightarrow> u64) \<Rightarrow> u64" where
  "offset_of member_at = member_at 0"

definition container_of :: "u64 \<Rightarrow> (u64 \<Rightarrow> u64) \<Rightarrow> u64" where
  "container_of ptr member_at = ptr - offset_of member_at"

lemma container_of_member:
  assumes "\<And>p. member_at p = p + off"
  shows "container_of (member_at p) member_at = p"
  using assms by (simp add: container_of_def offset_of_def)

text \<open>
  \<open>bound_io_service_operation\<close>: an operation whose \<open>work\<close> is a member function of an object it
  refers to.
\<close>

definition bound_work :: "('o \<Rightarrow> 'o) \<Rightarrow> nat \<Rightarrow> (nat \<Rightarrow> 'o option) \<Rightarrow> (nat \<Rightarrow> 'o option) res" where
  "bound_work mfn ref h = (case h ref of None \<Rightarrow> Inl Bad_Access | Some ob \<Rightarrow> Inr (h(ref \<mapsto> mfn ob)))"

section \<open>Creating and releasing\<close>

record socket_world =
  registrations :: "nat \<Rightarrow> descriptor_service_data option"
  open_fds :: "int set"

text \<open>
  Both constructors take the address of the new registration as an argument. The world is that of
  one service, number 0.
\<close>

definition socket_on_service :: "int \<Rightarrow> nat \<Rightarrow> socket_world \<Rightarrow> socket_internal \<times> socket_world" where
  "socket_on_service d reg w =
     (socket_internal_init 0 d reg, w\<lparr>registrations := (registrations w)(reg \<mapsto> register_descriptor d)\<rparr>)"

definition socket_internal_create :: "int \<Rightarrow> nat \<Rightarrow> socket_world \<Rightarrow> socket_internal \<times> socket_world" where
  "socket_internal_create d reg w = socket_on_service d reg w"

definition open_fd :: "int \<Rightarrow> socket_world \<Rightarrow> socket_world" where
  "open_fd d w = w\<lparr>open_fds := insert d (open_fds w)\<rparr>"

text \<open>\<open>Inl\<close> is the code of the \<open>std::system_error\<close>.\<close>

definition socket_create_pair ::
  "kernel \<Rightarrow> nat \<Rightarrow> nat \<Rightarrow> socket_world \<Rightarrow> int + (socket_internal \<times> socket_internal \<times> socket_world)" where
  "socket_create_pair k r1 r2 w =
     (case create_pair k of
        Inl e \<Rightarrow> Inl e
      | Inr (d1, d2) \<Rightarrow>
          (let (s1, w) = socket_on_service d1 r1 (open_fd d2 (open_fd d1 w));
               (s2, w) = socket_on_service d2 r2 w
           in Inr (s1, s2, w)))"

definition SOCK_STREAM :: u32 where "SOCK_STREAM = 1"
definition SOCK_NONBLOCK :: u32 where "SOCK_NONBLOCK = 0x800"
definition IPPROTO_TCP :: u32 where "IPPROTO_TCP = 6"

type_synonym socket_call = "u32 \<Rightarrow> u32 \<Rightarrow> u32 \<Rightarrow> sys"

definition socket_create ::
  "socket_call \<Rightarrow> u32 \<Rightarrow> nat \<Rightarrow> socket_world \<Rightarrow> int + (socket_internal \<times> socket_world)" where
  "socket_create call domain reg w =
     (case create_socket (call domain (SOCK_STREAM OR SOCK_NONBLOCK) IPPROTO_TCP) of
        Inl e \<Rightarrow> Inl e
      | Inr d \<Rightarrow> Inr (socket_on_service (int d) reg (open_fd (int d) w)))"

definition socket_create_tcpv4 ::
  "socket_call \<Rightarrow> nat \<Rightarrow> socket_world \<Rightarrow> int + (socket_internal \<times> socket_world)" where
  "socket_create_tcpv4 call reg w = socket_create call (ucast AF_INET) reg w"

definition socket_create_tcpv6 ::
  "socket_call \<Rightarrow> nat \<Rightarrow> socket_world \<Rightarrow> int + (socket_internal \<times> socket_world)" where
  "socket_create_tcpv6 call reg w = socket_create call (ucast AF_INET6) reg w"

text \<open>What the destructor gives back: the watcher is stopped and its data freed, the descriptor closed.\<close>

fun release :: "resource \<Rightarrow> socket_world \<Rightarrow> socket_world" where
  "release (Registration reg) w = w\<lparr>registrations := (registrations w)(reg := None)\<rparr>"
| "release (Descriptor d) w = w\<lparr>open_fds := open_fds w - {d}\<rparr>"

definition socket_start_io :: "io_kind \<Rightarrow> nat \<Rightarrow> socket_internal \<Rightarrow> socket_world \<Rightarrow> socket_world res" where
  "socket_start_io kind op s w =
     (case sock_data s of
        None \<Rightarrow> Inl Bad_Access
      | Some reg \<Rightarrow>
          (case registrations w reg of
             None \<Rightarrow> Inl Bad_Access
           | Some data \<Rightarrow> Inr (w\<lparr>registrations := (registrations w)(reg \<mapsto> start_io kind op data)\<rparr>)))"

section \<open>Programs\<close>

text \<open>
  A program on one service creates sockets, accepts connections (\<open>Accepted\<close>; \<open>Placeholder\<close> is the
  empty socket of \<open>socket_accept_operation\<close>, which registers descriptor 0), starts operations, and
  moves, assigns and destroys sockets. The kernel gives descriptors that are not open and never
  0, the heap gives addresses that are not in use.
\<close>

type_synonym sockets = "(nat \<Rightarrow> socket_internal option) \<times> socket_world"

definition fresh_fd :: "int \<Rightarrow> socket_world \<Rightarrow> bool" where
  "fresh_fd d w \<longleftrightarrow> d \<noteq> 0 \<and> d \<notin> open_fds w"

inductive sockets_reachable :: "sockets \<Rightarrow> bool" where
  Initially: "sockets_reachable (\<lambda>_. None, \<lparr>registrations = (\<lambda>_. None), open_fds = {}\<rparr>)"
| Pair: "\<lbrakk>sockets_reachable (vars, w); vars x = None; vars y = None; x \<noteq> y;
    create_pair k = Inr (d1, d2); fresh_fd d1 w; fresh_fd d2 w; d1 \<noteq> d2;
    registrations w r1 = None; registrations w r2 = None; r1 \<noteq> r2;
    socket_create_pair k r1 r2 w = Inr (s1, s2, w')\<rbrakk> \<Longrightarrow> sockets_reachable (vars(x \<mapsto> s1, y \<mapsto> s2), w')"
| Tcp: "\<lbrakk>sockets_reachable (vars, w); vars x = None; registrations w reg = None;
    create_socket (call domain (SOCK_STREAM OR SOCK_NONBLOCK) IPPROTO_TCP) = Inr d; fresh_fd (int d) w;
    domain = ucast AF_INET \<and> socket_create_tcpv4 call reg w = Inr (s, w') \<or>
    domain = ucast AF_INET6 \<and> socket_create_tcpv6 call reg w = Inr (s, w')\<rbrakk>
    \<Longrightarrow> sockets_reachable (vars(x \<mapsto> s), w')"
| Accepted: "\<lbrakk>sockets_reachable (vars, w); vars x = None; registrations w reg = None; fresh_fd d w;
    socket_internal_create d reg (open_fd d w) = (s, w')\<rbrakk> \<Longrightarrow> sockets_reachable (vars(x \<mapsto> s), w')"
| Placeholder: "\<lbrakk>sockets_reachable (vars, w); vars x = None; registrations w reg = None;
    socket_internal_create 0 reg w = (s, w')\<rbrakk> \<Longrightarrow> sockets_reachable (vars(x \<mapsto> s), w')"
| Start_Operation: "\<lbrakk>sockets_reachable (vars, w); vars x = Some s; socket_start_io kind op s w = Inr w'\<rbrakk>
    \<Longrightarrow> sockets_reachable (vars, w')"
| Owner: "\<lbrakk>sockets_reachable (vars, w); owner_permitted c vars; \<forall>x ob. c \<noteq> Create x ob;
    owner_exec socket_move socket_assign socket_self_assign socket_destroy c (vars, []) = (vars', out)\<rbrakk>
    \<Longrightarrow> sockets_reachable (vars', fold release out w)"

section \<open>The invariant\<close>

definition resources :: "socket_world \<Rightarrow> resource set" where
  "resources w = Registration ` dom (registrations w) \<union> Descriptor ` open_fds w"

definition accounted :: "sockets \<Rightarrow> bool" where
  "accounted st \<longleftrightarrow>
     (case st of (vars, w) \<Rightarrow>
       finite (dom vars) \<and> finite (resources w) \<and>
       holdings socket_holds (dom vars) vars = mset_set (resources w))"

definition matched :: "sockets \<Rightarrow> bool" where
  "matched st \<longleftrightarrow>
     (case st of (vars, w) \<Rightarrow>
       \<forall>x s reg. vars x = Some s \<longrightarrow> sock_data s = Some reg \<longrightarrow>
         (\<exists>data. registrations w reg = Some data \<and> descriptor data = sock_descriptor s))"

lemma holdings_dom:
  assumes "finite xs" and "dom vars \<subseteq> xs"
  shows "holdings held xs vars = holdings held (dom vars) vars"
  unfolding holdings_def by (rule sum.mono_neutral_right [OF assms]) (auto simp: dom_def)

lemma holdings_new:
  assumes "finite (dom vars)" and "vars x = None"
  shows "holdings held (dom (vars(x \<mapsto> ob))) (vars(x \<mapsto> ob)) = holdings held (dom vars) vars + mset (held ob)"
  using holdings_update [of "dom (vars(x \<mapsto> ob))" x held vars "Some ob"]
    holdings_dom [of "dom (vars(x \<mapsto> ob))" vars held] assms
  by auto

lemma resources_release: "resources (release r w) = resources w - {r}"
  by (cases r) (auto simp: resources_def dom_def)

lemma resources_release_all: "resources (fold release out w) = resources w - set out"
  by (induction out arbitrary: w) (auto simp: resources_release)

lemma registrations_release_all:
  "registrations (fold release out w) reg = (if Registration reg \<in> set out then None else registrations w reg)"
proof (induction out arbitrary: w)
  case (Cons r out)
  then show ?case by (cases r) auto
qed simp

lemma accounted_create:
  assumes "accounted (vars, w)" and "vars x = None" and "registrations w reg = None"
    and "w0 = w \<and> d = 0 \<or> w0 = open_fd d w \<and> fresh_fd d w" and "socket_on_service d reg w0 = (s, w')"
  shows "accounted (vars(x \<mapsto> s), w')"
proof -
  have s: "s = socket_internal_init 0 d reg" and w': "registrations w' = (registrations w)(reg \<mapsto> register_descriptor d)"
    "open_fds w' = (if d = 0 then open_fds w else insert d (open_fds w))"
    using assms(4,5) by (auto simp: socket_on_service_def open_fd_def fresh_fd_def)
  have holds: "socket_holds s = Registration reg # (if d = 0 then [] else [Descriptor d])"
    by (simp add: s socket_holds_def socket_internal_init_def)
  have new: "Registration reg \<notin> resources w" "d \<noteq> 0 \<Longrightarrow> Descriptor d \<notin> resources w"
    using assms(3,4) by (auto simp: resources_def fresh_fd_def)
  have res: "resources w' = resources w \<union> set (socket_holds s)"
    by (auto simp: resources_def w' holds)
  have "mset_set (resources w') = mset_set (resources w) + mset (socket_holds s)"
    using assms(1) new by (simp add: res holds accounted_def)
  then show ?thesis
    using assms(1) holdings_new [of vars x socket_holds s] assms(2) res
    by (simp add: accounted_def)
qed

lemma matched_create:
  assumes "matched (vars, w)" and "registrations w reg = None"
    and "registrations w0 = registrations w" and "socket_on_service d reg w0 = (s, w')"
  shows "matched (vars(x \<mapsto> s), w')"
  using assms
  by (fastforce simp: matched_def socket_on_service_def socket_internal_init_def register_descriptor_def)

text \<open>A move and an assignment hand on descriptor and registration together.\<close>

lemma owner_exec_pairs:
  assumes "owner_permitted c vars" and "\<forall>x ob. c \<noteq> Create x ob"
    and "owner_exec socket_move socket_assign socket_self_assign socket_destroy c (vars, []) = (vars', out)"
    and "vars' x = Some s" and "sock_data s = Some reg"
  shows "\<exists>y t. vars y = Some t \<and> sock_data t = Some reg \<and> sock_descriptor t = sock_descriptor s"
proof (cases c)
  case (Move_Construct a b)
  then obtain ob where "vars b = Some ob" "vars' = vars(a \<mapsto> fst (socket_move ob), b \<mapsto> snd (socket_move ob))"
    using assms(1,3) by (auto split: prod.splits)
  then show ?thesis
    using assms(4,5) by (intro exI [of _ "if x = a then b else x"] exI [of _ "if x = a then ob else s"])
      (auto simp: socket_move_def split: if_splits)
next
  case (Move_Assign a b)
  then obtain oa ob where v: "vars a = Some oa" "vars b = Some ob" using assms(1) by auto
  show ?thesis
  proof (cases "a = b")
    case True
    then show ?thesis using Move_Assign assms(3-5) v
      by (intro exI [of _ x] exI [of _ s])
        (auto simp: socket_self_assign_def socket_move_def socket_swap_def Let_def split: if_splits)
  next
    case False
    then show ?thesis using Move_Assign assms(3-5) v
      by (intro exI [of _ "if x = a then b else x"] exI [of _ "if x = a then ob else s"])
        (auto simp: socket_assign_def socket_move_def socket_swap_def Let_def split: if_splits)
  qed
next
  case (Destruct a)
  then show ?thesis using assms by (intro exI [of _ x] exI [of _ s]) (auto split: if_splits)
qed (use assms(2) in blast)

lemma accounted_owner:
  assumes "accounted (vars, w)" and "owner_permitted c vars" and "\<forall>x ob. c \<noteq> Create x ob"
    and "owner_exec socket_move socket_assign socket_self_assign socket_destroy c (vars, []) = (vars', out)"
  shows "accounted (vars', fold release out w)"
    and "vars' x = Some s \<Longrightarrow> sock_data s = Some reg \<Longrightarrow> Registration reg \<notin> set out"
proof -
  let ?xs = "dom vars \<union> variables c"
  have fin: "finite ?xs" using assms(1) by (cases c) (auto simp: accounted_def)
  have dom': "dom vars' \<subseteq> ?xs"
    using assms(4) by (cases c) (auto split: if_splits prod.splits)
  have "created_by socket_holds c = []" using assms(3) by (cases c) auto
  then have "holdings socket_holds ?xs vars' + mset out = holdings socket_holds ?xs vars"
    using sockets.exec_conserves [OF fin _ assms(2,4)] by simp
  then have eq: "holdings socket_holds (dom vars') vars' + mset out = mset_set (resources w)"
    using holdings_dom [OF fin dom', of socket_holds] holdings_dom [OF fin, of vars socket_holds] assms(1)
    by (simp add: accounted_def)
  have finr: "finite (resources w)" using assms(1) by (simp add: accounted_def)
  have c1: "count (holdings socket_holds (dom vars') vars') r + count (mset out) r \<le> 1" for r
    using arg_cong [OF eq, of "\<lambda>m. count m r"] by (simp add: count_mset_set')
  then have "count (mset out) r \<le> 1" for r by (metis add_leD2)
  then have d: "distinct out" by (metis count_mset_0_iff distinct_count_atmost_1 le_antisym less_one not_le)
  have sub: "set out \<subseteq> resources w"
    using mset_subset_eq_add_right [of "mset out" "holdings socket_holds (dom vars') vars'"] finr
    unfolding eq by (metis finite_set_mset_mset_set set_mset_mono set_mset_mset)
  have "mset_set (resources (fold release out w)) = mset_set (resources w) - mset out"
    unfolding resources_release_all
    using mset_set_Diff [OF finr sub] mset_set_set [OF d] by simp
  then have "holdings socket_holds (dom vars') vars' = mset_set (resources (fold release out w))"
    by (simp flip: eq)
  then show "accounted (vars', fold release out w)"
    using fin dom' finr by (auto simp: accounted_def resources_release_all intro: finite_subset)
  assume x: "vars' x = Some s" "sock_data s = Some reg"
  then have "x \<in> dom vars'" "finite (dom vars')" using fin dom' by (auto intro: finite_subset)
  then have "holdings socket_holds (dom vars') vars' = mset (socket_holds s) +
      (\<Sum>y\<in>dom vars' - {x}. case vars' y of None \<Rightarrow> {#} | Some ob \<Rightarrow> mset (socket_holds ob))"
    unfolding holdings_def using x(1) by (subst sum.remove [of _ x]) auto
  then have "count (holdings socket_holds (dom vars') vars') (Registration reg) \<ge> 1"
    using x(2) by (simp add: socket_holds_def)
  then have "count (mset out) (Registration reg) = 0"
    using c1 [of "Registration reg"] by linarith
  then show "Registration reg \<notin> set out" by (simp add: count_mset_0_iff)
qed

lemma create_inv:
  assumes "accounted (vars, w) \<and> matched (vars, w)" and "vars x = None" and "registrations w reg = None"
    and "w0 = w \<and> d = 0 \<or> w0 = open_fd d w \<and> fresh_fd d w" and "socket_on_service d reg w0 = (s, w')"
  shows "accounted (vars(x \<mapsto> s), w') \<and> matched (vars(x \<mapsto> s), w')"
proof -
  have "registrations w0 = registrations w" using assms(4) by (auto simp: open_fd_def)
  then show ?thesis
    using accounted_create [of vars w x reg w0 d s w'] matched_create [of vars w reg w0 d s w' x] assms by blast
qed

lemma sockets_inv: "sockets_reachable st \<Longrightarrow> accounted st \<and> matched st"
proof (induction rule: sockets_reachable.induct)
  case Initially
  then show ?case by (simp add: accounted_def matched_def resources_def holdings_def)
next
  case (Pair vars w x y k d1 d2 r1 r2 s1 s2 w')
  obtain w1 where w1: "socket_on_service d1 r1 (open_fd d2 (open_fd d1 w)) = (s1, w1)"
      "socket_on_service d2 r2 w1 = (s2, w')"
    using Pair by (auto simp: socket_create_pair_def split: prod.splits)
  obtain v1 where v1: "socket_on_service d1 r1 (open_fd d1 w) = (s1, v1)" "w1 = open_fd d2 v1"
    using w1(1) by (auto simp: socket_on_service_def open_fd_def)
  have v: "registrations v1 r2 = None" "fresh_fd d2 v1"
    using v1(1) Pair by (auto simp: socket_on_service_def open_fd_def fresh_fd_def)
  have "accounted (vars(x \<mapsto> s1), v1) \<and> matched (vars(x \<mapsto> s1), v1)"
    using create_inv [OF Pair.IH _ _ _ v1(1)] Pair.hyps by blast
  from create_inv [OF this _ v(1) _ w1(2), of y] show ?case
    using v1(2) v(2) Pair.hyps by auto
next
  case (Tcp vars w x reg call domain d s w')
  from Tcp.hyps have c: "socket_on_service (int d) reg (open_fd (int d) w) = (s, w')"
    by (auto simp: socket_create_tcpv4_def socket_create_tcpv6_def socket_create_def)
  show ?case using create_inv [OF Tcp.IH _ _ _ c] Tcp.hyps by blast
next
  case (Accepted vars w x reg d s w')
  from Accepted.hyps have c: "socket_on_service d reg (open_fd d w) = (s, w')" by (simp add: socket_internal_create_def)
  show ?case using create_inv [OF Accepted.IH _ _ _ c] Accepted.hyps by blast
next
  case (Placeholder vars w x reg s w')
  from Placeholder.hyps have c: "socket_on_service 0 reg w = (s, w')" by (simp add: socket_internal_create_def)
  show ?case using create_inv [OF Placeholder.IH _ _ _ c] Placeholder.hyps by blast
next
  case (Start_Operation vars w x s kind op w')
  then obtain reg data where w': "registrations w reg = Some data"
      "w' = w\<lparr>registrations := (registrations w)(reg \<mapsto> start_io kind op data)\<rparr>"
    by (auto simp: socket_start_io_def split: option.splits)
  have "descriptor (start_io kind op data) = descriptor data" by (simp add: start_io_def Let_def)
  moreover have "resources w' = resources w" using w' by (auto simp: resources_def)
  ultimately show ?case
    using Start_Operation.IH w' by (fastforce simp: accounted_def matched_def)
next
  case (Owner vars w c vars' out)
  have a: "accounted (vars, w)" and m: "matched (vars, w)" using Owner.IH by simp_all
  note o = accounted_owner [OF a Owner.hyps(2-4)]
  have "matched (vars', fold release out w)"
    unfolding matched_def prod.case
  proof (intro allI impI)
    fix x s reg assume x: "vars' x = Some s" "sock_data s = Some reg"
    obtain y t where "vars y = Some t" "sock_data t = Some reg" "sock_descriptor t = sock_descriptor s"
      using owner_exec_pairs [OF Owner.hyps(2-4) x] by blast
    then show "\<exists>data. registrations (fold release out w) reg = Some data \<and> descriptor data = sock_descriptor s"
      using m o(2) [OF x] by (fastforce simp: matched_def registrations_release_all)
  qed
  with o(1) show ?case by blast
qed

section \<open>Properties\<close>

lemma accounted_unique:
  assumes "accounted (vars, w)"
  shows "r \<in> resources w \<longleftrightarrow> (\<exists>x s. vars x = Some s \<and> r \<in> set (socket_holds s))"
    and "vars x = Some s \<Longrightarrow> r \<in> set (socket_holds s) \<Longrightarrow> vars y = Some t \<Longrightarrow> r \<in> set (socket_holds t) \<Longrightarrow> x = y"
proof -
  let ?f = "\<lambda>x. case vars x of None \<Rightarrow> 0 | Some ob \<Rightarrow> count (mset (socket_holds ob)) r"
  have fin: "finite (dom vars)" "finite (resources w)" using assms by (simp_all add: accounted_def)
  have "count (holdings socket_holds (dom vars) vars) r = sum ?f (dom vars)"
    unfolding holdings_def count_sum by (intro sum.cong) (auto split: option.splits)
  then have s: "sum ?f (dom vars) = (if r \<in> resources w then 1 else 0)"
    using assms fin(2) by (simp add: accounted_def count_mset_set')
  have held: "?f x \<noteq> 0 \<longleftrightarrow> (\<exists>s. vars x = Some s \<and> r \<in> set (socket_holds s))" for x
    by (auto split: option.splits)
  have dom: "?f x \<noteq> 0 \<Longrightarrow> x \<in> dom vars" for x by (auto split: option.splits)
  show iff: "r \<in> resources w \<longleftrightarrow> (\<exists>x s. vars x = Some s \<and> r \<in> set (socket_holds s))"
    using s sum_eq_0_iff [OF fin(1), of ?f] held dom by (metis (no_types, lifting) zero_neq_one)
  assume xy: "vars x = Some s" "r \<in> set (socket_holds s)" "vars y = Some t" "r \<in> set (socket_holds t)"
  then have "sum ?f (dom vars) = 1" using s iff by auto
  then obtain a where "\<forall>b \<in> dom vars. a \<noteq> b \<longrightarrow> ?f b = 0"
    using sum_eq_1_iff [OF fin(1), of ?f] by blast
  then show "x = y" using held [of x] held [of y] dom [of x] dom [of y] xy by metis
qed

text \<open>
  C36: the service knows exactly the living sockets. However sockets are created, accepted, moved,
  assigned and destroyed, a registration the service may call back and a descriptor that is open
  belong to exactly one living socket, and every socket that owns a registration finds it with
  the service, for the descriptor the socket has, so that starting an operation on it succeeds.
\<close>

theorem service_knows_living_sockets:
  assumes "sockets_reachable (vars, w)"
  shows "(r \<in> resources w \<longleftrightarrow> (\<exists>x s. vars x = Some s \<and> r \<in> set (socket_holds s))) \<and>
    (vars x = Some s \<and> r \<in> set (socket_holds s) \<and> vars y = Some t \<and> r \<in> set (socket_holds t) \<longrightarrow> x = y) \<and>
    (vars x = Some s \<and> sock_data s = Some reg \<longrightarrow>
      (\<exists>data w'. registrations w reg = Some data \<and> descriptor data = sock_descriptor s \<and>
         socket_start_io kind op s w = Inr w'))"
proof -
  have a: "accounted (vars, w)" and m: "matched (vars, w)" using sockets_inv [OF assms] by simp_all
  have "\<exists>data w'. registrations w reg = Some data \<and> descriptor data = sock_descriptor s \<and>
      socket_start_io kind op s w = Inr w'" if "vars x = Some s" "sock_data s = Some reg"
    using m that by (fastforce simp: matched_def socket_start_io_def)
  then show ?thesis using accounted_unique [OF a] by blast
qed

definition tcp_then_moved :: sockets where
  "tcp_then_moved =
     (let (s, w) = socket_on_service 3 0 (open_fd 3 \<lparr>registrations = (\<lambda>_. None), open_fds = {}\<rparr>)
      in ([0 \<mapsto> snd (socket_move s), 1 \<mapsto> fst (socket_move s)], w))"

lemma service_knows_living_sockets_witness:
  "Descriptor 3 \<in> resources (snd tcp_then_moved) \<and>
   (\<exists>x s. fst tcp_then_moved x = Some s \<and> Descriptor 3 \<in> set (socket_holds s)) \<and>
   (\<exists>s w'. fst tcp_then_moved 1 = Some s \<and> socket_start_io Io_Read 7 s (snd tcp_then_moved) = Inr w')"
proof -
  let ?w0 = "\<lparr>registrations = (\<lambda>_. None), open_fds = {}\<rparr>"
  obtain s w where sw: "socket_on_service 3 0 (open_fd 3 ?w0) = (s, w)" by fastforce
  then have "socket_create_tcpv4 (\<lambda>_ _ _. Done 3) 0 ?w0 = Inr (s, w)"
    by (simp add: socket_create_tcpv4_def socket_create_def create_socket_def)
  then have "sockets_reachable ([0 \<mapsto> s], w)"
    using Tcp [OF Initially, where x = 0 and reg = 0 and call = "\<lambda>_ _ _. Done 3" and
        domain = "ucast AF_INET" and d = 3 and s = s and w' = w]
    by (simp add: create_socket_def fresh_fd_def)
  then have "sockets_reachable ([0 \<mapsto> s, 1 \<mapsto> fst (socket_move s), 0 \<mapsto> snd (socket_move s)], fold release [] w)"
    by (rule Owner [where c = "Move_Construct 1 0"]) (simp_all add: socket_move_def)
  then have r: "sockets_reachable (fst tcp_then_moved, snd tcp_then_moved)"
    using sw by (simp add: tcp_then_moved_def fun_upd_twist)
  have "fst tcp_then_moved 1 = Some (fst (socket_move s))" "sock_data (fst (socket_move s)) = Some 0"
    using sw by (auto simp: tcp_then_moved_def socket_on_service_def socket_internal_init_def socket_move_def)
  moreover have "Descriptor 3 \<in> resources (snd tcp_then_moved)"
    using sw by (auto simp: tcp_then_moved_def socket_on_service_def open_fd_def resources_def)
  ultimately show ?thesis
    using service_knows_living_sockets [OF r, of "Descriptor 3" 1 _ 1 _ 0 Io_Read 7] by blast
qed

end
