(* ===== verification/Task_References.thy ===== *)
theory Task_References
  imports Coro_Task
begin

text \<open>
  Tasks that return references. By default \<open>task_promise<T&>\<close> is an instance of the primary template
  of \<open>task.hpp\<close>, whose storage is then an \<open>expected<T&>\<close>; with \<open>TASK_PROMISE_REF\<close> it is a
  specialisation of its own that stores a pointer and an exception. A reference is the address of
  its object, which is not 0.
\<close>

section \<open>The primary template at a reference type\<close>

definition ref_assign_temporary ::
  "(u64, nat) expected \<Rightarrow> (u64, nat) expected \<Rightarrow> ledger \<Rightarrow> (u64, nat) expected res" where
  "ref_assign_temporary kept tmp l =
     res_bind (ref_move_assign plain kept tmp l) (\<lambda>(kept, tmp, l).
       res_bind (ref_destructor tmp l) (\<lambda>_. Inr kept))"

definition ref_task_return_value :: "u64 \<Rightarrow> (u64, nat) expected \<Rightarrow> (u64, nat) expected res" where
  "ref_task_return_value v kept = ref_assign_temporary kept (ref_from_lvalue v) no_ledger"

definition ref_task_unhandled_exception :: "nat \<Rightarrow> (u64, nat) expected \<Rightarrow> (u64, nat) expected res" where
  "ref_task_unhandled_exception e kept =
     (case ref_error_move plain e no_ledger of (tmp, _, l) \<Rightarrow> ref_assign_temporary kept tmp l)"

definition ref_task_result :: "(u64, nat) expected \<Rightarrow> u64 res" where
  "ref_task_result kept = ref_value Error_Policy_Throw Some kept"

section \<open>The specialisation\<close>

record ref_promise =
  promise_value :: u64
  promise_exception :: "nat option"

definition ref_promise_init :: ref_promise where
  "ref_promise_init = \<lparr>promise_value = 0, promise_exception = None\<rparr>"

definition ref_promise_return_value :: "u64 \<Rightarrow> ref_promise \<Rightarrow> ref_promise" where
  "ref_promise_return_value v p = p\<lparr>promise_value := v\<rparr>"

definition ref_promise_unhandled_exception :: "nat \<Rightarrow> ref_promise \<Rightarrow> ref_promise" where
  "ref_promise_unhandled_exception e p = p\<lparr>promise_exception := Some e\<rparr>"

definition ref_promise_result :: "ref_promise \<Rightarrow> u64 res" where
  "ref_promise_result p =
     (case promise_exception p of
        Some e \<Rightarrow> Inl (Rethrown e)
      | None \<Rightarrow> if promise_value p = 0 then Inl Bad_Access else Inr (promise_value p))"

section \<open>Agreement\<close>

text \<open>
  A body may return a reference and then fail in the destructor of a local object, so a promise is
  told a value, an exception, or first a value and then an exception.
\<close>

fun store_ref :: "u64 ending \<Rightarrow> (u64, nat) expected \<Rightarrow> (u64, nat) expected res" where
  "store_ref (Co_Return v) kept = ref_task_return_value v kept"
| "store_ref (Raise e) kept = ref_task_unhandled_exception e kept"

fun keep_ref :: "u64 ending \<Rightarrow> ref_promise \<Rightarrow> ref_promise" where
  "keep_ref (Co_Return v) p = ref_promise_return_value v p"
| "keep_ref (Raise e) p = ref_promise_unhandled_exception e p"

fun store_refs :: "u64 ending list \<Rightarrow> (u64, nat) expected \<Rightarrow> (u64, nat) expected res" where
  "store_refs [] kept = Inr kept"
| "store_refs (out # outs) kept = res_bind (store_ref out kept) (store_refs outs)"

fun told :: "u64 ending list \<Rightarrow> bool" where
  "told [Co_Return v] \<longleftrightarrow> v \<noteq> 0"
| "told [Raise e] \<longleftrightarrow> True"
| "told [Co_Return v, Raise e] \<longleftrightarrow> v \<noteq> 0"
| "told _ \<longleftrightarrow> False"

lemmas ref_task_defs = ref_task_return_value_def ref_task_unhandled_exception_def ref_assign_temporary_def
  ref_move_assign_def ref_destroy_def ref_destructor_def ref_from_lvalue_def ref_error_move_def
  expected_nothing_def plain_def destroy_error_def

lemmas ref_promise_defs = ref_promise_init_def ref_promise_return_value_def
  ref_promise_unhandled_exception_def ref_promise_result_def

lemma store_ref_fresh:
  "store_ref (Co_Return v) expected_nothing = Inr (ref_from_lvalue v)"
  "store_ref (Raise e) expected_nothing = Inr \<lparr>contains = UNEXPECTED, members = Live_Error e\<rparr>"
  "store_ref (Raise e) (ref_from_lvalue v) = Inr \<lparr>contains = UNEXPECTED, members = Live_Error e\<rparr>"
  by (simp_all add: ref_task_defs)

lemma ref_task_result_stored:
  "ref_task_result (ref_from_lvalue v) = Inr v"
  "ref_task_result \<lparr>contains = UNEXPECTED, members = Live_Error e\<rparr> = Inl (Rethrown e)"
  by (simp_all add: ref_task_result_def ref_value_def enforce_def ref_from_lvalue_def)

text \<open>Both promises give the result of the last thing they were told, and so the same.\<close>

lemma reference_promises_agree:
  assumes "told outs"
  shows "\<exists>kept. store_refs outs expected_nothing = Inr kept \<and>
    ref_task_result kept = ending_res (last outs) \<and>
    ref_promise_result (fold keep_ref outs ref_promise_init) = ending_res (last outs)"
proof -
  consider v where "outs = [Co_Return v]" "v \<noteq> 0" | e where "outs = [Raise e]"
    | v e where "outs = [Co_Return v, Raise e]"
    using assms by (cases outs rule: told.cases) auto
  then show ?thesis
    by cases (simp_all only: store_refs.simps store_ref_fresh res_bind.simps ref_task_result_stored
        last.simps ending_res.simps fold_simps keep_ref.simps,
      simp_all add: ref_promise_defs ref_task_result_stored)
qed

end
