(* ===== verification/Atomic_Programs.thy ===== *)
theory Atomic_Programs
  imports Packed_Ptr
begin

text \<open>
  Threads that share one \<open>AtomicPackedPtr<T, uint16_t>\<close> (\<open>include/ptl/packed_ptr.hpp\<close>): the word is in
  memory, a setter loads it and then tries \<open>compare_exchange_weak\<close> until one attempt succeeds, and
  \<open>get\<close> and \<open>value\<close> are single loads. Every atomic access is one step. The specification is a pair
  of registers on which each call is one indivisible operation.

  All accesses are to one atomic object, so they are totally ordered whatever memory order they name.
\<close>

section \<open>The threads\<close>

datatype atomic_call = Set_Pointer u64 | Set_Value u16 | Get_Pointer | Get_Value

datatype outcome = Stored | Pointer u64 | Value u16

text \<open>
  \<open>loaded\<close> is the local variable \<open>expected\<close> of a setter in its loop; \<open>todo\<close> the calls a thread has
  still to complete; \<open>history\<close> records the completed calls in the order in which they took effect.
\<close>

record atomic_machine =
  shared :: u64
  loaded :: "nat \<Rightarrow> u64 option"
  todo :: "nat \<Rightarrow> atomic_call list"
  history :: "(nat \<times> atomic_call \<times> outcome) list"

fun setter_desired :: "atomic_call \<Rightarrow> u64 \<Rightarrow> u64" where
  "setter_desired (Set_Pointer p) expected = atomic_ptr_desired p expected"
| "setter_desired (Set_Value v) expected = atomic_value_desired v expected"
| "setter_desired _ expected = expected"

fun is_setter :: "atomic_call \<Rightarrow> bool" where
  "is_setter (Set_Pointer p) = True"
| "is_setter (Set_Value v) = True"
| "is_setter _ = False"

definition complete :: "nat \<Rightarrow> atomic_call \<Rightarrow> outcome \<Rightarrow> atomic_machine \<Rightarrow> atomic_machine" where
  "complete t c r m =
     m\<lparr>loaded := (loaded m)(t := None), todo := (todo m)(t := tl (todo m t)),
       history := history m @ [(t, c, r)]\<rparr>"

text \<open>\<open>expected = data_.load()\<close>\<close>

definition setter_load :: "nat \<Rightarrow> atomic_machine \<Rightarrow> atomic_machine" where
  "setter_load t m = m\<lparr>loaded := (loaded m)(t \<mapsto> shared m)\<rparr>"

text \<open>
  One round of the loop: \<open>compare_exchange_weak\<close> stores when the word is the expected one, and may
  fail spuriously; when it fails, it leaves the word it found in \<open>expected\<close>.
\<close>

definition setter_attempt :: "bool \<Rightarrow> nat \<Rightarrow> atomic_call \<Rightarrow> u64 \<Rightarrow> atomic_machine \<Rightarrow> atomic_machine" where
  "setter_attempt spuriously t c expected m =
     (if shared m = expected \<and> \<not> spuriously
      then complete t c Stored (m\<lparr>shared := setter_desired c expected\<rparr>)
      else m\<lparr>loaded := (loaded m)(t \<mapsto> shared m)\<rparr>)"

definition getter_load :: "nat \<Rightarrow> atomic_call \<Rightarrow> atomic_machine \<Rightarrow> atomic_machine" where
  "getter_load t c m =
     complete t c (if c = Get_Pointer then Pointer (atomic_get (shared m)) else Value (atomic_value (shared m))) m"

inductive atomic_step :: "atomic_machine \<Rightarrow> atomic_machine \<Rightarrow> bool" where
  Load: "\<lbrakk>todo m t = c # cs; is_setter c; loaded m t = None\<rbrakk> \<Longrightarrow> atomic_step m (setter_load t m)"
| Attempt: "\<lbrakk>todo m t = c # cs; is_setter c; loaded m t = Some expected\<rbrakk>
    \<Longrightarrow> atomic_step m (setter_attempt spuriously t c expected m)"
| Read: "\<lbrakk>todo m t = c # cs; \<not> is_setter c\<rbrakk> \<Longrightarrow> atomic_step m (getter_load t c m)"

definition atomic_init :: "(nat \<Rightarrow> atomic_call list) \<Rightarrow> atomic_machine" where
  "atomic_init prog = \<lparr>shared = packed_init, loaded = (\<lambda>_. None), todo = prog, history = []\<rparr>"

inductive atomic_reachable :: "(nat \<Rightarrow> atomic_call list) \<Rightarrow> atomic_machine \<Rightarrow> bool" for prog where
  Init: "atomic_reachable prog (atomic_init prog)"
| Step: "atomic_reachable prog m \<Longrightarrow> atomic_step m m' \<Longrightarrow> atomic_reachable prog m'"

text \<open>What a thread does next when it is alone and no attempt fails spuriously.\<close>

definition advance :: "nat \<Rightarrow> atomic_machine \<Rightarrow> atomic_machine" where
  "advance t m =
     (case todo m t of
        [] \<Rightarrow> m
      | c # cs \<Rightarrow>
          if is_setter c then
            (case loaded m t of None \<Rightarrow> setter_load t m | Some e \<Rightarrow> setter_attempt False t c e m)
          else getter_load t c m)"

section \<open>The pair of registers\<close>

fun register_call :: "atomic_call \<Rightarrow> u64 \<times> u16 \<Rightarrow> outcome \<times> u64 \<times> u16" where
  "register_call (Set_Pointer p) (q, v) = (Stored, p AND mask 48, v)"
| "register_call (Set_Value w) (q, v) = (Stored, q, w)"
| "register_call Get_Pointer (q, v) = (Pointer q, q, v)"
| "register_call Get_Value (q, v) = (Value v, q, v)"

fun register_run :: "atomic_call list \<Rightarrow> u64 \<times> u16 \<Rightarrow> outcome list \<times> u64 \<times> u16" where
  "register_run [] s = ([], s)"
| "register_run (c # cs) s =
     (let (r, s) = register_call c s; (rs, s) = register_run cs s in (r # rs, s))"

lemma register_run_snoc:
  "register_run (cs @ [c]) s =
     (let (rs, s) = register_run cs s; (r, s) = register_call c s in (rs @ [r], s))"
  by (induction cs arbitrary: s) (simp_all add: case_prod_beta Let_def)

definition registers :: "u64 \<Rightarrow> u64 \<times> u16" where
  "registers w = (atomic_get w, atomic_value w)"

lemma setter_on_fields:
  "is_setter c \<Longrightarrow> register_call c (registers w) = (Stored, registers (setter_desired c w))"
  by (cases c)
    (simp_all add: registers_def atomic_fld_ptr.get_put atomic_fld_value.get_put
      atomic_value_ptr.f_keeps_g atomic_value_ptr.g_keeps_f)

definition calls_in :: "(nat \<times> atomic_call \<times> outcome) list \<Rightarrow> atomic_call list" where
  "calls_in h = map (\<lambda>(t, c, r). c) h"

definition outcomes_in :: "(nat \<times> atomic_call \<times> outcome) list \<Rightarrow> outcome list" where
  "outcomes_in h = map (\<lambda>(t, c, r). r) h"

definition done_by :: "nat \<Rightarrow> (nat \<times> atomic_call \<times> outcome) list \<Rightarrow> atomic_call list" where
  "done_by t h = calls_in (filter (\<lambda>e. fst e = t) h)"

definition atomic_inv :: "(nat \<Rightarrow> atomic_call list) \<Rightarrow> atomic_machine \<Rightarrow> bool" where
  "atomic_inv prog m \<longleftrightarrow>
     register_run (calls_in (history m)) (registers packed_init) = (outcomes_in (history m), registers (shared m)) \<and>
     (\<forall>t. done_by t (history m) @ todo m t = prog t)"

lemma history_snoc [simp]:
  "calls_in (h @ [(t, c, r)]) = calls_in h @ [c]" "outcomes_in (h @ [(t, c, r)]) = outcomes_in h @ [r]"
  "done_by u (h @ [(t, c, r)]) = (if u = t then done_by u h @ [c] else done_by u h)"
  by (simp_all add: calls_in_def outcomes_in_def done_by_def)

lemma complete_inv:
  assumes "atomic_inv prog m" and "todo m t = c # cs"
    and "register_call c (registers (shared m)) = (r, registers (shared m'))"
    and "m' = complete t c r (m\<lparr>shared := w\<rparr>)"
  shows "atomic_inv prog m'"
proof -
  have "done_by t (history m) @ c # cs = prog t" using assms(1,2) by (metis atomic_inv_def)
  then show ?thesis using assms by (auto simp: atomic_inv_def complete_def register_run_snoc)
qed

lemma atomic_inv_reachable: "atomic_reachable prog m \<Longrightarrow> atomic_inv prog m"
proof (induction rule: atomic_reachable.induct)
  case Init
  show ?case by (simp add: atomic_inv_def atomic_init_def calls_in_def outcomes_in_def done_by_def)
next
  case (Step m m')
  from Step.hyps(2) show ?case
  proof (cases rule: atomic_step.cases)
    case (Load t c cs)
    then show ?thesis using Step.IH by (simp add: atomic_inv_def setter_load_def)
  next
    case (Attempt t c cs expected spuriously)
    show ?thesis
    proof (cases "shared m = expected \<and> \<not> spuriously")
      case True
      then have m': "m' = complete t c Stored (m\<lparr>shared := setter_desired c (shared m)\<rparr>)"
        using Attempt(1) by (auto simp: setter_attempt_def)
      show ?thesis
        by (rule complete_inv [OF Step.IH Attempt(2) _ m'])
          (simp add: m' complete_def setter_on_fields [OF Attempt(3)])
    qed (use Step.IH Attempt(1) in \<open>auto simp: setter_attempt_def atomic_inv_def\<close>)
  next
    case (Read t c cs)
    let ?r = "if c = Get_Pointer then Pointer (atomic_get (shared m)) else Value (atomic_value (shared m))"
    have m': "m' = complete t c ?r (m\<lparr>shared := shared m\<rparr>)"
      using Read(1) by (simp add: getter_load_def)
    have "register_call c (registers (shared m)) = (?r, registers (shared m))"
      using Read(3) by (cases c) (simp_all add: registers_def)
    then show ?thesis
      by (intro complete_inv [OF Step.IH Read(2) _ m']) (simp add: m' complete_def)
  qed
qed

lemma advance_completes:
  assumes "todo m t = c # cs"
  shows "\<exists>k \<le> 3. \<exists>r. history ((advance t ^^ k) m) = history m @ [(t, c, r)]"
proof (cases "is_setter c")
  case False
  then show ?thesis
    using assms by (intro exI [of _ 1]) (simp add: advance_def getter_load_def complete_def)
next
  case True
  have fresh: "\<exists>r. history (advance t m) = history m @ [(t, c, r)]"
    if "todo m t = c # cs" "loaded m t = Some (shared m)" for m
    using that True by (simp add: advance_def setter_attempt_def complete_def)
  have loads: "\<exists>r. history (advance t (advance t m)) = history m @ [(t, c, r)]"
    if "todo m t = c # cs" "loaded m t = None" for m
    using fresh [of "advance t m"] that True by (simp add: advance_def setter_load_def)
  show ?thesis
  proof (cases "loaded m t")
    case None
    then show ?thesis using loads [OF assms] by (intro exI [of _ 2]) (simp add: numeral_2_eq_2)
  next
    case (Some e)
    show ?thesis
    proof (cases "shared m = e")
      case True
      then show ?thesis using fresh [OF assms] Some by (intro exI [of _ 1]) simp
    next
      case False
      then have "advance t m = m\<lparr>loaded := (loaded m)(t \<mapsto> shared m)\<rparr>"
        using assms True Some \<open>is_setter c\<close> by (simp add: advance_def setter_attempt_def)
      then show ?thesis
        using fresh [of "advance t m"] assms by (intro exI [of _ 2]) (simp add: numeral_2_eq_2)
    qed
  qed
qed

section \<open>Properties\<close>

text \<open>
  C38: an \<open>AtomicPackedPtr\<close> shared by any number of threads is a pair of registers. Whatever calls of
  \<open>set\<close>, \<open>set_value\<close>, \<open>get\<close> and \<open>value\<close> the threads make, under every interleaving of their loads and
  attempts and with any spurious failures, the calls take effect one after the other: the results
  of all \<open>get\<close> and \<open>value\<close> calls and the word in memory are those of the completed calls executed on
  the pair in the order of their effect, so that no update of one field by one thread is lost to
  an update of the other by another. Every thread completes its calls in its own order, each once,
  and one that runs alone completes the next one within three accesses.
\<close>

theorem atomic_pair_linearizable:
  assumes "atomic_reachable prog m"
  shows "register_run (calls_in (history m)) (0, 0) =
      (outcomes_in (history m), atomic_get (shared m), atomic_value (shared m)) \<and>
    done_by t (history m) @ todo m t = prog t \<and>
    (todo m t = c # cs \<longrightarrow> (\<exists>k \<le> 3. \<exists>r. history ((advance t ^^ k) m) = history m @ [(t, c, r)]))"
proof -
  have "registers packed_init = (0, 0)"
    by (simp add: registers_def packed_init_def atomic_get_def atomic_value_def)
  then show ?thesis
    using atomic_inv_reachable [OF assms] advance_completes
    by (simp add: atomic_inv_def registers_def)
qed

text \<open>Thread 0 sets the pointer; thread 1 sets the value between its load and its first attempt.\<close>

definition race :: "nat \<Rightarrow> atomic_call list" where
  "race t = (if t = 0 then [Set_Pointer 0x10, Get_Value] else if t = 1 then [Set_Value 7] else [])"

definition raced :: atomic_machine where
  "raced = advance 0 (advance 0 (advance 0 (advance 1 (advance 1 (advance 0 (atomic_init race))))))"

lemma advance_step: "atomic_reachable prog m \<Longrightarrow> atomic_reachable prog (advance t m)"
proof (cases "todo m t")
  case (Cons c cs)
  assume r: "atomic_reachable prog m"
  show ?thesis
  proof (cases "is_setter c")
    case False
    then show ?thesis using Read [OF Cons False] Step [OF r] Cons by (simp add: advance_def)
  next
    case True
    then show ?thesis
      using Load [OF Cons True] Attempt [OF Cons True] Step [OF r] Cons
      by (cases "loaded m t") (simp_all add: advance_def)
  qed
qed (simp add: advance_def)

theorem atomic_pair_linearizable_witness:
  "outcomes_in (history raced) = [Stored, Stored, Value 7] \<and> atomic_get (shared raced) = 0x10 \<and>
   atomic_value (shared raced) = 7"
proof -
  have r: "atomic_reachable race raced"
    unfolding raced_def by (intro advance_step atomic_reachable.Init)
  have h: "calls_in (history raced) = [Set_Value 7, Set_Pointer 0x10, Get_Value]"
    by (simp add: raced_def advance_def atomic_init_def race_def setter_load_def setter_attempt_def
        getter_load_def complete_def packed_init_def atomic_value_desired_def calls_in_def)
  from atomic_pair_linearizable [OF r, of 0] show ?thesis
    unfolding h by (simp add: Let_def mask_eq_exp_minus_1)
qed

end
