(* ===== verification/Spec2Isabelle.thy ===== *)
theory Spec2Isabelle
  imports Fnv_Hash Checked_Int Packed_Ptr Ref_Count Mpmc_Queue Intrusive_Ptr Weak_Ptr Expected
    Intrusive_List Slist Ring_Buffer Error_Code Aligned_Alloc Scope_Guard Assertion Ip_Address Io_Service Event_Loop
    Io_Operations Io_Session Wait_All Async_Scope Executor Sync_Event Sync_Wait Coro_Task Coro_Properties
    Task_Handles Unique_Owner Socket Process Await_Traits Wait_Frames Wait_Task_Frames Io_Program
    List_Programs Unit_Tests Intrusive_Slist Process_Program Bit_Field Static_String Task_Lifetime
    Task_Termination Task_Route Sync_Programs Task_Tests Event_Programs Io_Sequence Strong_Type Thread_Pool
    File_Operations Exceptable Socket_Service Task_References Atomic_Programs
begin

text \<open>
  PTL is a C++20 library: containers, smart pointers, a result type, coroutine tasks and
  asynchronous sockets and processes on top of libev. Most of it is in headers under
  \<open>src/include/ptl\<close>; \<open>src/src\<close> holds the parts that talk to the system. This development models
  the parts with behaviour of their own, one theory each, as the code writes them, defects
  included.

  How the parts depend on each other. \<open>expected\<close> is the result type of the system wrappers and
  holds what a coroutine returns. The coroutine tasks resume each other through
  continuations and through the queue of an executor; \<open>async_wait\<close> blocks a thread on the
  manual reset event until a task is done; \<open>wait_all\<close> and the asynchronous scope count
  outstanding tasks down. Sockets and subprocesses register descriptors with the event service,
  whose callbacks run the operation a coroutine waits for. The lists name their entries by an
  FNV-1a hash, the queue takes its slots from the aligned allocator.

  Conventions. \<open>Ptl_Prelude\<close> has the machine words and the faults an operation can end with
  (\<open>fault\<close>, results in \<open>'a res\<close>). An object is a record of its members, an operation a function on
  it; where several threads act, a step is one atomic access, one critical section or one
  system call, and a \<open>reachable\<close> predicate or a run over a schedule gives all interleavings.
  What is not part of the repository is a parameter: the element types of the containers, the
  bodies of coroutines, the results of system calls, the callbacks libev makes. Loops that may
  not end return an option whose \<open>None\<close> is the loop still running. Some members of templates
  cannot be instantiated as written, because of a misspelt name, a missing \<open>return\<close> or a wrong
  \<open>const\<close>; they are modelled as they evidently read, which their theory then says.

  The theories.

  \<^item> \<open>Fnv_Hash\<close> (\<open>hash/fnv1a.hpp\<close>): the constant-expression hashes. They are FNV-1a on ASCII; a
    char above \<open>0x7f\<close> is sign-extended.
  \<^item> \<open>Checked_Int\<close> (\<open>type_safe/detail/integer_checking.hpp\<close>, \<open>type_safe/integer.hpp\<close>): the checks
    for undefined arithmetic and the admissible conversions, for every width. The signed checks
    say exactly whether the result is a value of the type, which from the width of \<open>int\<close> on is
    whether the operation is defined; the modulo check misses one case. The signed subtraction check
    does not compile and has no model.
  \<^item> \<open>Packed_Ptr\<close> (\<open>packed_ptr.hpp\<close>) on the compare-and-swap loop of \<open>Atomic_Cas\<close>: the layouts of a
    pointer and small fields in one word. Fields are independent; \<open>get_add\<close> is undefined.
    \<open>Atomic_Programs\<close>: threads that share one word; their calls take effect one after the other.
  \<^item> \<open>Ref_Count\<close>, \<open>Intrusive_Ptr\<close>, \<open>Weak_Ptr\<close> (\<open>intrusive_ptr.hpp\<close>): the counters and the threads that
    share one object; programs over strong handles, proved once in the locale \<open>counted\<close> for
    every counter; programs over strong and weak handles, with the life of the object and of
    its memory. The bounds (\<open>2^32 - 1\<close> references, fewer than \<open>2^31\<close> operations) keep the 32-bit
    counts from carrying into each other.
  \<^item> \<open>Expected\<close> (\<open>expected.hpp\<close>): the discriminant and the live member of the union, for values that
    may throw when copied. Every element is destroyed once, as long as no copy assignment throws,
    except those that \<open>value() &&\<close> leaves behind; \<open>expected_lifetime_gaps\<close> shows both. The specialisations for references and \<open>void\<close> are beside the
    primary template.
  \<^item> \<open>Intrusive_List\<close> (\<open>containers/list.hpp\<close>): the circular list in a heap of addresses refines a
    sequence of items, and in \<open>List_Programs\<close> a program over any number of lists refines a program
    over disjoint sequences. \<open>Slist\<close> (\<open>containers/slist.hpp\<close>): the singly linked list, which keeps
    the order of its pushes and whose \<open>back\<close> does not return.
    \<open>Intrusive_Slist\<close> (\<open>containers/intrusive_slist.hpp\<close>): the one whose links are counted; destroying
    it frees its items, and \<open>back\<close> works on one item only.
  \<^item> \<open>Bit_Field\<close> (\<open>bitfield.hpp\<close>), for unsigned words, with the masks read as the calls they are
    meant to be; \<open>Static_String\<close> (\<open>experimental/static_string.hpp\<close>, \<open>experimental/type_name.hpp\<close>), with
    the text of the compiler as a parameter.
  \<^item> \<open>Mpmc_Queue\<close> (\<open>mpmc_queue.hpp\<close>): any number of threads push and pop through tickets and slot
    sequence numbers. The invariant says for every slot which ticket may act on it; from it
    follow the order of delivery, memory safety, and that threads spin only at a full or empty
    queue. \<open>try_emplace\<close> and \<open>try_pop\<close> give up only when there was nothing to do. The schedules are
    shorter than \<open>2^63\<close>, so that tickets do not wrap.
    \<open>Aligned_Alloc\<close> (\<open>aligned_allocator.hpp\<close>): the allocator of the slots.
  \<^item> \<open>Scope_Guard\<close> (\<open>scope_guard.hpp\<close>, \<open>exception.hpp\<close>, \<open>src/scope_guard.cpp\<close>): blocks with guards
    are nested \<open>try ... finally\<close>. \<open>Assertion\<close> (\<open>type_safe/assert.hpp\<close>, \<open>src/assert.cpp\<close>): what an
    assertion does for every level and handler.
  \<^item> \<open>Executor\<close> (\<open>execution/basic_executor.hpp\<close>): jobs run in order, once, and none waits while
    every runner is blocked. \<open>Sync_Event\<close> (\<open>sync/event.hpp\<close>): no lost wake-up on the futex.
    \<open>Event_Programs\<close>: programs of \<open>set\<close> and \<open>wait\<close> refine a machine where each is one step.
    \<open>Thread_Pool\<close> (\<open>scheduling/thread_pool.hpp\<close>): a thread's queue of coroutines, on \<open>Mpmc_Queue\<close>; a
    call that runs alone takes at most six steps.
  \<^item> \<open>Coro_Task\<close>, \<open>Coro_Properties\<close> (\<open>task.hpp\<close>, \<open>detail/schedule_awaitable.hpp\<close>): coroutines on
    any number of threads and executors, for every program of awaits. A coroutine is in one
    place at a time; it comes back to the executor it awaited on; results are those of a direct
    evaluation (\<open>direct\<close>, whose depth bound \<open>n\<close>, the number of coroutines, is enough because a
    task awaits only tasks created after it); none is left behind. \<open>Task_Termination\<close>: every run
    ends, after at most four steps for an await and two for a coroutine. \<open>Task_Route\<close>: where
    each thread runs the executor that it constructed, each statement of a body runs on the executor
    that the text of the program gives for it.
    \<open>Sync_Programs\<close>: \<open>sync_wait\<close> over such programs, where \<open>step_bound\<close> steps are enough.
    \<open>Task_References\<close>: tasks that return references, with either of the two promises.
  \<^item> \<open>Unique_Owner\<close>, \<open>Task_Handles\<close>: the contract of the move-only classes as a locale, and its
    interpretation by the handles of coroutine frames (\<open>Task\<close>, the wait tasks), which destroy
    each frame once; \<open>IntTask\<close> does not keep it. \<open>Task_Lifetime\<close> adds the memory of the frames to
    \<open>Coro_Task\<close>: under every schedule a frame exists exactly while its task is awaited.
  \<^item> \<open>Countdown\<close>, \<open>Wait_All\<close>, \<open>Async_Scope\<close>, \<open>Sync_Wait\<close> (\<open>detail/wait_all_*.hpp\<close>, \<open>async_scope.hpp\<close>,
    \<open>sync_wait.hpp\<close>): the counter the first two share is the locale \<open>countdown\<close>; who waits goes on
    once, after the last piece of work, with its outcomes. Fewer than \<open>2^64\<close> pieces of work.
    \<open>Wait_Frames\<close> and \<open>Wait_Task_Frames\<close> have the coroutine frames behind the handles: nothing null
    or dangling is followed, and \<open>Wait_Frames\<close> simulates \<open>Wait_All\<close>. \<open>Await_Traits\<close>
    (\<open>detail/is_awaiter.hpp\<close>, \<open>awaitable_traits.hpp\<close>, \<open>wait_all.hpp\<close>) has the traits as functions of
    the declarations of a type, against the rule of the language for \<open>co_await\<close>, and shows where
    they differ from it.
  \<^item> \<open>Io_Service\<close>, \<open>Event_Loop\<close> (\<open>src/io_service.cpp\<close>): descriptors and process watchers, the
    callbacks, the loop, the system calls. \<open>Io_Operations\<close> (\<open>asio/socket_*_operation.hpp\<close>,
    \<open>io_operation.hpp\<close>): what an awaiting coroutine sees; the locale \<open>awaitable_operation\<close> says that
    it is resumed once. The reading calls of the kernel are functions of the length they are asked
    for, and store into the caller's memory. \<open>Io_Session\<close> puts an operation and the service together:
    the events of its kind drive it, and the first one after its end calls it although it is gone,
    which faults. \<open>Io_Program\<close> runs the operations of all sockets on one loop: each does what it would
    do alone until such a call, as long as every descriptor has one.
    \<open>Io_Sequence\<close>: a coroutine that awaits operations one after the other on a descriptor does
    what it would do if each await blocked. \<open>File_Operations\<close> (\<open>asio/file.hpp\<close>, \<open>asio/file_*_operation.hpp\<close>,
    \<open>asio/socket_listen_operation.hpp\<close>): files, reading, writing and listening. These headers are written
    against an earlier interface of the service, and nothing includes them; they are read on the present one.
  \<^item> \<open>Ip_Address\<close> (\<open>asio/ip_address.hpp\<close>, \<open>asio/ip_endpoint.hpp\<close>), \<open>Socket\<close> (\<open>src/socket.cpp\<close>,
    \<open>asio/socket.hpp\<close>): addresses as bytes in network order, \<open>accept\<close> excepted, and the ownership of
    descriptors as another interpretation of \<open>unique_owner\<close>. \<open>Socket_Service\<close> creates sockets on a service: what the
    service may call and which descriptors are open, through every move and destruction.
  \<^item> \<open>Process\<close> (\<open>process/process.hpp\<close>): descriptor tables of parent and child through \<open>launch\<close>; it leaks
    when memory runs out and when an object is launched twice.
    \<open>Process_Program\<close> waits for any number of them on one service and refines a table of children,
    as long as process ids are not reused.

  \<^item> \<open>Ring_Buffer\<close> (\<open>containers/bounded_ring_buffer.hpp\<close>, \<open>scheduling/ordered_scheduler.hpp\<close>): the
    bodies that the members run under the lock. \<open>pop\<close>, \<open>exchange\<close> and \<open>count\<close> drop what their
    body returns, so that only their effect is modelled, and \<open>count\<close> faults. Up to \<open>N - 2\<close> elements
    the pushes are a queue (locale \<open>bounded_fifo\<close>); with one more the buffer is empty. Arrays have
    at most \<open>2^63\<close> elements, as every object of the platform.
  \<^item> \<open>Error_Code\<close> (\<open>error.hpp\<close>, \<open>source_location.hpp\<close>, \<open>exceptable.hpp\<close>): error numbers with the
    location that each thread recorded last, and \<open>exceptable<void>\<close>. \<open>Exceptable\<close>: the templates of
    \<open>exceptable\<close> for values and references.
  \<^item> \<open>Strong_Type\<close> (\<open>type_safe/strong_type.hpp\<close>): the operators over those of the underlying type;
    the names the header misspells are read as the declared ones.
  \<^item> \<open>Unit_Tests\<close>, \<open>Task_Tests\<close>: tests of \<open>src/test\<close>, which hold of the models; those of events,
    sockets and processes are in \<open>Event_Programs\<close>, \<open>Io_Sequence\<close> and \<open>Process_Program\<close>.

  Not modelled.

  \<^item> Code of which the text does not say what it does: the cancellation files, one of which ends in
    the middle of a declaration and the other of which is empty, and \<open>expected<T&>(T&&)\<close>, which
    initialises a pointer with a value.
  \<^item> Parts that are unfinished and that nothing uses: \<open>sbo\<close>, \<open>function\<close>, \<open>exclusive_ptr\<close>; the blocks
    under \<open>#if 0\<close> in \<open>expected.hpp\<close> and \<open>src/io_service.cpp\<close>, earlier versions of what is modelled.
    The class of the thread pool is empty, and nothing puts a coroutine in the queue of a thread.
  \<^item> The macros of \<open>compiler.hpp\<close>, printing, and the memory orders weaker than sequential
    consistency, which the models of the queue and of the counters do not distinguish.
\<close>

end
